(* ===== verification/Prelude.thy ===== *)
theory Prelude
  imports Main "HOL-Library.Word" "HOL-Library.Monad_Syntax"
begin

text \<open>
  Shared vocabulary of the picoOS development: the machine integer types, C strings held in
  fixed-size arrays, the first-match scan over a table that most of the kernel's loops are,
  and the theory of intrusive singly linked lists (a \<open>next\<close> function and a head pointer)
  on which the ready queues and the waiter queues rest.

  A pointer into one of the kernel's static pools is the index of the slot, \<^const>\<open>None\<close>
  is \<open>NULL\<close>. Code that may not return is written in the option monad: \<^const>\<open>None\<close> means
  that the call does not return (it follows a cyclic list for ever, spins on a lock that
  nobody releases, or dereferences \<open>NULL\<close>).
\<close>

unbundle bit_operations_syntax

type_synonym u8 = "8 word"
type_synonym u16 = "16 word"
type_synonym u32 = "32 word"
type_synonym u64 = "64 word"

named_theorems frame_simps \<open>what an operation leaves unchanged\<close>
named_theorems chain_simps \<open>facts about intrusive linked lists\<close>
named_theorems scan_simps \<open>facts about table scans\<close>

section \<open>C strings\<close>

text \<open>The characters of a buffer up to its terminating NUL.\<close>

definition cstr :: "string \<Rightarrow> string" where
  "cstr s = takeWhile (\<lambda>c. c \<noteq> CHR 0x00) s"

text \<open>
  \<open>strncpy(dst, src, n - 1); dst[n - 1] = 0\<close>: the string that \<open>dst\<close> holds afterwards.
\<close>

definition strncpy_z :: "nat \<Rightarrow> string \<Rightarrow> string" where
  "strncpy_z n s = take (n - 1) (cstr s)"

text \<open>\<open>strncmp(a, b, n) == 0\<close>: the first \<open>n\<close> characters, terminators included.\<close>

definition strncmp_eq :: "nat \<Rightarrow> string \<Rightarrow> string \<Rightarrow> bool" where
  "strncmp_eq n a b \<longleftrightarrow>
     take n (cstr a @ [CHR 0x00]) = take n (cstr b @ [CHR 0x00])"

definition strcmp_eq :: "string \<Rightarrow> string \<Rightarrow> bool" where
  "strcmp_eq a b \<longleftrightarrow> cstr a = cstr b"

definition c_string :: "string \<Rightarrow> bool" where
  "c_string s \<longleftrightarrow> CHR 0x00 \<notin> set s"

lemma cstr_id [simp]: "c_string s \<Longrightarrow> cstr s = s"
  unfolding cstr_def c_string_def by (subst takeWhile_eq_all_conv) auto

lemma c_string_cstr [simp]: "c_string (cstr s)"
  by (auto simp: c_string_def cstr_def dest: set_takeWhileD)

lemma c_string_take [simp]: "c_string s \<Longrightarrow> c_string (take n s)"
  by (auto simp: c_string_def dest: in_set_takeD)

lemma c_string_strncpy [simp]: "c_string (strncpy_z n s)"
  by (simp add: strncpy_z_def)

lemma length_strncpy_z: "0 < n \<Longrightarrow> length (strncpy_z n s) < n"
  by (auto simp: strncpy_z_def)

lemma strncpy_z_short: "c_string s \<Longrightarrow> length s < n \<Longrightarrow> strncpy_z n s = s"
  by (simp add: strncpy_z_def)

text \<open>
  On strings that fit the compared width with their terminator, \<open>strncmp\<close> is equality.
\<close>

lemma strncmp_eq_short:
  assumes "length (cstr a) < n" and "length (cstr b) < n"
  shows "strncmp_eq n a b \<longleftrightarrow> cstr a = cstr b"
  using assms by (simp add: strncmp_eq_def)

text \<open>
  A string whose terminator lies beyond the compared width never equals one that fits.
\<close>

lemma strncmp_eq_long:
  assumes "length (cstr a) < n" and "n \<le> length (cstr b)"
  shows "\<not> strncmp_eq n a b"
proof
  assume "strncmp_eq n a b"
  with assms have "cstr a @ [CHR 0x00] = take n (cstr b)"
    by (simp add: strncmp_eq_def)
  then have "CHR 0x00 \<in> set (take n (cstr b))"
    by (metis in_set_conv_decomp)
  moreover have "c_string (take n (cstr b))" by simp
  ultimately show False by (simp add: c_string_def)
qed

section \<open>Scanning a table\<close>

text \<open>\<open>for (i = 0; i < n; i++) if (P(i)) return i;\<close> with \<^const>\<open>None\<close> for \<open>-1\<close>.\<close>

definition first_slot :: "(nat \<Rightarrow> bool) \<Rightarrow> nat \<Rightarrow> nat option" where
  "first_slot P n = find P [0..<n]"

lemma first_slot_SomeD:
  "first_slot P n = Some i \<Longrightarrow> i < n \<and> P i \<and> (\<forall>j<i. \<not> P j)"
  by (auto simp: first_slot_def find_Some_iff)

lemma first_slot_None [scan_simps]: "first_slot P n = None \<longleftrightarrow> (\<forall>i<n. \<not> P i)"
  by (auto simp: first_slot_def find_None_iff)

lemma first_slot_Some_iff:
  "first_slot P n = Some i \<longleftrightarrow> i < n \<and> P i \<and> (\<forall>j<i. \<not> P j)"
proof
  assume "i < n \<and> P i \<and> (\<forall>j<i. \<not> P j)"
  then show "first_slot P n = Some i"
    by (auto simp: first_slot_def find_Some_iff intro: exI [of _ i])
qed (rule first_slot_SomeD)

lemma first_slot_eq_unique:
  assumes "i < n" and "P i" and "\<And>j. j < n \<Longrightarrow> P j \<Longrightarrow> j = i"
  shows "first_slot P n = Some i"
proof -
  have "\<not> P j" if "j < i" for j
    using that assms(1) assms(3) [of j] by auto
  with assms(1,2) show ?thesis by (simp add: first_slot_Some_iff)
qed

section \<open>Intrusive linked lists\<close>

text \<open>
  \<open>chain nx p xs\<close>: following \<open>nx\<close> from the head pointer \<open>p\<close> visits exactly the nodes
  \<open>xs\<close>, in this order, and ends in \<open>NULL\<close>.
\<close>

fun chain :: "('a \<Rightarrow> 'a option) \<Rightarrow> 'a option \<Rightarrow> 'a list \<Rightarrow> bool" where
  "chain nx p [] \<longleftrightarrow> p = None"
| "chain nx p (x # xs) \<longleftrightarrow> p = Some x \<and> chain nx (nx x) xs"

lemma chain_None [simp]: "chain nx None xs \<longleftrightarrow> xs = []"
  by (cases xs) auto

lemma chain_Some: "chain nx (Some x) xs \<longleftrightarrow> (\<exists>ys. xs = x # ys \<and> chain nx (nx x) ys)"
  by (cases xs) auto

lemma chain_unique: "chain nx p xs \<Longrightarrow> chain nx p ys \<Longrightarrow> xs = ys"
proof (induction xs arbitrary: p ys)
  case Nil
  then show ?case by (cases ys) auto
next
  case (Cons x xs)
  then show ?case by (cases ys) auto
qed

lemma chain_suffix: "chain nx p (xs @ y # ys) \<Longrightarrow> chain nx (nx y) ys"
  by (induction xs arbitrary: p) auto

lemma chain_distinct: "chain nx p xs \<Longrightarrow> distinct xs"
proof (induction xs arbitrary: p)
  case (Cons x xs)
  have "x \<notin> set xs"
  proof
    assume "x \<in> set xs"
    then obtain us vs where xs: "xs = us @ x # vs" by (auto dest: split_list)
    with Cons.prems have "chain nx (nx x) (us @ x # vs)" and "chain nx (nx x) vs"
      by (auto dest: chain_suffix)
    then have "us @ x # vs = vs" by (rule chain_unique)
    then have "length (us @ x # vs) = length vs" by (rule arg_cong)
    then show False by simp
  qed
  with Cons show ?case by auto
qed simp

lemma chain_cong:
  "chain nx p xs \<Longrightarrow> (\<And>x. x \<in> set xs \<Longrightarrow> nx' x = nx x) \<Longrightarrow> chain nx' p xs"
  by (induction xs arbitrary: p) auto

lemma chain_upd_other [chain_simps]:
  "x \<notin> set xs \<Longrightarrow> chain (nx(x := v)) p xs \<longleftrightarrow> chain nx p xs"
  by (induction xs arbitrary: p) auto


text \<open>Appending a fresh node behind the last one.\<close>

lemma chain_snoc:
  assumes "chain nx p (xs @ [l])" and "t \<notin> set (xs @ [l])"
  shows "chain (nx(t := None, l := Some t)) p (xs @ [l, t])"
  using assms
proof (induction xs arbitrary: p)
  case Nil
  then show ?case by auto
next
  case (Cons x xs)
  from Cons.prems(1) have "distinct ((x # xs) @ [l])" by (rule chain_distinct)
  then have "x \<noteq> l" by auto
  moreover have "x \<noteq> t" using Cons.prems(2) by auto
  ultimately have "(nx(t := None, l := Some t)) x = nx x" by simp
  moreover have "chain (nx(t := None, l := Some t)) (nx x) (xs @ [l, t])"
    using Cons.prems by (intro Cons.IH) auto
  ultimately show ?case using Cons.prems(1) by (simp del: fun_upd_apply)
qed

text \<open>Unlinking a node that has a predecessor.\<close>

lemma chain_unlink:
  assumes "chain nx p (xs @ q # t # ys)"
  shows "chain (nx(q := nx t)) p (xs @ q # ys)"
  using assms
proof (induction xs arbitrary: p)
  case Nil
  then have "chain nx p (q # t # ys)" by simp
  from chain_distinct [OF this] have "q \<notin> set ys" by simp
  moreover have "chain nx (nx t) ys" and "p = Some q" using Nil by auto
  ultimately show ?case by (simp add: chain_simps del: fun_upd_apply) simp
next
  case (Cons x xs)
  from Cons.prems have "distinct ((x # xs) @ q # t # ys)" by (rule chain_distinct)
  then have "(nx(q := nx t)) x = nx x" by auto
  with Cons show ?case by (simp del: fun_upd_apply)
qed

text \<open>Cutting a list: the node's \<open>next\<close> becomes \<open>NULL\<close>.\<close>

lemma chain_cut:
  assumes "chain nx p (xs @ t # ys)"
  shows "chain (nx(t := None)) p (xs @ [t])"
  using assms
proof (induction xs arbitrary: p)
  case (Cons x xs)
  from Cons.prems have "distinct ((x # xs) @ t # ys)" by (rule chain_distinct)
  then have "(nx(t := None)) x = nx x" by auto
  with Cons show ?case by (simp del: fun_upd_apply)
qed simp

text \<open>\<open>while (cur->next != NULL) cur = cur->next;\<close>\<close>

partial_function (option) last_node :: "('a \<Rightarrow> 'a option) \<Rightarrow> 'a \<Rightarrow> 'a option" where
  "last_node nx x = (case nx x of None \<Rightarrow> Some x | Some y \<Rightarrow> last_node nx y)"

lemma last_node_chain:
  "chain nx p (x # xs) \<Longrightarrow> last_node nx x = Some (last (x # xs))"
proof (induction xs arbitrary: p x)
  case Nil
  then show ?case by (simp add: last_node.simps)
next
  case (Cons y ys)
  then show ?case by (subst last_node.simps) auto
qed

section \<open>Option monad\<close>

lemma bind_Some_iff:
  "Option.bind m f = Some y \<longleftrightarrow> (\<exists>x. m = Some x \<and> f x = Some y)"
  by (cases m) auto

lemma find_SomeD: "find P xs = Some x \<Longrightarrow> x \<in> set xs \<and> P x"
  by (induction xs) (auto split: if_splits)

lemmas bind_simps = bind_Some_iff Option.bind_eq_None_conv

text \<open>The list behind a head pointer, read with a bound on the number of nodes.\<close>

fun chain_walk :: "('a \<Rightarrow> 'a option) \<Rightarrow> nat \<Rightarrow> 'a option \<Rightarrow> 'a list" where
  "chain_walk nx (Suc n) (Some x) = x # chain_walk nx n (nx x)"
| "chain_walk nx n p = []"

lemma chain_walk_chain: "chain nx p xs \<Longrightarrow> length xs \<le> n \<Longrightarrow> chain_walk nx n p = xs"
proof (induction xs arbitrary: p n)
  case Nil
  then show ?case by simp
next
  case (Cons x xs)
  then show ?case by (cases n) auto
qed

lemma chain_append_single:
  "chain nx p xs \<Longrightarrow> xs \<noteq> [] \<Longrightarrow> \<exists>h. p = Some h \<and> h = hd xs \<and> last_node nx h = Some (last xs)"
  by (cases xs) (auto simp: last_node_chain)

text \<open>Appending to a non-empty list through its last node.\<close>

lemma chain_append_tail:
  assumes "chain nx p xs" and "xs \<noteq> []" and "t \<notin> set xs"
  shows "chain (nx(t := None, last xs := Some t)) p (xs @ [t])"
proof -
  have "xs = butlast xs @ [last xs]" using assms(2) by simp
  with assms(1,3) chain_snoc [of nx p "butlast xs" "last xs" t]
  have "chain (nx(t := None, last xs := Some t)) p (butlast xs @ [last xs, t])" by metis
  moreover have "butlast xs @ [last xs, t] = xs @ [t]"
    using assms(2) by (metis append.assoc append_Cons append_Nil append_butlast_last_id)
  ultimately show ?thesis by simp
qed

text \<open>Removing a node: from the head, or through its predecessor.\<close>

lemma chain_remove_head:
  "chain nx (Some t) (t # ys) \<Longrightarrow> chain (nx(t := None)) (nx t) ys"
  using chain_distinct [of nx "Some t" "t # ys"] by (auto simp: chain_simps)

lemma chain_remove_mid:
  assumes "chain nx p (xs @ q # t # ys)"
  shows "chain (nx(q := nx t, t := None)) p (xs @ q # ys)"
proof -
  have "t \<notin> set (xs @ q # ys)" using chain_distinct [OF assms] by auto
  then show ?thesis using chain_unlink [OF assms] by (simp add: chain_upd_other)
qed

section \<open>The FIFO interface\<close>

text \<open>
  The contract of the kernel's thread lists: \<open>put\<close> appends at the tail of the list that the
  state \<open>holds\<close>, whatever pointers implement it. \<open>fits\<close> says that the element belongs on this
  list (a ready queue takes threads of its own priority only). The ready queues provide
  \<open>put\<close>, the waiter lists of the synchronisation primitives \<open>put\<close> and \<open>take\<close>.
\<close>

fun put_list :: "('n \<Rightarrow> 's \<Rightarrow> 's option) \<Rightarrow> 'n list \<Rightarrow> 's \<Rightarrow> 's option" where
  "put_list put [] s = Some s"
| "put_list put (x # xs) s = Option.bind (put x s) (put_list put xs)"

fun take_list :: "('s \<Rightarrow> 'n option \<times> 's) \<Rightarrow> nat \<Rightarrow> 's \<Rightarrow> 'n list \<times> 's" where
  "take_list tk 0 s = ([], s)"
| "take_list tk (Suc n) s = (case tk s of
      (None, s') \<Rightarrow> ([], s')
    | (Some x, s') \<Rightarrow> (case take_list tk n s' of (xs, s'') \<Rightarrow> (x # xs, s'')))"

locale fifo_list =
  fixes put :: "'n \<Rightarrow> 's \<Rightarrow> 's option"
    and holds :: "'s \<Rightarrow> 'n list \<Rightarrow> bool"
    and fits :: "'n \<Rightarrow> 's \<Rightarrow> bool"
  assumes put_tail: "holds s xs \<Longrightarrow> fits x s \<Longrightarrow> x \<notin> set xs \<Longrightarrow>
      \<exists>s'. put x s = Some s' \<and> holds s' (xs @ [x]) \<and> (\<forall>y. fits y s' = fits y s)"
begin

lemma put_list_tail:
  "holds s xs \<Longrightarrow> distinct (xs @ ys) \<Longrightarrow> \<forall>y \<in> set ys. fits y s \<Longrightarrow>
     \<exists>s'. put_list put ys s = Some s' \<and> holds s' (xs @ ys)"
proof (induction ys arbitrary: s xs)
  case Nil
  then show ?case by simp
next
  case (Cons y ys)
  then obtain s1 where s1: "put y s = Some s1" "holds s1 (xs @ [y])" "\<forall>z. fits z s1 = fits z s"
    using put_tail [of s xs y] by auto
  with Cons.IH [of s1 "xs @ [y]"] Cons.prems show ?case by auto
qed

end

locale fifo_queue = fifo_list put holds fits
  for put :: "'n \<Rightarrow> 's \<Rightarrow> 's option" and holds :: "'s \<Rightarrow> 'n list \<Rightarrow> bool"
    and fits :: "'n \<Rightarrow> 's \<Rightarrow> bool" +
  fixes tk :: "'s \<Rightarrow> 'n option \<times> 's"
  assumes take_empty: "holds s [] \<Longrightarrow> tk s = (None, s)"
    and take_head: "holds s (x # xs) \<Longrightarrow> \<exists>s'. tk s = (Some x, s') \<and> holds s' xs"
begin

lemma take_list_all: "holds s xs \<Longrightarrow> \<exists>s'. take_list tk (length xs) s = (xs, s') \<and> holds s' []"
proof (induction xs arbitrary: s)
  case Nil
  then show ?case by simp
next
  case (Cons x xs)
  then obtain s1 where "tk s = (Some x, s1)" "holds s1 xs" using take_head by blast
  with Cons.IH [of s1] show ?case by auto
qed

text \<open>First in, first out.\<close>

lemma put_take:
  assumes "holds s []" and "distinct xs" and "\<forall>x \<in> set xs. fits x s"
  shows "\<exists>s' s''. put_list put xs s = Some s' \<and> take_list tk (length xs) s' = (xs, s'') \<and> holds s'' []"
  using put_list_tail [of s "[]" xs] assms take_list_all by fastforce

end

end
