(* ===== verification/Scanbuf.thy ===== *)
theory Scanbuf
  imports Prelude
begin

text \<open>
  \<open>src/kernel/scanbuf.c\<close>: the triple-buffer index rotation of the continuous WiFi and
  Bluetooth scans. The record is \<open>scanbuf_t\<close>; the three operations are the file's three
  functions. The caller's three result lists are modelled as the caller has them, an array
  indexed by the roles, so that what the consumer reads can be stated.
\<close>

section \<open>The rotation\<close>

record scanbuf_t =
  sb_fill :: u8
  sb_ready :: u8
  sb_held :: u8
  sb_fresh :: bool
  sb_seq :: u32
  sb_dropped :: u32

definition scanbuf_init :: scanbuf_t where
  "scanbuf_init =
     \<lparr>sb_fill = 0, sb_ready = 1, sb_held = 2, sb_fresh = False, sb_seq = 0, sb_dropped = 0\<rparr>"

definition scanbuf_publish :: "scanbuf_t \<Rightarrow> scanbuf_t" where
  "scanbuf_publish b =
     (let b1 = (if sb_fresh b then b\<lparr>sb_dropped := sb_dropped b + 1\<rparr> else b);
          t = sb_fill b1
      in b1\<lparr>sb_fill := sb_ready b1, sb_ready := t, sb_fresh := True, sb_seq := sb_seq b1 + 1\<rparr>)"

definition scanbuf_take :: "scanbuf_t \<Rightarrow> bool \<times> scanbuf_t" where
  "scanbuf_take b =
     (if \<not> sb_fresh b then (False, b)
      else let t = sb_held b
           in (True, b\<lparr>sb_held := sb_ready b, sb_ready := t, sb_fresh := False\<rparr>))"

text \<open>The three roles are always three different lists of the caller's array of three.\<close>

definition roles_ok :: "scanbuf_t \<Rightarrow> bool" where
  "roles_ok b \<longleftrightarrow>
     distinct [sb_fill b, sb_ready b, sb_held b] \<and>
     {sb_fill b, sb_ready b, sb_held b} \<subseteq> {0, 1, 2}"

lemma roles_ok_init [simp]: "roles_ok scanbuf_init"
  by (simp add: roles_ok_def scanbuf_init_def)

lemma roles_ok_publish [simp]: "roles_ok b \<Longrightarrow> roles_ok (scanbuf_publish b)"
  by (auto simp: roles_ok_def scanbuf_publish_def Let_def)

lemma roles_ok_take [simp]: "roles_ok b \<Longrightarrow> roles_ok (snd (scanbuf_take b))"
  by (auto simp: roles_ok_def scanbuf_take_def Let_def)

section \<open>The caller's lists and the mailbox they implement\<close>

text \<open>
  \<open>wifi.c\<close> and \<open>bluetooth.c\<close> own the array of three lists. Three kinds of step touch it:
  the radio callback writes the \<open>fill\<close> list, the window end publishes, the consumer takes.
\<close>

datatype 'w scan_op = Write 'w | Publish | Take

record 'w scan_sys =
  sys_sb :: scanbuf_t
  sys_list :: "u8 \<Rightarrow> 'w"

fun scan_step :: "'w scan_sys \<Rightarrow> 'w scan_op \<Rightarrow> 'w scan_sys" where
  "scan_step s (Write w) = s\<lparr>sys_list := (sys_list s)(sb_fill (sys_sb s) := w)\<rparr>"
| "scan_step s Publish = s\<lparr>sys_sb := scanbuf_publish (sys_sb s)\<rparr>"
| "scan_step s Take = s\<lparr>sys_sb := snd (scanbuf_take (sys_sb s))\<rparr>"

definition scan_run :: "'w scan_sys \<Rightarrow> 'w scan_op list \<Rightarrow> 'w scan_sys" where
  "scan_run = foldl scan_step"

text \<open>
  The abstract contract: a one-place mailbox. The writer owns a draft, the mailbox holds at
  most one finished window (a newer one replaces it and counts as lost), the consumer owns
  the window it took last.
\<close>

record 'w mailbox =
  mb_letter :: "'w option"
  mb_owned :: 'w
  mb_published :: nat
  mb_lost :: nat
  mb_taken :: nat

definition mb_publish :: "'w \<Rightarrow> 'w mailbox \<Rightarrow> 'w mailbox" where
  "mb_publish w m = m\<lparr>mb_letter := Some w, mb_published := Suc (mb_published m),
     mb_lost := (if mb_letter m = None then mb_lost m else Suc (mb_lost m))\<rparr>"

definition mb_take :: "'w mailbox \<Rightarrow> 'w mailbox" where
  "mb_take m = (case mb_letter m of None \<Rightarrow> m
     | Some w \<Rightarrow> m\<lparr>mb_letter := None, mb_owned := w, mb_taken := Suc (mb_taken m)\<rparr>)"

fun mb_step :: "'w \<Rightarrow> 'w mailbox \<Rightarrow> 'w scan_op \<Rightarrow> 'w mailbox" where
  "mb_step draft m (Write w) = m"
| "mb_step draft m Publish = mb_publish draft m"
| "mb_step draft m Take = mb_take m"

text \<open>The simulation relation between the rotating lists and the mailbox.\<close>

definition draft_of :: "'w scan_sys \<Rightarrow> 'w" where
  "draft_of s = sys_list s (sb_fill (sys_sb s))"

definition mailbox_rel :: "'w scan_sys \<Rightarrow> 'w mailbox \<Rightarrow> bool" where
  "mailbox_rel s m \<longleftrightarrow> roles_ok (sys_sb s) \<and>
     mb_letter m = (if sb_fresh (sys_sb s) then Some (sys_list s (sb_ready (sys_sb s))) else None) \<and>
     mb_owned m = sys_list s (sb_held (sys_sb s)) \<and>
     sb_seq (sys_sb s) = of_nat (mb_published m) \<and>
     sb_dropped (sys_sb s) = of_nat (mb_lost m) \<and>
     mb_published m = mb_lost m + mb_taken m + (if mb_letter m = None then 0 else 1)"

lemma mailbox_rel_write: "mailbox_rel s m \<Longrightarrow> mailbox_rel (scan_step s (Write w)) m"
  by (auto simp: mailbox_rel_def roles_ok_def)

lemma mailbox_rel_publish:
  "mailbox_rel s m \<Longrightarrow> mailbox_rel (scan_step s Publish) (mb_publish (draft_of s) m)"
  by (auto simp: mailbox_rel_def draft_of_def mb_publish_def scanbuf_publish_def Let_def roles_ok_def)

lemma mailbox_rel_take: "mailbox_rel s m \<Longrightarrow> mailbox_rel (scan_step s Take) (mb_take m)"
  by (auto simp: mailbox_rel_def mb_take_def scanbuf_take_def Let_def roles_ok_def)

lemma mailbox_rel_step:
  "mailbox_rel s m \<Longrightarrow> mailbox_rel (scan_step s e) (mb_step (draft_of s) m e)"
  by (cases e) (auto intro: mailbox_rel_write mailbox_rel_publish mailbox_rel_take
      simp del: scan_step.simps)

fun mb_run :: "'w scan_sys \<Rightarrow> 'w mailbox \<Rightarrow> 'w scan_op list \<Rightarrow> 'w mailbox" where
  "mb_run s m [] = m"
| "mb_run s m (e # es) = mb_run (scan_step s e) (mb_step (draft_of s) m e) es"

definition scan_start :: "(u8 \<Rightarrow> 'w) \<Rightarrow> 'w scan_sys" where
  "scan_start l = \<lparr>sys_sb = scanbuf_init, sys_list = l\<rparr>"

definition mb_start :: "(u8 \<Rightarrow> 'w) \<Rightarrow> 'w mailbox" where
  "mb_start l = \<lparr>mb_letter = None, mb_owned = l 2, mb_published = 0, mb_lost = 0, mb_taken = 0\<rparr>"

lemma mailbox_rel_start: "mailbox_rel (scan_start l) (mb_start l)"
  by (simp add: mailbox_rel_def scan_start_def mb_start_def scanbuf_init_def roles_ok_def)

lemma mailbox_rel_run: "mailbox_rel s m \<Longrightarrow> mailbox_rel (scan_run s es) (mb_run s m es)"
proof (induction es arbitrary: s m)
  case Nil
  then show ?case by (simp add: scan_run_def)
next
  case (Cons e es)
  from Cons.IH [OF mailbox_rel_step [OF Cons.prems]] show ?case
    by (simp add: scan_run_def)
qed

text \<open>
  C40. Triple buffering refines a one-place mailbox: after any interleaving of writes,
  publishes and takes from the initial state, the consumer's list, the pending window and the
  counters \<open>seq\<close> and \<open>dropped\<close> (modulo their 32-bit width) are those of the mailbox.
\<close>

theorem scanbuf_refines_mailbox:
  "mailbox_rel (scan_run (scan_start l) es) (mb_run (scan_start l) (mb_start l) es)"
  by (rule mailbox_rel_run [OF mailbox_rel_start])

text \<open>
  The consumer reads its list without a lock: no sequence of writes and publishes changes
  the contents of the held list, only the consumer's own take does.
\<close>

lemma held_list_stable:
  assumes "roles_ok (sys_sb s)" and "Take \<notin> set es"
  shows "sb_held (sys_sb (scan_run s es)) = sb_held (sys_sb s) \<and>
         sys_list (scan_run s es) (sb_held (sys_sb s)) = sys_list s (sb_held (sys_sb s))"
  using assms
proof (induction es arbitrary: s)
  case Nil
  then show ?case by (simp add: scan_run_def)
next
  case (Cons e es)
  then have "roles_ok (sys_sb (scan_step s e)) \<and> sb_held (sys_sb (scan_step s e)) = sb_held (sys_sb s) \<and>
      sys_list (scan_step s e) (sb_held (sys_sb s)) = sys_list s (sb_held (sys_sb s))"
    by (cases e) (auto simp: roles_ok_def scanbuf_publish_def Let_def)
  with Cons.IH [of "scan_step s e"] Cons.prems show ?case by (simp add: scan_run_def)
qed

end
