(* ===== verification/Heap.thy ===== *)
theory Heap
  imports Prelude
begin

text \<open>
  \<open>src/kernel/mem.c\<close>: the boundary-tag heap. Addresses are byte offsets into
  \<open>heap_memory\<close>, which is modelled as a split heap: the block headers (\<open>heap_blocks\<close>, read
  and written through \<open>struct heap_block *\<close>) and the payload words (\<open>heap_mem\<close>, used by the
  thread stacks). The record is extended by the state of the kernel, so every operation here
  is polymorphic in what follows it.

  \<open>heap_lock\<close> is the spinlock as a critical section sees it: acquiring a lock that is already
  held spins for ever, which is \<^const>\<open>None\<close>.
\<close>

section \<open>State\<close>

definition ALIGN8 :: "u32 \<Rightarrow> u32" where
  "ALIGN8 x = (x + 7) AND NOT 7"

definition SPLIT_THRESHOLD :: u32 where
  "SPLIT_THRESHOLD = 32"

text \<open>\<open>sizeof(struct heap_block)\<close> is 12 on the 32-bit targets: size, flag and pointer.\<close>

definition HEADER_SIZE :: u32 where
  "HEADER_SIZE = ALIGN8 12"

definition HEAP_SIZE :: u32 where
  "HEAP_SIZE = 64 * 1024"

record heap_block =
  blk_size :: u32
  blk_free :: bool
  blk_next :: "nat option"

record heap =
  heap_blocks :: "nat \<Rightarrow> heap_block"
  heap_mem :: "nat \<Rightarrow> u32"
  heap_head :: "nat option"
  heap_lock :: bool

definition heap_acquire :: "'a heap_scheme \<Rightarrow> 'a heap_scheme option" where
  "heap_acquire h = (if heap_lock h then None else Some (h\<lparr>heap_lock := True\<rparr>))"

definition heap_release :: "'a heap_scheme \<Rightarrow> 'a heap_scheme" where
  "heap_release h = h\<lparr>heap_lock := False\<rparr>"

section \<open>Operations\<close>

definition kmem_init :: "'a heap_scheme \<Rightarrow> 'a heap_scheme" where
  "kmem_init h = h\<lparr>
     heap_blocks := (\<lambda>_. \<lparr>blk_size = 0, blk_free = False, blk_next = None\<rparr>)
       (0 := \<lparr>blk_size = HEAP_SIZE - HEADER_SIZE, blk_free = True, blk_next = None\<rparr>),
     heap_mem := (\<lambda>_. 0),
     heap_head := Some 0,
     heap_lock := False\<rparr>"

text \<open>The body of the first-fit loop for a block that fits: split, then claim.\<close>

definition kmalloc_claim :: "(nat \<Rightarrow> heap_block) \<Rightarrow> u32 \<Rightarrow> nat \<Rightarrow> nat \<Rightarrow> heap_block" where
  "kmalloc_claim B aligned_size blk =
     (let leftover = blk_size (B blk) - aligned_size;
          B' = (if HEADER_SIZE + SPLIT_THRESHOLD \<le> leftover then
                  let new_blk = blk + unat HEADER_SIZE + unat aligned_size
                  in B(new_blk := \<lparr>blk_size = leftover - HEADER_SIZE, blk_free = True,
                                    blk_next = blk_next (B blk)\<rparr>,
                       blk := (B blk)\<lparr>blk_size := aligned_size, blk_next := Some new_blk\<rparr>)
                else B)
      in B'(blk := (B' blk)\<lparr>blk_free := False\<rparr>))"

partial_function (option) kmalloc_loop ::
  "(nat \<Rightarrow> heap_block) \<Rightarrow> u32 \<Rightarrow> nat option \<Rightarrow> (nat option \<times> (nat \<Rightarrow> heap_block)) option" where
  "kmalloc_loop B aligned_size p = (case p of
       None \<Rightarrow> Some (None, B)
     | Some blk \<Rightarrow>
         if blk_free (B blk) \<and> aligned_size \<le> blk_size (B blk) then
           Some (Some (blk + unat HEADER_SIZE), kmalloc_claim B aligned_size blk)
         else kmalloc_loop B aligned_size (blk_next (B blk)))"

definition kmalloc :: "u32 \<Rightarrow> 'a heap_scheme \<Rightarrow> (nat option \<times> 'a heap_scheme) option" where
  "kmalloc nbytes h =
     (if nbytes = 0 then Some (None, h)
      else do {
        h1 \<leftarrow> heap_acquire h;
        (result, B) \<leftarrow> kmalloc_loop (heap_blocks h1) (ALIGN8 nbytes) (heap_head h1);
        Some (result, heap_release (h1\<lparr>heap_blocks := B\<rparr>))
      })"

partial_function (option) coalesce_fwd ::
  "(nat \<Rightarrow> heap_block) \<Rightarrow> nat \<Rightarrow> (nat \<Rightarrow> heap_block) option" where
  "coalesce_fwd B blk = (case blk_next (B blk) of
       None \<Rightarrow> Some B
     | Some n \<Rightarrow>
         if blk_free (B n) then
           coalesce_fwd (B(blk := (B blk)\<lparr>blk_size := blk_size (B blk) + (HEADER_SIZE + blk_size (B n)),
                                          blk_next := blk_next (B n)\<rparr>)) blk
         else Some B)"

partial_function (option) find_prev ::
  "(nat \<Rightarrow> heap_block) \<Rightarrow> nat \<Rightarrow> nat option \<Rightarrow> nat option \<Rightarrow> nat option option" where
  "find_prev B blk cur prev = (case cur of
       None \<Rightarrow> Some prev
     | Some c \<Rightarrow> if c = blk then Some prev else find_prev B blk (blk_next (B c)) (Some c))"

definition coalesce_back :: "(nat \<Rightarrow> heap_block) \<Rightarrow> nat option \<Rightarrow> nat \<Rightarrow> nat \<Rightarrow> heap_block" where
  "coalesce_back B prev blk = (case prev of
       None \<Rightarrow> B
     | Some q \<Rightarrow>
         if blk_free (B q) then
           B(q := (B q)\<lparr>blk_size := blk_size (B q) + (HEADER_SIZE + blk_size (B blk)),
                        blk_next := blk_next (B blk)\<rparr>)
         else B)"

definition kfree :: "nat option \<Rightarrow> 'a heap_scheme \<Rightarrow> 'a heap_scheme option" where
  "kfree ptr h = (case ptr of
       None \<Rightarrow> Some h
     | Some p \<Rightarrow> do {
         let blk = p - unat HEADER_SIZE;
         h1 \<leftarrow> heap_acquire h;
         let B = heap_blocks h1;
         B1 \<leftarrow> coalesce_fwd (B(blk := (B blk)\<lparr>blk_free := True\<rparr>)) blk;
         prev \<leftarrow> find_prev B1 blk (heap_head h1) None;
         Some (heap_release (h1\<lparr>heap_blocks := coalesce_back B1 prev blk\<rparr>))
       })"

partial_function (option) stats_loop ::
  "(nat \<Rightarrow> heap_block) \<Rightarrow> nat option \<Rightarrow> u32 \<times> u32 \<times> u32 \<Rightarrow> (u32 \<times> u32 \<times> u32) option" where
  "stats_loop B p acc = (case p of
       None \<Rightarrow> Some acc
     | Some blk \<Rightarrow>
         (case acc of (used, free, largest) \<Rightarrow>
            let block_total = HEADER_SIZE + blk_size (B blk)
            in stats_loop B (blk_next (B blk))
                 (if blk_free (B blk) then
                    (used, free + block_total,
                     if largest < blk_size (B blk) then blk_size (B blk) else largest)
                  else (used + block_total, free, largest))))"

text \<open>The three figures that \<open>kmem_stats\<close> stores through its non-\<open>NULL\<close> arguments.\<close>

definition kmem_stats :: "'a heap_scheme \<Rightarrow> ((u32 \<times> u32 \<times> u32) \<times> 'a heap_scheme) option" where
  "kmem_stats h = do {
     h1 \<leftarrow> heap_acquire h;
     r \<leftarrow> stats_loop (heap_blocks h1) (heap_head h1) (0, 0, 0);
     Some (r, heap_release h1)
   }"

section \<open>Machine arithmetic\<close>

lemma HEADER_SIZE_16 [simp]: "HEADER_SIZE = 16"
  by (simp add: HEADER_SIZE_def ALIGN8_def)

lemma SPLIT_THRESHOLD_32 [simp]: "SPLIT_THRESHOLD = 32"
  by (simp add: SPLIT_THRESHOLD_def)

lemma HEAP_SIZE_65536 [simp]: "HEAP_SIZE = 65536"
  by (simp add: HEAP_SIZE_def)

lemma and_not_7: "x AND NOT 7 = push_bit 3 (drop_bit 3 (x :: u32))"
proof -
  have 7: "(7 :: u32) = mask 3" by (simp add: mask_eq_exp_minus_1)
  show ?thesis unfolding 7
    by (rule bit_word_eqI) (auto simp: bit_simps simp del: mask_numeral)
qed

lemma unat_push_3: "unat (push_bit 3 (y :: u32)) = (8 * unat y) mod 2 ^ 32"
  by (simp add: push_bit_eq_mult unat_word_ariths mult.commute)

lemma unat_and_not_7: "unat (x AND NOT 7) = unat (x :: u32) div 8 * 8"
proof -
  have "unat x div 8 * 8 \<le> unat x" by (simp add: div_times_less_eq_dividend)
  also have "\<dots> < 2 ^ 32" using unsigned_less [of x] by simp
  finally show ?thesis
    unfolding and_not_7 unat_push_3 unat_drop_bit_eq
    by (simp add: drop_bit_eq_div mult.commute)
qed

lemma unat_ALIGN8: "unat x + 7 < 2 ^ 32 \<Longrightarrow> unat (ALIGN8 x) = (unat x + 7) div 8 * 8"
  unfolding ALIGN8_def unat_and_not_7 by (simp add: unat_word_ariths)

lemma ALIGN8_dvd [simp]: "8 dvd unat (ALIGN8 x)"
  unfolding ALIGN8_def unat_and_not_7 by simp

lemma ALIGN8_ge: "unat x + 7 < 2 ^ 32 \<Longrightarrow> unat x \<le> unat (ALIGN8 x)"
  by (simp add: unat_ALIGN8)

section \<open>The heap as a list of segments\<close>

text \<open>
  A segment is a block's address, payload size and free flag. The abstract allocator works
  on the list of segments in address order.
\<close>

type_synonym seg = "nat \<times> nat \<times> bool"

fun lsegs :: "(nat \<Rightarrow> heap_block) \<Rightarrow> nat option \<Rightarrow> seg list \<Rightarrow> nat option \<Rightarrow> bool" where
  "lsegs B p [] q \<longleftrightarrow> p = q"
| "lsegs B p ((a, s, f) # l) q \<longleftrightarrow> p = Some a \<and> unat (blk_size (B a)) = s \<and>
     blk_free (B a) = f \<and> lsegs B (blk_next (B a)) l q"

text \<open>The segments tile the bytes from \<open>a\<close> to \<open>e\<close>, headers and payloads 8-byte aligned.\<close>

fun tiled :: "nat \<Rightarrow> seg list \<Rightarrow> nat \<Rightarrow> bool" where
  "tiled a [] e \<longleftrightarrow> a = e"
| "tiled a ((b, s, f) # l) e \<longleftrightarrow> b = a \<and> 8 dvd a \<and> 8 dvd s \<and> tiled (a + 16 + s) l e"

fun no_adj :: "seg list \<Rightarrow> bool" where
  "no_adj ((a, s, f) # (b, t, g) # l) \<longleftrightarrow> \<not> (f \<and> g) \<and> no_adj ((b, t, g) # l)"
| "no_adj l \<longleftrightarrow> True"

text \<open>
  The heap invariant, with its abstract value: unlocked, the list tiles the whole heap and
  no two neighbouring blocks are both free.
\<close>

definition heap_abs :: "'a heap_scheme \<Rightarrow> seg list \<Rightarrow> bool" where
  "heap_abs h l \<longleftrightarrow> lsegs (heap_blocks h) (heap_head h) l None \<and>
     tiled 0 l 65536 \<and> no_adj l \<and> \<not> heap_lock h"

text \<open>The abstract operations: first fit with a split, and free with full coalescing.\<close>

fun seg_alloc :: "nat \<Rightarrow> seg list \<Rightarrow> (nat \<times> seg list) option" where
  "seg_alloc n [] = None"
| "seg_alloc n ((a, s, f) # l) =
     (if f \<and> n \<le> s then
        Some (a + 16, if 48 \<le> s - n
                      then (a, n, False) # (a + 16 + n, s - n - 16, True) # l
                      else (a, s, False) # l)
      else map_option (\<lambda>(r, l'). (r, (a, s, f) # l')) (seg_alloc n l))"

fun join :: "seg \<Rightarrow> seg list \<Rightarrow> seg list" where
  "join (a, s, True) ((b, t, True) # l) = (a, s + 16 + t, True) # l"
| "join x l = x # l"

fun coalesce :: "seg list \<Rightarrow> seg list" where
  "coalesce [] = []"
| "coalesce (x # l) = join x (coalesce l)"

definition mark_free :: "nat \<Rightarrow> seg list \<Rightarrow> seg list" where
  "mark_free p l = map (\<lambda>(a, s, f). (a, s, f \<or> a + 16 = p)) l"

definition seg_free :: "nat \<Rightarrow> seg list \<Rightarrow> seg list" where
  "seg_free p l = coalesce (mark_free p l)"

text \<open>The payloads handed out and not yet returned.\<close>

definition live :: "seg list \<Rightarrow> (nat \<times> nat) set" where
  "live l = {(a + 16, s) |a s. (a, s, False) \<in> set l}"

subsection \<open>Lists of segments\<close>

lemma lsegs_append:
  "lsegs B p (l1 @ l2) q \<longleftrightarrow> (\<exists>r. lsegs B p l1 r \<and> lsegs B r l2 q)"
  by (induction l1 arbitrary: p) auto

lemma tiled_append: "tiled a (l1 @ l2) e \<longleftrightarrow> (\<exists>m. tiled a l1 m \<and> tiled m l2 e)"
  by (induction l1 arbitrary: a) auto

lemma lsegs_cong:
  "lsegs B p l q \<Longrightarrow> (\<And>a. a \<in> fst ` set l \<Longrightarrow> B' a = B a) \<Longrightarrow> lsegs B' p l q"
  by (induction l arbitrary: p) auto

lemma lsegs_upd [simp]: "a \<notin> fst ` set l \<Longrightarrow> lsegs (B(a := v)) p l q \<longleftrightarrow> lsegs B p l q"
  by (induction l arbitrary: p) auto

lemma lsegs_unique: "lsegs B p l None \<Longrightarrow> lsegs B p l' None \<Longrightarrow> l = l'"
proof (induction l arbitrary: p l')
  case Nil
  then show ?case by (cases l') auto
next
  case (Cons x l)
  then show ?case by (cases x; cases l') auto
qed

lemma heap_abs_unique: "heap_abs h l \<Longrightarrow> heap_abs h l' \<Longrightarrow> l = l'"
  by (auto simp: heap_abs_def intro: lsegs_unique)

lemma tiled_le: "tiled a l e \<Longrightarrow> a \<le> e"
  by (induction l arbitrary: a) fastforce+

lemma tiled_bounds:
  "tiled a l e \<Longrightarrow> (b, s, f) \<in> set l \<Longrightarrow>
     a \<le> b \<and> b + 16 + s \<le> e \<and> 8 dvd b \<and> 8 dvd s"
proof (induction l arbitrary: a)
  case (Cons x l)
  then show ?case by (cases x) (fastforce dest: tiled_le)
qed simp

lemma tiled_distinct: "tiled a l e \<Longrightarrow> distinct (map fst l)"
proof (induction l arbitrary: a)
  case (Cons x l)
  obtain b s f where x: "x = (b, s, f)" by (cases x)
  with Cons.prems have t: "tiled (a + 16 + s) l e" and b: "b = a" by auto
  then have "b \<notin> fst ` set l" using tiled_bounds [OF t] by force
  with Cons.IH [OF t] x show ?case by simp
qed simp

lemma tiled_disjoint:
  assumes "tiled a l e" and "(b, s, f) \<in> set l" and "(c, t, g) \<in> set l" and "b < c"
  shows "b + 16 + s \<le> c"
  using assms
proof (induction l arbitrary: a)
  case (Cons x l)
  obtain b' s' f' where x: "x = (b', s', f')" by (cases x)
  with Cons.prems have t: "tiled (a + 16 + s') l e" and "b' = a" by auto
  with Cons x tiled_bounds [OF t] show ?case by fastforce
qed simp

subsection \<open>kmalloc\<close>

lemma kmalloc_loop_None:
  "lsegs B p l None \<Longrightarrow> seg_alloc (unat n) l = None \<Longrightarrow> kmalloc_loop B n p = Some (None, B)"
proof (induction l arbitrary: p)
  case Nil
  then show ?case by (simp add: kmalloc_loop.simps)
next
  case (Cons x l)
  obtain a s f where x: "x = (a, s, f)" by (cases x)
  with Cons show ?case
    by (subst kmalloc_loop.simps) (auto simp: word_le_nat_alt split: if_splits)
qed

text \<open>Claiming a block that fits, in the middle of nowhere.\<close>

lemma kmalloc_claim_spec:
  assumes "lsegs B (Some a) ((a, s, True) # l) None" and "tiled a ((a, s, True) # l) e"
    and "e \<le> 65536" and "unat n \<le> s" and "seg_alloc (unat n) ((a, s, True) # l) = Some (r, l')"
  shows "r = a + 16 \<and> lsegs (kmalloc_claim B n a) (Some a) l' None \<and>
         (\<forall>x<a. kmalloc_claim B n a x = B x)"
proof -
  have t: "tiled (a + 16 + s) l e" and s: "unat (blk_size (B a)) = s"
    and l: "lsegs B (blk_next (B a)) l None"
    using assms by auto
  have le: "a + 16 + s \<le> e" by (rule tiled_le [OF t])
  have left: "unat (blk_size (B a) - n) = s - unat n"
    using assms(4) s by (simp add: unat_sub word_le_nat_alt)
  show ?thesis
  proof (cases "48 \<le> s - unat n")
    case True
    then have c: "HEADER_SIZE + SPLIT_THRESHOLD \<le> blk_size (B a) - n"
      by (simp add: word_le_nat_alt left)
    have sz: "unat (blk_size (B a) - n - HEADER_SIZE) = s - unat n - 16"
      using True left by (simp add: unat_sub word_le_nat_alt)
    have above: "a + 16 + s \<le> b" if "b \<in> fst ` set l" for b
      using that tiled_bounds [OF t] by force
    have new: "kmalloc_claim B n a =
      B(a + 16 + unat n := \<lparr>blk_size = blk_size (B a) - n - HEADER_SIZE, blk_free = True,
          blk_next = blk_next (B a)\<rparr>,
        a := \<lparr>blk_size = n, blk_free = False, blk_next = Some (a + 16 + unat n)\<rparr>)"
      unfolding kmalloc_claim_def Let_def using c by (simp add: fun_eq_iff)
    have "lsegs (kmalloc_claim B n a) (blk_next (B a)) l None"
      using l by (rule lsegs_cong) (use above True in \<open>force simp: new\<close>)
    moreover have "r = a + 16" and "l' = (a, unat n, False) # (a + 16 + unat n, s - unat n - 16, True) # l"
      using assms(4,5) True by auto
    ultimately show ?thesis using sz by (simp add: new)
  next
    case False
    then have c: "\<not> HEADER_SIZE + SPLIT_THRESHOLD \<le> blk_size (B a) - n"
      by (simp add: word_le_nat_alt left)
    have new: "kmalloc_claim B n a = B(a := (B a)\<lparr>blk_free := False\<rparr>)"
      unfolding kmalloc_claim_def Let_def using c by simp
    have "a \<notin> fst ` set l" using tiled_bounds [OF t] by force
    with l have "lsegs (kmalloc_claim B n a) (blk_next (B a)) l None"
      by (elim lsegs_cong) (auto simp: new)
    moreover have "r = a + 16" and "l' = (a, s, False) # l"
      using assms(4,5) False by auto
    ultimately show ?thesis using s by (simp add: new)
  qed
qed

lemma kmalloc_loop_Some:
  assumes "lsegs B p l None" and "tiled a l e" and "e \<le> 65536"
    and "seg_alloc (unat n) l = Some (r, l')"
  shows "\<exists>B'. kmalloc_loop B n p = Some (Some r, B') \<and> lsegs B' p l' None \<and> (\<forall>x<a. B' x = B x)"
  using assms
proof (induction l arbitrary: p a l')
  case (Cons x l)
  obtain b s f where x: "x = (b, s, f)" by (cases x)
  with Cons.prems have b: "b = a" and p: "p = Some a" and s: "unat (blk_size (B a)) = s"
    and f: "blk_free (B a) = f" and l: "lsegs B (blk_next (B a)) l None"
    and t: "tiled (a + 16 + s) l e" by auto
  show ?case
  proof (cases "f \<and> unat n \<le> s")
    case True
    then have "kmalloc_loop B n p = Some (Some (a + 16), kmalloc_claim B n a)"
      using p s f by (subst kmalloc_loop.simps) (simp add: word_le_nat_alt)
    with kmalloc_claim_spec [of B a s l e n r l'] Cons.prems x True b p show ?thesis by auto
  next
    case False
    with Cons.prems x b obtain l'' where l'': "seg_alloc (unat n) l = Some (r, l'')"
      and l': "l' = (a, s, f) # l''" by auto
    from Cons.IH [OF l t Cons.prems(3) l''] obtain B' where
      B': "kmalloc_loop B n (blk_next (B a)) = Some (Some r, B')"
        "lsegs B' (blk_next (B a)) l'' None" "\<forall>x<a + 16 + s. B' x = B x" by blast
    have "kmalloc_loop B n p = kmalloc_loop B n (blk_next (B a))"
      using p s f False by (subst kmalloc_loop.simps) (auto simp: word_le_nat_alt)
    with B' l' p s f show ?thesis by auto
  qed
qed simp

lemma seg_alloc_head:
  "seg_alloc n ((b, t, g) # l) = Some (r, l') \<Longrightarrow>
     \<exists>t' g' l''. l' = (b, t', g') # l'' \<and> (g' \<longrightarrow> g)"
  by (auto split: if_splits)

lemma seg_alloc_no_adj:
  "no_adj l \<Longrightarrow> seg_alloc n l = Some (r, l') \<Longrightarrow> no_adj l'"
proof (induction l arbitrary: l' rule: no_adj.induct)
  case (1 a s f b t g l)
  show ?case
  proof (cases "f \<and> n \<le> s")
    case True
    with 1 show ?thesis by (auto split: if_splits)
  next
    case False
    with 1 obtain l'' where l'': "seg_alloc n ((b, t, g) # l) = Some (r, l'')"
      and l': "l' = (a, s, f) # l''" by auto
    from seg_alloc_head [OF l''] obtain t' g' l3
      where l3: "l'' = (b, t', g') # l3" and g: "g' \<longrightarrow> g" by blast
    have "no_adj l''" using 1 l'' by simp
    moreover have "\<not> (f \<and> g')" using "1.prems"(1) g by auto
    ultimately show ?thesis using l' l3 by simp
  qed
qed (auto split: if_splits)

lemma seg_alloc_tiled:
  "tiled a l e \<Longrightarrow> 8 dvd n \<Longrightarrow> seg_alloc n l = Some (r, l') \<Longrightarrow> tiled a l' e"
proof (induction l arbitrary: a l')
  case (Cons x l)
  obtain b s f where x: "x = (b, s, f)" by (cases x)
  show ?case
  proof (cases "f \<and> n \<le> s")
    case True
    have "a + 16 + n + 16 + (s - n - 16) = a + 16 + s" if "48 \<le> s - n"
      using that by simp
    with Cons.prems x True show ?thesis by (auto simp: dvd_diff_nat ac_simps split: if_splits)
  next
    case False
    with Cons x show ?thesis by auto
  qed
qed simp

lemma heap_abs_acquire: "heap_abs h l \<Longrightarrow> heap_acquire h = Some (h\<lparr>heap_lock := True\<rparr>)"
  by (simp add: heap_abs_def heap_acquire_def)

lemma release_unlocked [simp]:
  "\<not> heap_lock h \<Longrightarrow> h\<lparr>heap_lock := False\<rparr> = (h :: 'a heap_scheme)"
  by (cases h) simp

text \<open>
  What \<open>kmalloc\<close> does, on every branch: it changes nothing but the block headers, returns
  \<open>NULL\<close> exactly when first fit fails, and otherwise implements \<^const>\<open>seg_alloc\<close>.
\<close>

lemma kmalloc_zero [simp]: "kmalloc 0 h = Some (None, h)"
  by (simp add: kmalloc_def)

lemma kmalloc_null:
  assumes "heap_abs h l" and "seg_alloc (unat (ALIGN8 n)) l = None"
  shows "kmalloc n h = Some (None, h)"
proof (cases "n = 0")
  case False
  have "\<not> heap_lock h" and "lsegs (heap_blocks h) (heap_head h) l None"
    using assms(1) by (auto simp: heap_abs_def)
  with kmalloc_loop_None [OF this(2) assms(2)] False show ?thesis
    by (simp add: kmalloc_def heap_abs_acquire [OF assms(1)] heap_release_def)
qed simp

lemma kmalloc_some:
  assumes "heap_abs h l" and "n \<noteq> 0" and "seg_alloc (unat (ALIGN8 n)) l = Some (r, l')"
  shows "\<exists>B. kmalloc n h = Some (Some r, h\<lparr>heap_blocks := B\<rparr>) \<and> heap_abs (h\<lparr>heap_blocks := B\<rparr>) l'"
proof -
  have h: "\<not> heap_lock h" "lsegs (heap_blocks h) (heap_head h) l None" "tiled 0 l 65536" "no_adj l"
    using assms(1) by (auto simp: heap_abs_def)
  from kmalloc_loop_Some [OF h(2,3) order_refl assms(3)] obtain B where
    B: "kmalloc_loop (heap_blocks h) (ALIGN8 n) (heap_head h) = Some (Some r, B)"
      "lsegs B (heap_head h) l' None" by blast
  from B(1) have "kmalloc n h = Some (Some r, h\<lparr>heap_blocks := B\<rparr>)"
    using h(1) assms(2) by (simp add: kmalloc_def heap_abs_acquire [OF assms(1)] heap_release_def)
  moreover have "heap_abs (h\<lparr>heap_blocks := B\<rparr>) l'"
    using h B(2) seg_alloc_tiled [OF h(3) ALIGN8_dvd assms(3)] seg_alloc_no_adj [OF h(4) assms(3)]
    by (simp add: heap_abs_def)
  ultimately show ?thesis by blast
qed

text \<open>What first fit hands out.\<close>

lemma seg_alloc_None: "seg_alloc n l = None \<longleftrightarrow> (\<forall>(a, s, f) \<in> set l. f \<longrightarrow> s < n)"
  by (induction l) (auto split: if_splits)

lemma live_Cons: "live ((a, s, f) # l) = (if f then live l else insert (a + 16, s) (live l))"
  by (auto simp: live_def)

lemma live_bounds:
  "tiled a l e \<Longrightarrow> (p, k) \<in> live l \<Longrightarrow> a + 16 \<le> p \<and> p + k \<le> e \<and> 8 dvd p \<and> 8 dvd k"
  using tiled_bounds [of a l e "p - 16" k False] by (auto simp: live_def)

lemma live_disjoint:
  assumes "tiled a l e" and "(p, k) \<in> live l" and "(q, m) \<in> live l" and "p \<noteq> q"
  shows "p + k + 16 \<le> q \<or> q + m + 16 \<le> p"
proof -
  from assms(2,3) have *: "(p - 16, k, False) \<in> set l" "(q - 16, m, False) \<in> set l"
    "16 \<le> p" "16 \<le> q" by (auto simp: live_def)
  with assms(4) have "p - 16 < q - 16 \<or> q - 16 < p - 16" by auto
  with tiled_disjoint [OF assms(1) *(1,2)] tiled_disjoint [OF assms(1) *(2,1)] *(3,4)
  show ?thesis by auto
qed

lemma seg_alloc_live:
  "seg_alloc n l = Some (r, l') \<Longrightarrow>
     \<exists>m. n \<le> m \<and> m < n + 48 \<and> live l' = insert (r, m) (live l)"
proof (induction l arbitrary: l')
  case (Cons x l)
  obtain b s f where x: "x = (b, s, f)" by (cases x)
  show ?case
  proof (cases "f \<and> n \<le> s")
    case True
    with Cons.prems x show ?thesis
      by (intro exI [of _ "if 48 \<le> s - n then n else s"]) (auto simp: live_Cons)
  next
    case False
    with Cons.prems x obtain l'' where "seg_alloc n l = Some (r, l'')"
      and "l' = (b, s, f) # l''" by auto
    with Cons.IH [of l''] x show ?thesis by (auto simp: live_Cons)
  qed
qed simp

lemma seg_alloc_addr: "seg_alloc n l = Some (r, l') \<Longrightarrow> \<exists>s. (r - 16, s, True) \<in> set l \<and> 16 \<le> r"
  by (induction l arbitrary: l') (fastforce split: if_splits)+

lemma seg_alloc_fresh:
  assumes "tiled a l e" and "seg_alloc n l = Some (r, l')"
  shows "(r, k) \<notin> live l"
proof
  assume "(r, k) \<in> live l"
  then have "(r - 16, k, False) \<in> set l" by (auto simp: live_def)
  moreover obtain s where "(r - 16, s, True) \<in> set l" using seg_alloc_addr [OF assms(2)] by blast
  ultimately show False
    using tiled_distinct [OF assms(1)] by (metis eq_key_imp_eq_value Pair_inject)
qed

subsection \<open>Coalescing\<close>

lemma join_head: "\<exists>s' l'. join (a, s, f) l = (a, s', f) # l'"
  by (cases "((a, s, f), l)" rule: join.cases) auto

lemma join_tiled: "tiled a (x # l) e \<Longrightarrow> tiled a (join x l) e"
  by (cases "(x, l)" rule: join.cases) (auto simp: add_ac)

lemma join_live: "live (join x l) = live (x # l)"
  by (cases "(x, l)" rule: join.cases) (auto simp: live_Cons)

lemma no_adj_merge: "no_adj ((b, t, g) # l) \<Longrightarrow> no_adj ((a, s, g) # l)"
  by (cases l) auto

lemma no_adj_head: "no_adj (x # (b, t, g) # l) \<longleftrightarrow> \<not> (snd (snd x) \<and> g) \<and> no_adj ((b, t, g) # l)"
  by (cases x) auto

lemma no_adj_used [simp]: "no_adj ((a, s, False) # l) \<longleftrightarrow> no_adj l"
  by (cases l) auto

lemma join_no_adj: "no_adj l \<Longrightarrow> no_adj (join x l)"
  by (cases "(x, l)" rule: join.cases) (auto dest: no_adj_merge simp: no_adj_head)

lemma coalesce_tiled: "tiled a l e \<Longrightarrow> tiled a (coalesce l) e"
proof (induction l arbitrary: a)
  case (Cons x l)
  then show ?case by (cases x) (auto intro!: join_tiled)
qed simp

lemma coalesce_no_adj: "no_adj (coalesce l)"
  by (induction l) (auto intro: join_no_adj)

lemma coalesce_live: "live (coalesce l) = live l"
proof (induction l)
  case (Cons x l)
  then show ?case by (cases x) (simp add: join_live live_Cons)
qed simp

lemma no_adj_Cons: "no_adj (x # l) \<Longrightarrow> no_adj l"
  by (cases l; cases x) auto

lemma join_no_adj_id: "no_adj (x # l) \<Longrightarrow> join x l = x # l"
  by (cases "(x, l)" rule: join.cases) auto

lemma coalesce_id: "no_adj l \<Longrightarrow> coalesce l = l"
  proof (induction l)
  case (Cons x l)
  then show ?case using no_adj_Cons [OF Cons.prems] join_no_adj_id [OF Cons.prems] by simp
qed simp

lemma coalesce_append:
  "no_adj (l1 @ [y]) \<Longrightarrow> coalesce (l1 @ y # m) = l1 @ join y (coalesce m)"
proof (induction l1)
  case (Cons x l1)
  have IH: "coalesce (l1 @ y # m) = l1 @ join y (coalesce m)"
    using Cons.prems by (intro Cons.IH) (auto dest: no_adj_Cons)
  obtain b t g where h: "hd (l1 @ [y]) = (b, t, g)" by (cases "hd (l1 @ [y])")
  then obtain r where r: "l1 @ [y] = (b, t, g) # r" by (cases "l1 @ [y]") auto
  with Cons.prems have n: "\<not> (snd (snd x) \<and> g)" by (simp add: no_adj_head)
  have "\<exists>t' r'. l1 @ join y (coalesce m) = (b, t', g) # r'"
    using r join_head by (cases l1) auto
  then obtain t' r' where "l1 @ join y (coalesce m) = (b, t', g) # r'" by blast
  then show ?case using IH n by (cases x) auto
qed simp

lemma no_adj_append: "no_adj (l1 @ l2) \<Longrightarrow> no_adj l1 \<and> no_adj l2"
proof (induction l1)
  case (Cons x l1)
  then show ?case
    by (cases l1) (auto dest: no_adj_Cons simp: no_adj_head)
qed simp

lemma mark_free_split:
  assumes "distinct (map fst (l1 @ (b, k, f) # l2))"
  shows "mark_free (b + 16) (l1 @ (b, k, f) # l2) = l1 @ (b, k, True) # l2"
proof -
  have "map (\<lambda>(a, s, f). (a, s, f \<or> a + 16 = b + 16)) l = l" if "b \<notin> fst ` set l" for l :: "seg list"
    using that by (induction l) auto
  with assms show ?thesis by (simp add: mark_free_def)
qed

lemma mark_free_live: "live (mark_free p l) = {(q, k) \<in> live l. q \<noteq> p}"
proof (induction l)
  case (Cons x l)
  moreover have "mark_free p (x # l) = (fst x, fst (snd x), snd (snd x) \<or> fst x + 16 = p) # mark_free p l"
    by (cases x) (simp add: mark_free_def)
  ultimately show ?case by (cases x) (auto simp: live_Cons)
qed (simp add: mark_free_def live_def)

lemma mark_free_tiled: "tiled a (mark_free p l) e \<longleftrightarrow> tiled a l e"
  by (induction l arbitrary: a) (auto simp: mark_free_def)

lemma seg_free_live: "live (seg_free p l) = {(q, k) \<in> live l. q \<noteq> p}"
  by (simp add: seg_free_def coalesce_live mark_free_live)

subsection \<open>kfree\<close>

lemma coalesce_fwd_stop:
  assumes "lsegs B (Some a) (x # l) None" and "join (a, s, True) l = (a, s, True) # l"
  shows "coalesce_fwd B a = Some B"
  using assms by (cases x; cases l) (auto simp: coalesce_fwd.simps [of B a])

lemma merge_size:
  assumes "unat (x :: u32) + 16 + unat y < 2 ^ 32"
  shows "unat (x + (HEADER_SIZE + y)) = unat x + 16 + unat y"
  using assms by (simp add: unat_word_ariths add.assoc)

lemma coalesce_fwd_spec:
  assumes "lsegs B (Some a) ((a, s, True) # l) None" and "tiled a ((a, s, True) # l) e"
    and "e \<le> 65536" and "no_adj l"
  shows "\<exists>B'. coalesce_fwd B a = Some B' \<and> lsegs B' (Some a) (join (a, s, True) l) None \<and>
           (\<forall>x. x \<noteq> a \<longrightarrow> B' x = B x)"
proof (cases "\<exists>b t l'. l = (b, t, True) # l'")
  case False
  then have "join (a, s, True) l = (a, s, True) # l" by (cases "((a, s, True), l)" rule: join.cases) auto
  with coalesce_fwd_stop [OF assms(1)] assms(1) show ?thesis by auto
next
  case True
  then obtain b t l' where l: "l = (b, t, True) # l'" by blast
  let ?B = "B(a := (B a)\<lparr>blk_size := blk_size (B a) + (HEADER_SIZE + blk_size (B b)),
              blk_next := blk_next (B b)\<rparr>)"
  have t: "tiled (b + 16 + t) l' e" and b: "b = a + 16 + s" using assms(2) l by auto
  have le: "b + 16 + t \<le> e" by (rule tiled_le [OF t])
  have sz: "unat (blk_size (?B a)) = s + 16 + t"
    using assms(1,3) l b le by (simp add: merge_size del: HEADER_SIZE_16)
  have "a \<notin> fst ` set l'" using tiled_bounds [OF t] b by force
  then have "lsegs ?B (blk_next (B b)) l' None"
    using assms(1) l by simp
  then have ls: "lsegs ?B (Some a) ((a, s + 16 + t, True) # l') None"
    using assms(1) l sz by simp
  have "join (a, s + 16 + t, True) l' = (a, s + 16 + t, True) # l'"
    using assms(4) l by (cases "((a, s + 16 + t, True), l')" rule: join.cases) auto
  with coalesce_fwd_stop [OF ls] have "coalesce_fwd ?B a = Some ?B" by simp
  moreover have "coalesce_fwd B a = coalesce_fwd ?B a"
    using assms(1) l by (subst coalesce_fwd.simps) simp
  ultimately show ?thesis using ls l by auto
qed

lemma find_prev_spec:
  "lsegs B p l (Some b) \<Longrightarrow> b \<notin> fst ` set l \<Longrightarrow>
     find_prev B b p prev = Some (if l = [] then prev else Some (fst (last l)))"
proof (induction l arbitrary: p prev)
  case Nil
  then show ?case by (simp add: find_prev.simps)
next
  case (Cons x l)
  then show ?case by (cases x) (subst find_prev.simps, auto)
qed

lemma coalesce_back_spec:
  assumes "lsegs B p (l @ [(q, u, g)]) (Some b)" and "lsegs B (Some b) ((b, s, True) # l2) None"
    and "tiled a ((l @ [(q, u, g)]) @ (b, s, True) # l2) e" and "e \<le> 65536"
  shows "lsegs (coalesce_back B (Some q) b) p (l @ join (q, u, g) ((b, s, True) # l2)) None"
proof (cases g)
  case False
  with assms(1,2) show ?thesis by (auto simp: lsegs_append coalesce_back_def)
next
  case True
  let ?B = "coalesce_back B (Some q) b"
  from assms(1) have l: "lsegs B p l (Some q)" and q: "unat (blk_size (B q)) = u"
    "blk_free (B q)" "blk_next (B q) = Some b"
    using True by (auto simp: lsegs_append)
  have "distinct (map fst ((l @ [(q, u, g)]) @ (b, s, True) # l2))"
    by (rule tiled_distinct [OF assms(3)])
  then have d: "q \<notin> fst ` set l" "q \<notin> fst ` set l2" "q \<noteq> b" by auto
  have "b + 16 + s \<le> e" and "q + 16 + u \<le> b"
    using tiled_bounds [OF assms(3), of b s True] tiled_disjoint [OF assms(3), of q u g b s True]
      assms(3) by (auto simp: tiled_append)
  then have sz: "unat (blk_size (B q) + (HEADER_SIZE + blk_size (B b))) = u + 16 + s"
    using assms(2,4) q by (simp add: merge_size del: HEADER_SIZE_16)
  have B: "?B = B(q := (B q)\<lparr>blk_size := blk_size (B q) + (HEADER_SIZE + blk_size (B b)),
      blk_next := blk_next (B b)\<rparr>)"
    using q by (simp add: coalesce_back_def)
  have "lsegs ?B p l (Some q)" and "lsegs ?B (blk_next (B b)) l2 None"
    using l assms(2) d by (simp_all add: B)
  then have "lsegs ?B p (l @ (q, u + 16 + s, True) # l2) None"
    using q sz by (auto simp: lsegs_append B)
  with True show ?thesis by simp
qed

lemma kfree_spec:
  assumes "heap_abs h l" and "(p, k) \<in> live l"
  shows "\<exists>B. kfree (Some p) h = Some (h\<lparr>heap_blocks := B\<rparr>) \<and>
           heap_abs (h\<lparr>heap_blocks := B\<rparr>) (seg_free p l)"
proof -
  have h: "\<not> heap_lock h" "lsegs (heap_blocks h) (heap_head h) l None" "tiled 0 l 65536" "no_adj l"
    using assms(1) by (auto simp: heap_abs_def)
  from assms(2) obtain b where b: "(b, k, False) \<in> set l" "p = b + 16" by (auto simp: live_def)
  then obtain l1 l2 where l: "l = l1 @ (b, k, False) # l2" by (auto dest: split_list)
  have dist: "distinct (map fst l)" by (rule tiled_distinct [OF h(3)])
  have t: "tiled 0 (l1 @ (b, k, True) # l2) 65536" using h(3) l by (simp add: tiled_append)
  have n1: "no_adj l1" and n2: "no_adj l2"
    using no_adj_append [of l1 "(b, k, False) # l2"] h(4) l by auto
  let ?B0 = "(heap_blocks h)(b := (heap_blocks h b)\<lparr>blk_free := True\<rparr>)"
  from h(2) l dist have pre: "lsegs ?B0 (heap_head h) l1 (Some b)"
    and suf: "lsegs ?B0 (Some b) ((b, k, True) # l2) None"
    by (auto simp: lsegs_append)
  from t have tb: "tiled b ((b, k, True) # l2) 65536" by (auto simp: tiled_append)
  from coalesce_fwd_spec [OF suf tb order_refl n2] obtain B1 where
    B1: "coalesce_fwd ?B0 b = Some B1" "lsegs B1 (Some b) (join (b, k, True) l2) None"
      "\<forall>x. x \<noteq> b \<longrightarrow> B1 x = ?B0 x" by blast
  have pre1: "lsegs B1 (heap_head h) l1 (Some b)"
    using pre by (rule lsegs_cong) (use B1(3) dist l in auto)
  let ?prev = "if l1 = [] then None else Some (fst (last l1))"
  have fp: "find_prev B1 b (heap_head h) None = Some ?prev"
    using pre1 dist l by (intro find_prev_spec) auto
  define B where "B = coalesce_back B1 ?prev b"
  have kf: "kfree (Some p) h = Some (h\<lparr>heap_blocks := B\<rparr>)"
    using h(1) b(2) B1(1) fp
    by (simp add: kfree_def heap_abs_acquire [OF assms(1)] heap_release_def B_def)
  have free: "seg_free p l = coalesce (l1 @ (b, k, True) # l2)"
    using mark_free_split [of l1 b k False l2] dist l b(2) by (simp add: seg_free_def)
  have mid: "coalesce ((b, k, True) # l2) = join (b, k, True) l2"
    by (simp add: coalesce_id n2)
  have "lsegs B (heap_head h) (seg_free p l) None"
  proof (cases l1 rule: rev_cases)
    case Nil
    with pre1 B1(2) free mid show ?thesis by (simp add: B_def coalesce_back_def)
  next
    case (snoc l0 y)
    obtain q u g where y: "y = (q, u, g)" by (cases y)
    obtain s' m where j: "join (b, k, True) l2 = (b, s', True) # m" using join_head by blast
    have "tiled 0 ((l0 @ [(q, u, g)]) @ (b, s', True) # m) 65536"
      using t tb snoc y join_tiled [of b "(b, k, True)" l2 65536] j
      by (auto simp: tiled_append)
    from coalesce_back_spec [OF _ _ this order_refl] pre1 B1(2) snoc y j
    have "lsegs B (heap_head h) (l0 @ join (q, u, g) ((b, s', True) # m)) None"
      by (simp add: B_def)
    moreover have "coalesce (l0 @ y # (b, k, True) # l2) = l0 @ join y (coalesce ((b, k, True) # l2))"
      using n1 snoc by (intro coalesce_append) simp
    ultimately show ?thesis using free snoc mid j y by simp
  qed
  moreover have "tiled 0 (seg_free p l) 65536" and "no_adj (seg_free p l)"
    using h(3) by (simp_all add: seg_free_def coalesce_tiled mark_free_tiled coalesce_no_adj)
  ultimately have "heap_abs (h\<lparr>heap_blocks := B\<rparr>) (seg_free p l)"
    using h(1) by (simp add: heap_abs_def)
  with kf show ?thesis by blast
qed

lemma kfree_null [simp]: "kfree None h = Some h"
  by (simp add: kfree_def)

subsection \<open>The abstract value, computed\<close>

text \<open>
  A well-formed heap has at most 65536 / 16 = 4096 blocks, so 4097 steps of the walk reach its
  end.
\<close>

fun seg_walk :: "(nat \<Rightarrow> heap_block) \<Rightarrow> nat \<Rightarrow> nat option \<Rightarrow> seg list" where
  "seg_walk B (Suc n) (Some a) =
     (a, unat (blk_size (B a)), blk_free (B a)) # seg_walk B n (blk_next (B a))"
| "seg_walk B n p = []"

definition heap_segs :: "'a heap_scheme \<Rightarrow> seg list" where
  "heap_segs h = seg_walk (heap_blocks h) 4097 (heap_head h)"

definition heap_wf :: "'a heap_scheme \<Rightarrow> bool" where
  "heap_wf h \<longleftrightarrow> heap_abs h (heap_segs h)"

lemma seg_walk_lsegs: "lsegs B p l None \<Longrightarrow> length l < n \<Longrightarrow> seg_walk B n p = l"
proof (induction l arbitrary: p n)
  case Nil
  then show ?case by simp
next
  case (Cons x l)
  then show ?case by (cases x; cases n) auto
qed

lemma tiled_length: "tiled a l e \<Longrightarrow> a + 16 * length l \<le> e"
proof (induction l arbitrary: a)
  case (Cons x l)
  then show ?case by (cases x) fastforce
qed simp

lemma heap_abs_segs: "heap_abs h l \<Longrightarrow> heap_segs h = l"
  using tiled_length [of 0 l 65536] by (auto simp: heap_abs_def heap_segs_def intro: seg_walk_lsegs)

lemma heap_abs_iff: "heap_abs h l \<longleftrightarrow> heap_wf h \<and> heap_segs h = l"
  by (auto simp: heap_wf_def dest: heap_abs_segs)

lemma heap_wf_tiled: "heap_wf h \<Longrightarrow> tiled 0 (heap_segs h) 65536"
  and heap_wf_no_adj: "heap_wf h \<Longrightarrow> no_adj (heap_segs h)"
  and heap_wf_unlocked: "heap_wf h \<Longrightarrow> \<not> heap_lock h"
  by (auto simp: heap_wf_def heap_abs_def)

lemma heap_abs_init: "heap_abs (kmem_init h) [(0, 65520, True)]"
  by (simp add: heap_abs_def kmem_init_def)

lemma heap_init [simp]: "heap_wf (kmem_init h)" "heap_segs (kmem_init h) = [(0, 65520, True)]"
  using heap_abs_init [of h] by (auto simp: heap_abs_iff)

subsection \<open>Free undoes malloc, and the statistics\<close>

lemma mark_free_other: "p \<notin> (\<lambda>x. fst x + 16) ` set l \<Longrightarrow> mark_free p l = l"
  by (induction l) (auto simp: mark_free_def)

lemma mark_free_Cons:
  "mark_free p ((a, s, f) # l) = (a, s, f \<or> a + 16 = p) # mark_free p l"
  by (simp add: mark_free_def)

lemma seg_free_alloc:
  assumes "tiled a l e" and "no_adj l" and "seg_alloc n l = Some (r, l')"
  shows "seg_free r l' = l"
  using assms
proof (induction l arbitrary: a l')
  case (Cons x l)
  obtain s f where x: "x = (a, s, f)" using Cons.prems(1) by (cases x) auto
  from Cons.prems x have t: "tiled (a + 16 + s) l e" and n: "no_adj l" by (auto dest: no_adj_Cons)
  show ?case
  proof (cases "f \<and> n \<le> s")
    case True
    then have r: "r = a + 16" using Cons.prems x by simp
    have m: "mark_free (a + 16) l = l"
      using tiled_bounds [OF t] by (intro mark_free_other) force
    have j: "join (b, k, True) l = (b, k, True) # l" for b k
      using Cons.prems(2) x True by (cases l) (auto simp: no_adj_head)
    have c: "coalesce l = l" by (rule coalesce_id [OF n])
    from True Cons.prems x r show ?thesis
      by (auto simp: seg_free_def mark_free_Cons m j c split: if_splits)
  next
    case False
    with Cons.prems x obtain l'' where l'': "seg_alloc n l = Some (r, l'')"
      and l': "l' = (a, s, f) # l''" by auto
    have "a + 16 \<noteq> r" using seg_alloc_addr [OF l''] tiled_bounds [OF t] by force
    with Cons.IH [OF t n l''] l' x join_no_adj_id [OF Cons.prems(2)] show ?thesis
      by (simp add: seg_free_def mark_free_Cons)
  qed
qed simp

definition seg_used :: "seg list \<Rightarrow> nat" where
  "seg_used l = (\<Sum>(a, s, f) \<leftarrow> l. if f then 0 else 16 + s)"

definition seg_unused :: "seg list \<Rightarrow> nat" where
  "seg_unused l = (\<Sum>(a, s, f) \<leftarrow> l. if f then 16 + s else 0)"

definition seg_largest :: "seg list \<Rightarrow> nat" where
  "seg_largest l = foldr (\<lambda>(a, s, f) m. if f then max s m else m) l 0"

lemma seg_used_unused: "tiled a l e \<Longrightarrow> a + seg_used l + seg_unused l = e"
proof (induction l arbitrary: a)
  case (Cons x l)
  then show ?case by (cases x) (fastforce simp: seg_used_def seg_unused_def)
qed (simp add: seg_used_def seg_unused_def)

lemma seg_largest_less: "seg_largest l < n \<longleftrightarrow> 0 < n \<and> (\<forall>(a, s, f) \<in> set l. f \<longrightarrow> s < n)"
  by (induction l) (auto simp: seg_largest_def split: if_splits)

lemma stats_loop_spec:
  assumes "lsegs B p l None" and "tiled a l e" and "e \<le> 65536"
    and "unat used + seg_used l \<le> 65536" and "unat free + seg_unused l \<le> 65536"
  shows "\<exists>u f m. stats_loop B p (used, free, largest) = Some (u, f, m) \<and>
    unat u = unat used + seg_used l \<and> unat f = unat free + seg_unused l \<and>
    unat m = max (unat largest) (seg_largest l)"
  using assms
proof (induction l arbitrary: p a used free largest)
  case Nil
  then show ?case
    by (simp add: stats_loop.simps seg_used_def seg_unused_def seg_largest_def)
next
  case (Cons x l)
  obtain b s f where x: "x = (b, s, f)" by (cases x)
  with Cons.prems have p: "p = Some b" and s: "unat (blk_size (B b)) = s" and f: "blk_free (B b) = f"
    and l: "lsegs B (blk_next (B b)) l None" and t: "tiled (a + 16 + s) l e" by auto
  have add: "unat (c + (HEADER_SIZE + blk_size (B b))) = unat c + (16 + s)"
    if "unat c + (16 + s) \<le> 65536" for c :: u32
    using that s by (simp add: unat_word_ariths)
  let ?u = "if f then used else used + (HEADER_SIZE + blk_size (B b))"
  let ?f = "if f then free + (HEADER_SIZE + blk_size (B b)) else free"
  let ?m = "if f \<and> largest < blk_size (B b) then blk_size (B b) else largest"
  have "unat ?u + seg_used l = unat used + seg_used (x # l)"
    and "unat ?f + seg_unused l = unat free + seg_unused (x # l)"
    using Cons.prems(4,5) x add by (auto simp: seg_used_def seg_unused_def)
  moreover have "max (unat ?m) (seg_largest l) = max (unat largest) (seg_largest (x # l))"
    using x s by (auto simp: seg_largest_def word_less_nat_alt max_def)
  moreover have "stats_loop B p (used, free, largest) = stats_loop B (blk_next (B b)) (?u, ?f, ?m)"
    using p f by (subst stats_loop.simps) (simp add: Let_def)
  ultimately show ?case using Cons.IH [OF l t Cons.prems(3), of ?u ?f ?m] Cons.prems(4,5) by metis
qed

lemma kmem_stats_spec:
  assumes "heap_wf h"
  shows "\<exists>u f m. kmem_stats h = Some ((u, f, m), h) \<and> unat u = seg_used (heap_segs h) \<and>
    unat f = seg_unused (heap_segs h) \<and> unat m = seg_largest (heap_segs h)"
proof -
  have a: "heap_abs h (heap_segs h)" using assms by (simp add: heap_wf_def)
  then have *: "lsegs (heap_blocks h) (heap_head h) (heap_segs h) None" by (simp add: heap_abs_def)
  have "seg_used (heap_segs h) \<le> 65536" and "seg_unused (heap_segs h) \<le> 65536"
    using seg_used_unused [OF heap_wf_tiled [OF assms]] by auto
  with stats_loop_spec [OF * heap_wf_tiled [OF assms] order_refl, of 0 0 0]
  show ?thesis
    using heap_wf_unlocked [OF assms]
    by (auto simp: kmem_stats_def heap_abs_acquire [OF a] heap_release_def)
qed

section \<open>The allocator interface\<close>

text \<open>
  What a client of the heap may rely on: \<open>alloc\<close> and \<open>free\<close> are total on the invariant,
  a returned block is new, aligned, big enough and apart from every other live block.
\<close>

locale allocator =
  fixes alloc :: "u32 \<Rightarrow> 's \<Rightarrow> (nat option \<times> 's) option"
    and free :: "nat \<Rightarrow> 's \<Rightarrow> 's option"
    and inv :: "'s \<Rightarrow> bool"
    and owned :: "'s \<Rightarrow> (nat \<times> nat) set"
  assumes alloc_total: "inv s \<Longrightarrow> \<exists>r s'. alloc n s = Some (r, s') \<and> inv s'"
    and alloc_none: "inv s \<Longrightarrow> alloc n s = Some (None, s') \<Longrightarrow> s' = s"
    and alloc_some: "inv s \<Longrightarrow> alloc n s = Some (Some p, s') \<Longrightarrow>
      \<exists>m. unat (ALIGN8 n) \<le> m \<and> owned s' = insert (p, m) (owned s) \<and> (\<forall>k. (p, k) \<notin> owned s)"
    and free_owned: "inv s \<Longrightarrow> (p, k) \<in> owned s \<Longrightarrow>
      \<exists>s'. free p s = Some s' \<and> inv s' \<and> owned s' = {x \<in> owned s. fst x \<noteq> p}"
    and owned_block: "inv s \<Longrightarrow> (p, k) \<in> owned s \<Longrightarrow> 8 dvd p \<and> 0 < p"
    and owned_apart: "inv s \<Longrightarrow> (p, k) \<in> owned s \<Longrightarrow> (q, m) \<in> owned s \<Longrightarrow> p \<noteq> q \<Longrightarrow>
      p + k \<le> q \<or> q + m \<le> p"
begin

lemma alloc_inv: "inv s \<Longrightarrow> alloc n s = Some (r, s') \<Longrightarrow> inv s'"
  using alloc_total [of s n] by auto

lemma alloc_apart:
  assumes "inv s" and "alloc n s = Some (Some p, s')" and "(q, k) \<in> owned s"
  shows "(q, k) \<in> owned s' \<and> p + unat (ALIGN8 n) \<le> q \<or> (q, k) \<in> owned s' \<and> q + k \<le> p"
proof -
  obtain m where m: "unat (ALIGN8 n) \<le> m" "owned s' = insert (p, m) (owned s)" "(p, k) \<notin> owned s"
    using alloc_some [OF assms(1,2)] by blast
  then have "p \<noteq> q" using assms(3) by auto
  with owned_apart [OF alloc_inv [OF assms(1,2)], of p m q k] m assms(3) show ?thesis by auto
qed

lemma alloc_free:
  assumes "inv s" and "alloc n s = Some (Some p, s')"
  shows "\<exists>s''. free p s' = Some s'' \<and> inv s'' \<and> owned s'' = owned s"
proof -
  obtain m where m: "owned s' = insert (p, m) (owned s)" "\<forall>k. (p, k) \<notin> owned s"
    using alloc_some [OF assms] by blast
  obtain s'' where s'': "free p s' = Some s''" "inv s''" "owned s'' = {x \<in> owned s'. fst x \<noteq> p}"
    using free_owned [OF alloc_inv [OF assms], of p m] m by auto
  have "{x \<in> owned s'. fst x \<noteq> p} = owned s" using m by auto
  with s'' show ?thesis by simp
qed

end

definition heap_live :: "'a heap_scheme \<Rightarrow> (nat \<times> nat) set" where
  "heap_live h = live (heap_segs h)"

lemma kmalloc_cases:
  assumes "heap_wf h"
  obtains (Null) "kmalloc n h = Some (None, h)"
      "n = 0 \<or> seg_alloc (unat (ALIGN8 n)) (heap_segs h) = None"
  | (Block) B r l' where "n \<noteq> 0" "seg_alloc (unat (ALIGN8 n)) (heap_segs h) = Some (r, l')"
      "kmalloc n h = Some (Some r, h\<lparr>heap_blocks := B\<rparr>)"
      "heap_wf (h\<lparr>heap_blocks := B\<rparr>)" "heap_segs (h\<lparr>heap_blocks := B\<rparr>) = l'"
proof (cases "n = 0 \<or> seg_alloc (unat (ALIGN8 n)) (heap_segs h) = None")
  case True
  then show ?thesis using Null kmalloc_null [of h "heap_segs h" n] assms
    by (auto simp: heap_wf_def)
next
  case False
  then obtain r l' where r: "seg_alloc (unat (ALIGN8 n)) (heap_segs h) = Some (r, l')" by auto
  with kmalloc_some [of h "heap_segs h" n r l'] False assms obtain B where
    "kmalloc n h = Some (Some r, h\<lparr>heap_blocks := B\<rparr>)" "heap_abs (h\<lparr>heap_blocks := B\<rparr>) l'"
    by (auto simp: heap_wf_def)
  with Block [OF _ r] False show ?thesis by (simp add: heap_abs_iff)
qed

lemma kfree_live:
  assumes "heap_wf h" and "(p, k) \<in> heap_live h"
  obtains B where "kfree (Some p) h = Some (h\<lparr>heap_blocks := B\<rparr>)" "heap_wf (h\<lparr>heap_blocks := B\<rparr>)"
    "heap_segs (h\<lparr>heap_blocks := B\<rparr>) = seg_free p (heap_segs h)"
  using kfree_spec [of h "heap_segs h" p k] assms
  by (auto simp: heap_live_def heap_abs_iff)

interpretation kheap: allocator kmalloc "\<lambda>p. kfree (Some p)" heap_wf heap_live
proof (unfold_locales, goal_cases)
  case (1 s n)
  then show ?case using 1 by (cases rule: kmalloc_cases [where n = n]) auto
next
  case (2 s n s')
  then show ?case using 2 by (cases rule: kmalloc_cases [where n = n]) auto
next
  case (3 s n p s')
  then show ?case
  proof (cases rule: kmalloc_cases [where n = n])
    case (Block B r l')
    with seg_alloc_live [OF Block(2)] seg_alloc_fresh [OF heap_wf_tiled [OF 3(1)] Block(2)] 3(2)
    show ?thesis by (auto simp: heap_live_def)
  qed (use 3 in auto)
next
  case (4 s p k)
  from 4 obtain B where "kfree (Some p) s = Some (s\<lparr>heap_blocks := B\<rparr>)"
    "heap_wf (s\<lparr>heap_blocks := B\<rparr>)" "heap_segs (s\<lparr>heap_blocks := B\<rparr>) = seg_free p (heap_segs s)"
    by (rule kfree_live)
  then show ?case by (auto simp: heap_live_def seg_free_live)
next
  case (5 s p k)
  with live_bounds [OF heap_wf_tiled] show ?case by (fastforce simp: heap_live_def)
next
  case (6 s p k q m)
  with live_disjoint [OF heap_wf_tiled] show ?case by (fastforce simp: heap_live_def)
qed

section \<open>Properties\<close>

text \<open>The static storage before \<open>kmem_init\<close>: zeroed BSS and a \<open>NULL\<close> head.\<close>

definition heap_bss :: heap where
  "heap_bss = \<lparr>heap_blocks = (\<lambda>_. \<lparr>blk_size = 0, blk_free = False, blk_next = None\<rparr>),
     heap_mem = (\<lambda>_. 0), heap_head = None, heap_lock = False\<rparr>"

text \<open>What the kernel does to its heap: initialise, allocate, free what it holds.\<close>

inductive heap_reach :: "heap \<Rightarrow> bool" where
  "heap_reach (kmem_init h)"
| "heap_reach h \<Longrightarrow> kmalloc n h = Some (r, h') \<Longrightarrow> heap_reach h'"
| "heap_reach h \<Longrightarrow> (p, k) \<in> heap_live h \<Longrightarrow> kfree (Some p) h = Some h' \<Longrightarrow> heap_reach h'"

lemma ALIGN8_0 [simp]: "ALIGN8 0 = 0"
  by (simp add: ALIGN8_def)

lemma kmalloc_frame:
  assumes "heap_wf h" and "kmalloc n h = Some (r, h')"
  shows "\<exists>B. h' = h\<lparr>heap_blocks := B\<rparr> \<and> heap_wf h'"
  using assms(1)
proof (cases rule: kmalloc_cases [where n = n])
  case Null
  with assms show ?thesis by (intro exI [of _ "heap_blocks h"]) simp
qed (use assms in auto)

text \<open>
  C14. \<open>kmalloc\<close> on a well-formed heap always returns, implements first fit with a split on
  the list of segments, keeps the heap well formed and changes nothing but block headers.
\<close>

theorem kmalloc_first_fit:
  assumes "heap_wf h" and "n \<noteq> 0"
  shows "\<exists>B. kmalloc n h =
             Some (map_option fst (seg_alloc (unat (ALIGN8 n)) (heap_segs h)), h\<lparr>heap_blocks := B\<rparr>) \<and>
           heap_wf (h\<lparr>heap_blocks := B\<rparr>) \<and>
           heap_segs (h\<lparr>heap_blocks := B\<rparr>) =
             (case seg_alloc (unat (ALIGN8 n)) (heap_segs h) of None \<Rightarrow> heap_segs h | Some (r, l') \<Rightarrow> l')"
  using assms(1)
proof (cases rule: kmalloc_cases [where n = n])
  case Null
  with assms show ?thesis by (intro exI [of _ "heap_blocks h"]) simp
qed (use assms in auto)

theorem kmalloc_first_fit_witness:
  "\<exists>B. kmalloc 20 (kmem_init heap_bss) = Some (Some 16, (kmem_init heap_bss)\<lparr>heap_blocks := B\<rparr>) \<and>
     heap_segs ((kmem_init heap_bss)\<lparr>heap_blocks := B\<rparr>) = [(0, 24, False), (40, 65480, True)]"
  using kmalloc_first_fit [of "kmem_init heap_bss" 20] by (auto simp: ALIGN8_def)


lemma heap_live_init [simp]: "heap_live (kmem_init h) = {}"
  by (simp add: heap_live_def live_def)


text \<open>
  C15. \<open>kfree\<close> of a block in use always returns, marks it free, merges it with every free
  neighbour so that no two adjacent blocks are free, and leaves every other block in use.
\<close>

theorem kfree_coalesces:
  assumes "heap_wf h" and "(p, k) \<in> heap_live h"
  shows "\<exists>B. kfree (Some p) h = Some (h\<lparr>heap_blocks := B\<rparr>) \<and> heap_wf (h\<lparr>heap_blocks := B\<rparr>) \<and>
           heap_segs (h\<lparr>heap_blocks := B\<rparr>) = coalesce (mark_free p (heap_segs h)) \<and>
           no_adj (heap_segs (h\<lparr>heap_blocks := B\<rparr>)) \<and>
           heap_live (h\<lparr>heap_blocks := B\<rparr>) = heap_live h - {(p, k)}"
proof -
  obtain B where B: "kfree (Some p) h = Some (h\<lparr>heap_blocks := B\<rparr>)" "heap_wf (h\<lparr>heap_blocks := B\<rparr>)"
    "heap_segs (h\<lparr>heap_blocks := B\<rparr>) = seg_free p (heap_segs h)" by (rule kfree_live [OF assms])
  have "j = k" if "(p, j) \<in> heap_live h" for j
    using that assms tiled_distinct [OF heap_wf_tiled [OF assms(1)]]
    by (auto simp: heap_live_def live_def dest: eq_key_imp_eq_value)
  then have "heap_live (h\<lparr>heap_blocks := B\<rparr>) = heap_live h - {(p, k)}"
    using B(3) by (auto simp: heap_live_def seg_free_live)
  with B heap_wf_no_adj [OF B(2)] show ?thesis by (auto simp: seg_free_def)
qed

text \<open>
  C16. Freeing a block that was just allocated restores the heap exactly: the segments, sizes
  and free flags are those before the allocation.
\<close>

theorem kmalloc_kfree_roundtrip:
  assumes "heap_wf h" and "kmalloc n h = Some (Some p, h')"
  shows "\<exists>h''. kfree (Some p) h' = Some h'' \<and> heap_wf h'' \<and> heap_segs h'' = heap_segs h"
  using assms(1)
proof (cases rule: kmalloc_cases [where n = n])
  case (Block B r l')
  obtain m where "(p, m) \<in> heap_live h'" using kheap.alloc_some [OF assms] by auto
  with kfree_live [OF kheap.alloc_inv [OF assms], of p m] obtain h'' where
    "kfree (Some p) h' = Some h''" "heap_wf h''" "heap_segs h'' = seg_free p (heap_segs h')" by metis
  with seg_free_alloc [OF heap_wf_tiled [OF assms(1)] heap_wf_no_adj [OF assms(1)] Block(2)]
    Block assms(2) show ?thesis by auto
qed (use assms in auto)

text \<open>
  \<open>kmem_stats\<close> accounts for every byte: used plus free is the size of the heap, and an
  allocation succeeds exactly when the rounded request is at most the reported largest block.
\<close>

lemma kmem_stats_exact:
  assumes "heap_wf h"
  shows "\<exists>u f m. kmem_stats h = Some ((u, f, m), h) \<and> unat u = seg_used (heap_segs h) \<and>
           unat u + unat f = unat HEAP_SIZE \<and>
           (\<forall>n. n \<noteq> 0 \<and> (0 < unat (ALIGN8 n)) \<longrightarrow>
              ((\<exists>p h'. kmalloc n h = Some (Some p, h')) \<longleftrightarrow> ALIGN8 n \<le> m))"
proof -
  obtain u f m where s: "kmem_stats h = Some ((u, f, m), h)" "unat u = seg_used (heap_segs h)"
    "unat f = seg_unused (heap_segs h)" "unat m = seg_largest (heap_segs h)"
    using kmem_stats_spec [OF assms] by blast
  have "(\<exists>p h'. kmalloc n h = Some (Some p, h')) \<longleftrightarrow> ALIGN8 n \<le> m"
    if n: "n \<noteq> 0" "0 < unat (ALIGN8 n)" for n
  proof -
    have "(\<exists>p h'. kmalloc n h = Some (Some p, h')) \<longleftrightarrow>
        seg_alloc (unat (ALIGN8 n)) (heap_segs h) \<noteq> None"
      using assms n(1) by (cases rule: kmalloc_cases [where n = n]) auto
    also have "\<dots> \<longleftrightarrow> \<not> seg_largest (heap_segs h) < unat (ALIGN8 n)"
      using n(2) by (simp only: seg_alloc_None seg_largest_less) simp
    finally show ?thesis using s(4) by (simp add: word_le_nat_alt not_less)
  qed
  with s seg_used_unused [OF heap_wf_tiled [OF assms]] show ?thesis by auto
qed

text \<open>
  Along every history of the heap from \<open>kmem_init\<close>, the heap stays well formed, so every
  further call of \<open>kmalloc\<close> and every \<open>kfree\<close> of a block in use returns.
\<close>

lemma heap_history_safe:
  assumes "heap_reach h"
  shows "heap_wf h \<and> (\<exists>r. kmalloc n h = Some r) \<and>
         (\<forall>(p, k) \<in> heap_live h. kfree (Some p) h \<noteq> None)"
proof -
  have wf: "heap_wf h" using assms
  proof induction
    case (2 h n r h')
    then show ?case by (blast dest: kheap.alloc_inv)
  next
    case (3 h p k h')
    then show ?case using kheap.free_owned [of h p k] by auto
  qed simp
  then show ?thesis using kheap.alloc_total [OF wf, of n] kheap.free_owned [OF wf] by fastforce
qed

text \<open>A heap with one block in use, for the instances below.\<close>

lemma heap_one_block:
  obtains h where "kmalloc 20 (kmem_init heap_bss) = Some (Some 16, h)" "heap_wf h"
    "heap_segs h = [(0, 24, False), (40, 65480, True)]" "heap_live h = {(16, 24)}"
proof -
  obtain B where "kmalloc 20 (kmem_init heap_bss) = Some (Some 16, (kmem_init heap_bss)\<lparr>heap_blocks := B\<rparr>)"
    "heap_abs ((kmem_init heap_bss)\<lparr>heap_blocks := B\<rparr>) [(0, 24, False), (40, 65480, True)]"
    using kmalloc_some [OF heap_abs_init [of heap_bss], of 20] by (auto simp: ALIGN8_def)
  with that show ?thesis by (auto simp: heap_abs_iff heap_live_def live_def)
qed

theorem kfree_coalesces_witness:
  "\<exists>(h :: heap) h'. heap_live h = {(16, 24)} \<and> kfree (Some 16) h = Some h' \<and> heap_segs h' = [(0, 65520, True)]"
proof -
  obtain h where h: "kmalloc 20 (kmem_init heap_bss) = Some (Some 16, h)" "heap_wf h"
    "heap_segs h = [(0, 24, False), (40, 65480, True)]" "heap_live h = {(16, 24)}"
    by (rule heap_one_block)
  then obtain B where "kfree (Some 16) h = Some (h\<lparr>heap_blocks := B\<rparr>)"
    and "heap_segs (h\<lparr>heap_blocks := B\<rparr>) = coalesce (mark_free 16 (heap_segs h))"
    using kfree_coalesces [of h 16 24] by auto
  then show ?thesis using h(3,4)
    by (intro exI [of _ h] exI [of _ "h\<lparr>heap_blocks := B\<rparr>"]) (simp add: mark_free_def)
qed

theorem kmalloc_kfree_roundtrip_witness:
  "\<exists>h h'. kmalloc 20 (kmem_init heap_bss) = Some (Some 16, h) \<and> kfree (Some 16) h = Some h' \<and>
     heap_segs h' = [(0, 65520, True)]"
proof -
  obtain h where h: "kmalloc 20 (kmem_init heap_bss) = Some (Some 16, h)" "heap_wf h"
    "heap_segs h = [(0, 24, False), (40, 65480, True)]" "heap_live h = {(16, 24)}"
    by (rule heap_one_block)
  with kmalloc_kfree_roundtrip [of "kmem_init heap_bss" 20 16 h] show ?thesis by auto
qed

text \<open>
  A request above \<open>2^32 - 8\<close> wraps to zero when it is rounded up: it is then given a block of
  fewer than 48 bytes instead of \<open>NULL\<close>.
\<close>

theorem kmalloc_huge_request:
  assumes "heap_wf h" and "2 ^ 32 \<le> unat n + 7" and "(a, s, True) \<in> set (heap_segs h)"
  shows "\<exists>p h' m. kmalloc n h = Some (Some p, h') \<and> m < 48 \<and> heap_live h' = insert (p, m) (heap_live h)"
proof -
  have "unat n < 2 ^ 32" using unsigned_less [of n] by simp
  then have "(unat n + 7) mod 2 ^ 32 < 8" using assms(2) by (simp add: le_mod_geq)
  then have "unat (n + 7) < 8" by (simp add: unat_word_ariths)
  then have z: "unat (ALIGN8 n) = 0" unfolding ALIGN8_def unat_and_not_7 by simp
  have nz: "n \<noteq> 0" using assms(2) by auto
  have ne: "seg_alloc 0 (heap_segs h) \<noteq> None"
    unfolding seg_alloc_None by (auto intro!: bexI [OF _ assms(3)])
  have "\<exists>p h'. kmalloc n h = Some (Some p, h') \<and> seg_alloc 0 (heap_segs h) = Some (p, heap_segs h')"
    using assms(1)
  proof (cases rule: kmalloc_cases [where n = n])
    case (Block B r l')
    with z show ?thesis by simp
  qed (use z nz ne in simp)
  then obtain p h' where h': "kmalloc n h = Some (Some p, h')"
    and r: "seg_alloc 0 (heap_segs h) = Some (p, heap_segs h')" by blast
  obtain m where "m < 48" and "live (heap_segs h') = insert (p, m) (live (heap_segs h))"
    using seg_alloc_live [OF r] by auto
  with h' show ?thesis unfolding heap_live_def by blast
qed

end
