(* ===== verification/Kernel.thy ===== *)
theory Kernel
  imports Heap
begin

text \<open>
  The kernel's shared data: the thread and process control blocks of \<open>src/kernel/task.h\<close>, the
  static pools and counters of \<open>task.c\<close>, the module state of \<open>sched.c\<close> and the ready queues
  with their two raw list operations. The state record extends the heap, because stacks come
  from there.

  A \<open>tcb_t *\<close> or \<open>pcb_t *\<close> is an optional index into its pool. \<open>get_core_num()\<close> is an argument
  (0 or 1) of the code that calls it, \<open>time_us_64()\<close> reads \<open>time_us\<close>, and \<open>pendsv\<close> is the
  \<open>PENDSVSET\<close> bit of each core's \<open>SCB->ICSR\<close>. The fields of the lock-debug build
  (\<open>PICOOS_LOCK_DEBUG\<close>) are left out.
\<close>

section \<open>Constants and control blocks\<close>

definition MAX_THREADS :: nat where "MAX_THREADS = 16"
definition MAX_PROCESSES :: nat where "MAX_PROCESSES = 8"
definition MAX_FDS :: nat where "MAX_FDS = 16"
definition DEFAULT_STACK_SIZE :: u32 where "DEFAULT_STACK_SIZE = 2048"
definition IDLE_STACK_SIZE :: u32 where "IDLE_STACK_SIZE = 512"
definition STACK_CANARY :: u32 where "STACK_CANARY = 0xDEADBEEF"

definition THREAD_AFFINITY_ANY :: u8 where "THREAD_AFFINITY_ANY = - 1"
definition THREAD_AFFINITY_C0 :: u8 where "THREAD_AFFINITY_C0 = 0"
definition THREAD_AFFINITY_C1 :: u8 where "THREAD_AFFINITY_C1 = 1"

definition PID_KERNEL :: u32 where "PID_KERNEL = 1"
definition PID_KERNEL_MIN :: u32 where "PID_KERNEL_MIN = 1"
definition PID_KERNEL_MAX :: u32 where "PID_KERNEL_MAX = 9"

definition PID_IS_KERNEL :: "u32 \<Rightarrow> bool" where
  "PID_IS_KERNEL pid \<longleftrightarrow> PID_KERNEL_MIN \<le> pid \<and> pid \<le> PID_KERNEL_MAX"

definition PID_RANGE_COUNT :: nat where "PID_RANGE_COUNT = 4"
definition NUM_PRIORITIES :: nat where "NUM_PRIORITIES = 8"
definition TIME_SLICE_MS :: u32 where "TIME_SLICE_MS = 10"
definition TRACE_EVENTS :: u32 where "TRACE_EVENTS = 128"
definition TRACE_NAME_LEN :: nat where "TRACE_NAME_LEN = 12"

lemmas kernel_consts [simp] = MAX_THREADS_def MAX_PROCESSES_def MAX_FDS_def PID_RANGE_COUNT_def
  NUM_PRIORITIES_def

datatype thread_state =
  THREAD_NEW | THREAD_READY | THREAD_RUNNING | THREAD_BLOCKED | THREAD_SLEEPING | THREAD_ZOMBIE

fun state_code :: "thread_state \<Rightarrow> u8" where
  "state_code THREAD_NEW = 0"
| "state_code THREAD_READY = 1"
| "state_code THREAD_RUNNING = 2"
| "state_code THREAD_BLOCKED = 3"
| "state_code THREAD_SLEEPING = 4"
| "state_code THREAD_ZOMBIE = 5"

record tcb =
  t_tid :: u32
  t_pid :: u32
  t_stack_base :: "nat option"
  t_stack_size :: u32
  t_saved_sp :: nat
  t_exc_return :: u32
  t_priority :: u8
  t_affinity :: u8
  t_state :: thread_state
  t_kill_pending :: bool
  t_wake_time_us :: u64
  t_cpu_time_us :: u64
  t_name :: string
  t_next :: "nat option"

record pcb =
  p_pid :: u32
  p_parent_pid :: u32
  p_name :: string
  p_threads :: "nat option list"
  p_thread_count :: nat
  p_fd_table :: "int list"
  p_cwd :: string
  p_heap_base :: "nat option"
  p_heap_size :: u32
  p_exit_code :: int
  p_alive :: bool

text \<open>The contents after \<open>memset(p, 0, sizeof *p)\<close>.\<close>

definition tcb_zero :: tcb where
  "tcb_zero = \<lparr>t_tid = 0, t_pid = 0, t_stack_base = None, t_stack_size = 0, t_saved_sp = 0,
     t_exc_return = 0, t_priority = 0, t_affinity = 0, t_state = THREAD_NEW,
     t_kill_pending = False, t_wake_time_us = 0, t_cpu_time_us = 0, t_name = [], t_next = None\<rparr>"

definition pcb_zero :: pcb where
  "pcb_zero = \<lparr>p_pid = 0, p_parent_pid = 0, p_name = [], p_threads = replicate MAX_THREADS None,
     p_thread_count = 0, p_fd_table = replicate MAX_FDS 0, p_cwd = [], p_heap_base = None,
     p_heap_size = 0, p_exit_code = 0, p_alive = False\<rparr>"

record pid_range_info =
  pr_base :: u32
  pr_limit :: u32
  pr_next :: u32

datatype trace_type = TRACE_SWITCH | TRACE_WAKE | TRACE_UNBLOCK | TRACE_KILL

record trace_event =
  te_time_us :: u32
  te_type :: trace_type
  te_core :: nat
  te_state :: u8
  te_tid :: u32
  te_to_tid :: u32
  te_name :: string
  te_to_name :: string

section \<open>The kernel state\<close>

record kstate = heap +
  tcb_pool :: "nat \<Rightarrow> tcb"
  pcb_pool :: "nat \<Rightarrow> pcb"
  tcb_used :: "nat \<Rightarrow> bool"
  pcb_used :: "nat \<Rightarrow> bool"
  next_tid :: u32
  pid_ranges :: "nat \<Rightarrow> pid_range_info"
  current_tcb :: "nat \<Rightarrow> nat option"
  s_kernel_proc :: "nat option"
  tick_count :: u32
  ready_queues :: "nat \<Rightarrow> nat option"
  slice_remaining :: "nat \<Rightarrow> u32"
  sched_lock :: bool
  trace_ring :: "nat \<Rightarrow> trace_event"
  trace_seq :: u32
  trace_on :: bool
  trace_filter :: string
  pendsv :: "nat \<Rightarrow> bool"
  time_us :: u64

definition upd_tcb :: "nat \<Rightarrow> (tcb \<Rightarrow> tcb) \<Rightarrow> 'a kstate_scheme \<Rightarrow> 'a kstate_scheme" where
  "upd_tcb t f s = s\<lparr>tcb_pool := (tcb_pool s)(t := f (tcb_pool s t))\<rparr>"

definition upd_pcb :: "nat \<Rightarrow> (pcb \<Rightarrow> pcb) \<Rightarrow> 'a kstate_scheme \<Rightarrow> 'a kstate_scheme" where
  "upd_pcb p f s = s\<lparr>pcb_pool := (pcb_pool s)(p := f (pcb_pool s p))\<rparr>"

definition next_of :: "'a kstate_scheme \<Rightarrow> nat \<Rightarrow> nat option" where
  "next_of s x = t_next (tcb_pool s x)"

definition set_next :: "nat \<Rightarrow> nat option \<Rightarrow> 'a kstate_scheme \<Rightarrow> 'a kstate_scheme" where
  "set_next t n = upd_tcb t (\<lambda>b. b\<lparr>t_next := n\<rparr>)"

definition set_state :: "nat \<Rightarrow> thread_state \<Rightarrow> 'a kstate_scheme \<Rightarrow> 'a kstate_scheme" where
  "set_state t st = upd_tcb t (\<lambda>b. b\<lparr>t_state := st\<rparr>)"

text \<open>\<open>spinlock_irq_acquire(&sched_lock)\<close> and its release, as the critical sections see them.\<close>

definition sched_acquire :: "'a kstate_scheme \<Rightarrow> 'a kstate_scheme option" where
  "sched_acquire s = (if sched_lock s then None else Some (s\<lparr>sched_lock := True\<rparr>))"

definition sched_release :: "'a kstate_scheme \<Rightarrow> 'a kstate_scheme" where
  "sched_release s = s\<lparr>sched_lock := False\<rparr>"

section \<open>Ready queues\<close>

text \<open>\<open>prio = t->priority; if (prio >= NUM_PRIORITIES) prio = NUM_PRIORITIES - 1;\<close>\<close>

definition prio_of :: "tcb \<Rightarrow> nat" where
  "prio_of b = (if NUM_PRIORITIES \<le> unat (t_priority b) then NUM_PRIORITIES - 1
                else unat (t_priority b))"

definition set_ready :: "nat \<Rightarrow> nat option \<Rightarrow> 'a kstate_scheme \<Rightarrow> 'a kstate_scheme" where
  "set_ready p h s = s\<lparr>ready_queues := (ready_queues s)(p := h)\<rparr>"

definition sched_add_thread_raw :: "nat option \<Rightarrow> 'a kstate_scheme \<Rightarrow> 'a kstate_scheme option" where
  "sched_add_thread_raw tp s = (case tp of
       None \<Rightarrow> Some s
     | Some t \<Rightarrow>
         (let prio = prio_of (tcb_pool s t);
              s1 = set_next t None s
          in case ready_queues s1 prio of
               None \<Rightarrow> Some (set_ready prio (Some t) s1)
             | Some h \<Rightarrow> do {
                 cur \<leftarrow> last_node (next_of s1) h;
                 Some (set_next cur (Some t) s1)
               }))"

text \<open>The search loop of the removal: whether \<open>t\<close> is on the list, and its predecessor.\<close>

partial_function (option) rq_search ::
  "(nat \<Rightarrow> nat option) \<Rightarrow> nat \<Rightarrow> nat option \<Rightarrow> nat option \<Rightarrow> (bool \<times> nat option) option" where
  "rq_search nx t cur prev = (case cur of
       None \<Rightarrow> Some (False, prev)
     | Some c \<Rightarrow> if c = t then Some (True, prev) else rq_search nx t (nx c) (Some c))"

definition sched_remove_thread_raw :: "nat option \<Rightarrow> 'a kstate_scheme \<Rightarrow> 'a kstate_scheme option" where
  "sched_remove_thread_raw tp s = (case tp of
       None \<Rightarrow> Some s
     | Some t \<Rightarrow>
         (let prio = prio_of (tcb_pool s t)
          in do {
            (found, prev) \<leftarrow> rq_search (next_of s) t (ready_queues s prio) None;
            if \<not> found then Some s
            else
              let s1 = (case prev of
                          None \<Rightarrow> set_ready prio (next_of s t) s
                        | Some q \<Rightarrow> set_next q (next_of s t) s)
              in Some (set_next t None s1)
          }))"

definition sched_add_thread :: "nat option \<Rightarrow> 'a kstate_scheme \<Rightarrow> 'a kstate_scheme option" where
  "sched_add_thread t s = do {
     s1 \<leftarrow> sched_acquire s;
     s2 \<leftarrow> sched_add_thread_raw t s1;
     Some (sched_release s2)
   }"

definition sched_remove_thread :: "nat option \<Rightarrow> 'a kstate_scheme \<Rightarrow> 'a kstate_scheme option" where
  "sched_remove_thread t s = do {
     s1 \<leftarrow> sched_acquire s;
     s2 \<leftarrow> sched_remove_thread_raw t s1;
     Some (sched_release s2)
   }"

section \<open>What the ready queues hold\<close>

text \<open>
  \<open>rq_abs s qs\<close>: the eight lists are well formed, list \<open>p\<close> holds \<open>qs p\<close> in order, and every
  thread is on the list of its own priority.
\<close>

definition rq_abs :: "'a kstate_scheme \<Rightarrow> (nat \<Rightarrow> nat list) \<Rightarrow> bool" where
  "rq_abs s qs \<longleftrightarrow> (\<forall>p < NUM_PRIORITIES. chain (next_of s) (ready_queues s p) (qs p) \<and>
     (\<forall>x \<in> set (qs p). prio_of (tcb_pool s x) = p))"

text \<open>\<open>s'\<close> differs from \<open>s\<close> only in queue heads and in the links of threads in \<open>X\<close>.\<close>

definition relinked :: "nat set \<Rightarrow> 'a kstate_scheme \<Rightarrow> 'a kstate_scheme \<Rightarrow> bool" where
  "relinked X s s' \<longleftrightarrow> (\<exists>N R. s' = s\<lparr>tcb_pool := (\<lambda>x. (tcb_pool s x)\<lparr>t_next := N x\<rparr>), ready_queues := R\<rparr> \<and>
     (\<forall>x. x \<notin> X \<longrightarrow> N x = next_of s x))"

lemma prio_of_less [simp]: "prio_of b < 8"
  by (simp add: prio_of_def)

lemma prio_of_next [simp]:
  "prio_of (b\<lparr>t_next := n\<rparr>) = prio_of b" "prio_of (b\<lparr>t_state := st\<rparr>) = prio_of b"
  by (simp_all add: prio_of_def)

lemma pool_upd [simp]: "tcb_pool (upd_tcb t f s) = (tcb_pool s)(t := f (tcb_pool s t))"
  by (simp add: upd_tcb_def)

lemma next_of_set_next [simp]: "next_of (set_next t n s) = (next_of s)(t := n)"
  by (auto simp: next_of_def set_next_def)

lemma next_of_set_state [simp]: "next_of (set_state t st s) = next_of s"
  by (auto simp: next_of_def set_state_def)

lemma next_of_set_ready [simp]: "next_of (set_ready p h s) = next_of s"
  by (auto simp: next_of_def set_ready_def)

lemma ready_queues_simps [simp]:
  "ready_queues (set_ready p h s) = (ready_queues s)(p := h)"
  "ready_queues (set_next t n s) = ready_queues s"
  "ready_queues (set_state t st s) = ready_queues s"
  "ready_queues (upd_tcb t f s) = ready_queues s"
  by (simp_all add: set_ready_def set_next_def set_state_def upd_tcb_def)

lemma tcb_pool_simps [simp]:
  "tcb_pool (set_ready p h s) = tcb_pool s"
  "tcb_pool (set_next t n s) = (tcb_pool s)(t := (tcb_pool s t)\<lparr>t_next := n\<rparr>)"
  "tcb_pool (set_state t st s) = (tcb_pool s)(t := (tcb_pool s t)\<lparr>t_state := st\<rparr>)"
  by (simp_all add: set_ready_def set_next_def set_state_def)

lemma prio_of_set_next [simp]: "prio_of (tcb_pool (set_next t n s) x) = prio_of (tcb_pool s x)"
  by simp

lemma pool_next_id [simp]: "(tcb_pool s x)\<lparr>t_next := next_of s x\<rparr> = tcb_pool s x"
  by (simp add: next_of_def)

lemma relinked_refl [simp]: "relinked X s s"
  unfolding relinked_def by (intro exI [of _ "next_of s"] exI [of _ "ready_queues s"]) simp

lemma relinked_set_next:
  assumes "relinked X s s'" and "t \<in> X"
  shows "relinked X s (set_next t n s')"
proof -
  from assms(1) obtain N R where s': "s' = s\<lparr>tcb_pool := (\<lambda>x. (tcb_pool s x)\<lparr>t_next := N x\<rparr>), ready_queues := R\<rparr>"
    and N: "\<forall>x. x \<notin> X \<longrightarrow> N x = next_of s x" by (auto simp: relinked_def)
  have "set_next t n s' = s\<lparr>tcb_pool := (\<lambda>x. (tcb_pool s x)\<lparr>t_next := (N(t := n)) x\<rparr>), ready_queues := R\<rparr>"
    unfolding s' set_next_def upd_tcb_def by (simp add: fun_eq_iff)
  with N assms(2) show ?thesis unfolding relinked_def
    by (intro exI [of _ "N(t := n)"] exI [of _ R]) auto
qed

lemma relinked_set_ready:
  assumes "relinked X s s'"
  shows "relinked X s (set_ready p h s')"
proof -
  from assms obtain N R where s': "s' = s\<lparr>tcb_pool := (\<lambda>x. (tcb_pool s x)\<lparr>t_next := N x\<rparr>), ready_queues := R\<rparr>"
    and N: "\<forall>x. x \<notin> X \<longrightarrow> N x = next_of s x" by (auto simp: relinked_def)
  have "set_ready p h s' = s\<lparr>tcb_pool := (\<lambda>x. (tcb_pool s x)\<lparr>t_next := N x\<rparr>), ready_queues := R(p := h)\<rparr>"
    unfolding s' set_ready_def by simp
  with N show ?thesis unfolding relinked_def
    by (intro exI [of _ N] exI [of _ "R(p := h)"]) auto
qed

lemma relinked_pool:
  assumes "relinked X s s'"
  obtains N where "tcb_pool s' = (\<lambda>x. (tcb_pool s x)\<lparr>t_next := N x\<rparr>)"
    "\<forall>x. x \<notin> X \<longrightarrow> N x = next_of s x"
  using assms by (auto simp: relinked_def)

lemma rq_abs_other:
  "rq_abs s qs \<Longrightarrow> p < 8 \<Longrightarrow> x \<in> set (qs p) \<Longrightarrow> prio_of (tcb_pool s x) = p"
  by (simp add: rq_abs_def)

lemma rq_abs_chain: "rq_abs s qs \<Longrightarrow> p < 8 \<Longrightarrow> chain (next_of s) (ready_queues s p) (qs p)"
  by (simp add: rq_abs_def)

lemma rq_abs_distinct: "rq_abs s qs \<Longrightarrow> p < 8 \<Longrightarrow> distinct (qs p)"
  by (blast dest: rq_abs_chain chain_distinct)

text \<open>Replacing one queue, when only links of its own members (and of \<open>t\<close>) changed.\<close>

lemma rq_abs_update:
  assumes "rq_abs s qs" and "p < 8"
    and "relinked (insert t (set (qs p))) s s'" and "prio_of (tcb_pool s t) = p"
    and "\<And>q. q \<noteq> p \<Longrightarrow> ready_queues s' q = ready_queues s q"
    and "chain (next_of s') (ready_queues s' p) ys" and "set ys \<subseteq> insert t (set (qs p))"
  shows "rq_abs s' (qs(p := ys))"
proof -
  from assms(3) obtain N where N: "tcb_pool s' = (\<lambda>x. (tcb_pool s x)\<lparr>t_next := N x\<rparr>)"
    "\<forall>x. x \<notin> insert t (set (qs p)) \<longrightarrow> N x = next_of s x" by (rule relinked_pool)
  have prio: "prio_of (tcb_pool s' x) = prio_of (tcb_pool s x)" for x
    by (simp add: N(1))
  have "chain (next_of s') (ready_queues s' q) (qs q)" if "q < 8" "q \<noteq> p" for q
  proof -
    have "x \<notin> insert t (set (qs p))" if "x \<in> set (qs q)" for x
      using that \<open>q < 8\<close> \<open>q \<noteq> p\<close> assms(1,2,4) by (auto dest: rq_abs_other)
    then have "next_of s' x = next_of s x" if "x \<in> set (qs q)" for x
      using that N(2) by (simp add: N(1) next_of_def)
    then show ?thesis
      using rq_abs_chain [OF assms(1) \<open>q < 8\<close>] assms(5) [OF \<open>q \<noteq> p\<close>] by (auto intro: chain_cong)
  qed
  moreover have "prio_of (tcb_pool s' x) = p" if "x \<in> set ys" for x
    using that assms(1,2,4,7) prio by (auto dest: rq_abs_other)
  moreover have "prio_of (tcb_pool s' x) = q" if "q < 8" "q \<noteq> p" "x \<in> set (qs q)" for q x
    using that assms(1) prio by (auto dest: rq_abs_other)
  ultimately show ?thesis using assms(6) by (simp add: rq_abs_def)
qed

text \<open>Appending a thread that is on no list of its priority.\<close>

lemma add_raw_spec:
  assumes "rq_abs s qs" and "t \<notin> set (qs (prio_of (tcb_pool s t)))"
  defines "p \<equiv> prio_of (tcb_pool s t)"
  shows "\<exists>s'. sched_add_thread_raw (Some t) s = Some s' \<and> rq_abs s' (qs(p := qs p @ [t])) \<and>
           relinked (insert t (set (qs p))) s s'"
proof -
  let ?s1 = "set_next t None s"
  have p: "p < 8" by (simp add: p_def)
  have c: "chain (next_of s) (ready_queues s p) (qs p)" by (rule rq_abs_chain [OF assms(1) p])
  have notin: "t \<notin> set (qs p)" using assms(2) by (simp add: p_def)
  have c1: "chain (next_of ?s1) (ready_queues s p) (qs p)"
    using c notin by (simp add: chain_upd_other del: fun_upd_apply)
  have l1: "relinked (insert t (set (qs p))) s ?s1" by (simp add: relinked_set_next)
  show ?thesis
  proof (cases "qs p = []")
    case True
    with c have "ready_queues s p = None" by simp
    then have "sched_add_thread_raw (Some t) s = Some (set_ready p (Some t) ?s1)"
      by (simp add: sched_add_thread_raw_def Let_def p_def)
    moreover have "rq_abs (set_ready p (Some t) ?s1) (qs(p := [t]))"
      using True by (intro rq_abs_update [OF assms(1) p relinked_set_ready [OF l1]])
        (auto simp: p_def)
    ultimately show ?thesis using True relinked_set_ready [OF l1] by auto
  next
    case False
    from chain_append_single [OF c1 False] obtain h where h: "ready_queues s p = Some h"
      "last_node (next_of ?s1) h = Some (last (qs p))" by auto
    let ?s2 = "set_next (last (qs p)) (Some t) ?s1"
    have add: "sched_add_thread_raw (Some t) s = Some ?s2"
      using h by (simp add: sched_add_thread_raw_def Let_def p_def)
    have l2: "relinked (insert t (set (qs p))) s ?s2"
      using False by (intro relinked_set_next [OF l1]) simp
    have "chain (next_of ?s2) (ready_queues ?s2 p) (qs p @ [t])"
      using chain_append_tail [OF c False notin] by (simp del: fun_upd_apply)
    then have "rq_abs ?s2 (qs(p := qs p @ [t]))"
      by (intro rq_abs_update [OF assms(1) p l2]) (auto simp: p_def)
    with add l2 show ?thesis by auto
  qed
qed

lemma add_raw_null [simp]: "sched_add_thread_raw None s = Some s"
  by (simp add: sched_add_thread_raw_def)

lemma remove_raw_null [simp]: "sched_remove_thread_raw None s = Some s"
  by (simp add: sched_remove_thread_raw_def)

lemma rq_search_notin:
  "chain nx p xs \<Longrightarrow> t \<notin> set xs \<Longrightarrow> \<exists>q. rq_search nx t p prev = Some (False, q)"
proof (induction xs arbitrary: p prev)
  case Nil
  then show ?case by (simp add: rq_search.simps)
next
  case (Cons x xs)
  then show ?case by (subst rq_search.simps) auto
qed

lemma rq_search_found:
  "chain nx p (xs @ t # ys) \<Longrightarrow> t \<notin> set xs \<Longrightarrow>
     rq_search nx t p prev = Some (True, if xs = [] then prev else Some (last xs))"
proof (induction xs arbitrary: p prev)
  case Nil
  then show ?case by (simp add: rq_search.simps)
next
  case (Cons x xs)
  then show ?case by (subst rq_search.simps) auto
qed

text \<open>Removing: a thread that is on no list of its priority changes nothing.\<close>

lemma remove_raw_notin:
  assumes "rq_abs s qs" and "t \<notin> set (qs (prio_of (tcb_pool s t)))"
  shows "sched_remove_thread_raw (Some t) s = Some s"
  using rq_search_notin [OF rq_abs_chain [OF assms(1)] assms(2), of None]
  by (auto simp: sched_remove_thread_raw_def Let_def)

lemma remove_raw_spec:
  fixes s :: "'a kstate_scheme" and t :: nat
  assumes "rq_abs s qs"
  defines "p \<equiv> prio_of (tcb_pool s t)"
  shows "\<exists>s'. sched_remove_thread_raw (Some t) s = Some s' \<and> rq_abs s' (qs(p := remove1 t (qs p))) \<and>
           relinked (insert t (set (qs p))) s s'"
proof (cases "t \<in> set (qs p)")
  case False
  then have "qs(p := remove1 t (qs p)) = qs" by (simp add: remove1_idem)
  with False remove_raw_notin [OF assms(1), of t] assms(1) show ?thesis by (auto simp: p_def)
next
  case True
  have p: "p < 8" by (simp add: p_def)
  from True obtain xs ys where qs: "qs p = xs @ t # ys" and xs: "t \<notin> set xs"
    by (meson split_list_first)
  have c: "chain (next_of s) (ready_queues s p) (xs @ t # ys)"
    using rq_abs_chain [OF assms(1) p] qs by simp
  let ?s1 = "if xs = [] then set_ready p (next_of s t) s else set_next (last xs) (next_of s t) s"
  let ?s2 = "set_next t None ?s1"
  have rem: "sched_remove_thread_raw (Some t) s = Some ?s2"
    using rq_search_found [OF c xs, of None]
    by (simp add: sched_remove_thread_raw_def Let_def p_def [symmetric])
  have "last xs \<in> set (qs p)" if "xs \<noteq> []" using that qs by simp
  then have l1: "relinked (insert t (set (qs p))) s ?s1"
    by (simp add: relinked_set_next relinked_set_ready)
  then have l2: "relinked (insert t (set (qs p))) s ?s2" by (rule relinked_set_next) simp
  have "chain (next_of ?s2) (ready_queues ?s2 p) (xs @ ys)"
  proof (cases xs rule: rev_cases)
    case Nil
    with c show ?thesis using chain_remove_head [of "next_of s" t ys]
      by (auto simp: fun_upd_same simp del: fun_upd_apply)
  next
    case (snoc us q)
    with c chain_remove_mid [of "next_of s" "ready_queues s p" us q t ys] show ?thesis
      by (simp del: fun_upd_apply)
  qed
  then have "rq_abs ?s2 (qs(p := xs @ ys))"
    using qs by (intro rq_abs_update [OF assms(1) p l2]) (auto simp: p_def)
  moreover have "remove1 t (qs p) = xs @ ys" using qs xs by (simp add: remove1_append)
  ultimately show ?thesis using rem l2 by auto
qed

text \<open>The queues do not see a change that keeps links, heads and priorities.\<close>

lemma rq_abs_cong:
  assumes "next_of s' = next_of s" and "ready_queues s' = ready_queues s"
    and "\<And>x. t_priority (tcb_pool s' x) = t_priority (tcb_pool s x)"
  shows "rq_abs s' qs \<longleftrightarrow> rq_abs s qs"
  using assms by (simp add: rq_abs_def prio_of_def)

lemma rq_abs_set_state [simp]: "rq_abs (set_state t st s) qs \<longleftrightarrow> rq_abs s qs"
  by (rule rq_abs_cong) auto

lemma rq_abs_lock [simp]: "rq_abs (s\<lparr>sched_lock := b\<rparr>) qs \<longleftrightarrow> rq_abs s qs"
  by (rule rq_abs_cong) (auto simp: next_of_def)

lemma rq_abs_release [simp]: "rq_abs (sched_release s) qs \<longleftrightarrow> rq_abs s qs"
  by (simp add: sched_release_def)

lemma relinked_locked:
  assumes "relinked X (s\<lparr>sched_lock := True\<rparr>) s'" and "\<not> sched_lock s"
  shows "relinked X s (sched_release s')"
proof -
  from assms(1) obtain N R where s': "s' = s\<lparr>sched_lock := True, tcb_pool := (\<lambda>x. (tcb_pool s x)\<lparr>t_next := N x\<rparr>),
      ready_queues := R\<rparr>" and N: "\<forall>x. x \<notin> X \<longrightarrow> N x = next_of s x"
    by (auto simp: relinked_def next_of_def)
  have "sched_release s' = s\<lparr>tcb_pool := (\<lambda>x. (tcb_pool s x)\<lparr>t_next := N x\<rparr>), ready_queues := R\<rparr>"
    unfolding s' sched_release_def using assms(2) by simp
  with N show ?thesis unfolding relinked_def by blast
qed

text \<open>The public wrappers: the lock is taken and released around the raw operation.\<close>

lemma sched_add_thread_spec:
  assumes "rq_abs s qs" and "t \<notin> set (qs (prio_of (tcb_pool s t)))" and "\<not> sched_lock s"
  shows "\<exists>s'. sched_add_thread (Some t) s = Some s' \<and>
           rq_abs s' (qs(prio_of (tcb_pool s t) := qs (prio_of (tcb_pool s t)) @ [t])) \<and>
           relinked (insert t (set (qs (prio_of (tcb_pool s t))))) s s'"
proof -
  have *: "rq_abs (s\<lparr>sched_lock := True\<rparr>) qs" using assms(1) by simp
  obtain s2 where "sched_add_thread_raw (Some t) (s\<lparr>sched_lock := True\<rparr>) = Some s2"
    "rq_abs s2 (qs(prio_of (tcb_pool s t) := qs (prio_of (tcb_pool s t)) @ [t]))"
    "relinked (insert t (set (qs (prio_of (tcb_pool s t))))) (s\<lparr>sched_lock := True\<rparr>) s2"
    using add_raw_spec [OF *, of t] assms(2) by auto
  with assms(3) show ?thesis
    by (intro exI [of _ "sched_release s2"])
      (auto simp: sched_add_thread_def sched_acquire_def relinked_locked)
qed

text \<open>The queues of a state, computed; no list is longer than the pool.\<close>

definition ready_list :: "'a kstate_scheme \<Rightarrow> nat \<Rightarrow> nat list" where
  "ready_list s p = chain_walk (next_of s) MAX_THREADS (ready_queues s p)"

definition rq_wf :: "'a kstate_scheme \<Rightarrow> bool" where
  "rq_wf s \<longleftrightarrow> rq_abs s (ready_list s) \<and> (\<forall>p < NUM_PRIORITIES. \<forall>x \<in> set (ready_list s p). x < MAX_THREADS)"

lemma distinct_bounded_length: "distinct xs \<Longrightarrow> \<forall>x \<in> set xs. x < n \<Longrightarrow> length xs \<le> n"
  using card_mono [of "{..<n}" "set xs"] by (auto simp: distinct_card)

lemma rq_abs_ready_list:
  assumes "rq_abs s qs" and "\<forall>x \<in> set (qs p). x < 16" and "p < 8"
  shows "ready_list s p = qs p"
  using distinct_bounded_length [OF rq_abs_distinct [OF assms(1,3)] assms(2)]
    rq_abs_chain [OF assms(1,3)] by (simp add: ready_list_def chain_walk_chain)

section \<open>The ready queues are FIFO lists\<close>

interpretation ready: fifo_list "\<lambda>t. sched_add_thread_raw (Some t)"
  "\<lambda>s xs. \<exists>qs. rq_abs s qs \<and> qs p = xs \<and> p < 8" "\<lambda>t s. prio_of (tcb_pool s t) = p"
  for p
proof (unfold_locales, goal_cases)
  case (1 s xs t)
  then obtain qs where qs: "rq_abs s qs" "qs p = xs" by blast
  with 1 add_raw_spec [of s qs t] obtain s' where s': "sched_add_thread_raw (Some t) s = Some s'"
    "rq_abs s' (qs(p := xs @ [t]))" "relinked (insert t (set xs)) s s'" by auto
  from s'(3) have "prio_of (tcb_pool s' y) = prio_of (tcb_pool s y)" for y
    by (auto simp: relinked_def)
  with s' 1 show ?case by (intro exI [of _ s'] conjI exI [of _ "qs(p := xs @ [t])"]) auto
qed

end
