(* ===== verification/Task.thy ===== *)
theory Task
  imports Kernel
begin

text \<open>
  \<open>src/kernel/task.c\<close>: the task manager. Threads and processes are created from and returned to
  the static pools; a thread's stack is a block of the kernel heap; a process is freed with its
  last thread. Killing (\<open>task_kill_thread\<close>, \<open>task_kill_process\<close>) needs the scheduler and is in
  the theory \<open>Sched\<close>.

  The address of \<open>thread_exit\<close> is fixed by the linker and an argument of the code that stores it.
\<close>

section \<open>Initialisation and lookup\<close>

definition pid_ranges_init :: "nat \<Rightarrow> pid_range_info" where
  "pid_ranges_init i =
     (if i = 0 then \<lparr>pr_base = 10, pr_limit = 49, pr_next = 10\<rparr>
      else if i = 1 then \<lparr>pr_base = 50, pr_limit = 99, pr_next = 50\<rparr>
      else if i = 2 then \<lparr>pr_base = 100, pr_limit = 199, pr_next = 100\<rparr>
      else \<lparr>pr_base = 200, pr_limit = 299, pr_next = 200\<rparr>)"

definition task_init :: "'a kstate_scheme \<Rightarrow> 'a kstate_scheme" where
  "task_init s = s\<lparr>
     tcb_pool := (\<lambda>_. tcb_zero),
     pcb_pool := (\<lambda>_. pcb_zero),
     tcb_used := (\<lambda>_. False),
     pcb_used := (\<lambda>_. False),
     next_tid := 1,
     pid_ranges := (\<lambda>i. if i < PID_RANGE_COUNT
                        then (pid_ranges s i)\<lparr>pr_next := pr_base (pid_ranges s i)\<rparr>
                        else pid_ranges s i),
     current_tcb := (current_tcb s)(0 := None, 1 := None)\<rparr>"

definition task_find_thread :: "u32 \<Rightarrow> 'a kstate_scheme \<Rightarrow> nat option" where
  "task_find_thread tid s = first_slot (\<lambda>i. tcb_used s i \<and> t_tid (tcb_pool s i) = tid) MAX_THREADS"

definition task_find_process :: "u32 \<Rightarrow> 'a kstate_scheme \<Rightarrow> nat option" where
  "task_find_process pid s = first_slot (\<lambda>i. pcb_used s i \<and> p_pid (pcb_pool s i) = pid) MAX_PROCESSES"

definition task_get_thread_slot :: "int \<Rightarrow> 'a kstate_scheme \<Rightarrow> nat option" where
  "task_get_thread_slot idx s =
     (if idx < 0 \<or> int MAX_THREADS \<le> idx then None
      else if \<not> tcb_used s (nat idx) then None
      else Some (nat idx))"

definition task_get_process_slot :: "int \<Rightarrow> 'a kstate_scheme \<Rightarrow> nat option" where
  "task_get_process_slot idx s =
     (if idx < 0 \<or> int MAX_PROCESSES \<le> idx then None
      else if \<not> pcb_used s (nat idx) then None
      else Some (nat idx))"

definition task_get_kernel_proc :: "'a kstate_scheme \<Rightarrow> nat option" where
  "task_get_kernel_proc s = s_kernel_proc s"

definition task_thread_count :: "'a kstate_scheme \<Rightarrow> nat" where
  "task_thread_count s = length (filter (tcb_used s) [0..<MAX_THREADS])"

definition task_process_count :: "'a kstate_scheme \<Rightarrow> nat" where
  "task_process_count s = length (filter (pcb_used s) [0..<MAX_PROCESSES])"

section \<open>Process identifiers\<close>

text \<open>The loop of \<open>task_alloc_pid\<close>: \<open>fuel\<close> counts the remaining iterations of the \<open>for\<close>.\<close>

fun alloc_pid_loop :: "nat \<Rightarrow> pid_range_info \<Rightarrow> u32 \<Rightarrow> 'a kstate_scheme \<Rightarrow> (u32 \<times> u32) option" where
  "alloc_pid_loop 0 r pid s = None"
| "alloc_pid_loop (Suc fuel) r pid s =
     (let candidate = pid;
          pid' = (if pid = pr_limit r then pr_base r else pid + 1)
      in if task_find_process candidate s = None then Some (candidate, pid')
         else alloc_pid_loop fuel r pid' s)"

definition task_alloc_pid :: "nat \<Rightarrow> 'a kstate_scheme \<Rightarrow> u32 \<times> 'a kstate_scheme" where
  "task_alloc_pid rng s =
     (if PID_RANGE_COUNT \<le> rng then (0, s)
      else
        let r = pid_ranges s rng;
            span = pr_limit r - pr_base r + 1
        in case alloc_pid_loop (unat span) r (pr_next r) s of
             None \<Rightarrow> (0, s)
           | Some (candidate, pid) \<Rightarrow>
               (candidate, s\<lparr>pid_ranges := (pid_ranges s)(rng := r\<lparr>pr_next := pid\<rparr>)\<rparr>))"

section \<open>Creating processes and threads\<close>

definition task_create_process ::
  "string option \<Rightarrow> u32 \<Rightarrow> 'a kstate_scheme \<Rightarrow> nat option \<times> 'a kstate_scheme" where
  "task_create_process name pid s =
     (if pid = 0 \<or> task_find_process pid s \<noteq> None then (None, s)
      else case first_slot (\<lambda>i. \<not> pcb_used s i) MAX_PROCESSES of
        None \<Rightarrow> (None, s)
      | Some slot \<Rightarrow>
          (Some slot,
           upd_pcb slot
             (\<lambda>p. p\<lparr>p_pid := pid, p_parent_pid := 0, p_thread_count := 0,
                    p_heap_base := None, p_heap_size := 0, p_exit_code := 0, p_alive := True,
                    p_name := strncpy_z 16 (case name of None \<Rightarrow> ''process'' | Some n \<Rightarrow> n),
                    p_cwd := strncpy_z 64 ''/'',
                    p_fd_table := replicate MAX_FDS (- 1),
                    p_threads := replicate MAX_THREADS None\<rparr>)
             (s\<lparr>pcb_used := (pcb_used s)(slot := True),
                s_kernel_proc := (if pid = PID_KERNEL then Some slot else s_kernel_proc s)\<rparr>)))"

text \<open>Consecutive words in memory, and the initial exception frame in address order.\<close>

fun store_words :: "nat \<Rightarrow> u32 list \<Rightarrow> (nat \<Rightarrow> u32) \<Rightarrow> nat \<Rightarrow> u32" where
  "store_words a [] m = m"
| "store_words a (w # ws) m = store_words (a + 4) ws (m(a := w))"

definition initial_frame :: "u32 \<Rightarrow> u32 \<Rightarrow> u32 \<Rightarrow> u32 list" where
  "initial_frame entry arg thread_exit =
     [0, 0, 0, 0, 0, 0, 0, 0,
      arg, 0, 0, 0, 0, thread_exit, entry, 0x01000000]"

definition task_create_thread ::
  "u32 \<Rightarrow> nat option \<Rightarrow> string option \<Rightarrow> u32 \<Rightarrow> u32 \<Rightarrow> u8 \<Rightarrow> u32 \<Rightarrow>
     'a kstate_scheme \<Rightarrow> (nat option \<times> 'a kstate_scheme) option" where
  "task_create_thread thread_exit proc name entry arg priority stack_size s =
     (case first_slot (\<lambda>i. \<not> tcb_used s i) MAX_THREADS of
        None \<Rightarrow> Some (None, s)
      | Some t \<Rightarrow> do {
          let s1 = s\<lparr>tcb_used := (tcb_used s)(t := True)\<rparr>;
          (stack, s2) \<leftarrow> kmalloc stack_size s1;
          let s3 = upd_tcb t (\<lambda>b. b\<lparr>t_stack_base := stack\<rparr>) s2;
          case stack of
            None \<Rightarrow> Some (None, s3\<lparr>tcb_used := (tcb_used s3)(t := False)\<rparr>)
          | Some base \<Rightarrow>
              let s4 = upd_tcb t
                    (\<lambda>b. b\<lparr>t_tid := next_tid s3,
                           t_pid := (case proc of None \<Rightarrow> 0 | Some p \<Rightarrow> p_pid (pcb_pool s3 p)),
                           t_stack_size := stack_size, t_priority := priority,
                           t_affinity := THREAD_AFFINITY_ANY, t_state := THREAD_READY,
                           t_kill_pending := False, t_wake_time_us := 0, t_cpu_time_us := 0,
                           t_next := None,
                           t_name := strncpy_z 16 (case name of None \<Rightarrow> ''thread'' | Some n \<Rightarrow> n)\<rparr>)
                    (s3\<lparr>next_tid := next_tid s3 + 1\<rparr>);
                  stack_top = base + unat stack_size;
                  s5 = s4\<lparr>heap_mem := store_words (stack_top - 64) (initial_frame entry arg thread_exit)
                            ((heap_mem s4)(base := STACK_CANARY))\<rparr>;
                  s6 = upd_tcb t (\<lambda>b. b\<lparr>t_saved_sp := stack_top - 64, t_exc_return := 0xFFFFFFFD\<rparr>) s5;
                  s7 = (case proc of
                          None \<Rightarrow> s6
                        | Some p \<Rightarrow>
                            if p_thread_count (pcb_pool s6 p) < MAX_THREADS then
                              upd_pcb p (\<lambda>b. b\<lparr>p_threads := (p_threads b)[p_thread_count b := Some t],
                                               p_thread_count := p_thread_count b + 1\<rparr>) s6
                            else s6)
              in do {
                s8 \<leftarrow> sched_add_thread (Some t) s7;
                Some (Some t, s8)
              }
        })"

section \<open>Freeing\<close>

definition task_free_process :: "nat option \<Rightarrow> 'a kstate_scheme \<Rightarrow> 'a kstate_scheme" where
  "task_free_process pp s = (case pp of
       None \<Rightarrow> s
     | Some p \<Rightarrow>
         if p < MAX_PROCESSES then
           upd_pcb p (\<lambda>_. pcb_zero) (s\<lparr>pcb_used := (pcb_used s)(p := False)\<rparr>)
         else s)"

text \<open>Compaction of \<open>proc->threads[]\<close>: the inner loop, then the whole search.\<close>

definition shift_down :: "nat \<Rightarrow> nat \<Rightarrow> nat option list \<Rightarrow> nat option list" where
  "shift_down i n ths = foldl (\<lambda>xs j. xs[j := xs ! (j + 1)]) ths [i..<n]"

definition unlink_thread :: "nat \<Rightarrow> pcb \<Rightarrow> pcb" where
  "unlink_thread t b =
     (case first_slot (\<lambda>i. p_threads b ! i = Some t) (p_thread_count b) of
        None \<Rightarrow> b
      | Some i \<Rightarrow>
          let n = p_thread_count b - 1
          in b\<lparr>p_thread_count := n, p_threads := (shift_down i n (p_threads b))[n := None]\<rparr>)"

definition task_free_thread :: "nat option \<Rightarrow> 'a kstate_scheme \<Rightarrow> 'a kstate_scheme option" where
  "task_free_thread tp s = (case tp of
       None \<Rightarrow> Some s
     | Some t \<Rightarrow>
         (let proc = task_find_process (t_pid (tcb_pool s t)) s;
              s1 = (case proc of None \<Rightarrow> s | Some p \<Rightarrow> upd_pcb p (unlink_thread t) s)
          in do {
            s2 \<leftarrow> (if t < MAX_THREADS then
                     let stack = t_stack_base (tcb_pool s1 t)
                     in kfree stack (upd_tcb t (\<lambda>_. tcb_zero) (s1\<lparr>tcb_used := (tcb_used s1)(t := False)\<rparr>))
                   else Some s1);
            Some (case proc of
                    None \<Rightarrow> s2
                  | Some p \<Rightarrow> if p_thread_count (pcb_pool s2 p) = 0 then task_free_process proc s2 else s2)
          }))"

section \<open>Facts about process identifiers\<close>

lemma unat_lt_2_32: "unat (w :: u32) < 2 ^ 32"
  using unsigned_less [of w] by simp

text \<open>The \<open>k\<close>-th candidate after offset \<open>off\<close>, in cyclic order.\<close>

definition candidate_pid :: "pid_range_info \<Rightarrow> nat \<Rightarrow> nat \<Rightarrow> u32" where
  "candidate_pid r off k =
     pr_base r + of_nat ((off + k) mod (unat (pr_limit r) - unat (pr_base r) + 1))"

definition range_ok :: "pid_range_info \<Rightarrow> bool" where
  "range_ok r \<longleftrightarrow> 0 < pr_base r \<and> pr_base r \<le> pr_limit r \<and> pr_limit r < 2 ^ 31 \<and>
     pr_base r \<le> pr_next r \<and> pr_next r \<le> pr_limit r"

lemma range_span:
  assumes "range_ok r"
  shows "unat (pr_limit r - pr_base r + 1) = unat (pr_limit r) - unat (pr_base r) + 1"
proof -
  have "unat (pr_limit r) < 2 ^ 31" using assms by (simp add: range_ok_def word_less_nat_alt)
  then show ?thesis
    using assms by (simp add: range_ok_def unat_sub word_le_nat_alt unat_word_ariths)
qed

lemma candidate_offset:
  assumes "range_ok r"
  shows "unat (candidate_pid r off k) =
           unat (pr_base r) + (off + k) mod (unat (pr_limit r) - unat (pr_base r) + 1)"
proof -
  let ?n = "unat (pr_limit r) - unat (pr_base r) + 1"
  define m where "m = (off + k) mod ?n"
  have "unat (pr_limit r) < 2 ^ 31" using assms by (simp add: range_ok_def word_less_nat_alt)
  moreover have "m < ?n" by (simp add: m_def)
  moreover have "unat (pr_base r) \<le> unat (pr_limit r)"
    using assms by (simp add: range_ok_def word_le_nat_alt)
  ultimately have "unat (pr_base r) + m < 2 ^ 32" and "m < 2 ^ 32" by simp_all
  then have "unat (pr_base r + of_nat m) = unat (pr_base r) + m"
    by (simp add: unat_word_ariths unat_of_nat take_bit_eq_mod)
  then show ?thesis by (simp add: candidate_pid_def m_def)
qed

lemma candidate_in_range:
  assumes "range_ok r"
  shows "pr_base r \<le> candidate_pid r off k \<and> candidate_pid r off k \<le> pr_limit r"
proof -
  let ?n = "unat (pr_limit r) - unat (pr_base r) + 1"
  have "(off + k) mod ?n < ?n" by simp
  moreover have "unat (pr_base r) \<le> unat (pr_limit r)"
    using assms by (simp add: range_ok_def word_le_nat_alt)
  ultimately show ?thesis by (simp only: word_le_nat_alt candidate_offset [OF assms]) linarith
qed

lemma candidate_step:
  assumes "range_ok r"
  shows "(if candidate_pid r off k = pr_limit r then pr_base r else candidate_pid r off k + 1) =
           candidate_pid r off (Suc k)"
proof -
  let ?n = "unat (pr_limit r) - unat (pr_base r) + 1"
  let ?m = "(off + k) mod ?n"
  have le: "unat (pr_base r) \<le> unat (pr_limit r)"
    using assms by (simp add: range_ok_def word_le_nat_alt)
  have u: "unat (candidate_pid r off k) = unat (pr_base r) + ?m" by (rule candidate_offset [OF assms])
  have suc: "(off + Suc k) mod ?n = (if Suc ?m = ?n then 0 else Suc ?m)"
    by (simp add: mod_Suc)
  show ?thesis
  proof (cases "Suc ?m = ?n")
    case True
    then have "unat (candidate_pid r off k) = unat (pr_limit r)" using u le by linarith
    then have "candidate_pid r off k = pr_limit r" by (simp add: word_unat_eq_iff)
    with True suc show ?thesis by (simp add: candidate_pid_def)
  next
    case False
    then have "unat (candidate_pid r off k) \<noteq> unat (pr_limit r)" using u le by linarith
    moreover have "candidate_pid r off k + 1 = candidate_pid r off (Suc k)"
      using False suc by (simp add: candidate_pid_def)
    ultimately show ?thesis by auto
  qed
qed

lemma alloc_pid_loop_spec:
  assumes "range_ok r"
  shows "alloc_pid_loop fuel r (candidate_pid r off k) s =
    map_option (\<lambda>j. (candidate_pid r off j, candidate_pid r off (Suc j)))
      (find (\<lambda>j. task_find_process (candidate_pid r off j) s = None) [k..<k + fuel])"
proof (induction fuel arbitrary: k)
  case (Suc fuel)
  have "[k..<k + Suc fuel] = k # [Suc k..<Suc k + fuel]" by (simp add: upt_conv_Cons)
  then show ?case
    using Suc.IH [of "Suc k"] candidate_step [OF assms, of off k] by (simp add: Let_def)
qed simp

lemma candidate_next:
  assumes "range_ok r"
  shows "candidate_pid r (unat (pr_next r) - unat (pr_base r)) 0 = pr_next r"
proof -
  let ?o = "unat (pr_next r) - unat (pr_base r)"
  have "?o < unat (pr_limit r) - unat (pr_base r) + 1" and "unat (pr_base r) \<le> unat (pr_next r)"
    using assms by (auto simp: range_ok_def word_le_nat_alt)
  then have "unat (candidate_pid r ?o 0) = unat (pr_next r)"
    using candidate_offset [OF assms, of ?o 0] by simp
  then show ?thesis by (simp add: word_unat_eq_iff)
qed

text \<open>Every PID of the range is a candidate within one round.\<close>

lemma candidate_onto:
  assumes "range_ok r" and "pr_base r \<le> pid" and "pid \<le> pr_limit r"
  shows "\<exists>k < unat (pr_limit r) - unat (pr_base r) + 1. candidate_pid r off k = pid"
proof -
  let ?n = "unat (pr_limit r) - unat (pr_base r) + 1"
  let ?d = "unat pid - unat (pr_base r)"
  let ?k = "(?d + (?n - off mod ?n)) mod ?n"
  have d: "?d < ?n" and b: "unat (pr_base r) \<le> unat pid"
    using assms by (auto simp: word_le_nat_alt)
  have "off mod ?n \<le> ?n" by (simp add: less_imp_le)
  have "(off + ?k) mod ?n = (off mod ?n + (?d + (?n - off mod ?n))) mod ?n"
    by (simp add: mod_simps)
  also have "off mod ?n + (?d + (?n - off mod ?n)) = ?d + ?n" using \<open>off mod ?n \<le> ?n\<close> by linarith
  finally have "(off + ?k) mod ?n = ?d" using d by (simp only: mod_add_self2 mod_less)
  then have "unat (candidate_pid r off ?k) = unat pid" using candidate_offset [OF assms(1)] b by simp
  then have "candidate_pid r off ?k = pid" by (simp only: word_unat_eq_iff)
  moreover have "?k < ?n" by simp
  ultimately show ?thesis by blast
qed

lemma find_process_Some:
  "task_find_process pid s = Some p \<Longrightarrow> p < 8 \<and> pcb_used s p \<and> p_pid (pcb_pool s p) = pid"
  unfolding task_find_process_def by (drule first_slot_SomeD) simp

lemma find_process_None:
  "task_find_process pid s = None \<longleftrightarrow> (\<forall>p<8. pcb_used s p \<longrightarrow> p_pid (pcb_pool s p) \<noteq> pid)"
  by (simp add: task_find_process_def first_slot_None)

text \<open>At most eight PIDs are in use, so a range of more than eight always has a free one.\<close>

lemma range_has_free:
  assumes "range_ok r" and "8 < unat (pr_limit r) - unat (pr_base r) + 1"
  shows "\<exists>pid. pr_base r \<le> pid \<and> pid \<le> pr_limit r \<and> task_find_process pid s = None"
proof (rule ccontr)
  assume no: "\<not> ?thesis"
  let ?I = "{unat (pr_base r)..unat (pr_limit r)}"
  let ?U = "(\<lambda>p. unat (p_pid (pcb_pool s p))) ` {..<8}"
  have "?I \<subseteq> ?U"
  proof
    fix n assume n: "n \<in> ?I"
    then have lt: "n < 2 ^ 32" using unat_lt_2_32 [of "pr_limit r"] by simp
    let ?pid = "of_nat n :: u32"
    have u: "unat ?pid = n" using lt by (simp add: unat_of_nat take_bit_eq_mod)
    with n have "pr_base r \<le> ?pid" "?pid \<le> pr_limit r" by (auto simp: word_le_nat_alt)
    with no obtain p where "task_find_process ?pid s = Some p" by auto
    from find_process_Some [OF this] u show "n \<in> ?U" by force
  qed
  then have "card ?I \<le> card ?U" by (intro card_mono) auto
  also have "card ?U \<le> 8" by (metis card_image_le card_lessThan finite_lessThan)
  finally show False using assms by (simp add: word_le_nat_alt range_ok_def)
qed

section \<open>The invariant of the pools\<close>

definition thread_list :: "pcb \<Rightarrow> nat list" where
  "thread_list b = map the (take (p_thread_count b) (p_threads b))"

text \<open>\<open>threads[]\<close> holds distinct threads in its first \<open>thread_count\<close> entries, \<open>NULL\<close> behind.\<close>

definition pcb_wf :: "pcb \<Rightarrow> bool" where
  "pcb_wf b \<longleftrightarrow> length (p_threads b) = MAX_THREADS \<and> p_thread_count b \<le> MAX_THREADS \<and> distinct (thread_list b) \<and>
     p_threads b = map Some (thread_list b) @ replicate (MAX_THREADS - p_thread_count b) None"

text \<open>
  Each process owns exactly the threads that carry its PID; PIDs are not shared and not 0; a
  thread's PID is that of a process in use, or 0 for a thread created without one.
\<close>

definition procs_wf :: "'a kstate_scheme \<Rightarrow> bool" where
  "procs_wf s \<longleftrightarrow>
     (\<forall>p < MAX_PROCESSES. pcb_used s p \<longrightarrow> pcb_wf (pcb_pool s p) \<and> p_pid (pcb_pool s p) \<noteq> 0 \<and>
        set (thread_list (pcb_pool s p)) =
          {t. t < MAX_THREADS \<and> tcb_used s t \<and> t_pid (tcb_pool s t) = p_pid (pcb_pool s p)}) \<and>
     (\<forall>p < MAX_PROCESSES. \<forall>q < MAX_PROCESSES. pcb_used s p \<and> pcb_used s q \<and>
        p_pid (pcb_pool s p) = p_pid (pcb_pool s q) \<longrightarrow> p = q) \<and>
     (\<forall>t < MAX_THREADS. tcb_used s t \<longrightarrow> t_pid (tcb_pool s t) \<noteq> 0 \<longrightarrow>
        (\<exists>p < MAX_PROCESSES. pcb_used s p \<and> p_pid (pcb_pool s p) = t_pid (tcb_pool s t)))"

text \<open>Each thread has a stack of its own, a live heap block of at least the recorded size.\<close>

definition stacks_wf :: "'a kstate_scheme \<Rightarrow> bool" where
  "stacks_wf s \<longleftrightarrow> heap_wf s \<and>
     (\<forall>t < MAX_THREADS. tcb_used s t \<longrightarrow> (\<exists>b k. t_stack_base (tcb_pool s t) = Some b \<and>
        (b, k) \<in> heap_live s \<and> unat (t_stack_size (tcb_pool s t)) \<le> k)) \<and>
     (\<forall>t < MAX_THREADS. \<forall>u < MAX_THREADS. tcb_used s t \<and> tcb_used s u \<and>
        t_stack_base (tcb_pool s t) = t_stack_base (tcb_pool s u) \<longrightarrow> t = u)"

definition tasks_wf :: "'a kstate_scheme \<Rightarrow> bool" where
  "tasks_wf s \<longleftrightarrow> procs_wf s \<and> stacks_wf s"

lemma heap_cong:
  fixes s :: "'a heap_scheme" and s' :: "'b heap_scheme"
  assumes "heap_blocks s' = heap_blocks s" and "heap_head s' = heap_head s" and "heap_lock s' = heap_lock s"
  shows "heap_segs s' = heap_segs s" and "heap_wf s' \<longleftrightarrow> heap_wf s" and "heap_live s' = heap_live s"
  using assms by (simp_all add: heap_wf_def heap_abs_def heap_segs_def heap_live_def)

lemma heap_live_unique:
  "heap_wf h \<Longrightarrow> (p, k) \<in> heap_live h \<Longrightarrow> (p, j) \<in> heap_live h \<Longrightarrow> j = k"
  using tiled_distinct [OF heap_wf_tiled, of h]
  by (auto simp: heap_live_def live_def dest: eq_key_imp_eq_value)

subsection \<open>Compaction\<close>

lemma shift_down_spec:
  assumes "i \<le> n" and "n < length xs"
  shows "shift_down i n xs = take i xs @ take (n - i) (drop (Suc i) xs) @ drop n xs"
  using assms
proof (induction n)
  case 0
  then show ?case by (simp add: shift_down_def)
next
  case (Suc n)
  show ?case
  proof (cases "i = Suc n")
    case True
    then show ?thesis using Suc.prems by (simp add: shift_down_def)
  next
    case False
    then have le: "i \<le> n" using Suc.prems by simp
    define ys where "ys = take i xs @ take (n - i) (drop (Suc i) xs)"
    have len: "length ys = n" using le Suc.prems by (simp add: ys_def)
    have IH: "shift_down i n xs = ys @ drop n xs" using Suc le by (simp add: ys_def)
    have d: "drop n xs = xs ! n # xs ! Suc n # drop (Suc (Suc n)) xs"
      using Suc.prems by (metis Cons_nth_drop_Suc Suc_lessD)
    have "shift_down i (Suc n) xs = (shift_down i n xs)[n := shift_down i n xs ! Suc n]"
      using le by (simp add: shift_down_def)
    also have "\<dots> = ys @ xs ! Suc n # xs ! Suc n # drop (Suc (Suc n)) xs"
      unfolding IH d using len by (simp add: nth_append list_update_append)
    also have "\<dots> = take i xs @ (take (n - i) (drop (Suc i) xs) @ [xs ! Suc n]) @ drop (Suc n) xs"
      using Suc.prems by (simp add: Cons_nth_drop_Suc ys_def)
    also have "take (n - i) (drop (Suc i) xs) @ [xs ! Suc n] = take (Suc n - i) (drop (Suc i) xs)"
      using le Suc.prems by (simp add: Suc_diff_le take_Suc_conv_app_nth)
    finally show ?thesis .
  qed
qed

lemma pcb_wf_length: "pcb_wf b \<Longrightarrow> length (p_threads b) = 16 \<and> length (thread_list b) = p_thread_count b"
  by (simp add: pcb_wf_def thread_list_def)

lemma pcb_wfI:
  assumes "p_thread_count b = length ts" and "p_threads b = map Some ts @ replicate (16 - length ts) None"
    and "distinct ts" and "length ts \<le> 16"
  shows "pcb_wf b \<and> thread_list b = ts"
proof -
  have "thread_list b = ts"
    using assms(1,2) by (simp add: thread_list_def comp_def)
  with assms show ?thesis by (simp add: pcb_wf_def)
qed

lemma pcb_wf_unlink:
  assumes "pcb_wf b"
  shows "pcb_wf (unlink_thread t b) \<and> thread_list (unlink_thread t b) = remove1 t (thread_list b)"
proof (cases "t \<in> set (thread_list b)")
  case False
  have "first_slot (\<lambda>i. p_threads b ! i = Some t) (p_thread_count b) = None"
    using assms False pcb_wf_length [OF assms]
    by (auto simp: first_slot_None pcb_wf_def nth_append in_set_conv_nth)
  with False assms show ?thesis by (simp add: unlink_thread_def remove1_idem)
next
  case True
  then obtain xs ys where ts: "thread_list b = xs @ t # ys" and t: "t \<notin> set xs" "t \<notin> set ys"
    using assms by (metis pcb_wf_def split_list distinct_append distinct.simps(2) disjoint_insert(1)
        list.set(2) Int_commute)
  let ?n = "length xs + length ys" and ?k = "15 - (length xs + length ys)"
  have cnt: "p_thread_count b = Suc ?n" using pcb_wf_length [OF assms] ts by simp
  have le: "?n \<le> 15" using assms cnt by (simp add: pcb_wf_def)
  have th: "p_threads b = map Some (xs @ t # ys) @ replicate ?k None"
    using assms cnt ts by (simp add: pcb_wf_def)
  have "first_slot (\<lambda>i. p_threads b ! i = Some t) (p_thread_count b) = Some (length xs)"
  proof (rule first_slot_eq_unique)
    fix j assume "j < p_thread_count b" and "p_threads b ! j = Some t"
    moreover from this(1) have "p_threads b ! j = Some ((xs @ t # ys) ! j)"
      using nth_append_left [of j "map Some (xs @ t # ys)" "replicate ?k None"]
      by (simp add: th cnt del: map_append list.map)
    ultimately have "(xs @ t # ys) ! j = t" by simp
    then show "j = length xs"
      using t \<open>j < p_thread_count b\<close> cnt
      by (auto simp: nth_append nth_Cons' in_set_conv_nth split: if_splits)
  qed (use cnt th in \<open>simp_all add: nth_append\<close>)
  moreover have "(shift_down (length xs) ?n (p_threads b))[?n := None] =
      map Some (xs @ ys) @ replicate (16 - ?n) None"
  proof -
    obtain z zs where z: "drop ?n (p_threads b) = z # zs" and zs: "zs = replicate ?k None"
    proof -
      have "drop (Suc ?n) (p_threads b) = replicate ?k None" by (simp add: th)
      moreover have "?n < length (p_threads b)" by (simp add: th)
      ultimately show thesis using that by (metis Cons_nth_drop_Suc)
    qed
    have "shift_down (length xs) ?n (p_threads b) = map Some (xs @ ys) @ z # zs"
      using shift_down_spec [of "length xs" ?n "p_threads b"] z by (simp add: th)
    moreover have "16 - ?n = Suc ?k" using le by simp
    ultimately show ?thesis by (simp add: list_update_append zs)
  qed
  ultimately have u: "p_thread_count (unlink_thread t b) = ?n"
      "p_threads (unlink_thread t b) = map Some (xs @ ys) @ replicate (16 - ?n) None"
    using cnt by (simp_all add: unlink_thread_def Let_def)
  have "distinct (xs @ ys)" using assms ts by (auto simp: pcb_wf_def)
  with pcb_wfI [of "unlink_thread t b" "xs @ ys"] u le ts t show ?thesis
    by (simp add: remove1_append)
qed

lemma unlink_thread_pid [simp]: "p_pid (unlink_thread t b) = p_pid b"
  by (simp add: unlink_thread_def Let_def split: option.split)

subsection \<open>Freeing a thread\<close>

lemma procs_wfD:
  assumes "procs_wf s" and "p < 8" and "pcb_used s p"
  shows "pcb_wf (pcb_pool s p)" and "p_pid (pcb_pool s p) \<noteq> 0"
    and "set (thread_list (pcb_pool s p)) =
          {t. t < 16 \<and> tcb_used s t \<and> t_pid (tcb_pool s t) = p_pid (pcb_pool s p)}"
  using assms by (auto simp: procs_wf_def)

lemma procs_wf_unique:
  "procs_wf s \<Longrightarrow> p < 8 \<Longrightarrow> q < 8 \<Longrightarrow> pcb_used s p \<Longrightarrow> pcb_used s q \<Longrightarrow>
     p_pid (pcb_pool s p) = p_pid (pcb_pool s q) \<Longrightarrow> p = q"
  by (auto simp: procs_wf_def)

lemma procs_wfI:
  assumes "\<And>p. p < 8 \<Longrightarrow> pcb_used s p \<Longrightarrow> pcb_wf (pcb_pool s p)"
    and "\<And>p. p < 8 \<Longrightarrow> pcb_used s p \<Longrightarrow> p_pid (pcb_pool s p) \<noteq> 0"
    and "\<And>p. p < 8 \<Longrightarrow> pcb_used s p \<Longrightarrow> set (thread_list (pcb_pool s p)) =
          {t. t < 16 \<and> tcb_used s t \<and> t_pid (tcb_pool s t) = p_pid (pcb_pool s p)}"
    and "\<And>p q. p < 8 \<Longrightarrow> q < 8 \<Longrightarrow> pcb_used s p \<Longrightarrow> pcb_used s q \<Longrightarrow>
          p_pid (pcb_pool s p) = p_pid (pcb_pool s q) \<Longrightarrow> p = q"
    and "\<And>t. t < 16 \<Longrightarrow> tcb_used s t \<Longrightarrow> t_pid (tcb_pool s t) \<noteq> 0 \<Longrightarrow>
          \<exists>p<8. pcb_used s p \<and> p_pid (pcb_pool s p) = t_pid (tcb_pool s t)"
  shows "procs_wf s"
  using assms by (simp add: procs_wf_def)

lemma procs_wf_owner:
  "procs_wf s \<Longrightarrow> t < 16 \<Longrightarrow> tcb_used s t \<Longrightarrow> t_pid (tcb_pool s t) \<noteq> 0 \<Longrightarrow>
     \<exists>p<8. pcb_used s p \<and> p_pid (pcb_pool s p) = t_pid (tcb_pool s t)"
  by (simp add: procs_wf_def)

text \<open>The process table after \<open>t\<close> was unlinked, and freed with its last thread.\<close>

definition unlinked_pool :: "nat \<Rightarrow> 'a kstate_scheme \<Rightarrow> nat \<Rightarrow> pcb" where
  "unlinked_pool t s = (case task_find_process (t_pid (tcb_pool s t)) s of
       None \<Rightarrow> pcb_pool s
     | Some p \<Rightarrow> (pcb_pool s)(p :=
         if p_thread_count (unlink_thread t (pcb_pool s p)) = 0 then pcb_zero
         else unlink_thread t (pcb_pool s p)))"

definition unlinked_used :: "nat \<Rightarrow> 'a kstate_scheme \<Rightarrow> nat \<Rightarrow> bool" where
  "unlinked_used t s = (case task_find_process (t_pid (tcb_pool s t)) s of
       None \<Rightarrow> pcb_used s
     | Some p \<Rightarrow> if p_thread_count (unlink_thread t (pcb_pool s p)) = 0
         then (pcb_used s)(p := False) else pcb_used s)"

lemma procs_wf_free:
  assumes wf: "procs_wf s" and t: "t < 16" "tcb_used s t"
    and s': "tcb_used s' = (tcb_used s)(t := False)" "\<And>u. u \<noteq> t \<Longrightarrow> t_pid (tcb_pool s' u) = t_pid (tcb_pool s u)"
      "pcb_pool s' = unlinked_pool t s" "pcb_used s' = unlinked_used t s"
  shows "procs_wf s'"
proof (cases "task_find_process (t_pid (tcb_pool s t)) s")
  case None
  then have same: "pcb_pool s' = pcb_pool s" "pcb_used s' = pcb_used s"
    using s' by (simp_all add: unlinked_pool_def unlinked_used_def)
  have ne: "False" if "t_pid (tcb_pool s t) = p_pid (pcb_pool s p)" "p < 8" "pcb_used s p" for p
    using None that by (auto simp: find_process_None)
  from procs_wfD [OF wf] procs_wf_unique [OF wf] procs_wf_owner [OF wf] s'(1,2) same show ?thesis
    by (intro procs_wfI) (auto dest: ne split: if_splits)
next
  case (Some p)
  from find_process_Some [OF Some] have p: "p < 8" "pcb_used s p" "p_pid (pcb_pool s p) = t_pid (tcb_pool s t)"
    by auto
  let ?u = "unlink_thread t (pcb_pool s p)"
  have pool: "pcb_pool s' q = (if q = p then if p_thread_count ?u = 0 then pcb_zero else ?u else pcb_pool s q)"
    and used: "pcb_used s' q = (if q = p then p_thread_count ?u \<noteq> 0 else pcb_used s q)" for q
    using s' p Some by (simp_all add: unlinked_pool_def unlinked_used_def)
  have wfp: "pcb_wf (pcb_pool s p)" by (rule procs_wfD(1) [OF wf p(1,2)])
  have other: "t_pid (tcb_pool s t) \<noteq> p_pid (pcb_pool s q)" if "q < 8" "pcb_used s q" "q \<noteq> p" for q
    using procs_wf_unique [OF wf p(1) that(1) p(2) that(2)] that(3) p(3) by auto
  have kept: "pcb_used s q \<and> p_pid (pcb_pool s' q) = p_pid (pcb_pool s q)" if "pcb_used s' q" for q
    using that used [of q] pool [of q] p(2) by (auto split: if_splits)
  show ?thesis
  proof (rule procs_wfI)
    fix q assume q: "q < 8" "pcb_used s' q"
    show "pcb_wf (pcb_pool s' q)" and "p_pid (pcb_pool s' q) \<noteq> 0"
      using q pool used pcb_wf_unlink [OF wfp, of t] procs_wfD [OF wf] p by (auto split: if_splits)
    show "set (thread_list (pcb_pool s' q)) =
        {u. u < 16 \<and> tcb_used s' u \<and> t_pid (tcb_pool s' u) = p_pid (pcb_pool s' q)}"
    proof (cases "q = p")
      case True
      have "set (thread_list ?u) = set (thread_list (pcb_pool s p)) - {t}"
        using pcb_wf_unlink [OF wfp, of t] wfp by (simp add: pcb_wf_def set_remove1_eq)
      with True q pool used procs_wfD(3) [OF wf p(1,2)] s'(1,2) show ?thesis by auto
    next
      case False
      with q pool used procs_wfD(3) [OF wf, of q] other [of q] s'(1,2) show ?thesis by auto
    qed
  next
    fix q r assume "q < 8" "r < 8" "pcb_used s' q" "pcb_used s' r"
      "p_pid (pcb_pool s' q) = p_pid (pcb_pool s' r)"
    with kept [of q] kept [of r] procs_wf_unique [OF wf, of q r] show "q = r" by metis
  next
    fix u assume u: "u < 16" "tcb_used s' u" "t_pid (tcb_pool s' u) \<noteq> 0"
    then have "u \<noteq> t" "tcb_used s u" "t_pid (tcb_pool s' u) = t_pid (tcb_pool s u)"
      using s'(1,2) by (auto split: if_splits)
    with u procs_wf_owner [OF wf, of u] obtain q where q: "q < 8" "pcb_used s q"
      "p_pid (pcb_pool s q) = t_pid (tcb_pool s' u)" by auto
    have "p_thread_count ?u \<noteq> 0" if "q = p"
    proof
      assume "p_thread_count ?u = 0"
      then have "remove1 t (thread_list (pcb_pool s p)) = []"
        using pcb_wf_unlink [OF wfp, of t] pcb_wf_length [of ?u] by auto
      moreover have "u \<in> set (thread_list (pcb_pool s p))"
        using procs_wfD(3) [OF wf p(1,2)] u(1) \<open>tcb_used s u\<close> q(3) that
          \<open>t_pid (tcb_pool s' u) = t_pid (tcb_pool s u)\<close> by simp
      ultimately show False using \<open>u \<noteq> t\<close> by (metis in_set_remove1 list.set(1) empty_iff)
    qed
    with q used [of q] pool [of q] show "\<exists>p<8. pcb_used s' p \<and> p_pid (pcb_pool s' p) = t_pid (tcb_pool s' u)"
      by (intro exI [of _ q]) auto
  qed
qed

lemma stacks_wf_free:
  assumes wf: "stacks_wf s" and t: "t < 16" "tcb_used s t" "t_stack_base (tcb_pool s t) = Some b"
    and s': "tcb_used s' = (tcb_used s)(t := False)" "\<And>u. u \<noteq> t \<Longrightarrow> tcb_pool s' u = tcb_pool s u"
      "heap_wf s'" "heap_live s' = {x \<in> heap_live s. fst x \<noteq> b}"
  shows "stacks_wf s'"
  unfolding stacks_wf_def
proof (intro conjI allI impI)
  fix u assume u: "u < MAX_THREADS" "tcb_used s' u"
  then have "u \<noteq> t" and "tcb_used s u" using s' by (auto split: if_splits)
  with u wf obtain c k where c: "t_stack_base (tcb_pool s u) = Some c" "(c, k) \<in> heap_live s"
    "unat (t_stack_size (tcb_pool s u)) \<le> k" by (auto simp: stacks_wf_def)
  have "c \<noteq> b" using wf t u c(1) \<open>u \<noteq> t\<close> \<open>tcb_used s u\<close> by (auto simp: stacks_wf_def)
  with c s' \<open>u \<noteq> t\<close> show "\<exists>b k. t_stack_base (tcb_pool s' u) = Some b \<and> (b, k) \<in> heap_live s' \<and>
      unat (t_stack_size (tcb_pool s' u)) \<le> k" by auto
next
  fix u v assume "u < MAX_THREADS" "v < MAX_THREADS"
    "tcb_used s' u \<and> tcb_used s' v \<and> t_stack_base (tcb_pool s' u) = t_stack_base (tcb_pool s' v)"
  with wf s' show "u = v" by (auto simp: stacks_wf_def split: if_splits)
qed (use s' in simp)

text \<open>What freeing a thread changes: its TCB, its stack's block and its process.\<close>

lemma free_thread_spec:
  assumes "tasks_wf s" and "t < 16" and "tcb_used s t"
  obtains B where "task_free_thread (Some t) s = Some (s\<lparr>heap_blocks := B,
      tcb_pool := (tcb_pool s)(t := tcb_zero), tcb_used := (tcb_used s)(t := False),
      pcb_pool := unlinked_pool t s, pcb_used := unlinked_used t s\<rparr>)"
    "tasks_wf (s\<lparr>heap_blocks := B, tcb_pool := (tcb_pool s)(t := tcb_zero),
      tcb_used := (tcb_used s)(t := False), pcb_pool := unlinked_pool t s, pcb_used := unlinked_used t s\<rparr>)"
    "heap_live (s\<lparr>heap_blocks := B\<rparr>) = {x \<in> heap_live s. Some (fst x) \<noteq> t_stack_base (tcb_pool s t)}"
proof -
  from assms have procs: "procs_wf s" and stacks: "stacks_wf s" by (auto simp: tasks_wf_def)
  from stacks assms(2,3) obtain b k where b: "t_stack_base (tcb_pool s t) = Some b" "(b, k) \<in> heap_live s"
    by (auto simp: stacks_wf_def)
  have hwf: "heap_wf s" using stacks by (simp add: stacks_wf_def)
  let ?proc = "task_find_process (t_pid (tcb_pool s t)) s"
  let ?s1 = "case ?proc of None \<Rightarrow> s | Some p \<Rightarrow> upd_pcb p (unlink_thread t) s"
  let ?s2 = "upd_tcb t (\<lambda>_. tcb_zero) (?s1\<lparr>tcb_used := (tcb_used ?s1)(t := False)\<rparr>)"
  have same: "heap_blocks ?s2 = heap_blocks s" "heap_head ?s2 = heap_head s" "heap_lock ?s2 = heap_lock s"
    by (simp_all add: upd_tcb_def upd_pcb_def split: option.split)
  have "heap_wf ?s2" and "(b, k) \<in> heap_live ?s2"
    using heap_cong [OF same] hwf b by simp_all
  from kfree_live [OF this] obtain B where B: "kfree (Some b) ?s2 = Some (?s2\<lparr>heap_blocks := B\<rparr>)"
    "heap_wf (?s2\<lparr>heap_blocks := B\<rparr>)" "heap_segs (?s2\<lparr>heap_blocks := B\<rparr>) = seg_free b (heap_segs ?s2)"
    by metis
  let ?s' = "s\<lparr>heap_blocks := B, tcb_pool := (tcb_pool s)(t := tcb_zero), tcb_used := (tcb_used s)(t := False),
      pcb_pool := unlinked_pool t s, pcb_used := unlinked_used t s\<rparr>"
  have tp: "t_stack_base (tcb_pool ?s1 t) = Some b" using b by (simp add: upd_pcb_def split: option.split)
  have free: "task_free_thread (Some t) s = Some ?s'"
  proof (cases ?proc)
    case None
    with B(1) b assms(2) show ?thesis
      by (simp add: task_free_thread_def unlinked_pool_def unlinked_used_def upd_tcb_def)
  next
    case (Some p)
    with find_process_Some [OF Some] B(1) b assms(2) show ?thesis
      by (simp add: task_free_thread_def unlinked_pool_def unlinked_used_def upd_tcb_def upd_pcb_def
          task_free_process_def Let_def)
  qed
  have live: "heap_live (?s2\<lparr>heap_blocks := B\<rparr>) = {x \<in> heap_live s. fst x \<noteq> b}"
    using B(3) heap_cong(1) [OF same] by (auto simp: heap_live_def seg_free_live)
  have cong: "heap_blocks ?s' = heap_blocks (?s2\<lparr>heap_blocks := B\<rparr>)"
      "heap_head ?s' = heap_head (?s2\<lparr>heap_blocks := B\<rparr>)" "heap_lock ?s' = heap_lock (?s2\<lparr>heap_blocks := B\<rparr>)"
    using same by simp_all
  have "procs_wf ?s'" by (rule procs_wf_free [OF procs assms(2,3)]) simp_all
  moreover have "stacks_wf ?s'"
    by (rule stacks_wf_free [OF stacks assms(2,3) b(1)])
      (use heap_cong [OF cong] B(2) live in simp_all)
  moreover have "heap_live (s\<lparr>heap_blocks := B\<rparr>) = {x \<in> heap_live s. Some (fst x) \<noteq> t_stack_base (tcb_pool s t)}"
    using live b(1) heap_cong(3) [of "s\<lparr>heap_blocks := B\<rparr>" "?s2\<lparr>heap_blocks := B\<rparr>"] same by simp
  ultimately show ?thesis using that free by (simp add: tasks_wf_def)
qed

subsection \<open>Creating a process\<close>

lemma procs_wf_find:
  assumes "procs_wf s" and "p < 8" and "pcb_used s p"
  shows "task_find_process (p_pid (pcb_pool s p)) s = Some p"
  using assms procs_wf_unique [OF assms(1)]
  by (auto simp: task_find_process_def intro!: first_slot_eq_unique)

lemma pcb_wf_empty:
  "p_thread_count b = 0 \<Longrightarrow> p_threads b = replicate 16 None \<Longrightarrow> pcb_wf b \<and> thread_list b = []"
  using pcb_wfI [of b "[]"] by simp

lemma create_process_cases:
  obtains (Fail) "task_create_process name pid s = (None, s)"
      "pid = 0 \<or> task_find_process pid s \<noteq> None \<or> (\<forall>p<8. pcb_used s p)"
  | (Slot) p where "pid \<noteq> 0" "task_find_process pid s = None" "p < 8" "\<not> pcb_used s p"
      "fst (task_create_process name pid s) = Some p"
proof (cases "pid = 0 \<or> task_find_process pid s \<noteq> None")
  case True
  then show ?thesis using Fail by (auto simp: task_create_process_def)
next
  case False
  show ?thesis
  proof (cases "first_slot (\<lambda>i. \<not> pcb_used s i) MAX_PROCESSES")
    case None
    with False have "task_create_process name pid s = (None, s)" by (simp add: task_create_process_def)
    moreover have "\<forall>p<8. pcb_used s p" using None by (simp add: first_slot_None)
    ultimately show ?thesis using Fail by blast
  next
    case (Some p)
    with False have "fst (task_create_process name pid s) = Some p" by (simp add: task_create_process_def)
    with False first_slot_SomeD [OF Some] show ?thesis using Slot [of p] by simp
  qed
qed

lemma create_process_fields:
  assumes "fst (task_create_process name pid s) = Some p"
  defines "s' \<equiv> snd (task_create_process name pid s)"
  shows "pcb_used s' = (pcb_used s)(p := True)" and "\<And>q. q \<noteq> p \<Longrightarrow> pcb_pool s' q = pcb_pool s q"
    and "p_pid (pcb_pool s' p) = pid" and "p_alive (pcb_pool s' p)"
    and "p_fd_table (pcb_pool s' p) = replicate MAX_FDS (- 1)"
    and "p_thread_count (pcb_pool s' p) = 0" and "p_threads (pcb_pool s' p) = replicate 16 None"
    and "tcb_used s' = tcb_used s" and "tcb_pool s' = tcb_pool s"
    and "heap_blocks s' = heap_blocks s" and "heap_head s' = heap_head s" and "heap_lock s' = heap_lock s"
  using assms by (auto simp: task_create_process_def upd_pcb_def split: if_splits option.splits)

lemma stacks_wf_cong:
  assumes "heap_blocks s' = heap_blocks s" and "heap_head s' = heap_head s" and "heap_lock s' = heap_lock s"
    and "tcb_used s' = tcb_used s"
    and "\<And>t. t_stack_base (tcb_pool s' t) = t_stack_base (tcb_pool s t)"
    and "\<And>t. t_stack_size (tcb_pool s' t) = t_stack_size (tcb_pool s t)"
  shows "stacks_wf s' \<longleftrightarrow> stacks_wf s"
  using heap_cong [OF assms(1-3)] assms(4-6) by (simp add: stacks_wf_def)

lemma procs_wf_cong:
  assumes "pcb_used s' = pcb_used s" and "pcb_pool s' = pcb_pool s" and "tcb_used s' = tcb_used s"
    and "\<And>t. t_pid (tcb_pool s' t) = t_pid (tcb_pool s t)"
  shows "procs_wf s' \<longleftrightarrow> procs_wf s"
  using assms by (simp add: procs_wf_def)

lemma procs_wf_create:
  assumes wf: "procs_wf s" and p: "fst (task_create_process name pid s) = Some p"
  defines "s' \<equiv> snd (task_create_process name pid s)"
  shows "procs_wf s'"
proof -
  note f = create_process_fields [OF p, folded s'_def]
  have np: "pid \<noteq> 0" "task_find_process pid s = None" "p < 8" "\<not> pcb_used s p"
    using p by (cases rule: create_process_cases [of name pid s]; simp)+
  have fresh: "p_pid (pcb_pool s q) \<noteq> pid" if "q < 8" "pcb_used s q" for q
    using np(2) that by (simp add: find_process_None)
  have empty: "pcb_wf (pcb_pool s' p)" "thread_list (pcb_pool s' p) = []"
    using pcb_wf_empty [OF f(6,7)] by auto
  show ?thesis
  proof (rule procs_wfI)
    fix q assume q: "q < 8" "pcb_used s' q"
    show "pcb_wf (pcb_pool s' q)" "p_pid (pcb_pool s' q) \<noteq> 0"
      using q f empty np procs_wfD [OF wf, of q] by (cases "q = p"; simp)+
    show "set (thread_list (pcb_pool s' q)) =
        {t. t < 16 \<and> tcb_used s' t \<and> t_pid (tcb_pool s' t) = p_pid (pcb_pool s' q)}"
    proof (cases "q = p")
      case True
      have "t_pid (tcb_pool s t) \<noteq> pid" if "t < 16" "tcb_used s t" for t
        using that procs_wf_owner [OF wf, of t] np(1) fresh by auto
      with True show ?thesis using f(3,8,9) empty by auto
    next
      case False
      then show ?thesis using q f procs_wfD(3) [OF wf, of q] by simp
    qed
  next
    fix q r assume "q < 8" "r < 8" "pcb_used s' q" "pcb_used s' r"
      "p_pid (pcb_pool s' q) = p_pid (pcb_pool s' r)"
    then show "q = r"
      using f(1,2,3) fresh procs_wf_unique [OF wf, of q r] by (cases "q = p"; cases "r = p"; force)
  next
    fix t assume "t < 16" "tcb_used s' t" "t_pid (tcb_pool s' t) \<noteq> 0"
    with procs_wf_owner [OF wf, of t] f obtain q where "q < 8" "pcb_used s q"
      "p_pid (pcb_pool s q) = t_pid (tcb_pool s' t)" by auto
    then show "\<exists>q<8. pcb_used s' q \<and> p_pid (pcb_pool s' q) = t_pid (tcb_pool s' t)"
      using f(1,2) np(4) by (intro exI [of _ q]) auto
  qed
qed

lemma tasks_wf_create_process:
  assumes "tasks_wf s" and "fst (task_create_process name pid s) = Some p"
  shows "tasks_wf (snd (task_create_process name pid s))"
  using assms procs_wf_create [OF _ assms(2)] create_process_fields [OF assms(2)]
    stacks_wf_cong [of "snd (task_create_process name pid s)" s]
  by (simp add: tasks_wf_def)

subsection \<open>Creating a thread\<close>

lemma store_words_other:
  "(\<And>i. i < length ws \<Longrightarrow> x \<noteq> a + 4 * i) \<Longrightarrow> store_words a ws m x = m x"
proof (induction ws arbitrary: a m)
  case (Cons w ws)
  have "x \<noteq> a + 4 + 4 * i" if "i < length ws" for i using Cons.prems [of "Suc i"] that by simp
  moreover have "x \<noteq> a" using Cons.prems [of 0] by simp
  ultimately show ?case using Cons.IH [of "a + 4"] by simp
qed simp

lemma store_words_at: "i < length ws \<Longrightarrow> store_words a ws m (a + 4 * i) = ws ! i"
proof (induction ws arbitrary: a m i)
  case (Cons w ws)
  show ?case
  proof (cases i)
    case 0
    then show ?thesis by (simp add: store_words_other)
  next
    case (Suc j)
    with Cons.prems Cons.IH [of j "a + 4" "m(a := w)"] show ?thesis
      by (simp add: add.assoc del: fun_upd_apply)
  qed
qed simp

text \<open>A thread in no queue may change in any way.\<close>

lemma rq_abs_upd_off:
  assumes "rq_abs s qs" and "\<And>p. p < 8 \<Longrightarrow> t \<notin> set (qs p)"
  shows "rq_abs (upd_tcb t f s) qs"
  unfolding rq_abs_def
proof (intro allI impI conjI ballI)
  fix p assume p: "p < NUM_PRIORITIES"
  with assms(2) have t: "t \<notin> set (qs p)" by simp
  show "chain (next_of (upd_tcb t f s)) (ready_queues (upd_tcb t f s) p) (qs p)"
    using rq_abs_chain [OF assms(1), of p] p t by (auto simp: next_of_def elim!: chain_cong)
  fix x assume "x \<in> set (qs p)"
  with t p show "prio_of (tcb_pool (upd_tcb t f s) x) = p"
    using rq_abs_other [OF assms(1)] by auto
qed

text \<open>
  The TCB as \<open>task_create_thread\<close> fills it, and the PCB with the thread linked in; names for
  the parts of its result.
\<close>

definition new_tcb :: "nat option \<Rightarrow> string option \<Rightarrow> u8 \<Rightarrow> u32 \<Rightarrow> nat \<Rightarrow> 'a kstate_scheme \<Rightarrow> tcb" where
  "new_tcb proc name priority stack_size base s = \<lparr>t_tid = next_tid s,
     t_pid = (case proc of None \<Rightarrow> 0 | Some p \<Rightarrow> p_pid (pcb_pool s p)),
     t_stack_base = Some base, t_stack_size = stack_size,
     t_saved_sp = base + unat stack_size - 64, t_exc_return = 0xFFFFFFFD,
     t_priority = priority, t_affinity = THREAD_AFFINITY_ANY, t_state = THREAD_READY,
     t_kill_pending = False, t_wake_time_us = 0, t_cpu_time_us = 0,
     t_name = strncpy_z 16 (case name of None \<Rightarrow> ''thread'' | Some n \<Rightarrow> n), t_next = None\<rparr>"

definition link_thread :: "nat option \<Rightarrow> nat \<Rightarrow> (nat \<Rightarrow> pcb) \<Rightarrow> nat \<Rightarrow> pcb" where
  "link_thread proc t P = (case proc of None \<Rightarrow> P
     | Some p \<Rightarrow> if p_thread_count (P p) < MAX_THREADS then
         P(p := (P p)\<lparr>p_threads := (p_threads (P p))[p_thread_count (P p) := Some t],
                      p_thread_count := p_thread_count (P p) + 1\<rparr>) else P)"

definition thread_memory :: "u32 \<Rightarrow> u32 \<Rightarrow> u32 \<Rightarrow> nat \<Rightarrow> u32 \<Rightarrow> (nat \<Rightarrow> u32) \<Rightarrow> nat \<Rightarrow> u32" where
  "thread_memory thread_exit entry arg base stack_size m =
     store_words (base + unat stack_size - 64) (initial_frame entry arg thread_exit)
       (m(base := STACK_CANARY))"

lemma tcb_overwritten:
  "(b :: tcb)\<lparr>t_stack_base := c0, t_tid := c1, t_pid := c2, t_stack_size := c3, t_priority := c4,
     t_affinity := c5, t_state := c6, t_kill_pending := c7, t_wake_time_us := c8, t_cpu_time_us := c9,
     t_next := c10, t_name := c11, t_saved_sp := c12, t_exc_return := c13\<rparr> =
   \<lparr>t_tid = c1, t_pid = c2, t_stack_base = c0, t_stack_size = c3, t_saved_sp = c12,
     t_exc_return = c13, t_priority = c4, t_affinity = c5, t_state = c6, t_kill_pending = c7,
     t_wake_time_us = c8, t_cpu_time_us = c9, t_name = c11, t_next = c10\<rparr>"
  by (cases b) simp

lemma create_thread_eq:
  assumes slot: "first_slot (\<lambda>i. \<not> tcb_used s i) MAX_THREADS = Some t"
    and alloc: "kmalloc n (s\<lparr>tcb_used := (tcb_used s)(t := True)\<rparr>) =
        Some (Some base, s\<lparr>tcb_used := (tcb_used s)(t := True), heap_blocks := B\<rparr>)"
  shows "task_create_thread te proc name entry arg pr n s =
    map_option (\<lambda>s'. (Some t, s'))
      (sched_add_thread (Some t) (s\<lparr>tcb_used := (tcb_used s)(t := True), heap_blocks := B,
         next_tid := next_tid s + 1, heap_mem := thread_memory te entry arg base n (heap_mem s),
         tcb_pool := (tcb_pool s)(t := new_tcb proc name pr n base s),
         pcb_pool := link_thread proc t (pcb_pool s)\<rparr>))"
proof -
  let ?r = "s\<lparr>tcb_used := (tcb_used s)(t := True), heap_blocks := B,
         next_tid := next_tid s + 1, heap_mem := thread_memory te entry arg base n (heap_mem s),
         tcb_pool := (tcb_pool s)(t := new_tcb proc name pr n base s),
         pcb_pool := link_thread proc t (pcb_pool s)\<rparr>"
  have eq: "task_create_thread te proc name entry arg pr n s =
      Option.bind (sched_add_thread (Some t) ?r) (\<lambda>s'. Some (Some t, s'))"
    unfolding task_create_thread_def slot
    by (cases proc) (simp_all add: alloc upd_tcb_def upd_pcb_def Let_def new_tcb_def link_thread_def
        thread_memory_def tcb_overwritten)
  show ?thesis unfolding eq by (cases "sched_add_thread (Some t) ?r") simp_all
qed

definition proc_ok :: "nat option \<Rightarrow> 'a kstate_scheme \<Rightarrow> bool" where
  "proc_ok proc s \<longleftrightarrow> (case proc of None \<Rightarrow> True | Some p \<Rightarrow> p < MAX_PROCESSES \<and> pcb_used s p)"

lemma thread_count_room:
  assumes "procs_wf s" and "p < 8" and "pcb_used s p" and "t < 16" and "\<not> tcb_used s t"
  shows "p_thread_count (pcb_pool s p) < 16"
proof -
  have wf: "pcb_wf (pcb_pool s p)" by (rule procs_wfD(1) [OF assms(1-3)])
  then have d: "distinct (thread_list (pcb_pool s p))" by (simp add: pcb_wf_def)
  have "set (thread_list (pcb_pool s p)) \<subseteq> {..<16} - {t}"
    using procs_wfD(3) [OF assms(1-3)] assms(5) by auto
  then have "card (set (thread_list (pcb_pool s p))) \<le> card ({..<16} - {t})"
    by (intro card_mono) auto
  then show ?thesis using d pcb_wf_length [OF wf] assms(4) by (simp add: distinct_card)
qed

lemma pcb_wf_link:
  assumes "pcb_wf b" and "p_thread_count b < 16" and "t \<notin> set (thread_list b)"
  defines "b' \<equiv> b\<lparr>p_threads := (p_threads b)[p_thread_count b := Some t],
             p_thread_count := p_thread_count b + 1\<rparr>"
  shows "pcb_wf b' \<and> thread_list b' = thread_list b @ [t]"
proof (rule pcb_wfI)
  have len: "length (thread_list b) = p_thread_count b" using pcb_wf_length [OF assms(1)] by simp
  have "p_threads b = map Some (thread_list b) @ replicate (16 - p_thread_count b) None"
    using assms(1) by (simp add: pcb_wf_def)
  moreover have "16 - p_thread_count b = Suc (15 - p_thread_count b)" using assms(2) by simp
  ultimately show "p_threads b' = map Some (thread_list b @ [t]) @
      replicate (16 - length (thread_list b @ [t])) None"
    using len by (simp add: b'_def list_update_append)
  show "p_thread_count b' = length (thread_list b @ [t])" using len by (simp add: b'_def)
  show "distinct (thread_list b @ [t])" using assms(1,3) by (simp add: pcb_wf_def)
  show "length (thread_list b @ [t]) \<le> 16" using len assms(2) by simp
qed

lemma procs_wf_link:
  assumes wf: "procs_wf s" and t: "t < 16" "\<not> tcb_used s t" and ok: "proc_ok proc s"
    and s': "tcb_used s' = (tcb_used s)(t := True)" "\<And>u. u \<noteq> t \<Longrightarrow> t_pid (tcb_pool s' u) = t_pid (tcb_pool s u)"
      "t_pid (tcb_pool s' t) = (case proc of None \<Rightarrow> 0 | Some p \<Rightarrow> p_pid (pcb_pool s p))"
      "pcb_pool s' = link_thread proc t (pcb_pool s)" "pcb_used s' = pcb_used s"
  shows "procs_wf s'"
proof -
  have pid: "p_pid (pcb_pool s' q) = p_pid (pcb_pool s q)" for q
    using s'(4) by (simp add: link_thread_def split: option.split)
  have notin: "t \<notin> set (thread_list (pcb_pool s q))" if "q < 8" "pcb_used s q" for q
    using procs_wfD(3) [OF wf that] t by auto
  show ?thesis
  proof (rule procs_wfI)
    fix q assume q: "q < 8" "pcb_used s' q"
    then have u: "pcb_used s q" using s' by simp
    note wfq = procs_wfD [OF wf q(1) u]
    show "p_pid (pcb_pool s' q) \<noteq> 0" using wfq pid by simp
    have linked: "pcb_wf (pcb_pool s' q) \<and> thread_list (pcb_pool s' q) =
        (if proc = Some q then thread_list (pcb_pool s q) @ [t] else thread_list (pcb_pool s q))"
    proof (cases "proc = Some q")
      case True
      have room: "p_thread_count (pcb_pool s q) < 16" by (rule thread_count_room [OF wf q(1) u t])
      with True s'(4) pcb_wf_link [OF wfq(1) room notin [OF q(1) u]] show ?thesis
        by (simp add: link_thread_def)
    next
      case False
      then have "pcb_pool s' q = pcb_pool s q" using s'(4) by (auto simp: link_thread_def split: option.split)
      with False wfq show ?thesis by simp
    qed
    then show "pcb_wf (pcb_pool s' q)" by simp
    have other: "p_pid (pcb_pool s p) \<noteq> p_pid (pcb_pool s q)" if "proc = Some p" "p \<noteq> q" for p
      using procs_wf_unique [OF wf _ q(1) _ u] that ok by (auto simp: proc_ok_def)
    show "set (thread_list (pcb_pool s' q)) =
        {x. x < 16 \<and> tcb_used s' x \<and> t_pid (tcb_pool s' x) = p_pid (pcb_pool s' q)}"
    proof (cases "proc = Some q")
      case True
      with linked wfq(3) pid s'(1,2,3) t show ?thesis by auto
    next
      case False
      then have "t_pid (tcb_pool s' t) \<noteq> p_pid (pcb_pool s q)"
        using s'(3) wfq(2) other by (cases proc) auto
      with False linked wfq(3) pid s'(1,2) t show ?thesis by auto
    qed
  next
    fix q r assume "q < 8" "r < 8" "pcb_used s' q" "pcb_used s' r"
      "p_pid (pcb_pool s' q) = p_pid (pcb_pool s' r)"
    then show "q = r" using procs_wf_unique [OF wf, of q r] pid s'(5) by simp
  next
    fix x assume x: "x < 16" "tcb_used s' x" "t_pid (tcb_pool s' x) \<noteq> 0"
    show "\<exists>p<8. pcb_used s' p \<and> p_pid (pcb_pool s' p) = t_pid (tcb_pool s' x)"
    proof (cases "x = t")
      case True
      with x(3) s'(3) obtain p where "proc = Some p" by (cases proc) auto
      then show ?thesis using True ok s'(3,5) pid by (intro exI [of _ p]) (simp add: proc_ok_def)
    next
      case False
      with x s'(1,2) procs_wf_owner [OF wf, of x] obtain q where "q < 8" "pcb_used s q"
        "p_pid (pcb_pool s q) = t_pid (tcb_pool s' x)" by auto
      then show ?thesis using pid s'(5) by (intro exI [of _ q]) simp
    qed
  qed
qed

lemma stacks_wf_alloc:
  assumes wf: "stacks_wf s" and t: "t < 16" "\<not> tcb_used s t"
    and s': "tcb_used s' = (tcb_used s)(t := True)"
      "\<And>u. u \<noteq> t \<Longrightarrow> t_stack_base (tcb_pool s' u) = t_stack_base (tcb_pool s u)"
      "\<And>u. u \<noteq> t \<Longrightarrow> t_stack_size (tcb_pool s' u) = t_stack_size (tcb_pool s u)"
      "t_stack_base (tcb_pool s' t) = Some b" "unat (t_stack_size (tcb_pool s' t)) \<le> k"
      "heap_wf s'" "heap_live s' = insert (b, k) (heap_live s)" "\<And>j. (b, j) \<notin> heap_live s"
  shows "stacks_wf s'"
  unfolding stacks_wf_def
proof (intro conjI allI impI)
  fix u assume u: "u < MAX_THREADS" "tcb_used s' u"
  show "\<exists>b k. t_stack_base (tcb_pool s' u) = Some b \<and> (b, k) \<in> heap_live s' \<and>
      unat (t_stack_size (tcb_pool s' u)) \<le> k"
  proof (cases "u = t")
    case True
    with s' show ?thesis by auto
  next
    case False
    with u s'(1) have "tcb_used s u" by simp
    with u wf obtain c j where "t_stack_base (tcb_pool s u) = Some c" "(c, j) \<in> heap_live s"
      "unat (t_stack_size (tcb_pool s u)) \<le> j" by (auto simp: stacks_wf_def)
    with False s' show ?thesis by auto
  qed
next
  fix u v assume uv: "u < MAX_THREADS" "v < MAX_THREADS"
    "tcb_used s' u \<and> tcb_used s' v \<and> t_stack_base (tcb_pool s' u) = t_stack_base (tcb_pool s' v)"
  have ne: "t_stack_base (tcb_pool s x) \<noteq> Some b" if x: "x < 16" "tcb_used s x" for x
  proof -
    obtain c j where "t_stack_base (tcb_pool s x) = Some c" "(c, j) \<in> heap_live s"
      using x wf unfolding stacks_wf_def kernel_consts by blast
    with s'(8) show ?thesis by auto
  qed
  show "u = v"
  proof (cases "u = t \<or> v = t")
    case True
    then show ?thesis
    proof
      assume "u = t"
      with uv s'(1,2,4) ne [of v] show "u = v" by (cases "v = t") simp_all
    next
      assume "v = t"
      with uv s'(1,2,4) ne [of u] show "u = v" by (cases "u = t") simp_all
    qed
  next
    case False
    with uv s'(1,2) have "u < 16" "v < 16" "tcb_used s u" "tcb_used s v"
      "t_stack_base (tcb_pool s u) = t_stack_base (tcb_pool s v)" by simp_all
    with wf show ?thesis by (simp add: stacks_wf_def)
  qed
qed (use s' in simp)

text \<open>Only threads in use are queued.\<close>

definition queued_used :: "'a kstate_scheme \<Rightarrow> (nat \<Rightarrow> nat list) \<Rightarrow> bool" where
  "queued_used s qs \<longleftrightarrow> (\<forall>p < NUM_PRIORITIES. \<forall>x \<in> set (qs p). x < MAX_THREADS \<and> tcb_used s x)"

lemma create_thread_no_memory:
  assumes slot: "first_slot (\<lambda>i. \<not> tcb_used s i) MAX_THREADS = Some t"
    and alloc: "kmalloc n (s\<lparr>tcb_used := (tcb_used s)(t := True)\<rparr>) =
        Some (None, s\<lparr>tcb_used := (tcb_used s)(t := True)\<rparr>)"
  shows "task_create_thread te proc name entry arg pr n s =
    Some (None, upd_tcb t (\<lambda>b. b\<lparr>t_stack_base := None\<rparr>) s)"
proof -
  have "\<not> tcb_used s t" using first_slot_SomeD [OF slot] by simp
  then have "(tcb_used s)(t := False) = tcb_used s" by (simp add: fun_upd_idem)
  then show ?thesis unfolding task_create_thread_def slot by (simp add: alloc upd_tcb_def)
qed

text \<open>The memory of a new stack.\<close>

lemma thread_memory_frame:
  fixes n te entry arg :: u32 and base :: nat and m :: "nat \<Rightarrow> u32"
  assumes "68 \<le> unat n"
  defines "m' \<equiv> thread_memory te entry arg base n m"
  shows "m' base = STACK_CANARY"
    and "i < 16 \<Longrightarrow> m' (base + unat n - 64 + 4 * i) = initial_frame entry arg te ! i"
    and "x < base \<or> base + unat n \<le> x \<Longrightarrow> m' x = m x"
proof -
  have len: "length (initial_frame entry arg te) = 16" by (simp add: initial_frame_def)
  have o: "m' y = (m(base := STACK_CANARY)) y" if "\<And>i. i < 16 \<Longrightarrow> y \<noteq> base + unat n - 64 + 4 * i" for y
    unfolding m'_def thread_memory_def by (rule store_words_other) (use that len in simp)
  show "m' base = STACK_CANARY" using o [of base] assms(1) by simp
  show "m' (base + unat n - 64 + 4 * i) = initial_frame entry arg te ! i" if "i < 16"
    unfolding m'_def thread_memory_def by (rule store_words_at) (simp add: len that)
  show "m' x = m x" if "x < base \<or> base + unat n \<le> x"
    using o [of x] that assms(1) by (auto simp: fun_upd_def)
qed

lemma create_thread_made:
  assumes wf: "tasks_wf s" and rq: "rq_abs s qs" "queued_used s qs" and lock: "\<not> sched_lock s"
    and ok: "proc_ok proc s" and n: "68 \<le> unat n" "unat n + 7 < 2 ^ 32"
    and slot: "first_slot (\<lambda>i. \<not> tcb_used s i) MAX_THREADS = Some t"
    and alloc: "kmalloc n (s\<lparr>tcb_used := (tcb_used s)(t := True)\<rparr>) = Some (Some base, h)"
  obtains s' where "task_create_thread te proc name entry arg pr n s = Some (Some t, s')" "tasks_wf s'"
    "tcb_used s' = (tcb_used s)(t := True)" "\<And>u. u \<noteq> t \<Longrightarrow> (tcb_pool s' u)\<lparr>t_next := None\<rparr> = (tcb_pool s u)\<lparr>t_next := None\<rparr>"
    "tcb_pool s' t = new_tcb proc name pr n base s"
    "rq_abs s' (qs(prio_of (tcb_pool s' t) := qs (prio_of (tcb_pool s' t)) @ [t]))"
    "heap_mem s' = thread_memory te entry arg base n (heap_mem s)"
    "base + unat n \<le> 65536" "next_tid s' = next_tid s + 1" "current_tcb s' = current_tcb s"
    "\<not> sched_lock s'" "pcb_used s' = pcb_used s" "heap_segs s' = heap_segs h" "pcb_pool s' = link_thread proc t (pcb_pool s)"
proof -
  have t: "t < 16" "\<not> tcb_used s t" using first_slot_SomeD [OF slot] by auto
  let ?s1 = "s\<lparr>tcb_used := (tcb_used s)(t := True)\<rparr>"
  have hwf: "heap_wf ?s1" using wf heap_cong(2) [of ?s1 s] by (simp add: tasks_wf_def stacks_wf_def)
  obtain B where h: "h = ?s1\<lparr>heap_blocks := B\<rparr>" "heap_wf h" using kmalloc_frame [OF hwf alloc] by blast
  obtain k where k0: "unat (ALIGN8 n) \<le> k" "heap_live h = insert (base, k) (heap_live ?s1)"
    using kheap.alloc_some [OF hwf alloc] by blast
  have "base + k \<le> 65536"
    using live_bounds [OF heap_wf_tiled [OF h(2)], of base k] k0(2) by (simp add: heap_live_def)
  with k0 ALIGN8_ge [OF n(2)] have k: "unat n \<le> k" "heap_live h = insert (base, k) (heap_live ?s1)"
    "base + k \<le> 65536" by simp_all
  have new: "\<And>j. (base, j) \<notin> heap_live s"
    using kheap.alloc_some [OF hwf alloc] heap_cong(3) [of ?s1 s] by auto
  let ?r = "s\<lparr>tcb_used := (tcb_used s)(t := True), heap_blocks := B,
         next_tid := next_tid s + 1, heap_mem := thread_memory te entry arg base n (heap_mem s),
         tcb_pool := (tcb_pool s)(t := new_tcb proc name pr n base s),
         pcb_pool := link_thread proc t (pcb_pool s)\<rparr>"
  have notin: "t \<notin> set (qs p)" if "p < 8" for p using rq(2) that t by (auto simp: queued_used_def)
  have "rq_abs (upd_tcb t (\<lambda>_. new_tcb proc name pr n base s) s) qs" using rq_abs_upd_off [OF rq(1)] notin .
  then have rqr: "rq_abs ?r qs" by (subst rq_abs_cong) (auto simp: next_of_def)
  let ?p = "prio_of (new_tcb proc name pr n base s)"
  obtain s' where s': "sched_add_thread (Some t) ?r = Some s'" "rq_abs s' (qs(?p := qs ?p @ [t]))"
    "relinked (insert t (set (qs ?p))) ?r s'"
    using sched_add_thread_spec [OF rqr, of t] notin lock by auto
  from s'(3) obtain N R where rl: "s' = ?r\<lparr>tcb_pool := (\<lambda>x. (tcb_pool ?r x)\<lparr>t_next := N x\<rparr>), ready_queues := R\<rparr>"
    unfolding relinked_def by blast
  have nt: "N t = None"
  proof -
    have "chain (next_of s') (ready_queues s' ?p) (qs ?p @ [t])" using rq_abs_chain [OF s'(2), of ?p] by simp
    then have "chain (next_of s') (next_of s' t) []" using chain_suffix by metis
    then show ?thesis by (simp add: rl next_of_def)
  qed
  have live': "heap_live s' = insert (base, k) (heap_live s)" and wf': "heap_wf s'"
    using k(2) h heap_cong(3) [of ?s1 s] heap_cong [of s' h] by (simp_all add: rl)
  have "stacks_wf s'"
    by (rule stacks_wf_alloc [OF _ t, where s' = s' and b = base and k = k])
      (use wf wf' live' new k(1) in \<open>simp_all add: rl tasks_wf_def new_tcb_def\<close>)
  moreover have "procs_wf s'"
    by (rule procs_wf_link [OF _ t ok]) (use wf in \<open>simp_all add: rl tasks_wf_def new_tcb_def\<close>)
  ultimately have "tasks_wf s'" by (simp add: tasks_wf_def)
  moreover have "tcb_pool s' t = new_tcb proc name pr n base s" using nt by (simp add: rl new_tcb_def)
  moreover have "task_create_thread te proc name entry arg pr n s = Some (Some t, s')"
    using create_thread_eq [OF slot] alloc h(1) s'(1) by simp
  ultimately show ?thesis
    using that [of s'] s'(2) k lock heap_cong(1) [of s' h] h by (simp add: rl)
qed

section \<open>Properties\<close>

text \<open>The static storage of \<open>task.c\<close> and \<open>sched.c\<close> before any code runs.\<close>

definition kernel_bss :: kstate where
  "kernel_bss = \<lparr>heap_blocks = (\<lambda>_. \<lparr>blk_size = 0, blk_free = False, blk_next = None\<rparr>),
     heap_mem = (\<lambda>_. 0), heap_head = None, heap_lock = False,
     tcb_pool = (\<lambda>_. tcb_zero), pcb_pool = (\<lambda>_. pcb_zero),
     tcb_used = (\<lambda>_. False), pcb_used = (\<lambda>_. False),
     next_tid = 1, pid_ranges = pid_ranges_init, current_tcb = (\<lambda>_. None), s_kernel_proc = None,
     tick_count = 0, ready_queues = (\<lambda>_. None), slice_remaining = (\<lambda>_. 0), sched_lock = False,
     trace_ring = (\<lambda>_. \<lparr>te_time_us = 0, te_type = TRACE_SWITCH, te_core = 0, te_state = 0, te_tid = 0,
       te_to_tid = 0, te_name = [], te_to_name = []\<rparr>),
     trace_seq = 0, trace_on = False, trace_filter = [], pendsv = (\<lambda>_. False), time_us = 0\<rparr>"

definition kernel_boot :: kstate where
  "kernel_boot = task_init (kmem_init kernel_bss)"

lemma boot_fields [simp]:
  "tcb_used kernel_boot = (\<lambda>_. False)" "pcb_used kernel_boot = (\<lambda>_. False)"
  "ready_queues kernel_boot = (\<lambda>_. None)" "\<not> sched_lock kernel_boot"
  "pid_ranges kernel_boot i = pid_ranges_init i" "next_tid kernel_boot = 1"
  "current_tcb kernel_boot i = None" "tcb_pool kernel_boot i = tcb_zero"
  by (auto simp: kernel_boot_def task_init_def kmem_init_def kernel_bss_def pid_ranges_init_def)

lemma boot_heap [simp]: "heap_wf kernel_boot" "heap_segs kernel_boot = [(0, 65520, True)]"
  using heap_cong [of kernel_boot "kmem_init kernel_bss"]
  by (simp_all add: kernel_boot_def task_init_def)

lemma boot_wf [simp]: "tasks_wf kernel_boot" "rq_abs kernel_boot (\<lambda>_. [])"
    "queued_used kernel_boot (\<lambda>_. [])"
  by (simp_all add: tasks_wf_def procs_wf_def stacks_wf_def rq_abs_def queued_used_def)



text \<open>
  C10. \<open>task_free_thread\<close> on a thread in use always returns and keeps the pools well formed: the
  slot is free, exactly the thread's stack goes back to the heap, the owning process loses this
  thread and keeps the others in order, and the process itself is freed if and only if this was
  its last thread; every other process and thread is untouched.
\<close>

theorem task_free_thread_spec:
  assumes "tasks_wf s" and "t < MAX_THREADS" and "tcb_used s t"
  shows "\<exists>s'. task_free_thread (Some t) s = Some s' \<and> tasks_wf s' \<and>
    tcb_used s' = (tcb_used s)(t := False) \<and> tcb_pool s' = (tcb_pool s)(t := tcb_zero) \<and>
    heap_live s' = {x \<in> heap_live s. Some (fst x) \<noteq> t_stack_base (tcb_pool s t)} \<and>
    (\<forall>p < MAX_PROCESSES. pcb_used s p \<longrightarrow>
       (if p_pid (pcb_pool s p) \<noteq> t_pid (tcb_pool s t) then
          pcb_used s' p \<and> pcb_pool s' p = pcb_pool s p
        else if thread_list (pcb_pool s p) = [t] then \<not> pcb_used s' p
        else pcb_used s' p \<and> thread_list (pcb_pool s' p) = remove1 t (thread_list (pcb_pool s p))))"
proof -
  have t: "t < 16" using assms(2) by simp
  have procs: "procs_wf s" using assms(1) by (simp add: tasks_wf_def)
  let ?post = "\<lambda>B. s\<lparr>heap_blocks := B, tcb_pool := (tcb_pool s)(t := tcb_zero),
      tcb_used := (tcb_used s)(t := False), pcb_pool := unlinked_pool t s, pcb_used := unlinked_used t s\<rparr>"
  from free_thread_spec [OF assms(1) t assms(3)] obtain B where
    B: "task_free_thread (Some t) s = Some (?post B)" "tasks_wf (?post B)"
    "heap_live (s\<lparr>heap_blocks := B\<rparr>) = {x \<in> heap_live s. Some (fst x) \<noteq> t_stack_base (tcb_pool s t)}" .
  have live: "heap_live (?post B) = heap_live (s\<lparr>heap_blocks := B\<rparr>)" by (rule heap_cong) simp_all
  have per: "if p_pid (pcb_pool s p) \<noteq> t_pid (tcb_pool s t) then
          pcb_used (?post B) p \<and> pcb_pool (?post B) p = pcb_pool s p
        else if thread_list (pcb_pool s p) = [t] then \<not> pcb_used (?post B) p
        else pcb_used (?post B) p \<and> thread_list (pcb_pool (?post B) p) = remove1 t (thread_list (pcb_pool s p))"
    if p: "p < 8" "pcb_used s p" for p
  proof (cases "p_pid (pcb_pool s p) = t_pid (tcb_pool s t)")
    case False
    then have "task_find_process (t_pid (tcb_pool s t)) s \<noteq> Some p" by (auto dest: find_process_Some)
    with False p show ?thesis
      by (auto simp: unlinked_pool_def unlinked_used_def split: option.split)
  next
    case True
    then have f: "task_find_process (t_pid (tcb_pool s t)) s = Some p" using procs_wf_find [OF procs p] by simp
    have wfp: "pcb_wf (pcb_pool s p)" by (rule procs_wfD(1) [OF procs p])
    note u = pcb_wf_unlink [OF wfp, of t]
    have "t \<in> set (thread_list (pcb_pool s p))" using procs_wfD(3) [OF procs p] t assms(3) True by simp
    then have one: "remove1 t (thread_list (pcb_pool s p)) = [] \<longleftrightarrow> thread_list (pcb_pool s p) = [t]"
      by (cases "thread_list (pcb_pool s p)") (auto split: if_splits)
    have "p_thread_count (unlink_thread t (pcb_pool s p)) = length (remove1 t (thread_list (pcb_pool s p)))"
      using u pcb_wf_length [of "unlink_thread t (pcb_pool s p)"] by simp
    with True f u one p show ?thesis by (simp add: unlinked_pool_def unlinked_used_def)
  qed
  then have all: "\<forall>p < MAX_PROCESSES. pcb_used s p \<longrightarrow>
       (if p_pid (pcb_pool s p) \<noteq> t_pid (tcb_pool s t) then
          pcb_used (?post B) p \<and> pcb_pool (?post B) p = pcb_pool s p
        else if thread_list (pcb_pool s p) = [t] then \<not> pcb_used (?post B) p
        else pcb_used (?post B) p \<and>
          thread_list (pcb_pool (?post B) p) = remove1 t (thread_list (pcb_pool s p)))"
    unfolding kernel_consts by blast
  show ?thesis
    by (rule exI [of _ "?post B"], intro conjI all) (use B live in simp_all)
qed

text \<open>
  C12. \<open>task_alloc_pid\<close> gives out a PID of the requested range that no process uses; it never
  fails for the kernel's four ranges (each is larger than the process table), and it continues
  after the PID it gave out, wrapping at the top, so that a freed PID is not reused at once.
\<close>

theorem task_alloc_pid_fresh:
  assumes "rng < PID_RANGE_COUNT" and "range_ok (pid_ranges s rng)"
    and "8 < unat (pr_limit (pid_ranges s rng)) - unat (pr_base (pid_ranges s rng)) + 1"
  shows "\<exists>pid s'. task_alloc_pid rng s = (pid, s') \<and> pid \<noteq> 0 \<and>
    pr_base (pid_ranges s rng) \<le> pid \<and> pid \<le> pr_limit (pid_ranges s rng) \<and>
    task_find_process pid s = None \<and>
    pr_next (pid_ranges s' rng) =
      (if pid = pr_limit (pid_ranges s rng) then pr_base (pid_ranges s rng) else pid + 1) \<and>
    range_ok (pid_ranges s' rng) \<and>
    (task_find_process (pr_next (pid_ranges s rng)) s = None \<longrightarrow> pid = pr_next (pid_ranges s rng))"
proof -
  let ?r = "pid_ranges s rng"
  let ?off = "unat (pr_next ?r) - unat (pr_base ?r)"
  let ?n = "unat (pr_limit ?r) - unat (pr_base ?r) + 1"
  let ?f = "first_slot (\<lambda>j. task_find_process (candidate_pid ?r ?off j) s = None) ?n"
  note ok = assms(2)
  have loop: "alloc_pid_loop (unat (pr_limit ?r - pr_base ?r + 1)) ?r (pr_next ?r) s =
      map_option (\<lambda>j. (candidate_pid ?r ?off j, candidate_pid ?r ?off (Suc j))) ?f"
    using alloc_pid_loop_spec [OF ok, of ?n ?off 0 s] candidate_next [OF ok]
    by (simp add: range_span [OF ok] first_slot_def)
  obtain pid where "pr_base ?r \<le> pid" "pid \<le> pr_limit ?r" "task_find_process pid s = None"
    using range_has_free [OF ok assms(3)] by blast
  with candidate_onto [OF ok, of pid ?off] obtain k where k: "k < ?n"
    "task_find_process (candidate_pid ?r ?off k) s = None" by blast
  then have "?f \<noteq> None" unfolding first_slot_None by blast
  then obtain j where j: "?f = Some j" by auto
  then have free: "task_find_process (candidate_pid ?r ?off j) s = None"
    and first: "\<And>i. i < j \<Longrightarrow> task_find_process (candidate_pid ?r ?off i) s \<noteq> None"
    using first_slot_SomeD [OF j] by auto
  let ?pid = "candidate_pid ?r ?off j" and ?nx = "candidate_pid ?r ?off (Suc j)"
  have al: "task_alloc_pid rng s = (?pid, s\<lparr>pid_ranges := (pid_ranges s)(rng := ?r\<lparr>pr_next := ?nx\<rparr>)\<rparr>)"
    using assms(1) loop j by (simp add: task_alloc_pid_def Let_def)
  have "0 < pr_base ?r" using ok by (simp add: range_ok_def)
  then have nz: "?pid \<noteq> 0" using candidate_in_range [OF ok, of ?off j] by auto
  have "j = 0" if "task_find_process (pr_next ?r) s = None"
    using first [of 0] that candidate_next [OF ok] by auto
  then have "task_find_process (pr_next ?r) s = None \<longrightarrow> ?pid = pr_next ?r"
    using candidate_next [OF ok] by auto
  moreover have "range_ok (?r\<lparr>pr_next := ?nx\<rparr>)"
    using ok candidate_in_range [OF ok, of ?off "Suc j"] by (simp add: range_ok_def)
  ultimately show ?thesis
    using al nz free candidate_in_range [OF ok, of ?off j] candidate_step [OF ok, of ?off j] by auto
qed

theorem task_alloc_pid_fresh_witness:
  "\<exists>s'. task_alloc_pid 2 kernel_boot = (100, s') \<and> pr_next (pid_ranges s' 2) = 101"
  using task_alloc_pid_fresh [of 2 kernel_boot]
  by (auto simp: range_ok_def pid_ranges_init_def find_process_None)

text \<open>A kernel with one process and one thread, for the instances below.\<close>

lemma boot_one_thread:
  obtains s :: kstate where "tasks_wf s" "tcb_used s = (\<lambda>t. t = 0)" "rq_abs s ((\<lambda>_. [])(7 := [0]))"
    "\<not> sched_lock s" "t_state (tcb_pool s 0) = THREAD_READY" "current_tcb s = current_tcb kernel_boot"
    "t_stack_base (tcb_pool s 0) = Some 16" "heap_mem s 16 = STACK_CANARY" "t_pid (tcb_pool s 0) = 0"
    "prio_of (tcb_pool s 0) = 7"
proof -
  let ?s1 = "kernel_boot\<lparr>tcb_used := (tcb_used kernel_boot)(0 := True)\<rparr>"
  have "heap_abs ?s1 [(0, 65520, True)]"
    using heap_cong [of ?s1 kernel_boot] by (simp add: heap_abs_iff)
  from kmalloc_some [OF this, of 2048] obtain B where
    alloc: "kmalloc 2048 ?s1 = Some (Some 16, ?s1\<lparr>heap_blocks := B\<rparr>)" by (auto simp: ALIGN8_def)
  have slot: "first_slot (\<lambda>i. \<not> tcb_used kernel_boot i) MAX_THREADS = Some 0"
    by (simp add: first_slot_Some_iff)
  show thesis
    by (rule create_thread_made [of kernel_boot "\<lambda>_. []" None 2048 0 16 "?s1\<lparr>heap_blocks := B\<rparr>" 99
          "Some ''idle''" 0 0 7, OF _ _ _ _ _ _ _ slot alloc])
      (use that thread_memory_frame(1) [of 2048 99 0 0 16] in
        \<open>auto simp: proc_ok_def new_tcb_def prio_of_def fun_eq_iff\<close>)
qed

theorem task_free_thread_spec_witness:
  "\<exists>(s :: kstate) s'. tcb_used s 0 \<and> task_free_thread (Some 0) s = Some s' \<and> \<not> tcb_used s' 0 \<and> tasks_wf s'"
proof -
  obtain s :: kstate where s: "tasks_wf s" "tcb_used s = (\<lambda>t. t = 0)" "rq_abs s ((\<lambda>_. [])(7 := [0]))"
    "\<not> sched_lock s" "t_state (tcb_pool s 0) = THREAD_READY" "current_tcb s = current_tcb kernel_boot"
    "t_stack_base (tcb_pool s 0) = Some 16" "heap_mem s 16 = STACK_CANARY" "t_pid (tcb_pool s 0) = 0"
    "prio_of (tcb_pool s 0) = 7"
    by (rule boot_one_thread)
  then obtain s' where "task_free_thread (Some 0) s = Some s'" "tasks_wf s'"
    "tcb_used s' = (tcb_used s)(0 := False)"
    using task_free_thread_spec [of s 0] by auto
  with s(2) show ?thesis by (intro exI [of _ s] exI [of _ s']) simp
qed

text \<open>
  C11. \<open>task_create_process\<close> refuses PID 0, a PID in use and a full table, and then changes
  nothing; otherwise the new process is the one that \<open>task_find_process\<close> finds under its PID, is
  alive with no threads and no open descriptors, and the pools stay well formed.
\<close>

theorem task_create_process_spec:
  assumes "tasks_wf s" and "task_create_process name pid s = (r, s')"
  shows "tasks_wf s' \<and>
    (case r of
       None \<Rightarrow> s' = s \<and> (pid = 0 \<or> task_find_process pid s \<noteq> None \<or> (\<forall>p < MAX_PROCESSES. pcb_used s p))
     | Some p \<Rightarrow> pid \<noteq> 0 \<and> task_find_process pid s = None \<and> \<not> pcb_used s p \<and>
         task_find_process pid s' = Some p \<and> p_alive (pcb_pool s' p) \<and>
         thread_list (pcb_pool s' p) = [] \<and> p_fd_table (pcb_pool s' p) = replicate MAX_FDS (- 1) \<and>
         (\<forall>q. q \<noteq> p \<longrightarrow> pcb_pool s' q = pcb_pool s q \<and> pcb_used s' q = pcb_used s q))"
proof (cases rule: create_process_cases [of name pid s])
  case Fail
  with assms show ?thesis by auto
next
  case (Slot p)
  note f = create_process_fields [OF Slot(5)]
  have wf: "tasks_wf s'" using tasks_wf_create_process [OF assms(1) Slot(5)] assms(2) by simp
  have "task_find_process (p_pid (pcb_pool s' p)) s' = Some p"
    using f(1) assms(2) Slot(3) wf by (intro procs_wf_find) (auto simp: tasks_wf_def)
  with wf f Slot assms(2) pcb_wf_empty [OF f(6,7)] show ?thesis by simp
qed

theorem task_create_process_spec_witness:
  "\<exists>p s'. task_create_process (Some ''kernel'') 1 kernel_boot = (Some p, s') \<and>
     task_find_process 1 s' = Some p \<and> tasks_wf s'"
proof -
  obtain r s' where c: "task_create_process (Some ''kernel'') 1 kernel_boot = (r, s')" by fastforce
  have "\<exists>p<8. \<not> pcb_used kernel_boot p" by (intro exI [of _ 0]) simp
  with task_create_process_spec [OF boot_wf(1) c] c show ?thesis
    by (cases r) (auto simp: find_process_None)
qed

end
