(* ===== verification/Sched.thy ===== *)
theory Sched
  imports Task
begin

text \<open>
  \<open>src/kernel/sched.c\<close>: the preemptive priority scheduler of both cores, its trace ring, and the
  two kill functions of \<open>task.c\<close> that rest on it. \<open>core\<close> is \<open>get_core_num()\<close>. A function that
  panics (stack overflow) or waits for a held lock does not return: \<^const>\<open>None\<close>.
\<close>

section \<open>Trace ring\<close>

definition trace_match :: "string option \<Rightarrow> 'a kstate_scheme \<Rightarrow> bool" where
  "trace_match name s \<longleftrightarrow>
     (let n = length (cstr (trace_filter s))
      in n = 0 \<or> (case name of None \<Rightarrow> False | Some nm \<Rightarrow> strncmp_eq n nm (trace_filter s)))"

definition trace_record ::
  "nat \<Rightarrow> trace_type \<Rightarrow> u8 \<Rightarrow> u32 \<Rightarrow> string option \<Rightarrow> u32 \<Rightarrow> string option \<Rightarrow>
     'a kstate_scheme \<Rightarrow> 'a kstate_scheme" where
  "trace_record core type st tid name to_tid to_name s =
     (if \<not> trace_match name s \<and> \<not> (to_name \<noteq> None \<and> trace_match to_name s) then s
      else
        let e = \<lparr>te_time_us = ucast (time_us s), te_type = type, te_core = core, te_state = st,
                 te_tid = tid, te_to_tid = to_tid,
                 te_name = strncpy_z TRACE_NAME_LEN (case name of None \<Rightarrow> '''' | Some n \<Rightarrow> n),
                 te_to_name = strncpy_z TRACE_NAME_LEN (case to_name of None \<Rightarrow> '''' | Some n \<Rightarrow> n)\<rparr>
        in s\<lparr>trace_ring := (trace_ring s)(unat (trace_seq s mod TRACE_EVENTS) := e),
             trace_seq := trace_seq s + 1\<rparr>)"

definition sched_trace_start :: "string option \<Rightarrow> 'a kstate_scheme \<Rightarrow> 'a kstate_scheme option" where
  "sched_trace_start flt s = do {
     s1 \<leftarrow> sched_acquire s;
     Some (sched_release (s1\<lparr>
       trace_filter := strncpy_z TRACE_NAME_LEN (case flt of None \<Rightarrow> '''' | Some f \<Rightarrow> f),
       trace_seq := 0, trace_on := True\<rparr>))
   }"

definition sched_trace_pause :: "bool \<Rightarrow> 'a kstate_scheme \<Rightarrow> 'a kstate_scheme option" where
  "sched_trace_pause pause s = do {
     s1 \<leftarrow> sched_acquire s;
     Some (sched_release (s1\<lparr>trace_on := \<not> pause\<rparr>))
   }"

text \<open>The recording flag, and the figures stored through \<open>first\<close>, \<open>end\<close> and \<open>filter\<close>.\<close>

definition sched_trace_info :: "'a kstate_scheme \<Rightarrow> ((bool \<times> u32 \<times> u32 \<times> string) \<times> 'a kstate_scheme) option" where
  "sched_trace_info s = do {
     s1 \<leftarrow> sched_acquire s;
     let e = trace_seq s1;
     let on = trace_on s1;
     let s2 = sched_release s1;
     Some ((on, (if TRACE_EVENTS < e then e - TRACE_EVENTS else 0), e, trace_filter s2), s2)
   }"

definition sched_trace_get :: "u32 \<Rightarrow> 'a kstate_scheme \<Rightarrow> (trace_event option \<times> 'a kstate_scheme) option" where
  "sched_trace_get seq s = do {
     s1 \<leftarrow> sched_acquire s;
     let r = (if seq < trace_seq s1 \<and> trace_seq s1 - seq \<le> TRACE_EVENTS
              then Some (trace_ring s1 (unat (seq mod TRACE_EVENTS))) else None);
     Some (r, sched_release s1)
   }"

section \<open>Blocking, waking, sleeping, killing\<close>

definition sched_yield :: "nat \<Rightarrow> 'a kstate_scheme \<Rightarrow> 'a kstate_scheme" where
  "sched_yield core s = s\<lparr>pendsv := (pendsv s)(core := True)\<rparr>"

definition sched_block :: "nat option \<Rightarrow> 'a kstate_scheme \<Rightarrow> 'a kstate_scheme option" where
  "sched_block tp s = (case tp of
       None \<Rightarrow> Some s
     | Some t \<Rightarrow> do {
         s1 \<leftarrow> sched_acquire s;
         s2 \<leftarrow> sched_remove_thread_raw (Some t) (set_state t THREAD_BLOCKED s1);
         Some (sched_release s2)
       })"

definition sched_unblock :: "nat \<Rightarrow> nat option \<Rightarrow> 'a kstate_scheme \<Rightarrow> (bool \<times> 'a kstate_scheme) option" where
  "sched_unblock core tp s = (case tp of
       None \<Rightarrow> Some (False, s)
     | Some t \<Rightarrow> do {
         s1 \<leftarrow> sched_acquire s;
         if t_state (tcb_pool s1 t) = THREAD_ZOMBIE then do {
           s2 \<leftarrow> task_free_thread (Some t) (sched_release s1);
           Some (False, s2)
         }
         else do {
           s2 \<leftarrow> sched_add_thread_raw (Some t) (set_state t THREAD_READY s1);
           let s3 = (if trace_on s2 then
                       trace_record core TRACE_UNBLOCK 0 (t_tid (tcb_pool s2 t))
                         (Some (t_name (tcb_pool s2 t))) 0 None s2
                     else s2);
           Some (True, sched_release s3)
         }
       })"

definition kill_trace :: "nat \<Rightarrow> nat \<Rightarrow> 'a kstate_scheme \<Rightarrow> 'a kstate_scheme" where
  "kill_trace core t s =
     (if trace_on s \<and> t_state (tcb_pool s t) \<noteq> THREAD_ZOMBIE then
        trace_record core TRACE_KILL (state_code (t_state (tcb_pool s t)))
          (t_tid (tcb_pool s t)) (Some (t_name (tcb_pool s t))) 0 None s
      else s)"

definition sched_kill :: "nat \<Rightarrow> nat option \<Rightarrow> 'a kstate_scheme \<Rightarrow> (bool \<times> 'a kstate_scheme) option" where
  "sched_kill core tp s = (case tp of
       None \<Rightarrow> Some (False, s)
     | Some t \<Rightarrow> do {
         s1 \<leftarrow> sched_acquire s;
         let s2 = kill_trace core t s1;
         if current_tcb s2 core = Some t then
           Some (False, sched_release (set_state t THREAD_ZOMBIE s2))
         else if current_tcb s2 (1 - core) = Some t then
           Some (False, sched_release (upd_tcb t (\<lambda>b. b\<lparr>t_kill_pending := True\<rparr>) s2))
         else if t_state (tcb_pool s2 t) = THREAD_BLOCKED then
           Some (False, sched_release (set_state t THREAD_ZOMBIE s2))
         else if t_state (tcb_pool s2 t) \<noteq> THREAD_ZOMBIE then do {
           s3 \<leftarrow> sched_remove_thread_raw (Some t) s2;
           Some (True, sched_release (set_state t THREAD_ZOMBIE s3))
         }
         else Some (False, sched_release s2)
       })"

definition sched_sleep :: "nat \<Rightarrow> u32 \<Rightarrow> 'a kstate_scheme \<Rightarrow> 'a kstate_scheme option" where
  "sched_sleep core ms s = (case current_tcb s core of
       None \<Rightarrow> Some s
     | Some t \<Rightarrow> do {
         let s0 = upd_tcb t (\<lambda>b. b\<lparr>t_wake_time_us := time_us s + ucast ms * 1000\<rparr>) s;
         s1 \<leftarrow> sched_acquire s0;
         s2 \<leftarrow> sched_remove_thread_raw (Some t) (set_state t THREAD_SLEEPING s1);
         Some (sched_yield core (sched_release s2))
       })"

text \<open>\<open>task.c\<close>: \<open>task_kill_thread\<close>, \<open>task_kill_process\<close> and the body of \<open>thread_exit\<close>.\<close>

definition task_kill_thread :: "nat \<Rightarrow> nat option \<Rightarrow> 'a kstate_scheme \<Rightarrow> 'a kstate_scheme option" where
  "task_kill_thread core tp s = (case tp of
       None \<Rightarrow> Some s
     | Some t \<Rightarrow> do {
         (free_now, s1) \<leftarrow> sched_kill core (Some t) s;
         if free_now then task_free_thread (Some t) s1 else Some s1
       })"

fun kill_all :: "nat \<Rightarrow> nat option list \<Rightarrow> 'a kstate_scheme \<Rightarrow> 'a kstate_scheme option" where
  "kill_all core [] s = Some s"
| "kill_all core (t # ts) s = Option.bind (task_kill_thread core t s) (kill_all core ts)"

definition task_kill_process :: "nat \<Rightarrow> nat option \<Rightarrow> 'a kstate_scheme \<Rightarrow> 'a kstate_scheme option" where
  "task_kill_process core pp s = (case pp of
       None \<Rightarrow> Some s
     | Some p \<Rightarrow>
         let s1 = upd_pcb p (\<lambda>b. b\<lparr>p_alive := False\<rparr>) s;
             snapshot = take (p_thread_count (pcb_pool s1 p)) (p_threads (pcb_pool s1 p))
         in kill_all core snapshot s1)"

definition thread_exit_step :: "nat \<Rightarrow> 'a kstate_scheme \<Rightarrow> 'a kstate_scheme" where
  "thread_exit_step core s = sched_yield core
     (case current_tcb s core of None \<Rightarrow> s | Some t \<Rightarrow> set_state t THREAD_ZOMBIE s)"

section \<open>Choosing the next thread\<close>

definition eligible :: "nat \<Rightarrow> 'a kstate_scheme \<Rightarrow> nat \<Rightarrow> bool" where
  "eligible core s t \<longleftrightarrow> t_state (tcb_pool s t) = THREAD_READY \<and>
     Some t \<noteq> current_tcb s (1 - core) \<and>
     (t_affinity (tcb_pool s t) = THREAD_AFFINITY_ANY \<or> t_affinity (tcb_pool s t) = of_nat core)"

text \<open>\<open>for (t = ready_queues[prio]; t != NULL; t = t->next) if (ok(t)) { selected = t; break; }\<close>\<close>

partial_function (option) pick_thread ::
  "(nat \<Rightarrow> nat option) \<Rightarrow> (nat \<Rightarrow> bool) \<Rightarrow> nat option \<Rightarrow> nat option option" where
  "pick_thread nx ok p = (case p of
       None \<Rightarrow> Some None
     | Some t \<Rightarrow> if ok t then Some (Some t) else pick_thread nx ok (nx t))"

text \<open>The round-robin step: the outgoing thread goes from the head of the queue to its tail.\<close>

definition rotate_current :: "bool \<Rightarrow> nat option \<Rightarrow> nat \<Rightarrow> 'a kstate_scheme \<Rightarrow> 'a kstate_scheme option" where
  "rotate_current zombie_reaped cur prio s = (case ready_queues s prio of
       None \<Rightarrow> Some s
     | Some head \<Rightarrow>
         if \<not> zombie_reaped \<and> cur = Some head \<and> t_state (tcb_pool s head) = THREAD_READY then
           (case next_of s head of
              None \<Rightarrow> Some s
            | Some n \<Rightarrow> do {
                let s1 = set_ready prio (Some n) s;
                tail \<leftarrow> last_node (next_of s1) n;
                Some (set_next head None (set_next tail (Some head) s1))
              })
         else Some s)"

fun select_loop ::
  "nat list \<Rightarrow> nat \<Rightarrow> bool \<Rightarrow> nat option \<Rightarrow> 'a kstate_scheme \<Rightarrow> (nat option \<times> 'a kstate_scheme) option" where
  "select_loop [] core z cur s = Some (None, s)"
| "select_loop (prio # ps) core z cur s =
     (if ready_queues s prio = None then select_loop ps core z cur s
      else do {
        s1 \<leftarrow> rotate_current z cur prio s;
        sel \<leftarrow> pick_thread (next_of s1) (eligible core s1) (ready_queues s1 prio);
        case sel of
          Some t \<Rightarrow> Some (Some t, s1)
        | None \<Rightarrow> select_loop ps core z cur s1
      })"

text \<open>
  The steps of \<open>sched_next_thread\<close> before the selection: the canary check, the deferred kill
  with the trace data of the outgoing thread, the change to READY, and the reaping of a zombie.
\<close>

definition canary_intact :: "nat option \<Rightarrow> 'a kstate_scheme \<Rightarrow> bool" where
  "canary_intact cur s = (case cur of
       None \<Rightarrow> True
     | Some c \<Rightarrow> (case t_stack_base (tcb_pool s c) of
           None \<Rightarrow> True
         | Some b \<Rightarrow> heap_mem s b = STACK_CANARY))"

definition take_kill :: "nat option \<Rightarrow> 'a kstate_scheme \<Rightarrow> bool \<times> 'a kstate_scheme" where
  "take_kill cur s = (case cur of
       None \<Rightarrow> (False, s)
     | Some c \<Rightarrow>
         if t_kill_pending (tcb_pool s c) then
           (t_state (tcb_pool s c) = THREAD_BLOCKED,
            upd_tcb c (\<lambda>b. b\<lparr>t_kill_pending := False, t_state := THREAD_ZOMBIE\<rparr>) s)
         else (False, s))"

definition requeue_running :: "nat option \<Rightarrow> 'a kstate_scheme \<Rightarrow> 'a kstate_scheme" where
  "requeue_running cur s = (case cur of
       None \<Rightarrow> s
     | Some c \<Rightarrow> if t_state (tcb_pool s c) = THREAD_RUNNING then set_state c THREAD_READY s else s)"

definition reap :: "bool \<Rightarrow> nat option \<Rightarrow> 'a kstate_scheme \<Rightarrow> (bool \<times> 'a kstate_scheme) option" where
  "reap kill_deferred cur s = (case cur of
       None \<Rightarrow> Some (False, s)
     | Some c \<Rightarrow>
         if t_state (tcb_pool s c) = THREAD_ZOMBIE \<and> \<not> kill_deferred then do {
           s1 \<leftarrow> sched_remove_thread_raw (Some c) s;
           s2 \<leftarrow> task_free_thread (Some c) s1;
           Some (True, s2)
         }
         else Some (False, s))"

definition sched_next_thread :: "nat \<Rightarrow> 'a kstate_scheme \<Rightarrow> (nat option \<times> 'a kstate_scheme) option" where
  "sched_next_thread core s = do {
     let cur = current_tcb s core;
     s1 \<leftarrow> sched_acquire s;
     if \<not> canary_intact cur s1 then None
     else do {
       let (kill_deferred, s2) = take_kill cur s1;
       let prev = cur;
       let (out_tid, out_state, out_name) =
         (case cur of
            Some c \<Rightarrow> if trace_on s2 then
                (t_tid (tcb_pool s2 c), state_code (t_state (tcb_pool s2 c)),
                 strncpy_z TRACE_NAME_LEN (t_name (tcb_pool s2 c)))
              else (0, 0, '''')
          | None \<Rightarrow> (0, 0, ''''));
       (zombie_reaped, s4) \<leftarrow> reap kill_deferred cur (requeue_running cur s2);
       let cur' = (if zombie_reaped then None else cur);
       (selected, s5) \<leftarrow> select_loop [0..<NUM_PRIORITIES] core zombie_reaped cur' s4;
       case selected of
         None \<Rightarrow> (let s6 = sched_release s5 in Some (current_tcb s6 core, s6))
       | Some t \<Rightarrow>
           let s6 = (set_state t THREAD_RUNNING s5)\<lparr>
                 slice_remaining := (slice_remaining s5)(core := TIME_SLICE_MS),
                 current_tcb := (current_tcb s5)(core := Some t)\<rparr>;
               s7 = (if trace_on s6 \<and> selected \<noteq> prev then
                       trace_record core TRACE_SWITCH out_state out_tid (Some out_name)
                         (t_tid (tcb_pool s6 t)) (Some (t_name (tcb_pool s6 t))) s6
                     else s6)
           in Some (Some t, sched_release s7)
     }
   }"

section \<open>The tick\<close>

fun wake_sleepers :: "nat list \<Rightarrow> nat \<Rightarrow> u64 \<Rightarrow> 'a kstate_scheme \<Rightarrow> 'a kstate_scheme option" where
  "wake_sleepers [] core now s = Some s"
| "wake_sleepers (i # is) core now s =
     (case task_get_thread_slot (int i) s of
        None \<Rightarrow> wake_sleepers is core now s
      | Some t \<Rightarrow>
          if t_state (tcb_pool s t) = THREAD_SLEEPING \<and> t_wake_time_us (tcb_pool s t) \<le> now then do {
            s1 \<leftarrow> sched_add_thread_raw (Some t) (set_state t THREAD_READY s);
            let s2 = (if trace_on s1 then
                        trace_record core TRACE_WAKE 0 (t_tid (tcb_pool s1 t))
                          (Some (t_name (tcb_pool s1 t))) 0 None s1
                      else s1);
            wake_sleepers is core now s2
          }
          else wake_sleepers is core now s)"

definition isr_systick :: "nat \<Rightarrow> 'a kstate_scheme \<Rightarrow> 'a kstate_scheme option" where
  "isr_systick core s = do {
     let s1 = (case current_tcb s core of
                 None \<Rightarrow> s
               | Some c \<Rightarrow> upd_tcb c (\<lambda>b. b\<lparr>t_cpu_time_us := t_cpu_time_us b + 1000\<rparr>) s);
     let s2 = (if 0 < slice_remaining s1 core then
                 s1\<lparr>slice_remaining := (slice_remaining s1)(core := slice_remaining s1 core - 1)\<rparr>
               else s1);
     let s3 = (if slice_remaining s2 core = 0 then
                 s2\<lparr>slice_remaining := (slice_remaining s2)(core := TIME_SLICE_MS),
                    pendsv := (pendsv s2)(core := True)\<rparr>
               else s2);
     if core \<noteq> 0 then Some s3
     else do {
       let s4 = s3\<lparr>tick_count := tick_count s3 + 1\<rparr>;
       let now = time_us s4;
       s5 \<leftarrow> sched_acquire s4;
       s6 \<leftarrow> wake_sleepers [0..<MAX_THREADS] core now s5;
       Some (sched_release s6)
     }
   }"

definition sched_tick :: "nat \<Rightarrow> 'a kstate_scheme \<Rightarrow> 'a kstate_scheme option" where
  "sched_tick = isr_systick"

section \<open>Starting the cores\<close>

definition sched_init :: "'a kstate_scheme \<Rightarrow> 'a kstate_scheme" where
  "sched_init s = s\<lparr>sched_lock := False, slice_remaining := (slice_remaining s)(0 := TIME_SLICE_MS)\<rparr>"

definition sched_init_core1 :: "'a kstate_scheme \<Rightarrow> 'a kstate_scheme" where
  "sched_init_core1 s = s\<lparr>slice_remaining := (slice_remaining s)(1 := TIME_SLICE_MS)\<rparr>"

fun first_on_queues ::
  "nat list \<Rightarrow> (nat \<Rightarrow> bool) \<Rightarrow> 'a kstate_scheme \<Rightarrow> nat option option" where
  "first_on_queues [] ok s = Some None"
| "first_on_queues (p # ps) ok s = do {
     r \<leftarrow> pick_thread (next_of s) ok (ready_queues s p);
     case r of Some t \<Rightarrow> Some (Some t) | None \<Rightarrow> first_on_queues ps ok s
   }"

text \<open>
  \<open>sched_start\<close> up to the jump: the thread, the initial PSP, and the entry point and argument
  read from its frame; with no thread it panics.
\<close>

definition frame_entry :: "nat \<Rightarrow> 'a kstate_scheme \<Rightarrow> nat \<times> u32 \<times> u32" where
  "frame_entry t s = (let sp = t_saved_sp (tcb_pool s t)
     in (sp + 4 * (8 + 8), heap_mem s (sp + 4 * 14), heap_mem s (sp + 4 * 8)))"

definition sched_start :: "'a kstate_scheme \<Rightarrow> ((nat \<times> u32 \<times> u32) \<times> 'a kstate_scheme) option" where
  "sched_start s = do {
     first \<leftarrow> first_on_queues [0..<NUM_PRIORITIES]
       (\<lambda>t. t_affinity (tcb_pool s t) = THREAD_AFFINITY_ANY \<or>
            t_affinity (tcb_pool s t) = THREAD_AFFINITY_C0) s;
     case first of
       None \<Rightarrow> None
     | Some t \<Rightarrow>
         let s1 = (set_state t THREAD_RUNNING s)\<lparr>current_tcb := (current_tcb s)(0 := Some t)\<rparr>
         in Some (frame_entry t s1, s1)
   }"

definition sched_start_core1 :: "'a kstate_scheme \<Rightarrow> ((nat \<times> u32 \<times> u32) \<times> 'a kstate_scheme) option" where
  "sched_start_core1 s = do {
     s1 \<leftarrow> sched_acquire s;
     first \<leftarrow> first_on_queues [0..<NUM_PRIORITIES]
       (\<lambda>t. t_state (tcb_pool s1 t) = THREAD_READY \<and>
            (t_affinity (tcb_pool s1 t) = THREAD_AFFINITY_ANY \<or>
             t_affinity (tcb_pool s1 t) = THREAD_AFFINITY_C1)) s1;
     case first of
       None \<Rightarrow> None
     | Some t \<Rightarrow>
         let s2 = sched_release ((set_state t THREAD_RUNNING s1)
               \<lparr>current_tcb := (current_tcb s1)(1 := Some t)\<rparr>)
         in Some (frame_entry t s2, s2)
   }"

section \<open>The scheduler invariant\<close>

definition is_current :: "(nat \<Rightarrow> nat option) \<Rightarrow> nat \<Rightarrow> bool" where
  "is_current C t \<longleftrightarrow> C 0 = Some t \<or> C 1 = Some t"

text \<open>
  What the queues, the states and the two current threads have to do with each other, over the
  bare functions: a READY or RUNNING thread is queued; a queued thread is READY or RUNNING or
  is a zombie that has yet to switch out; a RUNNING thread is current, so is one with a kill
  pending; the current threads are in use and never the same.
\<close>

definition thread_inv :: "thread_state \<Rightarrow> bool \<Rightarrow> bool \<Rightarrow> bool \<Rightarrow> bool" where
  "thread_inv st queued killed current \<longleftrightarrow>
     (st = THREAD_READY \<or> st = THREAD_RUNNING \<longrightarrow> queued) \<and>
     (queued \<longrightarrow> st = THREAD_READY \<or> st = THREAD_RUNNING \<or> st = THREAD_ZOMBIE \<and> current) \<and>
     (st = THREAD_RUNNING \<longrightarrow> current) \<and> (killed \<longrightarrow> current)"

definition queue_inv ::
  "(nat \<Rightarrow> bool) \<Rightarrow> (nat \<Rightarrow> thread_state) \<Rightarrow> (nat \<Rightarrow> nat) \<Rightarrow> (nat \<Rightarrow> bool) \<Rightarrow> (nat \<Rightarrow> nat option) \<Rightarrow>
     (nat \<Rightarrow> nat list) \<Rightarrow> bool" where
  "queue_inv U S P K C Q \<longleftrightarrow>
     (\<forall>p < NUM_PRIORITIES. \<forall>x \<in> set (Q p). x < MAX_THREADS \<and> U x) \<and>
     (\<forall>t < MAX_THREADS. U t \<longrightarrow> thread_inv (S t) (t \<in> set (Q (P t))) (K t) (is_current C t)) \<and>
     (\<forall>t \<in> set_option (C 0) \<union> set_option (C 1). t < MAX_THREADS \<and> U t) \<and>
     (C 0 = C 1 \<longrightarrow> C 0 = None)"

definition queue_ok :: "'a kstate_scheme \<Rightarrow> (nat \<Rightarrow> nat list) \<Rightarrow> bool" where
  "queue_ok s qs \<longleftrightarrow> queue_inv (tcb_used s) (\<lambda>t. t_state (tcb_pool s t)) (\<lambda>t. prio_of (tcb_pool s t))
     (\<lambda>t. t_kill_pending (tcb_pool s t)) (current_tcb s) qs"

definition sched_inv :: "'a kstate_scheme \<Rightarrow> (nat \<Rightarrow> nat list) \<Rightarrow> bool" where
  "sched_inv s qs \<longleftrightarrow> tasks_wf s \<and> rq_abs s qs \<and> \<not> sched_lock s \<and> queue_ok s qs"

text \<open>Frames: what the small operations leave alone.\<close>

lemma tasks_wf_cong:
  assumes "heap_blocks s' = heap_blocks s" and "heap_head s' = heap_head s" and "heap_lock s' = heap_lock s"
    and "tcb_used s' = tcb_used s" and "pcb_used s' = pcb_used s" and "pcb_pool s' = pcb_pool s"
    and "\<And>t. t_stack_base (tcb_pool s' t) = t_stack_base (tcb_pool s t)"
    and "\<And>t. t_stack_size (tcb_pool s' t) = t_stack_size (tcb_pool s t)"
    and "\<And>t. t_pid (tcb_pool s' t) = t_pid (tcb_pool s t)"
  shows "tasks_wf s' \<longleftrightarrow> tasks_wf s"
  using stacks_wf_cong [OF assms(1-4,7,8)] procs_wf_cong [OF assms(5,6,4,9)] by (simp add: tasks_wf_def)

lemma trace_record_frame:
  obtains R q where "trace_record core ty st tid nm tt tn s = s\<lparr>trace_ring := R, trace_seq := q\<rparr>"
proof (cases "\<not> trace_match nm s \<and> \<not> (tn \<noteq> None \<and> trace_match tn s)")
  case True
  then show ?thesis using that [where R = "trace_ring s" and q = "trace_seq s"] by (simp add: trace_record_def)
next
  case False
  then show ?thesis using that unfolding trace_record_def Let_def by (simp only: if_False)
qed

lemma trace_record_fields [frame_simps]:
  "tcb_pool (trace_record core ty st tid nm tt tn s) = tcb_pool s"
  "tcb_used (trace_record core ty st tid nm tt tn s) = tcb_used s"
  "pcb_pool (trace_record core ty st tid nm tt tn s) = pcb_pool s"
  "pcb_used (trace_record core ty st tid nm tt tn s) = pcb_used s"
  "ready_queues (trace_record core ty st tid nm tt tn s) = ready_queues s"
  "current_tcb (trace_record core ty st tid nm tt tn s) = current_tcb s"
  "sched_lock (trace_record core ty st tid nm tt tn s) = sched_lock s"
  "heap_blocks (trace_record core ty st tid nm tt tn s) = heap_blocks s"
  "heap_head (trace_record core ty st tid nm tt tn s) = heap_head s"
  "heap_lock (trace_record core ty st tid nm tt tn s) = heap_lock s"
  "heap_mem (trace_record core ty st tid nm tt tn s) = heap_mem s"
  "next_of (trace_record core ty st tid nm tt tn s) = next_of s"
  "trace_on (trace_record core ty st tid nm tt tn s) = trace_on s"
  "time_us (trace_record core ty st tid nm tt tn s) = time_us s"
  "pendsv (trace_record core ty st tid nm tt tn s) = pendsv s"
  by (rule trace_record_frame [of core ty st tid nm tt tn s], simp add: next_of_def fun_eq_iff)+

lemma sched_release_fields [frame_simps]:
  "tcb_pool (sched_release s) = tcb_pool s" "tcb_used (sched_release s) = tcb_used s"
  "pcb_pool (sched_release s) = pcb_pool s" "pcb_used (sched_release s) = pcb_used s"
  "ready_queues (sched_release s) = ready_queues s" "current_tcb (sched_release s) = current_tcb s"
  "sched_lock (sched_release s) = False" "heap_blocks (sched_release s) = heap_blocks s"
  "heap_head (sched_release s) = heap_head s" "heap_lock (sched_release s) = heap_lock s"
  "heap_mem (sched_release s) = heap_mem s" "next_of (sched_release s) = next_of s"
  by (simp_all add: sched_release_def next_of_def fun_eq_iff)

lemma upd_tcb_fields [frame_simps]:
  "tcb_used (upd_tcb t f s) = tcb_used s" "pcb_pool (upd_tcb t f s) = pcb_pool s"
  "pcb_used (upd_tcb t f s) = pcb_used s" "current_tcb (upd_tcb t f s) = current_tcb s"
  "sched_lock (upd_tcb t f s) = sched_lock s" "heap_blocks (upd_tcb t f s) = heap_blocks s"
  "heap_head (upd_tcb t f s) = heap_head s" "heap_lock (upd_tcb t f s) = heap_lock s"
  "heap_mem (upd_tcb t f s) = heap_mem s" "trace_on (upd_tcb t f s) = trace_on s"
  "time_us (upd_tcb t f s) = time_us s" "pendsv (upd_tcb t f s) = pendsv s"
  by (simp_all add: upd_tcb_def)

lemma set_state_fields [frame_simps]:
  "tcb_used (set_state t st s) = tcb_used s" "pcb_pool (set_state t st s) = pcb_pool s"
  "pcb_used (set_state t st s) = pcb_used s" "current_tcb (set_state t st s) = current_tcb s"
  "sched_lock (set_state t st s) = sched_lock s" "heap_blocks (set_state t st s) = heap_blocks s"
  "heap_head (set_state t st s) = heap_head s" "heap_lock (set_state t st s) = heap_lock s"
  "heap_mem (set_state t st s) = heap_mem s" "trace_on (set_state t st s) = trace_on s"
  "time_us (set_state t st s) = time_us s" "pendsv (set_state t st s) = pendsv s"
  by (simp_all add: set_state_def frame_simps)

lemma relinked_fields:
  assumes "relinked X s s'"
  shows "tcb_used s' = tcb_used s" "pcb_pool s' = pcb_pool s" "pcb_used s' = pcb_used s"
    "current_tcb s' = current_tcb s" "sched_lock s' = sched_lock s" "heap_blocks s' = heap_blocks s"
    "heap_head s' = heap_head s" "heap_lock s' = heap_lock s" "heap_mem s' = heap_mem s"
    "trace_on s' = trace_on s" "time_us s' = time_us s" "pendsv s' = pendsv s"
    "trace_filter s' = trace_filter s" "slice_remaining s' = slice_remaining s"
  using assms by (auto simp: relinked_def)

lemma relinked_tcb:
  assumes "relinked X s s'"
  shows "t_state (tcb_pool s' t) = t_state (tcb_pool s t)"
    "t_priority (tcb_pool s' t) = t_priority (tcb_pool s t)"
    "t_kill_pending (tcb_pool s' t) = t_kill_pending (tcb_pool s t)"
    "t_affinity (tcb_pool s' t) = t_affinity (tcb_pool s t)"
    "t_stack_base (tcb_pool s' t) = t_stack_base (tcb_pool s t)"
    "t_stack_size (tcb_pool s' t) = t_stack_size (tcb_pool s t)"
    "t_pid (tcb_pool s' t) = t_pid (tcb_pool s t)" "t_tid (tcb_pool s' t) = t_tid (tcb_pool s t)"
    "t_name (tcb_pool s' t) = t_name (tcb_pool s t)"
    "t_wake_time_us (tcb_pool s' t) = t_wake_time_us (tcb_pool s t)"
    "prio_of (tcb_pool s' t) = prio_of (tcb_pool s t)"
  using assms by (auto simp: relinked_def)

text \<open>What no call changes in a thread other than the one it is about; a pending kill may only be taken.\<close>

definition keeps_id :: "tcb \<Rightarrow> tcb \<Rightarrow> bool" where
  "keeps_id b b' \<longleftrightarrow> t_pid b' = t_pid b \<and> t_affinity b' = t_affinity b \<and> (t_kill_pending b' \<longrightarrow> t_kill_pending b)"

lemma keeps_id_refl [simp]: "keeps_id b b"
  and keeps_id_trans: "keeps_id b b' \<Longrightarrow> keeps_id b' b'' \<Longrightarrow> keeps_id b b''"
  by (simp_all add: keeps_id_def)

lemma keeps_id_relinked: "relinked X s s' \<Longrightarrow> keeps_id (tcb_pool s t) (tcb_pool s' t)"
  by (simp add: keeps_id_def relinked_tcb)

lemma tasks_wf_relinked: "relinked X s s' \<Longrightarrow> tasks_wf s' \<longleftrightarrow> tasks_wf s"
  by (rule tasks_wf_cong) (simp_all add: relinked_fields relinked_tcb)

lemma queue_ok_relinked: "relinked X s s' \<Longrightarrow> queue_ok s' qs \<longleftrightarrow> queue_ok s qs"
  by (simp add: queue_ok_def relinked_fields relinked_tcb)

lemma queue_ok_cong:
  assumes "tcb_used s' = tcb_used s" and "current_tcb s' = current_tcb s"
    and "\<And>t. t_state (tcb_pool s' t) = t_state (tcb_pool s t)"
    and "\<And>t. t_priority (tcb_pool s' t) = t_priority (tcb_pool s t)"
    and "\<And>t. t_kill_pending (tcb_pool s' t) = t_kill_pending (tcb_pool s t)"
  shows "queue_ok s' qs \<longleftrightarrow> queue_ok s qs"
proof -
  have "prio_of (tcb_pool s' t) = prio_of (tcb_pool s t)" for t using assms(4) by (simp add: prio_of_def)
  with assms(1-3,5) show ?thesis by (simp add: queue_ok_def)
qed

lemma queue_ok_trace [frame_simps]: "queue_ok (trace_record core ty st tid nm tt tn s) qs \<longleftrightarrow> queue_ok s qs"
  by (rule queue_ok_cong) (simp_all add: frame_simps)

lemma queue_ok_release [frame_simps]: "queue_ok (sched_release s) qs \<longleftrightarrow> queue_ok s qs"
  by (rule queue_ok_cong) (simp_all add: frame_simps)

lemma queue_ok_lock [frame_simps]: "queue_ok (s\<lparr>sched_lock := b\<rparr>) qs \<longleftrightarrow> queue_ok s qs"
  by (rule queue_ok_cong) simp_all

lemma rq_abs_trace [frame_simps]: "rq_abs (trace_record core ty st tid nm tt tn s) qs \<longleftrightarrow> rq_abs s qs"
  by (rule rq_abs_cong) (simp_all add: frame_simps)

lemma tasks_wf_trace [frame_simps]: "tasks_wf (trace_record core ty st tid nm tt tn s) \<longleftrightarrow> tasks_wf s"
  by (rule tasks_wf_cong) (simp_all add: frame_simps)

lemma tasks_wf_release [frame_simps]: "tasks_wf (sched_release s) \<longleftrightarrow> tasks_wf s"
  by (rule tasks_wf_cong) (simp_all add: frame_simps)

lemma tasks_wf_lock [frame_simps]: "tasks_wf (s\<lparr>sched_lock := b\<rparr>) \<longleftrightarrow> tasks_wf s"
  by (rule tasks_wf_cong) simp_all

lemma tasks_wf_set_state [frame_simps]: "tasks_wf (set_state t st s) \<longleftrightarrow> tasks_wf s"
  by (rule tasks_wf_cong) (simp_all add: frame_simps set_state_def)

subsection \<open>Steps of the invariant over the bare functions\<close>

lemma queue_invD:
  assumes "queue_inv U S P K C Q"
  shows "p < 8 \<Longrightarrow> x \<in> set (Q p) \<Longrightarrow> x < 16 \<and> U x"
    and "t < 16 \<Longrightarrow> U t \<Longrightarrow> thread_inv (S t) (t \<in> set (Q (P t))) (K t) (is_current C t)"
    and "is_current C t \<Longrightarrow> t < 16 \<and> U t"
    and "C 0 = C 1 \<Longrightarrow> C 0 = None"
  using assms by (auto simp: queue_inv_def is_current_def)

lemma queue_invI:
  assumes "\<And>p x. p < 8 \<Longrightarrow> x \<in> set (Q p) \<Longrightarrow> x < 16 \<and> U x"
    and "\<And>t. t < 16 \<Longrightarrow> U t \<Longrightarrow> thread_inv (S t) (t \<in> set (Q (P t))) (K t) (is_current C t)"
    and "\<And>t. is_current C t \<Longrightarrow> t < 16 \<and> U t"
    and "C 0 = C 1 \<Longrightarrow> C 0 = None"
  shows "queue_inv U S P K C Q"
  using assms by (auto simp: queue_inv_def is_current_def)

lemma queue_inv_leave:
  assumes inv: "queue_inv U S P K C Q" and "distinct (Q (P t))"
    and "st \<noteq> THREAD_READY" "st \<noteq> THREAD_RUNNING"
  shows "queue_inv U (S(t := st)) P K C (Q(P t := remove1 t (Q (P t))))"
proof (rule queue_invI)
  have set': "set (remove1 t (Q (P t))) = set (Q (P t)) - {t}" using assms(2) by (simp add: set_remove1_eq)
  fix p x assume "p < 8" "x \<in> set ((Q(P t := remove1 t (Q (P t)))) p)"
  then show "x < 16 \<and> U x" using queue_invD(1) [OF inv, of p x] set' by (auto split: if_splits)
next
  have set': "set (remove1 t (Q (P t))) = set (Q (P t)) - {t}" using assms(2) by (simp add: set_remove1_eq)
  fix u assume u: "u < 16" "U u"
  note i = queue_invD(2) [OF inv u]
  have "u \<in> set ((Q(P t := remove1 t (Q (P t)))) (P u)) \<longleftrightarrow> u \<in> set (Q (P u)) \<and> u \<noteq> t"
    using set' by auto
  with i assms(3,4) show "thread_inv ((S(t := st)) u) (u \<in> set ((Q(P t := remove1 t (Q (P t)))) (P u)))
      (K u) (is_current C u)"
    by (cases "u = t") (simp_all add: thread_inv_def)
qed (use queue_invD [OF inv] in auto)

lemma queue_inv_enter:
  assumes inv: "queue_inv U S P K C Q" and "t < 16" "U t"
  shows "queue_inv U (S(t := THREAD_READY)) P K C (Q(P t := Q (P t) @ [t]))"
proof (rule queue_invI)
  fix p x assume "p < 8" "x \<in> set ((Q(P t := Q (P t) @ [t])) p)"
  then show "x < 16 \<and> U x" using queue_invD(1) [OF inv, of p x] assms by (auto split: if_splits)
next
  fix u assume u: "u < 16" "U u"
  have "u \<in> set ((Q(P t := Q (P t) @ [t])) (P u)) \<longleftrightarrow> u \<in> set (Q (P u)) \<or> u = t" by auto
  with queue_invD(2) [OF inv u]
  show "thread_inv ((S(t := THREAD_READY)) u) (u \<in> set ((Q(P t := Q (P t) @ [t])) (P u)))
      (K u) (is_current C u)"
    by (cases "u = t") (simp_all add: thread_inv_def)
qed (use queue_invD [OF inv] in auto)

text \<open>A current thread may become a zombie in place, or have a kill pending.\<close>

lemma queue_inv_zombie:
  assumes inv: "queue_inv U S P K C Q" and "is_current C t"
  shows "queue_inv U (S(t := THREAD_ZOMBIE)) P K C Q"
proof (rule queue_invI)
  fix u assume "u < 16" "U u"
  with queue_invD(2) [OF inv, of u] assms(2)
  show "thread_inv ((S(t := THREAD_ZOMBIE)) u) (u \<in> set (Q (P u))) (K u) (is_current C u)"
    by (cases "u = t") (simp_all add: thread_inv_def)
qed (use queue_invD [OF inv] in auto)

lemma queue_inv_pending:
  assumes inv: "queue_inv U S P K C Q" and "is_current C t"
  shows "queue_inv U S P (K(t := True)) C Q"
proof (rule queue_invI)
  fix u assume "u < 16" "U u"
  with queue_invD(2) [OF inv, of u] assms(2)
  show "thread_inv (S u) (u \<in> set (Q (P u))) ((K(t := True)) u) (is_current C u)"
    by (cases "u = t") (simp_all add: thread_inv_def)
qed (use queue_invD [OF inv] in auto)

text \<open>A thread in no queue may become a zombie wherever it waits.\<close>

lemma queue_inv_off_queue:
  assumes inv: "queue_inv U S P K C Q" and "t \<notin> set (Q (P t))"
    and "st \<noteq> THREAD_READY" "st \<noteq> THREAD_RUNNING"
  shows "queue_inv U (S(t := st)) P K C Q"
proof (rule queue_invI)
  fix u assume "u < 16" "U u"
  with queue_invD(2) [OF inv, of u] assms(2-4)
  show "thread_inv ((S(t := st)) u) (u \<in> set (Q (P u))) (K u) (is_current C u)"
    by (cases "u = t") (simp_all add: thread_inv_def)
qed (use queue_invD [OF inv] in auto)

text \<open>A thread that is neither queued nor current may leave the pool.\<close>

lemma queue_inv_free:
  assumes inv: "queue_inv U S P K C Q" and "\<not> is_current C t" and "t \<notin> set (Q (P t))"
    and "\<And>p x. p < 8 \<Longrightarrow> x \<in> set (Q p) \<Longrightarrow> P x = p"
    and "\<And>u. u \<noteq> t \<Longrightarrow> S' u = S u" "\<And>u. u \<noteq> t \<Longrightarrow> P' u = P u" "\<And>u. u \<noteq> t \<Longrightarrow> K' u = K u"
  shows "queue_inv (U(t := False)) S' P' K' C Q"
proof (rule queue_invI)
  fix p x assume "p < 8" "x \<in> set (Q p)"
  then show "x < 16 \<and> (U(t := False)) x"
    using queue_invD(1) [OF inv, of p x] assms(3,4) by auto
next
  fix u assume "u < 16" "(U(t := False)) u"
  then have "u < 16" "U u" "u \<noteq> t" by (auto split: if_splits)
  with queue_invD(2) [OF inv, of u] assms(5-7)
  show "thread_inv (S' u) (u \<in> set (Q (P' u))) (K' u) (is_current C u)" by simp
next
  fix u assume "is_current C u" then show "u < 16 \<and> (U(t := False)) u"
    using queue_invD(3) [OF inv] assms(2) by auto
qed (use queue_invD [OF inv] in auto)

subsection \<open>The operations keep the invariant\<close>

lemma sched_invD:
  assumes "sched_inv s qs"
  shows "tasks_wf s" "rq_abs s qs" "\<not> sched_lock s" "queue_ok s qs"
  using assms by (simp_all add: sched_inv_def)

lemma sched_inv_queued_used: "sched_inv s qs \<Longrightarrow> queued_used s qs"
  by (auto simp: sched_inv_def queued_used_def queue_ok_def dest: queue_invD(1))

lemma queue_ok_set_state:
  "queue_ok (set_state t st s) Q \<longleftrightarrow>
     queue_inv (tcb_used s) ((\<lambda>x. t_state (tcb_pool s x))(t := st)) (\<lambda>x. prio_of (tcb_pool s x))
       (\<lambda>x. t_kill_pending (tcb_pool s x)) (current_tcb s) Q"
proof -
  have "(\<lambda>x. t_state (tcb_pool (set_state t st s) x)) = (\<lambda>x. t_state (tcb_pool s x))(t := st)"
    and "(\<lambda>x. prio_of (tcb_pool (set_state t st s) x)) = (\<lambda>x. prio_of (tcb_pool s x))"
    and "(\<lambda>x. t_kill_pending (tcb_pool (set_state t st s) x)) = (\<lambda>x. t_kill_pending (tcb_pool s x))"
    by (auto simp: fun_eq_iff)
  then show ?thesis by (simp only: queue_ok_def frame_simps)
qed

lemma sched_acquire_free: "\<not> sched_lock s \<Longrightarrow> sched_acquire s = Some (s\<lparr>sched_lock := True\<rparr>)"
  by (simp add: sched_acquire_def)

lemma prio_of_set_state [simp]: "prio_of (tcb_pool (set_state t st s) x) = prio_of (tcb_pool s x)"
  by simp

lemma state_of_set_state [simp]:
  "t_state (tcb_pool (set_state t st s) x) = (if x = t then st else t_state (tcb_pool s x))"
  by simp

lemma remove1_queue:
  assumes "rq_abs s qs" and "p < 8"
  shows "distinct (qs p)" by (rule rq_abs_distinct [OF assms])

text \<open>Taking a thread out of its queue with a state that is not READY or RUNNING.\<close>

lemma leave_queue:
  fixes s :: "'a kstate_scheme" and t :: nat
  assumes inv: "sched_inv s qs" and st: "st \<noteq> THREAD_READY" "st \<noteq> THREAD_RUNNING"
  defines "p \<equiv> prio_of (tcb_pool s t)"
  obtains s2 where
    "sched_remove_thread_raw (Some t) (set_state t st (s\<lparr>sched_lock := True\<rparr>)) = Some s2"
    "relinked (insert t (set (qs p))) (set_state t st (s\<lparr>sched_lock := True\<rparr>)) s2"
    "sched_inv (sched_release s2) (qs(p := remove1 t (qs p)))"
proof -
  let ?s1 = "set_state t st (s\<lparr>sched_lock := True\<rparr>)"
  have p: "p < 8" by (simp add: p_def)
  note i = sched_invD [OF inv]
  have "rq_abs ?s1 qs" using i(2) by simp
  from remove_raw_spec [OF this, of t] obtain s2 where
    s2: "sched_remove_thread_raw (Some t) ?s1 = Some s2" "rq_abs s2 (qs(p := remove1 t (qs p)))"
      "relinked (insert t (set (qs p))) ?s1 s2" by (auto simp: p_def)
  have "tasks_wf s2" using tasks_wf_relinked [OF s2(3)] i(1) by (simp add: frame_simps)
  moreover have "queue_ok ?s1 (qs(p := remove1 t (qs p)))"
    using queue_inv_leave [OF i(4) [unfolded queue_ok_def] _ st, of t] rq_abs_distinct [OF i(2) p]
    by (simp add: queue_ok_set_state p_def)
  then have "queue_ok s2 (qs(p := remove1 t (qs p)))" using queue_ok_relinked [OF s2(3)] by simp
  ultimately have "sched_inv (sched_release s2) (qs(p := remove1 t (qs p)))"
    using s2(2) by (simp add: sched_inv_def frame_simps)
  with s2 that show ?thesis by blast
qed

text \<open>Putting a thread that is in no queue back as READY.\<close>

lemma enter_queue:
  fixes s :: "'a kstate_scheme" and t :: nat
  assumes inv: "sched_inv s qs" and t: "t < 16" "tcb_used s t"
    and off: "t \<notin> set (qs (prio_of (tcb_pool s t)))"
  defines "p \<equiv> prio_of (tcb_pool s t)"
  obtains s2 where
    "sched_add_thread_raw (Some t) (set_state t THREAD_READY (s\<lparr>sched_lock := True\<rparr>)) = Some s2"
    "relinked (insert t (set (qs p))) (set_state t THREAD_READY (s\<lparr>sched_lock := True\<rparr>)) s2"
    "sched_inv (sched_release s2) (qs(p := qs p @ [t]))"
proof -
  let ?s1 = "set_state t THREAD_READY (s\<lparr>sched_lock := True\<rparr>)"
  note i = sched_invD [OF inv]
  have "rq_abs ?s1 qs" using i(2) by simp
  from add_raw_spec [OF this, of t] off obtain s2 where
    s2: "sched_add_thread_raw (Some t) ?s1 = Some s2" "rq_abs s2 (qs(p := qs p @ [t]))"
      "relinked (insert t (set (qs p))) ?s1 s2" by (auto simp: p_def)
  have "tasks_wf s2" using tasks_wf_relinked [OF s2(3)] i(1) by (simp add: frame_simps)
  moreover have "queue_ok ?s1 (qs(p := qs p @ [t]))"
    using queue_inv_enter [OF i(4) [unfolded queue_ok_def] t] by (simp add: queue_ok_set_state p_def)
  then have "queue_ok s2 (qs(p := qs p @ [t]))" using queue_ok_relinked [OF s2(3)] by simp
  ultimately have "sched_inv (sched_release s2) (qs(p := qs p @ [t]))"
    using s2(2) by (simp add: sched_inv_def frame_simps)
  with s2 that show ?thesis by blast
qed

lemma sched_inv_trace [frame_simps]:
  "sched_inv (trace_record core ty st tid nm tt tn s) qs \<longleftrightarrow> sched_inv s qs"
  by (simp add: sched_inv_def frame_simps)

lemma trace_match_release [simp]: "trace_match nm (sched_release s) \<longleftrightarrow> trace_match nm s"
  by (simp add: trace_match_def sched_release_def split: option.split)

lemma release_trace:
  "sched_release (trace_record core ty st tid nm tt tn s) =
     trace_record core ty st tid nm tt tn (sched_release s)"
  by (simp add: trace_record_def Let_def) (simp add: sched_release_def)

lemma sched_inv_cong:
  assumes "heap_blocks s' = heap_blocks s" and "heap_head s' = heap_head s" and "heap_lock s' = heap_lock s"
    and "tcb_used s' = tcb_used s" and "pcb_used s' = pcb_used s" and "pcb_pool s' = pcb_pool s"
    and "current_tcb s' = current_tcb s" and "ready_queues s' = ready_queues s" and "sched_lock s' = sched_lock s"
    and tcb: "\<And>t. t_stack_base (tcb_pool s' t) = t_stack_base (tcb_pool s t)"
      "\<And>t. t_stack_size (tcb_pool s' t) = t_stack_size (tcb_pool s t)"
      "\<And>t. t_pid (tcb_pool s' t) = t_pid (tcb_pool s t)" "\<And>t. t_state (tcb_pool s' t) = t_state (tcb_pool s t)"
      "\<And>t. t_priority (tcb_pool s' t) = t_priority (tcb_pool s t)"
      "\<And>t. t_kill_pending (tcb_pool s' t) = t_kill_pending (tcb_pool s t)"
      "\<And>t. t_next (tcb_pool s' t) = t_next (tcb_pool s t)"
  shows "sched_inv s' qs \<longleftrightarrow> sched_inv s qs"
proof -
  have "next_of s' = next_of s" using tcb(7) by (simp add: next_of_def fun_eq_iff)
  with tasks_wf_cong [OF assms(1-6) tcb(1-3)] rq_abs_cong [of s' s qs]
    queue_ok_cong [OF assms(4,7) tcb(4-6), of qs] assms(8,9) tcb(5)
  show ?thesis by (simp add: sched_inv_def)
qed

lemma sched_inv_yield [frame_simps]: "sched_inv (sched_yield core s) qs \<longleftrightarrow> sched_inv s qs"
  by (rule sched_inv_cong) (simp_all add: sched_yield_def)

lemma sched_block_inv:
  assumes "sched_inv s qs"
  obtains s' where "sched_block (Some t) s = Some s'"
    "sched_inv s' (qs(prio_of (tcb_pool s t) := remove1 t (qs (prio_of (tcb_pool s t)))))"
    "t_state (tcb_pool s' t) = THREAD_BLOCKED" "current_tcb s' = current_tcb s"
    "\<And>u. u \<noteq> t \<Longrightarrow> t_state (tcb_pool s' u) = t_state (tcb_pool s u)"
    "tcb_used s' = tcb_used s" "\<And>u. keeps_id (tcb_pool s u) (tcb_pool s' u)"
proof -
  obtain s2 where
    s2: "sched_remove_thread_raw (Some t) (set_state t THREAD_BLOCKED (s\<lparr>sched_lock := True\<rparr>)) = Some s2"
      "relinked (insert t (set (qs (prio_of (tcb_pool s t))))) (set_state t THREAD_BLOCKED (s\<lparr>sched_lock := True\<rparr>)) s2"
      "sched_inv (sched_release s2) (qs(prio_of (tcb_pool s t) := remove1 t (qs (prio_of (tcb_pool s t)))))"
    by (rule leave_queue [OF assms, of THREAD_BLOCKED t]) simp_all
  have "sched_block (Some t) s = Some (sched_release s2)"
    using s2(1) sched_invD(3) [OF assms] by (simp add: sched_block_def sched_acquire_free)
  then show ?thesis using that s2
    by (simp add: frame_simps relinked_tcb relinked_fields keeps_id_def)
qed

lemma sched_sleep_inv:
  assumes inv: "sched_inv s qs" and cur: "current_tcb s core = Some t"
  obtains s' where "sched_sleep core ms s = Some s'"
    "sched_inv s' (qs(prio_of (tcb_pool s t) := remove1 t (qs (prio_of (tcb_pool s t)))))"
    "t_state (tcb_pool s' t) = THREAD_SLEEPING" "t_wake_time_us (tcb_pool s' t) = time_us s + ucast ms * 1000"
    "pendsv s' core" "current_tcb s' = current_tcb s"
    "tcb_used s' = tcb_used s" "\<And>u. keeps_id (tcb_pool s u) (tcb_pool s' u)"
    "\<And>u. u \<noteq> t \<Longrightarrow> t_state (tcb_pool s' u) = t_state (tcb_pool s u)"
proof -
  let ?s0 = "upd_tcb t (\<lambda>b. b\<lparr>t_wake_time_us := time_us s + ucast ms * 1000\<rparr>) s"
  have pr: "prio_of (tcb_pool ?s0 x) = prio_of (tcb_pool s x)" for x by (simp add: prio_of_def)
  have inv0: "sched_inv ?s0 qs"
    using inv sched_inv_cong [of ?s0 s qs] by (simp add: frame_simps)
  obtain s2 where
    s2: "sched_remove_thread_raw (Some t) (set_state t THREAD_SLEEPING (?s0\<lparr>sched_lock := True\<rparr>)) = Some s2"
      "relinked (insert t (set (qs (prio_of (tcb_pool ?s0 t))))) (set_state t THREAD_SLEEPING (?s0\<lparr>sched_lock := True\<rparr>)) s2"
      "sched_inv (sched_release s2) (qs(prio_of (tcb_pool ?s0 t) := remove1 t (qs (prio_of (tcb_pool ?s0 t)))))"
    by (rule leave_queue [OF inv0, of THREAD_SLEEPING t]) simp_all
  have "\<not> sched_lock ?s0" using sched_invD(3) [OF inv] by (simp add: frame_simps)
  then have "sched_sleep core ms s = Some (sched_yield core (sched_release s2))"
    using s2(1) cur by (simp add: sched_sleep_def sched_acquire_free)
  moreover have "pendsv (sched_yield core (sched_release s2)) core"
    "current_tcb (sched_yield core (sched_release s2)) = current_tcb s2"
    "tcb_pool (sched_yield core (sched_release s2)) = tcb_pool s2"
    "tcb_used (sched_yield core (sched_release s2)) = tcb_used s2"
    by (simp_all add: sched_yield_def frame_simps)
  moreover have "keeps_id (tcb_pool s u) (tcb_pool s2 u)" for u
    by (cases "u = t") (simp_all add: keeps_id_def relinked_tcb [OF s2(2)])
  ultimately show ?thesis using that s2 pr [of t]
    by (simp add: frame_simps relinked_tcb relinked_fields)
qed

text \<open>The invariant with the current threads given separately.\<close>

definition queue_at :: "'a kstate_scheme \<Rightarrow> (nat \<Rightarrow> nat option) \<Rightarrow> (nat \<Rightarrow> nat list) \<Rightarrow> bool" where
  "queue_at s C qs \<longleftrightarrow> queue_inv (tcb_used s) (\<lambda>t. t_state (tcb_pool s t)) (\<lambda>t. prio_of (tcb_pool s t))
     (\<lambda>t. t_kill_pending (tcb_pool s t)) C qs"

lemma queue_ok_at: "queue_ok s qs \<longleftrightarrow> queue_at s (current_tcb s) qs"
  by (simp add: queue_ok_def queue_at_def)

lemma free_thread_at:
  assumes wf: "tasks_wf s" "rq_abs s qs" "queue_at s C qs"
    and t: "t < 16" "tcb_used s t" "\<not> is_current C t" and off: "t \<notin> set (qs (prio_of (tcb_pool s t)))"
  obtains s' where "task_free_thread (Some t) s = Some s'" "tasks_wf s'" "rq_abs s' qs" "queue_at s' C qs"
    "tcb_used s' = (tcb_used s)(t := False)" "tcb_pool s' = (tcb_pool s)(t := tcb_zero)"
    "current_tcb s' = current_tcb s" "sched_lock s' = sched_lock s" "trace_on s' = trace_on s"
    "slice_remaining s' = slice_remaining s"
    "heap_live s' = {x \<in> heap_live s. Some (fst x) \<noteq> t_stack_base (tcb_pool s t)}"
proof -
  let ?post = "\<lambda>B. s\<lparr>heap_blocks := B, tcb_pool := (tcb_pool s)(t := tcb_zero),
      tcb_used := (tcb_used s)(t := False), pcb_pool := unlinked_pool t s, pcb_used := unlinked_used t s\<rparr>"
  from free_thread_spec [OF wf(1) t(1,2)] obtain B where
    B: "task_free_thread (Some t) s = Some (?post B)" "tasks_wf (?post B)"
      "heap_live (s\<lparr>heap_blocks := B\<rparr>) = {x \<in> heap_live s. Some (fst x) \<noteq> t_stack_base (tcb_pool s t)}" .
  have notin: "t \<notin> set (qs p)" if "p < 8" for p
    using off rq_abs_other [OF wf(2) that, of t] by auto
  have "rq_abs (upd_tcb t (\<lambda>_. tcb_zero) s) qs" using rq_abs_upd_off [OF wf(2)] notin .
  then have "rq_abs (?post B) qs" by (subst rq_abs_cong) (auto simp: next_of_def)
  moreover have "queue_at (?post B) C qs"
    using queue_inv_free [OF wf(3) [unfolded queue_at_def] t(3) off rq_abs_other [OF wf(2)],
        of "\<lambda>x. t_state (tcb_pool (?post B) x)" "\<lambda>x. prio_of (tcb_pool (?post B) x)"
          "\<lambda>x. t_kill_pending (tcb_pool (?post B) x)"]
    unfolding queue_at_def by simp
  moreover have "heap_live (?post B) = heap_live (s\<lparr>heap_blocks := B\<rparr>)" by (rule heap_cong) simp_all
  ultimately show ?thesis using that [OF B(1,2)] B(3) by simp
qed

lemma free_thread_inv:
  assumes inv: "sched_inv s qs" and t: "t < 16" "tcb_used s t" "\<not> is_current (current_tcb s) t"
    and off: "t \<notin> set (qs (prio_of (tcb_pool s t)))"
  obtains s' where "task_free_thread (Some t) s = Some s'" "sched_inv s' qs"
    "tcb_used s' = (tcb_used s)(t := False)" "tcb_pool s' = (tcb_pool s)(t := tcb_zero)"
    "current_tcb s' = current_tcb s" "trace_on s' = trace_on s"
    "heap_live s' = {x \<in> heap_live s. Some (fst x) \<noteq> t_stack_base (tcb_pool s t)}"
proof -
  note i = sched_invD [OF inv, unfolded queue_ok_at]
  obtain s' where "task_free_thread (Some t) s = Some s'" "tasks_wf s'" "rq_abs s' qs"
    "queue_at s' (current_tcb s) qs" "tcb_used s' = (tcb_used s)(t := False)"
    "tcb_pool s' = (tcb_pool s)(t := tcb_zero)" "current_tcb s' = current_tcb s"
    "sched_lock s' = sched_lock s" "trace_on s' = trace_on s" "slice_remaining s' = slice_remaining s"
    "heap_live s' = {x \<in> heap_live s. Some (fst x) \<noteq> t_stack_base (tcb_pool s t)}"
    by (rule free_thread_at [OF i(1,2,4) t off])
  with that i(3) show ?thesis by (simp add: sched_inv_def queue_ok_at)
qed

lemma blocked_off_queue:
  assumes "sched_inv s qs" and "t < 16" and "tcb_used s t"
    and "t_state (tcb_pool s t) \<noteq> THREAD_READY" "t_state (tcb_pool s t) \<noteq> THREAD_RUNNING"
    and "t_state (tcb_pool s t) = THREAD_ZOMBIE \<Longrightarrow> \<not> is_current (current_tcb s) t"
  shows "t \<notin> set (qs (prio_of (tcb_pool s t)))"
  using queue_invD(2) [OF sched_invD(4) [OF assms(1), unfolded queue_ok_def] assms(2,3)] assms(4-6)
  by (auto simp: thread_inv_def)

lemma sched_unblock_wakes:
  assumes inv: "sched_inv s qs" and t: "t < 16" "tcb_used s t" "t_state (tcb_pool s t) = THREAD_BLOCKED"
  obtains s' where "sched_unblock core (Some t) s = Some (True, s')"
    "sched_inv s' (qs(prio_of (tcb_pool s t) := qs (prio_of (tcb_pool s t)) @ [t]))"
    "t_state (tcb_pool s' t) = THREAD_READY" "tcb_used s' = tcb_used s" "current_tcb s' = current_tcb s"
    "\<And>u. u \<noteq> t \<Longrightarrow> t_state (tcb_pool s' u) = t_state (tcb_pool s u)"
    "\<And>u. u \<noteq> t \<Longrightarrow> u \<notin> set (qs (prio_of (tcb_pool s t))) \<Longrightarrow> next_of s' u = next_of s u"
    "\<And>u. prio_of (tcb_pool s' u) = prio_of (tcb_pool s u)" "\<And>u. keeps_id (tcb_pool s u) (tcb_pool s' u)"
proof -
  have off: "t \<notin> set (qs (prio_of (tcb_pool s t)))" using blocked_off_queue [OF inv t(1,2)] t(3) by simp
  obtain s2 where
    s2: "sched_add_thread_raw (Some t) (set_state t THREAD_READY (s\<lparr>sched_lock := True\<rparr>)) = Some s2"
      "relinked (insert t (set (qs (prio_of (tcb_pool s t))))) (set_state t THREAD_READY (s\<lparr>sched_lock := True\<rparr>)) s2"
      "sched_inv (sched_release s2) (qs(prio_of (tcb_pool s t) := qs (prio_of (tcb_pool s t)) @ [t]))"
    by (rule enter_queue [OF inv t(1,2) off])
  define s' where "s' = (if trace_on s2 then trace_record core TRACE_UNBLOCK 0 (t_tid (tcb_pool s2 t))
      (Some (t_name (tcb_pool s2 t))) 0 None (sched_release s2) else sched_release s2)"
  have "sched_unblock core (Some t) s = Some (True, s')"
    using s2(1) t(3) sched_invD(3) [OF inv]
    by (simp add: sched_unblock_def sched_acquire_free s'_def release_trace)
  moreover have "next_of s2 u = next_of s u" if "u \<noteq> t" "u \<notin> set (qs (prio_of (tcb_pool s t)))" for u
    using s2(2) that by (auto simp: relinked_def next_of_def)
  ultimately show ?thesis using that [of s'] s2(3)
    by (simp add: s'_def frame_simps keeps_id_def relinked_fields [OF s2(2)] relinked_tcb [OF s2(2)])
qed

lemma sched_inv_release_lock: "\<not> sched_lock s \<Longrightarrow> sched_release (s\<lparr>sched_lock := True\<rparr>) = s"
  by (simp add: sched_release_def)

lemma sched_unblock_frees:
  assumes inv: "sched_inv s qs" and t: "t < 16" "tcb_used s t" "t_state (tcb_pool s t) = THREAD_ZOMBIE"
    "\<not> is_current (current_tcb s) t"
  obtains s' where "sched_unblock core (Some t) s = Some (False, s')" "sched_inv s' qs"
    "tcb_used s' = (tcb_used s)(t := False)" "current_tcb s' = current_tcb s"
    "tcb_pool s' = (tcb_pool s)(t := tcb_zero)"
proof -
  have off: "t \<notin> set (qs (prio_of (tcb_pool s t)))" using blocked_off_queue [OF inv t(1,2)] t(3,4) by simp
  from free_thread_inv [OF inv t(1,2,4) off] obtain s' where
    s': "task_free_thread (Some t) s = Some s'" "sched_inv s' qs"
      "tcb_used s' = (tcb_used s)(t := False)" "tcb_pool s' = (tcb_pool s)(t := tcb_zero)"
      "current_tcb s' = current_tcb s" .
  have "sched_unblock core (Some t) s = Some (False, s')"
    using s'(1) t(3) sched_invD(3) [OF inv]
    by (simp add: sched_unblock_def sched_acquire_free sched_inv_release_lock)
  with that s' show ?thesis by blast
qed

text \<open>The invariant inside a critical section, whatever the lock word is.\<close>

definition locked_inv :: "'a kstate_scheme \<Rightarrow> (nat \<Rightarrow> nat list) \<Rightarrow> bool" where
  "locked_inv s qs \<longleftrightarrow> tasks_wf s \<and> rq_abs s qs \<and> queue_ok s qs"

lemma locked_inv_release: "locked_inv s qs \<Longrightarrow> sched_inv (sched_release s) qs"
  by (simp add: locked_inv_def sched_inv_def frame_simps)

lemma sched_inv_locked: "sched_inv s qs \<Longrightarrow> locked_inv (s\<lparr>sched_lock := b\<rparr>) qs"
  by (simp add: locked_inv_def sched_inv_def frame_simps)

lemma locked_inv_trace [frame_simps]:
  "locked_inv (trace_record core ty st tid nm tt tn s) qs \<longleftrightarrow> locked_inv s qs"
  by (simp add: locked_inv_def frame_simps)

lemma remove_then_set:
  fixes s :: "'a kstate_scheme" and t :: nat
  assumes inv: "locked_inv s qs" and st: "st \<noteq> THREAD_READY" "st \<noteq> THREAD_RUNNING"
  defines "p \<equiv> prio_of (tcb_pool s t)"
  obtains s2 where "sched_remove_thread_raw (Some t) s = Some s2"
    "relinked (insert t (set (qs p))) s s2"
    "locked_inv (set_state t st s2) (qs(p := remove1 t (qs p)))"
proof -
  have p: "p < 8" by (simp add: p_def)
  have i: "tasks_wf s" "rq_abs s qs" "queue_ok s qs" using inv by (simp_all add: locked_inv_def)
  from remove_raw_spec [OF i(2), of t] obtain s2 where
    s2: "sched_remove_thread_raw (Some t) s = Some s2" "rq_abs s2 (qs(p := remove1 t (qs p)))"
      "relinked (insert t (set (qs p))) s s2" by (auto simp: p_def)
  have "queue_ok (set_state t st s2) (qs(p := remove1 t (qs p)))"
    using queue_inv_leave [OF i(3) [unfolded queue_ok_def] _ st, of t] rq_abs_distinct [OF i(2) p]
    by (simp add: queue_ok_set_state p_def relinked_fields [OF s2(3)] relinked_tcb [OF s2(3)])
  then have "locked_inv (set_state t st s2) (qs(p := remove1 t (qs p)))"
    using tasks_wf_relinked [OF s2(3)] i(1) s2(2) by (simp add: locked_inv_def frame_simps)
  with s2 that show ?thesis by blast
qed

lemma locked_inv_zombie:
  assumes "locked_inv s qs" and "is_current (current_tcb s) t"
  shows "locked_inv (set_state t THREAD_ZOMBIE s) qs"
  using assms queue_inv_zombie [OF _ assms(2)]
  by (simp add: locked_inv_def queue_ok_set_state frame_simps) (simp add: queue_ok_def)

lemma locked_inv_off_queue:
  assumes "locked_inv s qs" and "t \<notin> set (qs (prio_of (tcb_pool s t)))"
    and "st \<noteq> THREAD_READY" "st \<noteq> THREAD_RUNNING"
  shows "locked_inv (set_state t st s) qs"
  using assms queue_inv_off_queue [where t = t and Q = qs and P = "\<lambda>x. prio_of (tcb_pool s x)"]
  by (simp add: locked_inv_def queue_ok_set_state frame_simps) (simp add: queue_ok_def)

lemma locked_inv_pending:
  assumes "locked_inv s qs" and "is_current (current_tcb s) t"
  shows "locked_inv (upd_tcb t (\<lambda>b. b\<lparr>t_kill_pending := True\<rparr>) s) qs"
proof -
  let ?s = "upd_tcb t (\<lambda>b. b\<lparr>t_kill_pending := True\<rparr>) s"
  have "(\<lambda>x. t_kill_pending (tcb_pool ?s x)) = (\<lambda>x. t_kill_pending (tcb_pool s x))(t := True)"
    and "(\<lambda>x. t_state (tcb_pool ?s x)) = (\<lambda>x. t_state (tcb_pool s x))"
    and "(\<lambda>x. prio_of (tcb_pool ?s x)) = (\<lambda>x. prio_of (tcb_pool s x))"
    by (auto simp: fun_eq_iff prio_of_def)
  then have "queue_ok ?s qs"
    using queue_inv_pending [OF _ assms(2)] assms(1)
    by (simp only: queue_ok_def locked_inv_def frame_simps)
  moreover have "tasks_wf ?s \<longleftrightarrow> tasks_wf s" by (rule tasks_wf_cong) (simp_all add: frame_simps)
  moreover have "rq_abs ?s qs \<longleftrightarrow> rq_abs s qs" by (rule rq_abs_cong) (auto simp: next_of_def)
  ultimately show ?thesis using assms(1) by (simp add: locked_inv_def)
qed

text \<open>Killing, on every branch.\<close>

lemma task_kill_thread_spec:
  assumes inv: "sched_inv s qs" and t: "t < 16" "tcb_used s t" and core: "core < 2"
  defines "p \<equiv> prio_of (tcb_pool s t)"
  obtains s' qs' where "task_kill_thread core (Some t) s = Some s'" "sched_inv s' qs'"
    "current_tcb s' = current_tcb s"
    "\<And>u. u \<noteq> t \<Longrightarrow> tcb_used s' u = tcb_used s u \<and> t_state (tcb_pool s' u) = t_state (tcb_pool s u)"
    "if current_tcb s core = Some t then tcb_used s' t \<and> t_state (tcb_pool s' t) = THREAD_ZOMBIE
     else if current_tcb s (1 - core) = Some t then
       tcb_used s' t \<and> t_kill_pending (tcb_pool s' t) \<and> t_state (tcb_pool s' t) = t_state (tcb_pool s t)
     else if t_state (tcb_pool s t) = THREAD_BLOCKED \<or> t_state (tcb_pool s t) = THREAD_ZOMBIE then
       tcb_used s' t \<and> t_state (tcb_pool s' t) = THREAD_ZOMBIE
     else \<not> tcb_used s' t \<and> qs' = qs(p := remove1 t (qs p)) \<and>
       heap_live s' = {x \<in> heap_live s. Some (fst x) \<noteq> t_stack_base (tcb_pool s t)}"
    "\<And>u. u \<noteq> t \<Longrightarrow> keeps_id (tcb_pool s u) (tcb_pool s' u)"
    "tcb_used s' t \<Longrightarrow> t_pid (tcb_pool s' t) = t_pid (tcb_pool s t)"
    "\<And>u. u \<noteq> t \<Longrightarrow> t_kill_pending (tcb_pool s' u) = t_kill_pending (tcb_pool s u)"
proof -
  note i = sched_invD [OF inv]
  let ?s1 = "s\<lparr>sched_lock := True\<rparr>"
  define s2 where "s2 = kill_trace core t ?s1"
  have l2: "locked_inv s2 qs"
    using sched_inv_locked [OF inv] by (simp add: s2_def kill_trace_def frame_simps)
  have f: "tcb_pool s2 = tcb_pool s" "tcb_used s2 = tcb_used s" "current_tcb s2 = current_tcb s"
      "heap_blocks s2 = heap_blocks s" "heap_head s2 = heap_head s" "heap_lock s2 = heap_lock s"
    by (simp_all add: s2_def kill_trace_def frame_simps)
  have acq: "sched_acquire s = Some ?s1" by (rule sched_acquire_free [OF i(3)])
  have C: "is_current (current_tcb s2) t \<longleftrightarrow> current_tcb s core = Some t \<or> current_tcb s (1 - core) = Some t"
    using core f by (cases core) (auto simp: is_current_def)
  show ?thesis
  proof (cases "current_tcb s core = Some t")
    case True
    have "task_kill_thread core (Some t) s = Some (sched_release (set_state t THREAD_ZOMBIE s2))"
      using True f by (simp add: task_kill_thread_def sched_kill_def acq s2_def [symmetric] Let_def)
    moreover have "sched_inv (sched_release (set_state t THREAD_ZOMBIE s2)) qs"
      using locked_inv_release locked_inv_zombie [OF l2] C True by blast
    ultimately show ?thesis using that True f t by (simp add: frame_simps)
  next
    case nc: False
    show ?thesis
    proof (cases "current_tcb s (1 - core) = Some t")
      case True
      let ?s' = "sched_release (upd_tcb t (\<lambda>b. b\<lparr>t_kill_pending := True\<rparr>) s2)"
      have "task_kill_thread core (Some t) s = Some ?s'"
        using nc True f by (simp add: task_kill_thread_def sched_kill_def acq s2_def [symmetric] Let_def)
      moreover have "sched_inv ?s' qs" using locked_inv_release locked_inv_pending [OF l2] C True by blast
      ultimately show ?thesis using that True nc f t by (simp add: frame_simps)
    next
      case no: False
      then have notcur: "\<not> is_current (current_tcb s) t" using nc C f by simp
      show ?thesis
      proof (cases "t_state (tcb_pool s t) = THREAD_BLOCKED")
        case True
        have off: "t \<notin> set (qs (prio_of (tcb_pool s2 t)))"
          using blocked_off_queue [OF inv t] True notcur f by simp
        have "task_kill_thread core (Some t) s = Some (sched_release (set_state t THREAD_ZOMBIE s2))"
          using nc no True f by (simp add: task_kill_thread_def sched_kill_def acq s2_def [symmetric] Let_def)
        moreover have "sched_inv (sched_release (set_state t THREAD_ZOMBIE s2)) qs"
          using locked_inv_release locked_inv_off_queue [OF l2 off] by blast
        ultimately show ?thesis using that True nc no f t by (simp add: frame_simps)
      next
        case nb: False
        show ?thesis
        proof (cases "t_state (tcb_pool s t) = THREAD_ZOMBIE")
          case True
          have "task_kill_thread core (Some t) s = Some (sched_release s2)"
            using nc no True f by (simp add: task_kill_thread_def sched_kill_def acq s2_def [symmetric] Let_def)
          then show ?thesis using that True nc no f t locked_inv_release [OF l2] by (simp add: frame_simps)
        next
          case nz: False
          obtain s3 where s3: "sched_remove_thread_raw (Some t) s2 = Some s3"
              "relinked (insert t (set (qs (prio_of (tcb_pool s2 t))))) s2 s3"
              "locked_inv (set_state t THREAD_ZOMBIE s3)
                (qs(prio_of (tcb_pool s2 t) := remove1 t (qs (prio_of (tcb_pool s2 t)))))"
            by (rule remove_then_set [OF l2, of THREAD_ZOMBIE t]) simp_all
          define s4 where "s4 = sched_release (set_state t THREAD_ZOMBIE s3)"
          let ?qs = "qs(p := remove1 t (qs p))"
          have kill: "sched_kill core (Some t) s = Some (True, s4)"
            using nc no nb nz f s3(1) by (simp add: sched_kill_def acq s2_def [symmetric] Let_def s4_def)
          have inv4: "sched_inv s4 ?qs" using locked_inv_release [OF s3(3)] f by (simp add: s4_def p_def)
          note r = relinked_fields [OF s3(2)] relinked_tcb [OF s3(2)]
          have pr: "prio_of (tcb_pool s4 t) = p" using r f by (simp add: s4_def frame_simps p_def)
          have "t \<notin> set (?qs p)" using rq_abs_distinct [OF i(2), of p] by (simp add: p_def)
          then have off: "t \<notin> set (?qs (prio_of (tcb_pool s4 t)))" using pr by simp
          have g: "tcb_used s4 = tcb_used s" "current_tcb s4 = current_tcb s"
              "t_stack_base (tcb_pool s4 t) = t_stack_base (tcb_pool s t)" "heap_live s4 = heap_live s"
            using r f heap_cong(3) [of s4 s] by (simp_all add: s4_def frame_simps)
          have u4: "tcb_used s4 t" "\<not> is_current (current_tcb s4) t" using t(2) notcur g by simp_all
          obtain s5 where s5: "task_free_thread (Some t) s4 = Some s5" "sched_inv s5 ?qs"
              "tcb_used s5 = (tcb_used s4)(t := False)" "tcb_pool s5 = (tcb_pool s4)(t := tcb_zero)"
              "current_tcb s5 = current_tcb s4"
              "heap_live s5 = {x \<in> heap_live s4. Some (fst x) \<noteq> t_stack_base (tcb_pool s4 t)}"
            by (rule free_thread_inv [OF inv4 t(1) u4 off])
          have "task_kill_thread core (Some t) s = Some s5"
            using kill s5(1) by (simp add: task_kill_thread_def)
          moreover have "t_state (tcb_pool s4 u) = t_state (tcb_pool s u)" if "u \<noteq> t" for u
            using that r f by (simp add: s4_def frame_simps)
          moreover have "keeps_id (tcb_pool s u) (tcb_pool s4 u)" if "u \<noteq> t" for u
            using that r f by (simp add: s4_def frame_simps keeps_id_def)
          moreover have "t_kill_pending (tcb_pool s4 u) = t_kill_pending (tcb_pool s u)" if "u \<noteq> t" for u
            using that r f by (simp add: s4_def frame_simps)
          ultimately show ?thesis using that [of s5 ?qs] s5 g nc no nb nz by simp
        qed
      qed
    qed
  qed
qed

section \<open>Selection\<close>

lemma pick_thread_chain: "chain nx p xs \<Longrightarrow> pick_thread nx ok p = Some (find ok xs)"
proof (induction xs arbitrary: p)
  case Nil
  then show ?case by (simp add: pick_thread.simps)
next
  case (Cons x xs)
  then show ?case by (subst pick_thread.simps) auto
qed

text \<open>The abstract scheduler: eight lists, of which the outgoing thread's is rotated.\<close>

definition rotated :: "(nat \<Rightarrow> bool) \<Rightarrow> nat list \<Rightarrow> nat list" where
  "rotated front q = (case q of h # n # r \<Rightarrow> if front h then n # r @ [h] else q | _ \<Rightarrow> q)"

fun spec_select ::
  "(nat \<Rightarrow> bool) \<Rightarrow> (nat \<Rightarrow> bool) \<Rightarrow> nat list \<Rightarrow> (nat \<Rightarrow> nat list) \<Rightarrow> nat option \<times> (nat \<Rightarrow> nat list)" where
  "spec_select ok front [] qs = (None, qs)"
| "spec_select ok front (p # ps) qs =
     (let q = rotated front (qs p); qs' = qs(p := q)
      in case find ok q of Some t \<Rightarrow> (Some t, qs') | None \<Rightarrow> spec_select ok front ps qs')"

lemma set_rotated [simp]: "set (rotated front q) = set q"
  by (auto simp: rotated_def split: list.split)

lemma rotated_Nil [simp]: "rotated front [] = []"
  by (simp add: rotated_def)

lemma relinked_trans:
  assumes "relinked X s s'" and "relinked Y s' s''"
  shows "relinked (X \<union> Y) s s''"
proof -
  from assms(1) obtain N R where a: "s' = s\<lparr>tcb_pool := (\<lambda>x. (tcb_pool s x)\<lparr>t_next := N x\<rparr>), ready_queues := R\<rparr>"
    "\<forall>x. x \<notin> X \<longrightarrow> N x = next_of s x" by (auto simp: relinked_def)
  from assms(2) obtain N' R' where b: "s'' = s'\<lparr>tcb_pool := (\<lambda>x. (tcb_pool s' x)\<lparr>t_next := N' x\<rparr>), ready_queues := R'\<rparr>"
    "\<forall>x. x \<notin> Y \<longrightarrow> N' x = next_of s' x" by (auto simp: relinked_def)
  have "s'' = s\<lparr>tcb_pool := (\<lambda>x. (tcb_pool s x)\<lparr>t_next := N' x\<rparr>), ready_queues := R'\<rparr>"
    using a(1) b(1) by simp
  moreover have "\<forall>x. x \<notin> X \<union> Y \<longrightarrow> N' x = next_of s x" using a b by (auto simp: next_of_def)
  ultimately show ?thesis unfolding relinked_def by blast
qed

lemma relinked_mono: "relinked X s s' \<Longrightarrow> X \<subseteq> Y \<Longrightarrow> relinked Y s s'"
  unfolding relinked_def by blast

lemma eligible_relinked: "relinked X s s' \<Longrightarrow> eligible core s' = eligible core s"
  by (simp add: fun_eq_iff eligible_def relinked_fields relinked_tcb)

text \<open>Which thread \<open>sched_next_thread\<close> moves to the tail.\<close>

definition at_front :: "bool \<Rightarrow> nat option \<Rightarrow> 'a kstate_scheme \<Rightarrow> nat \<Rightarrow> bool" where
  "at_front z cur s h \<longleftrightarrow> \<not> z \<and> cur = Some h \<and> t_state (tcb_pool s h) = THREAD_READY"

lemma at_front_relinked: "relinked X s s' \<Longrightarrow> at_front z cur s' = at_front z cur s"
  by (simp add: fun_eq_iff at_front_def relinked_tcb)

lemma rotate_current_spec:
  assumes rq: "rq_abs s qs" and p: "p < 8"
  shows "\<exists>s'. rotate_current z cur p s = Some s' \<and> rq_abs s' (qs(p := rotated (at_front z cur s) (qs p))) \<and>
           relinked (set (qs p)) s s'"
proof -
  have c: "chain (next_of s) (ready_queues s p) (qs p)" by (rule rq_abs_chain [OF rq p])
  show ?thesis
  proof (cases "\<exists>h n r. qs p = h # n # r \<and> at_front z cur s h")
    case False
    then have "rotated (at_front z cur s) (qs p) = qs p" by (auto simp: rotated_def split: list.split)
    moreover have "rotate_current z cur p s = Some s"
      using c False by (cases "qs p"; cases "tl (qs p)") (auto simp: rotate_current_def at_front_def)
    ultimately show ?thesis using rq by simp
  next
    case True
    then obtain h n r where q: "qs p = h # n # r" and f: "at_front z cur s h" by blast
    let ?xs = "n # r"
    let ?s1 = "set_ready p (Some n) s"
    let ?s3 = "set_next h None (set_next (last ?xs) (Some h) ?s1)"
    have d: "distinct (h # ?xs)" using rq_abs_distinct [OF rq p] q by simp
    have heads: "ready_queues s p = Some h" "next_of s h = Some n" "chain (next_of s) (Some n) ?xs"
      using c q by auto
    have "last_node (next_of ?s1) n = Some (last ?xs)" using last_node_chain [OF heads(3)] by simp
    then have rot: "rotate_current z cur p s = Some ?s3"
      using heads f by (simp add: rotate_current_def at_front_def Let_def)
    have l: "relinked (insert h (set (qs p))) s ?s3"
      by (intro relinked_set_next relinked_set_ready relinked_refl) (use q in auto)
    have ne: "last ?xs \<noteq> h" using d by (metis distinct.simps(2) last_in_set list.distinct(1))
    have "chain ((next_of s)(h := None, last ?xs := Some h)) (Some n) (?xs @ [h])"
      using chain_append_tail [OF heads(3)] d by simp
    then have "chain (next_of ?s3) (ready_queues ?s3 p) (?xs @ [h])"
      using ne by (simp add: fun_upd_twist fun_upd_same del: fun_upd_apply)
    then have "rq_abs ?s3 (qs(p := ?xs @ [h]))"
      using rq p q l rq_abs_other [OF rq p, of h]
      by (intro rq_abs_update [OF rq p l]) auto
    moreover have "rotated (at_front z cur s) (qs p) = ?xs @ [h]" using q f by (simp add: rotated_def)
    moreover have "insert h (set (qs p)) = set (qs p)" using q by auto
    ultimately show ?thesis using rot l by auto
  qed
qed

lemma select_loop_spec:
  "rq_abs s qs \<Longrightarrow> set ps \<subseteq> {..<8} \<Longrightarrow>
     \<exists>s'. select_loop ps core z cur s =
         Some (fst (spec_select (eligible core s) (at_front z cur s) ps qs), s') \<and>
       rq_abs s' (snd (spec_select (eligible core s) (at_front z cur s) ps qs)) \<and> relinked UNIV s s'"
proof (induction ps arbitrary: s qs)
  case Nil
  then show ?case by simp
next
  case (Cons p ps)
  let ?ok = "eligible core s" and ?fr = "at_front z cur s"
  from Cons.prems have p: "p < 8" and ps: "set ps \<subseteq> {..<8}" by auto
  have c: "chain (next_of s) (ready_queues s p) (qs p)" by (rule rq_abs_chain [OF Cons.prems(1) p])
  show ?case
  proof (cases "ready_queues s p")
    case None
    with c have e: "qs p = []" by simp
    then have "qs(p := []) = qs" by (simp add: fun_upd_idem)
    with None e Cons.IH [OF Cons.prems(1) ps] show ?thesis by simp
  next
    case (Some h)
    from rotate_current_spec [OF Cons.prems(1) p] obtain s1 where
      s1: "rotate_current z cur p s = Some s1" "rq_abs s1 (qs(p := rotated ?fr (qs p)))"
        "relinked (set (qs p)) s s1" by blast
    have "chain (next_of s1) (ready_queues s1 p) (rotated ?fr (qs p))" using rq_abs_chain [OF s1(2) p] by simp
    then have pick: "pick_thread (next_of s1) (eligible core s1) (ready_queues s1 p) =
        Some (find ?ok (rotated ?fr (qs p)))"
      by (simp add: pick_thread_chain eligible_relinked [OF s1(3)])
    have r1: "relinked UNIV s s1" using s1(3) by (rule relinked_mono) simp
    show ?thesis
    proof (cases "find ?ok (rotated ?fr (qs p))")
      case (Some t)
      with \<open>ready_queues s p = Some h\<close> s1 pick r1 show ?thesis by (simp del: fun_upd_apply)
    next
      case None
      from Cons.IH [OF s1(2) ps] obtain s2 where
        s2: "select_loop ps core z cur s1 = Some (fst (spec_select ?ok ?fr ps (qs(p := rotated ?fr (qs p)))), s2)"
          "rq_abs s2 (snd (spec_select ?ok ?fr ps (qs(p := rotated ?fr (qs p)))))" "relinked UNIV s1 s2"
        unfolding eligible_relinked [OF s1(3)] at_front_relinked [OF s1(3)] by blast
      have "relinked UNIV s s2" using relinked_trans [OF r1 s2(3)] by simp
      with \<open>ready_queues s p = Some h\<close> s1 pick None s2 show ?thesis by simp
    qed
  qed
qed

lemma spec_select_skip:
  "find ok (rotated front (qs p)) = None \<Longrightarrow>
     spec_select ok front (p # ps) qs = spec_select ok front ps (qs(p := rotated front (qs p)))"
  and spec_select_hit:
  "find ok (rotated front (qs p)) = Some t \<Longrightarrow>
     spec_select ok front (p # ps) qs = (Some t, qs(p := rotated front (qs p)))"
  by (simp_all add: Let_def)

lemma find_rotated_None: "find ok (rotated front q) = None \<longleftrightarrow> (\<forall>x \<in> set q. \<not> ok x)"
  by (auto simp: find_None_iff)

lemma spec_select_sets: "set (snd (spec_select ok front ps qs) p) = set (qs p)"
proof (induction ps arbitrary: qs)
  case (Cons p' ps)
  show ?case
  proof (cases "find ok (rotated front (qs p'))")
    case None
    show ?thesis
      unfolding spec_select_skip [where p = p' and qs = qs, OF None] Cons.IH by simp
  next
    case (Some t)
    show ?thesis unfolding spec_select_hit [where p = p' and qs = qs, OF Some] by simp
  qed
qed simp

lemma spec_select_None:
  "fst (spec_select ok front ps qs) = None \<Longrightarrow> \<forall>p \<in> set ps. \<forall>x \<in> set (qs p). \<not> ok x"
proof (induction ps arbitrary: qs)
  case (Cons p' ps)
  have no: "find ok (rotated front (qs p')) = None"
    using Cons.prems spec_select_hit [of ok front qs p'] by (cases "find ok (rotated front (qs p'))") auto
  let ?qs = "qs(p' := rotated front (qs p'))"
  have "\<forall>p \<in> set ps. \<forall>x \<in> set (?qs p). \<not> ok x"
    using Cons.prems spec_select_skip [where p = p' and qs = qs, OF no] by (intro Cons.IH) (simp only:)
  with no show ?case by (auto simp: find_rotated_None split: if_splits)
qed simp

text \<open>The thread selected is the first eligible one of the first queue that has one.\<close>

lemma spec_select_Some:
  "fst (spec_select ok front ps qs) = Some t \<Longrightarrow> distinct ps \<Longrightarrow>
     \<exists>us p vs. ps = us @ p # vs \<and> find ok (rotated front (qs p)) = Some t \<and>
       snd (spec_select ok front ps qs) p = rotated front (qs p) \<and>
       (\<forall>q \<in> set us. \<forall>x \<in> set (qs q). \<not> ok x)"
proof (induction ps arbitrary: qs)
  case (Cons p' ps)
  show ?case
  proof (cases "find ok (rotated front (qs p'))")
    case None
    let ?qs = "qs(p' := rotated front (qs p'))"
    note skip = spec_select_skip [where p = p' and qs = qs, OF None]
    have "fst (spec_select ok front ps ?qs) = Some t" using Cons.prems(1) skip by (simp only:)
    moreover have "distinct ps" using Cons.prems(2) by simp
    ultimately obtain us p vs where ps: "ps = us @ p # vs"
      "find ok (rotated front (?qs p)) = Some t"
      "snd (spec_select ok front ps ?qs) p = rotated front (?qs p)" "\<forall>q \<in> set us. \<forall>x \<in> set (?qs q). \<not> ok x"
      using Cons.IH by blast
    have "p' \<notin> set ps" using Cons.prems(2) by simp
    then have ne: "p \<noteq> p'" "p' \<notin> set us" using ps(1) by auto
    then have "\<forall>q \<in> set us. \<forall>x \<in> set (qs q). \<not> ok x" using ps(4) by (auto split: if_splits)
    moreover have "\<forall>x \<in> set (qs p'). \<not> ok x" using None by (simp add: find_rotated_None)
    moreover have "find ok (rotated front (qs p)) = Some t"
      "snd (spec_select ok front (p' # ps) qs) p = rotated front (qs p)"
      using ps(2,3) ne(1) unfolding skip by simp_all
    ultimately show ?thesis using ps(1)
      by (intro exI [of _ "p' # us"] exI [of _ p] exI [of _ vs]) auto
  next
    case (Some t')
    note hit = spec_select_hit [where p = p' and qs = qs, OF Some]
    have "t' = t" using Cons.prems(1) unfolding hit by simp
    with Some hit show ?thesis by (intro exI [of _ "[]"] exI [of _ p'] exI [of _ ps]) simp
  qed
qed simp

lemma upt_split_less: "[0..<n] = us @ p # vs \<Longrightarrow> p < n \<and> set us = {..<p}"
proof -
  assume a: "[0..<n] = us @ p # vs"
  then have len: "length us < n" by (metis append_Cons length_append length_upt diff_zero
        length_Cons less_add_Suc1 add_Suc_right)
  have "p = [0..<n] ! length us" using a by (metis nth_append_length)
  then have p: "p = length us" using len by simp
  have "us = take p [0..<n]" using a p by simp
  also have "\<dots> = [0..<p]" using len p by (simp add: take_upt)
  finally show ?thesis using len p by (metis atLeast_upt)
qed

subsection \<open>The outgoing thread\<close>

text \<open>The state in which the outgoing thread is left, and whether it is reaped here.\<close>

definition left_state :: "tcb \<Rightarrow> thread_state" where
  "left_state b = (if t_kill_pending b then THREAD_ZOMBIE
     else if t_state b = THREAD_RUNNING then THREAD_READY else t_state b)"

definition reaped_here :: "tcb \<Rightarrow> bool" where
  "reaped_here b \<longleftrightarrow> left_state b = THREAD_ZOMBIE \<and> \<not> (t_kill_pending b \<and> t_state b = THREAD_BLOCKED)"

lemma queue_inv_switch_out:
  assumes inv: "queue_inv U S P K C Q" and core: "core < 2" "C core = Some c"
    and st: "st \<noteq> THREAD_RUNNING" "c \<in> set (Q (P c)) \<longleftrightarrow> st = THREAD_READY"
  shows "queue_inv U (S(c := st)) P (K(c := False)) (C(core := None)) Q"
proof (rule queue_invI)
  have cores: "core = 0 \<or> core = 1" using core(1) by auto
  then have cur: "is_current (C(core := None)) u \<longleftrightarrow> is_current C u" if "u \<noteq> c" for u
    using that core(2) by (auto simp: is_current_def)
  fix u assume u: "u < 16" "U u"
  show "thread_inv ((S(c := st)) u) (u \<in> set (Q (P u))) ((K(c := False)) u) (is_current (C(core := None)) u)"
    using queue_invD(2) [OF inv u] st cur by (cases "u = c") (simp_all add: thread_inv_def)
next
  fix u assume "is_current (C(core := None)) u"
  then have "is_current C u" by (auto simp: is_current_def split: if_splits)
  then show "u < 16 \<and> U u" by (rule queue_invD(3) [OF inv])
next
  assume "(C(core := None)) 0 = (C(core := None)) 1"
  then show "(C(core := None)) 0 = None" using core queue_invD(4) [OF inv]
    by (auto split: if_splits)
qed (use queue_invD(1) [OF inv] in auto)

lemma queue_inv_select:
  assumes inv: "queue_inv U S P K C Q" and core: "core < 2" "C core = None"
    and t: "t < 16" "U t" "S t = THREAD_READY" "C (1 - core) \<noteq> Some t"
  shows "queue_inv U (S(t := THREAD_RUNNING)) P K (C(core := Some t)) Q"
proof (rule queue_invI)
  have cores: "core = 0 \<or> core = 1" using core(1) by auto
  then have cur: "is_current (C(core := Some t)) u \<longleftrightarrow> is_current C u \<or> u = t" for u
    using core(2) by (auto simp: is_current_def)
  fix u assume u: "u < 16" "U u"
  show "thread_inv ((S(t := THREAD_RUNNING)) u) (u \<in> set (Q (P u))) (K u) (is_current (C(core := Some t)) u)"
    using queue_invD(2) [OF inv u] t(3) cur by (cases "u = t") (simp_all add: thread_inv_def)
next
  fix u assume "is_current (C(core := Some t)) u"
  then have "is_current C u \<or> u = t" using core(1) by (auto simp: is_current_def split: if_splits)
  then show "u < 16 \<and> U u" using queue_invD(3) [OF inv, of u] t by auto
next
  assume "(C(core := Some t)) 0 = (C(core := Some t)) 1"
  then show "(C(core := Some t)) 0 = None" using core t(4) by (cases core) auto
qed (use queue_invD(1) [OF inv] in auto)

text \<open>The first part of \<open>sched_next_thread\<close>: the outgoing thread is out of the core, alive or reaped.\<close>

definition switch_out :: "nat option \<Rightarrow> 'a kstate_scheme \<Rightarrow> 'a kstate_scheme" where
  "switch_out cur s = (case cur of
       None \<Rightarrow> s
     | Some c \<Rightarrow> upd_tcb c (\<lambda>b. b\<lparr>t_kill_pending := False, t_state := left_state b\<rparr>) s)"

lemma switch_out_eq: "requeue_running cur (snd (take_kill cur s)) = switch_out cur s"
proof (cases cur)
  case (Some c)
  define b where "b = tcb_pool s c"
  have id: "b\<lparr>t_kill_pending := False, t_state := t_state b\<rparr> = b" "b\<lparr>t_kill_pending := False, t_state := x\<rparr> = b\<lparr>t_state := x\<rparr>"
    if "\<not> t_kill_pending b" for x using that by (cases b, simp)+
  consider "t_kill_pending b" | "\<not> t_kill_pending b" "t_state b = THREAD_RUNNING"
    | "\<not> t_kill_pending b" "t_state b \<noteq> THREAD_RUNNING" by blast
  then show ?thesis
  proof cases
    case 2
    then show ?thesis using Some
      by (simp add: id(2) [OF 2(1)] requeue_running_def take_kill_def switch_out_def b_def [symmetric] left_state_def
          set_state_def upd_tcb_def)
  next
    case 3
    then show ?thesis using Some
      by (simp add: id(1) [OF 3(1)] requeue_running_def take_kill_def switch_out_def b_def [symmetric] left_state_def
          upd_tcb_def) (simp add: b_def)
  qed (simp add: Some requeue_running_def take_kill_def switch_out_def b_def [symmetric] left_state_def
      upd_tcb_def)
qed (simp add: requeue_running_def take_kill_def switch_out_def)

lemma switch_out_fields [frame_simps]:
  "tcb_used (switch_out cur s) = tcb_used s" "pcb_pool (switch_out cur s) = pcb_pool s"
  "pcb_used (switch_out cur s) = pcb_used s" "current_tcb (switch_out cur s) = current_tcb s"
  "ready_queues (switch_out cur s) = ready_queues s" "sched_lock (switch_out cur s) = sched_lock s"
  "heap_blocks (switch_out cur s) = heap_blocks s" "heap_head (switch_out cur s) = heap_head s"
  "heap_lock (switch_out cur s) = heap_lock s" "heap_mem (switch_out cur s) = heap_mem s"
  "trace_on (switch_out cur s) = trace_on s" "slice_remaining (switch_out cur s) = slice_remaining s"
  by (simp_all add: switch_out_def upd_tcb_def split: option.split)

lemma switch_out_tcb [frame_simps]:
  "t_stack_base (tcb_pool (switch_out cur s) t) = t_stack_base (tcb_pool s t)"
  "t_stack_size (tcb_pool (switch_out cur s) t) = t_stack_size (tcb_pool s t)"
  "t_pid (tcb_pool (switch_out cur s) t) = t_pid (tcb_pool s t)"
  "t_priority (tcb_pool (switch_out cur s) t) = t_priority (tcb_pool s t)"
  "t_affinity (tcb_pool (switch_out cur s) t) = t_affinity (tcb_pool s t)"
  "t_next (tcb_pool (switch_out cur s) t) = t_next (tcb_pool s t)"
  "next_of (switch_out cur s) = next_of s"
  "prio_of (tcb_pool (switch_out cur s) t) = prio_of (tcb_pool s t)"
  "t_state (tcb_pool (switch_out cur s) t) =
     (if Some t = cur then left_state (tcb_pool s t) else t_state (tcb_pool s t))"
  "t_kill_pending (tcb_pool (switch_out cur s) t) =
     (Some t \<noteq> cur \<and> t_kill_pending (tcb_pool s t))"
  by (auto simp: switch_out_def upd_tcb_def next_of_def prio_of_def fun_eq_iff split: option.split)

lemma switch_out_next_id [simp]:
  "(tcb_pool (switch_out cur s) u)\<lparr>t_next := next_of s u\<rparr> = tcb_pool (switch_out cur s) u"
  using pool_next_id [of "switch_out cur s" u] by (simp only: switch_out_tcb(7))

lemma relinked_pool_next:
  "relinked X s s' \<Longrightarrow> tcb_pool s' u = (tcb_pool s u)\<lparr>t_next := next_of s' u\<rparr>"
  by (auto simp: relinked_def next_of_def)

lemma take_kill_deferred:
  "fst (take_kill cur s) \<longleftrightarrow>
     (\<exists>c. cur = Some c \<and> t_kill_pending (tcb_pool s c) \<and> t_state (tcb_pool s c) = THREAD_BLOCKED)"
  by (auto simp: take_kill_def split: option.split)

text \<open>What the outgoing thread's READY queue looks like before the selection.\<close>

definition left_queues :: "nat option \<Rightarrow> 'a kstate_scheme \<Rightarrow> (nat \<Rightarrow> nat list) \<Rightarrow> nat \<Rightarrow> nat list" where
  "left_queues cur s qs = (case cur of
       None \<Rightarrow> qs
     | Some c \<Rightarrow> if reaped_here (tcb_pool s c) then
           qs(prio_of (tcb_pool s c) := remove1 c (qs (prio_of (tcb_pool s c)))) else qs)"

definition outgoing_reaped :: "nat option \<Rightarrow> 'a kstate_scheme \<Rightarrow> bool" where
  "outgoing_reaped cur s \<longleftrightarrow> (\<exists>c. cur = Some c \<and> reaped_here (tcb_pool s c))"

lemma queue_at_switch_out:
  assumes inv: "queue_at s C qs" and core: "core < 2" "C core = Some c"
    and alive: "\<not> reaped_here (tcb_pool s c)"
  shows "queue_at (switch_out (Some c) s) (C(core := None)) qs"
proof -
  let ?st = "left_state (tcb_pool s c)"
  have c: "c < 16" "tcb_used s c" "is_current C c" using queue_invD(3) [OF inv [unfolded queue_at_def], of c] core
    by (cases core; auto simp: is_current_def)+
  have "?st \<noteq> THREAD_RUNNING" by (simp add: left_state_def)
  moreover have "c \<in> set (qs (prio_of (tcb_pool s c))) \<longleftrightarrow> ?st = THREAD_READY"
    using queue_invD(2) [OF inv [unfolded queue_at_def] c(1,2)] alive
    by (auto simp: thread_inv_def reaped_here_def left_state_def split: if_splits)
  ultimately have *: "queue_inv (tcb_used s) ((\<lambda>t. t_state (tcb_pool s t))(c := ?st)) (\<lambda>t. prio_of (tcb_pool s t))
     ((\<lambda>t. t_kill_pending (tcb_pool s t))(c := False)) (C(core := None)) qs"
    by (rule queue_inv_switch_out [OF inv [unfolded queue_at_def] core])
  have "(\<lambda>t. t_state (tcb_pool (switch_out (Some c) s) t)) = (\<lambda>t. t_state (tcb_pool s t))(c := ?st)"
    "(\<lambda>t. t_kill_pending (tcb_pool (switch_out (Some c) s) t)) = (\<lambda>t. t_kill_pending (tcb_pool s t))(c := False)"
    by (auto simp: fun_eq_iff frame_simps)
  with * show ?thesis by (simp only: queue_at_def frame_simps)
qed

lemma queue_at_relinked: "relinked X s s' \<Longrightarrow> queue_at s' C qs \<longleftrightarrow> queue_at s C qs"
  by (simp add: queue_at_def relinked_fields relinked_tcb)

lemma queue_at_switch_out_zombie:
  assumes inv: "queue_at s C qs" and rq: "rq_abs s qs" and core: "core < 2" "C core = Some c"
    and dead: "left_state (tcb_pool s c) = THREAD_ZOMBIE"
  defines "p \<equiv> prio_of (tcb_pool s c)"
  shows "queue_at (switch_out (Some c) s) (C(core := None)) (qs(p := remove1 c (qs p)))"
proof -
  let ?S = "\<lambda>t. t_state (tcb_pool s t)" and ?P = "\<lambda>t. prio_of (tcb_pool s t)"
  have d: "distinct (qs p)" using rq_abs_distinct [OF rq] by (simp add: p_def)
  have "queue_inv (tcb_used s) (?S(c := THREAD_ZOMBIE)) ?P (\<lambda>t. t_kill_pending (tcb_pool s t)) C
      (qs(p := remove1 c (qs p)))"
    using queue_inv_leave [OF inv [unfolded queue_at_def], of c THREAD_ZOMBIE] d by (simp add: p_def)
  from queue_inv_switch_out [OF this core, of THREAD_ZOMBIE] d
  have *: "queue_inv (tcb_used s) (?S(c := THREAD_ZOMBIE)) ?P ((\<lambda>t. t_kill_pending (tcb_pool s t))(c := False))
      (C(core := None)) (qs(p := remove1 c (qs p)))" by (simp add: p_def)
  have "(\<lambda>t. t_state (tcb_pool (switch_out (Some c) s) t)) = ?S(c := THREAD_ZOMBIE)"
    "(\<lambda>t. t_kill_pending (tcb_pool (switch_out (Some c) s) t)) = (\<lambda>t. t_kill_pending (tcb_pool s t))(c := False)"
    using dead by (auto simp: fun_eq_iff frame_simps)
  with * show ?thesis by (simp only: queue_at_def frame_simps)
qed

lemma outgoing_spec:
  fixes s :: "'a kstate_scheme"
  assumes inv: "locked_inv s qs" and core: "core < 2" and cur: "current_tcb s core = cur"
  defines "z \<equiv> outgoing_reaped cur s"
  obtains s4 where
    "reap (fst (take_kill cur s)) cur (requeue_running cur (snd (take_kill cur s))) = Some (z, s4)"
    "tasks_wf s4" "rq_abs s4 (left_queues cur s qs)"
    "queue_at s4 ((current_tcb s)(core := None)) (left_queues cur s qs)"
    "current_tcb s4 = current_tcb s" "sched_lock s4 = sched_lock s"
    "trace_on s4 = trace_on s" "slice_remaining s4 = slice_remaining s"
    "\<And>u. tcb_used s4 u \<longleftrightarrow> tcb_used s u \<and> \<not> (z \<and> cur = Some u)"
    "\<And>u. \<not> (z \<and> cur = Some u) \<Longrightarrow> 
       tcb_pool s4 u = (tcb_pool (switch_out cur s) u)\<lparr>t_next := next_of s4 u\<rparr>"
    "\<And>u. z \<Longrightarrow> cur = Some u \<Longrightarrow> tcb_pool s4 u = tcb_zero"
proof -
  have i: "tasks_wf s" "rq_abs s qs" "queue_at s (current_tcb s) qs"
    using inv by (simp_all add: locked_inv_def queue_ok_at)
  let ?s3 = "switch_out cur s" and ?C = "(current_tcb s)(core := None)"
  have wf3: "tasks_wf ?s3" using i(1) tasks_wf_cong [of ?s3 s] by (simp add: frame_simps)
  have rq3: "rq_abs ?s3 qs" using i(2) rq_abs_cong [of ?s3 s qs] by (simp add: frame_simps)
  show ?thesis
  proof (cases cur)
    case None
    then have "?C = current_tcb s" using cur by (auto simp: fun_eq_iff)
    with None i show ?thesis
      by (intro that [of s]) (simp_all add: reap_def take_kill_def requeue_running_def z_def
          outgoing_reaped_def left_queues_def switch_out_def)
  next
    case (Some c)
    note C = core cur [unfolded Some]
    have st3: "t_state (tcb_pool ?s3 c) = left_state (tcb_pool s c)" using Some by (simp add: frame_simps)
    have zc: "z \<longleftrightarrow> reaped_here (tcb_pool s c)" using Some by (simp add: z_def outgoing_reaped_def)
    have go: "t_state (tcb_pool ?s3 c) = THREAD_ZOMBIE \<and> \<not> fst (take_kill cur s) \<longleftrightarrow> z"
      using Some st3 zc by (auto simp: reaped_here_def take_kill_deferred)
    show ?thesis
    proof (cases z)
      case False
      then have "reap (fst (take_kill cur s)) cur (requeue_running cur (snd (take_kill cur s))) = Some (z, ?s3)"
        using go Some unfolding switch_out_eq reap_def by auto
      moreover have "queue_at ?s3 ?C qs" using queue_at_switch_out [OF i(3) C] False zc Some by simp
      ultimately show ?thesis using False zc Some wf3 rq3
        by (intro that [of ?s3]) (simp_all add: frame_simps left_queues_def)
    next
      case True
      define p where "p = prio_of (tcb_pool s c)"
      let ?qs = "qs(p := remove1 c (qs p))"
      have dead: "left_state (tcb_pool s c) = THREAD_ZOMBIE" using True zc by (simp add: reaped_here_def)
      have pr3: "prio_of (tcb_pool ?s3 c) = p" by (simp add: p_def frame_simps)
      from remove_raw_spec [OF rq3, of c] obtain s5 where
        s5: "sched_remove_thread_raw (Some c) ?s3 = Some s5" "rq_abs s5 ?qs"
          "relinked (insert c (set (qs p))) ?s3 s5" by (auto simp: pr3)
      note r = relinked_fields [OF s5(3)] relinked_tcb [OF s5(3)]
      have at3: "queue_at ?s3 ?C ?qs"
        using queue_at_switch_out_zombie [OF i(3,2) C dead] Some by (simp add: p_def)
      have at5: "queue_at s5 ?C ?qs" using at3 queue_at_relinked [OF s5(3)] by simp
      have wf5: "tasks_wf s5" using wf3 tasks_wf_relinked [OF s5(3)] by simp
      have c: "c < 16" "tcb_used s5 c"
        using queue_invD(3) [OF i(3) [unfolded queue_at_def], of c] C r
        by (cases core; auto simp: is_current_def frame_simps)+
      have nc: "\<not> is_current ?C c"
        using C queue_invD(4) [OF i(3) [unfolded queue_at_def]]
        by (cases core) (auto simp: is_current_def less_Suc_eq numeral_2_eq_2)
      have off: "c \<notin> set (?qs (prio_of (tcb_pool s5 c)))"
        using r pr3 rq_abs_distinct [OF i(2), of p] by (simp add: p_def frame_simps)
      obtain s6 where s6: "task_free_thread (Some c) s5 = Some s6" "tasks_wf s6" "rq_abs s6 ?qs" "queue_at s6 ?C ?qs"
          "tcb_used s6 = (tcb_used s5)(c := False)" "tcb_pool s6 = (tcb_pool s5)(c := tcb_zero)"
          "current_tcb s6 = current_tcb s5" "sched_lock s6 = sched_lock s5" "trace_on s6 = trace_on s5"
          "slice_remaining s6 = slice_remaining s5"
        by (rule free_thread_at [OF wf5 s5(2) at5 c nc off])
      have "reap (fst (take_kill cur s)) cur (requeue_running cur (snd (take_kill cur s))) = Some (z, s6)"
        using go True Some s5(1) s6(1) unfolding switch_out_eq by (simp add: reap_def)
      moreover have "left_queues cur s qs = ?qs" using True zc Some by (simp add: left_queues_def p_def)
      moreover have "tcb_pool s6 u = (tcb_pool ?s3 u)\<lparr>t_next := next_of s6 u\<rparr>" if "u \<noteq> c" for u
        using relinked_pool_next [OF s5(3), of u] s6(6) that by (simp add: next_of_def)
      ultimately show ?thesis using s6 r True Some
        by (intro that [of s6]) (auto simp: frame_simps)
    qed
  qed
qed

text \<open>
  The abstract selection, over the state before the switch: a thread the core may run once the
  outgoing one has left, and whether the outgoing one is still READY.
\<close>

definition selectable :: "nat \<Rightarrow> 'a kstate_scheme \<Rightarrow> nat \<Rightarrow> bool" where
  "selectable core s t \<longleftrightarrow>
     (if current_tcb s core = Some t then left_state (tcb_pool s t) else t_state (tcb_pool s t)) = THREAD_READY \<and>
     current_tcb s (1 - core) \<noteq> Some t \<and>
     (t_affinity (tcb_pool s t) = THREAD_AFFINITY_ANY \<or> t_affinity (tcb_pool s t) = of_nat core)"

definition outgoing_ready :: "nat \<Rightarrow> 'a kstate_scheme \<Rightarrow> nat \<Rightarrow> bool" where
  "outgoing_ready core s t \<longleftrightarrow> current_tcb s core = Some t \<and> left_state (tcb_pool s t) = THREAD_READY"

definition selection :: "nat \<Rightarrow> 'a kstate_scheme \<Rightarrow> (nat \<Rightarrow> nat list) \<Rightarrow> nat option \<times> (nat \<Rightarrow> nat list)" where
  "selection core s qs = spec_select (selectable core s) (outgoing_ready core s) [0..<NUM_PRIORITIES]
     (left_queues (current_tcb s core) s qs)"

text \<open>The state once \<open>t\<close> has been picked from \<open>s\<close>, with whatever was traced.\<close>

definition switched_in :: "nat \<Rightarrow> nat \<Rightarrow> (nat \<Rightarrow> trace_event) \<Rightarrow> u32 \<Rightarrow> 'a kstate_scheme \<Rightarrow> 'a kstate_scheme" where
  "switched_in core t R n s = sched_release ((set_state t THREAD_RUNNING s)\<lparr>
     slice_remaining := (slice_remaining s)(core := TIME_SLICE_MS),
     current_tcb := (current_tcb s)(core := Some t), trace_ring := R, trace_seq := n\<rparr>)"

lemma selectable_lock [simp]: "selectable core (s\<lparr>sched_lock := b\<rparr>) = selectable core s"
  "outgoing_ready core (s\<lparr>sched_lock := b\<rparr>) = outgoing_ready core s"
  "left_queues cur (s\<lparr>sched_lock := b\<rparr>) qs = left_queues cur s qs"
  "outgoing_reaped cur (s\<lparr>sched_lock := b\<rparr>) = outgoing_reaped cur s"
  by (auto simp: selectable_def outgoing_ready_def left_queues_def outgoing_reaped_def fun_eq_iff
      split: option.split)

lemma maybe_trace:
  "\<exists>R n. (if b then trace_record core ty st tid nm tt tn s else s) = s\<lparr>trace_ring := R, trace_seq := n\<rparr>"
proof (cases b)
  case True
  obtain R q where r: "trace_record core ty st tid nm tt tn s = s\<lparr>trace_ring := R, trace_seq := q\<rparr>"
    by (rule trace_record_frame)
  show ?thesis unfolding if_P [OF True] r by (intro exI) (rule refl)
next
  case False
  then show ?thesis by (intro exI [of _ "trace_ring s"] exI [of _ "trace_seq s"]) simp
qed

lemma sched_next_thread_steps:
  fixes s :: "'a kstate_scheme"
  assumes inv: "sched_inv s qs" and core: "core < 2" and canary: "canary_intact (current_tcb s core) s"
  defines "Q \<equiv> selection core s qs" and "z \<equiv> outgoing_reaped (current_tcb s core) s"
  obtains s5 where
    "fst Q = None \<Longrightarrow> sched_next_thread core s = Some (current_tcb s core, sched_release s5)"
    "\<And>t. fst Q = Some t \<Longrightarrow> \<exists>R n. sched_next_thread core s = Some (Some t, switched_in core t R n s5)"
    "tasks_wf s5" "rq_abs s5 (snd Q)" "queue_at s5 ((current_tcb s)(core := None)) (snd Q)"
    "current_tcb s5 = current_tcb s"
    "\<And>u. tcb_used s5 u \<longleftrightarrow> tcb_used s u \<and> \<not> (z \<and> current_tcb s core = Some u)"
    "\<And>u. \<not> (z \<and> current_tcb s core = Some u) \<Longrightarrow> tcb_pool s5 u =
       (tcb_pool (switch_out (current_tcb s core) s) u)\<lparr>t_next := next_of s5 u\<rparr>"
    "eligible core s5 = selectable core s"
proof -
  let ?s1 = "s\<lparr>sched_lock := True\<rparr>"
  define cur where "cur = current_tcb s core"
  have z: "z = outgoing_reaped cur ?s1" by (simp add: z_def cur_def)
  have sw: "switch_out cur ?s1 = (switch_out cur s)\<lparr>sched_lock := True\<rparr>"
    by (simp add: switch_out_def upd_tcb_def split: option.split)
  have l1: "locked_inv ?s1 qs" by (rule sched_inv_locked [OF inv])
  have c1: "current_tcb ?s1 core = cur" by (simp add: cur_def)
  obtain s4 where raw:
    "reap (fst (take_kill cur ?s1)) cur (requeue_running cur (snd (take_kill cur ?s1))) =
       Some (outgoing_reaped cur ?s1, s4)"
    "tasks_wf s4" "rq_abs s4 (left_queues cur ?s1 qs)"
    "queue_at s4 ((current_tcb ?s1)(core := None)) (left_queues cur ?s1 qs)"
    "current_tcb s4 = current_tcb ?s1" "sched_lock s4 = sched_lock ?s1"
    "trace_on s4 = trace_on ?s1" "slice_remaining s4 = slice_remaining ?s1"
    "\<And>u. tcb_used s4 u \<longleftrightarrow> tcb_used ?s1 u \<and> \<not> (outgoing_reaped cur ?s1 \<and> cur = Some u)"
    "\<And>u. \<not> (outgoing_reaped cur ?s1 \<and> cur = Some u) \<Longrightarrow>
       tcb_pool s4 u = (tcb_pool (switch_out cur ?s1) u)\<lparr>t_next := next_of s4 u\<rparr>"
    "\<And>u. outgoing_reaped cur ?s1 \<Longrightarrow> cur = Some u \<Longrightarrow> tcb_pool s4 u = tcb_zero"
    by (rule outgoing_spec [OF l1 core c1], rule that; (assumption | blast))
  have s4: "reap (fst (take_kill cur ?s1)) cur (requeue_running cur (snd (take_kill cur ?s1))) = Some (z, s4)"
    "tasks_wf s4" "rq_abs s4 (left_queues cur s qs)" "queue_at s4 ((current_tcb s)(core := None)) (left_queues cur s qs)"
    "current_tcb s4 = current_tcb s" "slice_remaining s4 = slice_remaining s"
    using raw(1-5,8) by (simp_all add: z)
  have s4_used: "tcb_used s4 u \<longleftrightarrow> tcb_used s u \<and> \<not> (z \<and> cur = Some u)" for u using raw(9) by (simp add: z)
  have s4_pool: "tcb_pool s4 u = (tcb_pool (switch_out cur s) u)\<lparr>t_next := next_of s4 u\<rparr>"
    if "\<not> (z \<and> cur = Some u)" for u using raw(10) [of u] that unfolding sw z by simp
  have s4_zero: "tcb_pool s4 u = tcb_zero" if "z" "cur = Some u" for u using raw(11) that unfolding z by simp
  let ?cur = "if z then None else cur"
  have elig: "eligible core s4 u = selectable core s u" for u
  proof (cases "z \<and> cur = Some u")
    case True
    then have "left_state (tcb_pool s u) = THREAD_ZOMBIE"
      by (auto simp: z_def outgoing_reaped_def cur_def reaped_here_def)
    then show ?thesis using True s4_zero by (simp add: eligible_def selectable_def cur_def tcb_zero_def)
  next
    case False
    show ?thesis
      by (auto simp: eligible_def selectable_def s4(5) s4_pool [OF False] frame_simps cur_def)
  qed
  have front: "at_front z ?cur s4 = outgoing_ready core s"
  proof (rule ext)
    fix u show "at_front z ?cur s4 u = outgoing_ready core s u"
    proof (cases "z \<and> cur = Some u")
      case True
      then have "left_state (tcb_pool s u) = THREAD_ZOMBIE"
        by (auto simp: z_def outgoing_reaped_def cur_def reaped_here_def)
      then show ?thesis using True by (simp add: at_front_def outgoing_ready_def)
    next
      case False
      have "z \<Longrightarrow> current_tcb s core \<noteq> Some u \<or> left_state (tcb_pool s u) \<noteq> THREAD_READY"
        using False by (simp add: cur_def)
      then show ?thesis
        by (auto simp: at_front_def outgoing_ready_def s4_pool [OF False] frame_simps cur_def)
    qed
  qed
  have "set [0..<8] \<subseteq> {..<(8::nat)}" by auto
  from select_loop_spec [OF s4(3) this, of core z ?cur] elig front
  obtain s5 where s5: "select_loop [0..<8] core z ?cur s4 = Some (fst Q, s5)" "rq_abs s5 (snd Q)" "relinked UNIV s4 s5"
    unfolding Q_def selection_def NUM_PRIORITIES_def cur_def [symmetric] by (auto simp: elig [abs_def])
  note r = relinked_fields [OF s5(3)] relinked_tcb [OF s5(3)]
  have acq: "sched_acquire s = Some ?s1" by (rule sched_acquire_free [OF sched_invD(3) [OF inv]])
  have can: "canary_intact cur ?s1" using canary by (simp add: canary_intact_def cur_def split: option.splits)
  obtain kd s2 where kd: "take_kill cur ?s1 = (kd, s2)" by (cases "take_kill cur ?s1")
  obtain tid st nm where out: "(case cur of Some c \<Rightarrow> if trace_on s2 then
                (t_tid (tcb_pool s2 c), state_code (t_state (tcb_pool s2 c)),
                 strncpy_z TRACE_NAME_LEN (t_name (tcb_pool s2 c)))
              else (0, 0, '''')
          | None \<Rightarrow> (0, 0, '''')) = (tid, st, nm)" by (rule prod_cases3)
  have re: "reap kd cur (requeue_running cur s2) = Some (z, s4)" using s4(1) kd by simp
  have loop: "select_loop [0..<NUM_PRIORITIES] core z ?cur s4 = Some (fst Q, s5)"
    unfolding NUM_PRIORITIES_def by (rule s5(1))
  note run = sched_next_thread_def cur_def [symmetric] acq can kd out re loop
  have none: "sched_next_thread core s = Some (current_tcb s core, sched_release s5)" if "fst Q = None"
    using that r(4) s4(5) by (simp add: run Let_def frame_simps del: NUM_PRIORITIES_def select_loop.simps)
  have some: "\<exists>R n. sched_next_thread core s = Some (Some t, switched_in core t R n s5)" if "fst Q = Some t" for t
  proof -
    let ?s6 = "(set_state t THREAD_RUNNING s5)\<lparr>slice_remaining := (slice_remaining s5)(core := TIME_SLICE_MS),
                 current_tcb := (current_tcb s5)(core := Some t)\<rparr>"
    let ?s7 = "if trace_on ?s6 \<and> Some t \<noteq> cur then
                 trace_record core TRACE_SWITCH st tid (Some nm) (t_tid (tcb_pool ?s6 t)) (Some (t_name (tcb_pool ?s6 t))) ?s6
               else ?s6"
    have "sched_next_thread core s = Some (Some t, sched_release ?s7)"
      using that by (simp add: run Let_def del: NUM_PRIORITIES_def select_loop.simps)
    moreover obtain R n where "?s7 = ?s6\<lparr>trace_ring := R, trace_seq := n\<rparr>"
      using maybe_trace [of "trace_on ?s6 \<and> Some t \<noteq> cur" core TRACE_SWITCH st tid "Some nm"
        "t_tid (tcb_pool ?s6 t)" "Some (t_name (tcb_pool ?s6 t))" ?s6] by (elim exE) (rule that)
    ultimately show ?thesis unfolding switched_in_def by (intro exI [of _ R] exI [of _ n]) simp
  qed
  show ?thesis
  proof (rule that [OF none some])
    show "tcb_pool s5 u = (tcb_pool (switch_out (current_tcb s core) s) u)\<lparr>t_next := next_of s5 u\<rparr>"
      if "\<not> (z \<and> current_tcb s core = Some u)" for u
      using relinked_pool_next [OF s5(3), of u] s4_pool [of u] that by (simp add: cur_def)
    show "queue_at s5 ((current_tcb s)(core := None)) (snd Q)"
    proof -
      have sets: "set (snd Q p) = set (left_queues cur s qs p)" for p
        unfolding Q_def selection_def cur_def by (rule spec_select_sets)
      have "queue_at s4 ((current_tcb s)(core := None)) (snd Q)"
        using s4(4) by (simp add: queue_at_def queue_inv_def sets)
      then show ?thesis using queue_at_relinked [OF s5(3)] by simp
    qed
  qed (use s4 s4_used s5 r elig tasks_wf_relinked [OF s5(3)] eligible_relinked [OF s5(3)] in \<open>auto simp: cur_def\<close>)
qed

lemma switched_in_fields [frame_simps]:
  "tcb_used (switched_in core t R n s) = tcb_used s" "pcb_pool (switched_in core t R n s) = pcb_pool s"
  "pcb_used (switched_in core t R n s) = pcb_used s" "ready_queues (switched_in core t R n s) = ready_queues s"
  "current_tcb (switched_in core t R n s) = (current_tcb s)(core := Some t)"
  "sched_lock (switched_in core t R n s) = False" "heap_blocks (switched_in core t R n s) = heap_blocks s"
  "heap_head (switched_in core t R n s) = heap_head s" "heap_lock (switched_in core t R n s) = heap_lock s"
  "slice_remaining (switched_in core t R n s) = (slice_remaining s)(core := TIME_SLICE_MS)"
  "tcb_pool (switched_in core t R n s) = tcb_pool (set_state t THREAD_RUNNING s)"
  "next_of (switched_in core t R n s) = next_of s"
  by (simp_all add: switched_in_def sched_release_def next_of_def fun_eq_iff set_state_def frame_simps
      del: fun_upd_apply) auto

lemma switched_in_inv:
  assumes s: "tasks_wf s" "rq_abs s qs" "queue_at s (C(core := None)) qs" "current_tcb s = C"
    and core: "core < 2" and t: "t < 16" "tcb_used s t" "t_state (tcb_pool s t) = THREAD_READY" "C (1 - core) \<noteq> Some t"
  shows "sched_inv (switched_in core t R n s) qs"
proof -
  let ?s = "switched_in core t R n s"
  have "tasks_wf ?s" using s(1) tasks_wf_cong [of ?s s] by (simp add: frame_simps)
  moreover have "rq_abs ?s qs" using s(2) rq_abs_cong [of ?s s qs] by (simp add: frame_simps)
  moreover have "(C(core := None)) (1 - core) \<noteq> Some t" using t(4) core by auto
  with queue_inv_select [OF s(3) [unfolded queue_at_def] core _ t(1-3)]
  have *: "queue_inv (tcb_used s) ((\<lambda>x. t_state (tcb_pool s x))(t := THREAD_RUNNING)) (\<lambda>x. prio_of (tcb_pool s x))
      (\<lambda>x. t_kill_pending (tcb_pool s x)) (C(core := Some t)) qs" by simp
  have "(\<lambda>x. t_state (tcb_pool ?s x)) = (\<lambda>x. t_state (tcb_pool s x))(t := THREAD_RUNNING)"
    and "(\<lambda>x. prio_of (tcb_pool ?s x)) = (\<lambda>x. prio_of (tcb_pool s x))"
    and "(\<lambda>x. t_kill_pending (tcb_pool ?s x)) = (\<lambda>x. t_kill_pending (tcb_pool s x))"
    by (auto simp: fun_eq_iff frame_simps)
  with * have "queue_ok ?s qs" by (simp only: queue_ok_def frame_simps s(4))
  ultimately show ?thesis by (simp add: sched_inv_def frame_simps)
qed

lemma selectable_queued:
  assumes q: "queue_at s5 C Q" and u: "u < 16" "tcb_used s5 u" "t_state (tcb_pool s5 u) = THREAD_READY"
  shows "u \<in> set (Q (prio_of (tcb_pool s5 u)))"
  using queue_invD(2) [OF q [unfolded queue_at_def] u(1,2)] u(3) by (simp add: thread_inv_def)

lemma sched_next_thread_selects:
  fixes s :: "'a kstate_scheme"
  assumes inv: "sched_inv s qs" and core: "core < 2" and canary: "canary_intact (current_tcb s core) s"
    and sel: "fst (selection core s qs) = Some t"
  obtains s' where "sched_next_thread core s = Some (Some t, s')" "sched_inv s' (snd (selection core s qs))"
    "t < 16" "tcb_used s t" "selectable core s t" "t \<in> set (left_queues (current_tcb s core) s qs (prio_of (tcb_pool s t)))"
    "\<And>u. u < 16 \<Longrightarrow> tcb_used s u \<Longrightarrow> selectable core s u \<Longrightarrow> prio_of (tcb_pool s t) \<le> prio_of (tcb_pool s u)"
    "t_state (tcb_pool s' t) = THREAD_RUNNING" "current_tcb s' = (current_tcb s)(core := Some t)"
    "slice_remaining s' core = TIME_SLICE_MS"
    "\<And>u. tcb_used s' u \<longleftrightarrow> tcb_used s u \<and> \<not> (outgoing_reaped (current_tcb s core) s \<and> current_tcb s core = Some u)"
    "\<And>u. u \<noteq> t \<Longrightarrow> tcb_used s' u \<Longrightarrow> t_state (tcb_pool s' u) =
       (if current_tcb s core = Some u then left_state (tcb_pool s u) else t_state (tcb_pool s u))"
    "\<And>u. tcb_used s' u \<Longrightarrow> keeps_id (tcb_pool s u) (tcb_pool s' u)"
proof -
  let ?Q = "selection core s qs" and ?z = "outgoing_reaped (current_tcb s core) s"
  let ?L = "left_queues (current_tcb s core) s qs"
  obtain s5 where s5:
    "fst ?Q = None \<Longrightarrow> sched_next_thread core s = Some (current_tcb s core, sched_release s5)"
    "\<And>t. fst ?Q = Some t \<Longrightarrow> \<exists>R n. sched_next_thread core s = Some (Some t, switched_in core t R n s5)"
    "tasks_wf s5" "rq_abs s5 (snd ?Q)" "queue_at s5 ((current_tcb s)(core := None)) (snd ?Q)"
    "current_tcb s5 = current_tcb s"
    "\<And>u. tcb_used s5 u \<longleftrightarrow> tcb_used s u \<and> \<not> (?z \<and> current_tcb s core = Some u)"
    "\<And>u. \<not> (?z \<and> current_tcb s core = Some u) \<Longrightarrow> tcb_pool s5 u =
       (tcb_pool (switch_out (current_tcb s core) s) u)\<lparr>t_next := next_of s5 u\<rparr>"
    "eligible core s5 = selectable core s"
    by (rule sched_next_thread_steps [OF inv core canary], rule that; (assumption | blast))
  obtain R n where run: "sched_next_thread core s = Some (Some t, switched_in core t R n s5)" using s5(2) sel by blast
  have sets: "set (snd ?Q p) = set (?L p)" for p unfolding selection_def by (rule spec_select_sets)
  from spec_select_Some [OF sel [unfolded selection_def]] obtain us p vs where
    sp: "[0..<8] = us @ p # vs" "find (selectable core s) (rotated (outgoing_ready core s) (?L p)) = Some t"
      "\<forall>q \<in> set us. \<forall>x \<in> set (?L q). \<not> selectable core s x" by auto
  have p: "p < 8" "set us = {..<p}" using upt_split_less [OF sp(1)] by simp_all
  from sp(2) have "t \<in> set (rotated (outgoing_ready core s) (?L p)) \<and> selectable core s t"
    by (auto dest: find_SomeD)
  then have t: "t \<in> set (?L p)" "selectable core s t" by simp_all
  from queue_invD(1) [OF s5(5) [unfolded queue_at_def] p(1), of t] sets t(1)
  have used5: "t < 16" "tcb_used s5 t" by simp_all
  have same: "u < 16 \<Longrightarrow> tcb_used s5 u \<Longrightarrow> prio_of (tcb_pool s5 u) = prio_of (tcb_pool s u) \<and> t_state (tcb_pool s5 u) =
       (if current_tcb s core = Some u then left_state (tcb_pool s u) else t_state (tcb_pool s u))" for u
    using s5(7,8) [of u] by (auto simp: frame_simps)
  have prio: "prio_of (tcb_pool s t) = p"
    using rq_abs_other [OF s5(4) p(1)] t(1) sets same [OF used5] by simp
  have alive: "tcb_used s5 u" if "tcb_used s u" "selectable core s u" for u
    using that s5(7) [of u] by (auto simp: selectable_def outgoing_reaped_def reaped_here_def)
  have high: "p \<le> prio_of (tcb_pool s u)" if u: "u < 16" "tcb_used s u" "selectable core s u" for u
  proof (rule ccontr)
    assume "\<not> ?thesis"
    then have "prio_of (tcb_pool s u) \<in> set us" using p by simp
    moreover have "t_state (tcb_pool s5 u) = THREAD_READY" using same [OF u(1) alive] u by (simp add: selectable_def)
    then have "u \<in> set (?L (prio_of (tcb_pool s u)))"
      using selectable_queued [OF s5(5) u(1) alive] same [OF u(1) alive] u sets by simp
    ultimately show False using sp(3) u(3) by blast
  qed
  have "t_state (tcb_pool s5 t) = THREAD_READY" "current_tcb s (1 - core) \<noteq> Some t"
    using same [OF used5] t(2) by (simp_all add: selectable_def)
  then have "sched_inv (switched_in core t R n s5) (snd ?Q)"
    using switched_in_inv [OF s5(3,4,5,6) core used5] by simp
  moreover have "t_state (tcb_pool (switched_in core t R n s5) u) =
      (if current_tcb s core = Some u then left_state (tcb_pool s u) else t_state (tcb_pool s u))"
    if "u \<noteq> t" "tcb_used s5 u" for u
    using that s5(7,8) [of u] by (auto simp: frame_simps)
  moreover have "keeps_id (tcb_pool s u) (tcb_pool (switched_in core t R n s5) u)" if "tcb_used s5 u" for u
    using that s5(7,8) [of u] by (auto simp: frame_simps keeps_id_def)
  ultimately show ?thesis using run used5 s5(6,7) t prio high
    by (intro that [of "switched_in core t R n s5"]) (simp_all add: frame_simps)
qed

text \<open>With a thread it may run, the core always finds one.\<close>

lemma selection_exists:
  assumes inv: "sched_inv s qs" and u: "u < 16" "tcb_used s u" "selectable core s u"
  shows "fst (selection core s qs) \<noteq> None"
proof
  let ?L = "left_queues (current_tcb s core) s qs"
  assume "fst (selection core s qs) = None"
  from spec_select_None [OF this [unfolded selection_def]]
  have none: "\<forall>p < 8. \<forall>x \<in> set (?L p). \<not> selectable core s x" by simp
  have "t_state (tcb_pool s u) = THREAD_READY \<or> t_state (tcb_pool s u) = THREAD_RUNNING"
    using u(3) by (auto simp: selectable_def left_state_def split: if_splits)
  then have "u \<in> set (qs (prio_of (tcb_pool s u)))"
    using queue_invD(2) [OF sched_invD(4) [OF inv, unfolded queue_ok_def] u(1,2)] by (auto simp: thread_inv_def)
  moreover have "current_tcb s core = Some u \<Longrightarrow> \<not> reaped_here (tcb_pool s u)"
    using u(3) by (simp add: selectable_def reaped_here_def)
  ultimately have "u \<in> set (?L (prio_of (tcb_pool s u)))"
    by (auto simp: left_queues_def split: option.split) (metis in_set_remove1)
  then show False using none u(3) prio_of_less by blast
qed

subsection \<open>Creation\<close>

lemma queue_inv_new:
  assumes inv: "queue_inv U S P K C Q" and t: "t < 16" "\<not> U t" "S' t = THREAD_READY" "\<not> K' t"
    and other: "\<And>u. u \<noteq> t \<Longrightarrow> S' u = S u" "\<And>u. u \<noteq> t \<Longrightarrow> P' u = P u" "\<And>u. u \<noteq> t \<Longrightarrow> K' u = K u"
  shows "queue_inv (U(t := True)) S' P' K' C (Q(P' t := Q (P' t) @ [t]))"
proof (rule queue_invI)
  fix p x assume "p < 8" "x \<in> set ((Q(P' t := Q (P' t) @ [t])) p)"
  then show "x < 16 \<and> (U(t := True)) x" using queue_invD(1) [OF inv, of p x] t by (auto split: if_splits)
next
  fix u assume u: "u < 16" "(U(t := True)) u"
  show "thread_inv (S' u) (u \<in> set ((Q(P' t := Q (P' t) @ [t])) (P' u))) (K' u) (is_current C u)"
  proof (cases "u = t")
    case True
    then show ?thesis using t by (simp add: thread_inv_def)
  next
    case False
    then have "u \<in> set ((Q(P' t := Q (P' t) @ [t])) (P' u)) \<longleftrightarrow> u \<in> set (Q (P u))" using other(2) by auto
    then show ?thesis using queue_invD(2) [OF inv, of u] u False other by simp
  qed
qed (use queue_invD [OF inv] in auto)

lemma create_thread_inv:
  fixes s :: "'a kstate_scheme"
  assumes inv: "sched_inv s qs" and ok: "proc_ok proc s" and n: "68 \<le> unat n" "unat n + 7 < 2 ^ 32"
    and slot: "first_slot (\<lambda>i. \<not> tcb_used s i) MAX_THREADS = Some t"
    and alloc: "kmalloc n (s\<lparr>tcb_used := (tcb_used s)(t := True)\<rparr>) = Some (Some base, h)"
  obtains s' where "task_create_thread te proc name entry arg pr n s = Some (Some t, s')"
    "sched_inv s' (qs(prio_of (tcb_pool s' t) := qs (prio_of (tcb_pool s' t)) @ [t]))"
    "tcb_used s' = (tcb_used s)(t := True)" "tcb_pool s' t = new_tcb proc name pr n base s"
    "\<And>u. u \<noteq> t \<Longrightarrow> (tcb_pool s' u)\<lparr>t_next := None\<rparr> = (tcb_pool s u)\<lparr>t_next := None\<rparr>"
    "heap_mem s' = thread_memory te entry arg base n (heap_mem s)"
    "current_tcb s' = current_tcb s" "heap_segs s' = heap_segs h"
    "pcb_used s' = pcb_used s" "pcb_pool s' = link_thread proc t (pcb_pool s)"
proof -
  note i = sched_invD [OF inv]
  have t: "t < 16" "\<not> tcb_used s t" using first_slot_SomeD [OF slot] by auto
  obtain s' where s': "task_create_thread te proc name entry arg pr n s = Some (Some t, s')" "tasks_wf s'"
    "tcb_used s' = (tcb_used s)(t := True)" "\<And>u. u \<noteq> t \<Longrightarrow> (tcb_pool s' u)\<lparr>t_next := None\<rparr> = (tcb_pool s u)\<lparr>t_next := None\<rparr>"
    "tcb_pool s' t = new_tcb proc name pr n base s"
    "rq_abs s' (qs(prio_of (tcb_pool s' t) := qs (prio_of (tcb_pool s' t)) @ [t]))"
    "heap_mem s' = thread_memory te entry arg base n (heap_mem s)" "current_tcb s' = current_tcb s"
    "\<not> sched_lock s'" "heap_segs s' = heap_segs h" "pcb_used s' = pcb_used s" "pcb_pool s' = link_thread proc t (pcb_pool s)"
    by (rule create_thread_made [OF i(1,2) sched_inv_queued_used [OF inv] i(3) ok n slot alloc,
          of te name entry arg pr], rule that; (assumption | blast))
  have same: "t_state (tcb_pool s' u) = t_state (tcb_pool s u)" "prio_of (tcb_pool s' u) = prio_of (tcb_pool s u)"
      "t_kill_pending (tcb_pool s' u) = t_kill_pending (tcb_pool s u)" if "u \<noteq> t" for u
  proof -
    from s'(4) [OF that] have e: "tcb_pool s' u = (tcb_pool s u)\<lparr>t_next := t_next (tcb_pool s' u)\<rparr>"
      by (cases "tcb_pool s' u"; cases "tcb_pool s u") simp
    show "t_state (tcb_pool s' u) = t_state (tcb_pool s u)" by (subst e) simp
    show "prio_of (tcb_pool s' u) = prio_of (tcb_pool s u)" by (subst e) simp
    show "t_kill_pending (tcb_pool s' u) = t_kill_pending (tcb_pool s u)" by (subst e) simp
  qed
  have "queue_ok s' (qs(prio_of (tcb_pool s' t) := qs (prio_of (tcb_pool s' t)) @ [t]))"
    unfolding queue_ok_def s'(3,8)
    by (rule queue_inv_new [OF i(4) [unfolded queue_ok_def] t]) (simp_all add: same s'(5) new_tcb_def)
  with s' that show ?thesis by (simp add: sched_inv_def)
qed

text \<open>The kernel after boot, and with two threads of the lowest priority.\<close>

lemma boot_sched_inv [simp]: "sched_inv kernel_boot (\<lambda>_. [])"
  by (simp add: sched_inv_def queue_ok_def queue_inv_def)

lemma boot_two_threads:
  obtains s :: kstate where "sched_inv s ((\<lambda>_. [])(7 := [0, 1]))" "tcb_used s = (\<lambda>t. t = 0 \<or> t = 1)"
    "\<And>t. t < 2 \<Longrightarrow> t_state (tcb_pool s t) = THREAD_READY \<and> t_affinity (tcb_pool s t) = THREAD_AFFINITY_ANY \<and>
       \<not> t_kill_pending (tcb_pool s t) \<and> prio_of (tcb_pool s t) = 7 \<and> t_pid (tcb_pool s t) = 0"
    "current_tcb s = (\<lambda>_. None)" "canary_intact (Some 0) s" "pcb_used s = (\<lambda>_. False)"
proof -
  let ?l1 = "[(0, 2048, False), (2064, 63456, True)]"
  have n: "68 \<le> unat (2048 :: u32)" "unat (2048 :: u32) + 7 < 2 ^ 32" by simp_all
  have ok: "proc_ok None s" for s :: kstate by (simp add: proc_ok_def)
  let ?k = "kernel_boot\<lparr>tcb_used := (tcb_used kernel_boot)(0 := True)\<rparr>"
  have "heap_abs ?k [(0, 65520, True)]" using heap_cong [of ?k kernel_boot] by (simp add: heap_abs_iff)
  from kmalloc_some [OF this, of 2048] obtain B where
    B: "kmalloc 2048 ?k = Some (Some 16, ?k\<lparr>heap_blocks := B\<rparr>)" "heap_abs (?k\<lparr>heap_blocks := B\<rparr>) ?l1"
    by (auto simp: ALIGN8_def)
  have slot: "first_slot (\<lambda>i. \<not> tcb_used kernel_boot i) MAX_THREADS = Some 0" by (simp add: first_slot_Some_iff)
  obtain s :: kstate where s: "sched_inv s ((\<lambda>_. [])(prio_of (tcb_pool s 0) := [] @ [0]))"
    "tcb_used s = (tcb_used kernel_boot)(0 := True)"
    "tcb_pool s 0 = new_tcb None (Some ''idle'') 7 2048 16 kernel_boot"
    "current_tcb s = current_tcb kernel_boot" "heap_segs s = heap_segs (?k\<lparr>heap_blocks := B\<rparr>)"
    "heap_mem s = thread_memory 99 0 0 16 2048 (heap_mem kernel_boot)" "pcb_used s = pcb_used kernel_boot"
    by (rule create_thread_inv [OF boot_sched_inv ok n slot B(1), of 99 "Some ''idle''" 0 0 7],
        rule that; (assumption | blast))
  have pr: "prio_of (tcb_pool s 0) = 7" unfolding s(3) by (simp add: new_tcb_def prio_of_def)
  have inv: "sched_inv s ((\<lambda>_. [])(7 := [0]))" using s(1) unfolding pr by simp
  let ?k = "s\<lparr>tcb_used := (tcb_used s)(1 := True)\<rparr>"
  have "heap_abs ?k ?l1" using heap_cong [of ?k s] s(5) B(2) sched_invD(1) [OF inv]
    by (auto simp: heap_abs_iff tasks_wf_def stacks_wf_def)
  from kmalloc_some [OF this, of 2048] obtain B' where
    B': "kmalloc 2048 ?k = Some (Some 2080, ?k\<lparr>heap_blocks := B'\<rparr>)" by (auto simp: ALIGN8_def)
  have slot: "first_slot (\<lambda>i. \<not> tcb_used s i) MAX_THREADS = Some 1" by (simp add: first_slot_Some_iff s(2))
  obtain r :: kstate where r: "sched_inv r (((\<lambda>_. [])(7 := [0]))(prio_of (tcb_pool r 1) := ((\<lambda>_. [])(7 := [0])) (prio_of (tcb_pool r 1)) @ [1]))"
    "tcb_used r = (tcb_used s)(1 := True)" "tcb_pool r 1 = new_tcb None (Some ''app'') 7 2048 2080 s"
    "\<And>u. u \<noteq> 1 \<Longrightarrow> (tcb_pool r u)\<lparr>t_next := None\<rparr> = (tcb_pool s u)\<lparr>t_next := None\<rparr>"
    "current_tcb r = current_tcb s" "heap_mem r = thread_memory 99 0 0 2080 2048 (heap_mem s)" "pcb_used r = pcb_used s"
    by (rule create_thread_inv [OF inv ok n slot B'(1), of 99 "Some ''app''" 0 0 7],
        rule that; (assumption | blast))
  have pr1: "prio_of (tcb_pool r 1) = 7" unfolding r(3) by (simp add: new_tcb_def prio_of_def)
  have "(tcb_pool r 0)\<lparr>t_next := None\<rparr> = (tcb_pool s 0)\<lparr>t_next := None\<rparr>" using r(4) by simp
  then have e: "tcb_pool r 0 = (tcb_pool s 0)\<lparr>t_next := t_next (tcb_pool r 0)\<rparr>"
    by (cases "tcb_pool r 0"; cases "tcb_pool s 0") simp
  have one: "t_state (tcb_pool r t) = THREAD_READY \<and> t_affinity (tcb_pool r t) = THREAD_AFFINITY_ANY \<and>
       \<not> t_kill_pending (tcb_pool r t) \<and> prio_of (tcb_pool r t) = 7 \<and> t_pid (tcb_pool r t) = 0"
    if "t < 2" for t
  proof -
    from that have "t = 0 \<or> t = 1" by auto
    then consider "t = 0" | "t = 1" by blast
    then show ?thesis
    proof cases
      case 1
      show ?thesis unfolding 1 by (subst (1 2 3 4 5) e) (simp add: s(3) new_tcb_def prio_of_def)
    next
      case 2
      show ?thesis unfolding 2 r(3) by (simp add: new_tcb_def prio_of_def)
    qed
  qed
  have "t_stack_base (tcb_pool r 0) = Some 16" by (subst e) (simp add: s(3) new_tcb_def)
  moreover have "heap_mem r 16 = STACK_CANARY"
    using thread_memory_frame [OF n(1)] by (simp add: r(6) s(6))
  ultimately have "canary_intact (Some 0) r" by (simp add: canary_intact_def)
  then show ?thesis
    by (intro that [of r]) (use r(1,2,5,7) pr1 s(2,4,7) one in \<open>auto simp: fun_eq_iff\<close>)
qed

text \<open>The same with thread 0 running on core 0.\<close>

lemma boot_running:
  obtains s :: kstate where "sched_inv s ((\<lambda>_. [])(7 := [0, 1]))" "tcb_used s = (\<lambda>t. t = 0 \<or> t = 1)"
    "\<And>t. t < 2 \<Longrightarrow> t_state (tcb_pool s t) = (if t = 0 then THREAD_RUNNING else THREAD_READY) \<and>
       t_affinity (tcb_pool s t) = THREAD_AFFINITY_ANY \<and>
       \<not> t_kill_pending (tcb_pool s t) \<and> prio_of (tcb_pool s t) = 7 \<and> t_pid (tcb_pool s t) = 0"
    "current_tcb s = (\<lambda>_. None)(0 := Some 0)" "canary_intact (Some 0) s" "pcb_used s = (\<lambda>_. False)"
proof -
  obtain s :: kstate where s: "sched_inv s ((\<lambda>_. [])(7 := [0, 1]))" "tcb_used s = (\<lambda>t. t = 0 \<or> t = 1)"
    "\<And>t. t < 2 \<Longrightarrow> t_state (tcb_pool s t) = THREAD_READY \<and> t_affinity (tcb_pool s t) = THREAD_AFFINITY_ANY \<and>
       \<not> t_kill_pending (tcb_pool s t) \<and> prio_of (tcb_pool s t) = 7 \<and> t_pid (tcb_pool s t) = 0"
    "current_tcb s = (\<lambda>_. None)" "canary_intact (Some 0) s" "pcb_used s = (\<lambda>_. False)"
    by (rule boot_two_threads, rule that; (assumption | blast))
  let ?s = "switched_in 0 0 (trace_ring s) (trace_seq s) s"
  note i = sched_invD [OF s(1)]
  have n: "(\<lambda>_. None)(0 := None) = (\<lambda>_ :: nat. None :: nat option)" by auto
  have "queue_at s ((\<lambda>_. None)(0 := None)) ((\<lambda>_. [])(7 := [0, 1]))"
    using i(4) unfolding queue_ok_at s(4) n .
  then have "sched_inv ?s ((\<lambda>_. [])(7 := [0, 1]))"
    using switched_in_inv [OF i(1,2) _ s(4), of 0 0] s(2) s(3) [of 0] by simp
  moreover have "current_tcb ?s = (\<lambda>_. None)(0 := Some 0)" by (simp only: switched_in_fields s(4))
  moreover have "tcb_used ?s = (\<lambda>t. t = 0 \<or> t = 1)" by (simp only: switched_in_fields s(2))
  moreover have "canary_intact (Some 0) ?s"
    using s(5) by (simp add: canary_intact_def switched_in_def sched_release_def set_state_def upd_tcb_def
        split: option.splits)
  moreover have "pcb_used ?s = (\<lambda>_. False)" by (simp only: switched_in_fields s(6))
  ultimately show ?thesis using s(3) by (intro that [of ?s]) (auto simp: frame_simps)
qed

section \<open>Properties\<close>

text \<open>
  C1. \<open>sched_next_thread\<close> on a core that has a thread it may run (READY once the outgoing thread
  has been requeued, not current on the other core, of matching affinity) always returns one; it
  is of the highest priority among all such threads, is RUNNING, becomes current on this core
  only, with a full slice; the outgoing thread is freed exactly when it is a zombie that no
  waiter list still holds, no other slot is touched, and the scheduler invariant is kept.
\<close>

theorem sched_next_thread_highest:
  assumes "sched_inv s qs" and "core < 2" and "canary_intact (current_tcb s core) s"
    and "v < MAX_THREADS" and "tcb_used s v" and "selectable core s v"
  shows "\<exists>t s' qs'. sched_next_thread core s = Some (Some t, s') \<and> sched_inv s' qs' \<and>
    t < MAX_THREADS \<and> tcb_used s t \<and> selectable core s t \<and>
    (\<forall>u < MAX_THREADS. tcb_used s u \<and> selectable core s u \<longrightarrow> prio_of (tcb_pool s t) \<le> prio_of (tcb_pool s u)) \<and>
    t_state (tcb_pool s' t) = THREAD_RUNNING \<and> current_tcb s' = (current_tcb s)(core := Some t) \<and>
    current_tcb s' (1 - core) \<noteq> Some t \<and> slice_remaining s' core = TIME_SLICE_MS \<and>
    (\<forall>u. tcb_used s' u \<longleftrightarrow>
       tcb_used s u \<and> \<not> (current_tcb s core = Some u \<and> reaped_here (tcb_pool s u)))"
proof -
  have v: "v < 16" using assms(4) by simp
  from selection_exists [OF assms(1) v assms(5,6)] obtain t where sel: "fst (selection core s qs) = Some t" by auto
  obtain s' where s': "sched_next_thread core s = Some (Some t, s')" "sched_inv s' (snd (selection core s qs))"
    "t < 16" "tcb_used s t" "selectable core s t"
    "\<And>u. u < 16 \<Longrightarrow> tcb_used s u \<Longrightarrow> selectable core s u \<Longrightarrow> prio_of (tcb_pool s t) \<le> prio_of (tcb_pool s u)"
    "t_state (tcb_pool s' t) = THREAD_RUNNING" "current_tcb s' = (current_tcb s)(core := Some t)"
    "slice_remaining s' core = TIME_SLICE_MS"
    "\<And>u. tcb_used s' u \<longleftrightarrow> tcb_used s u \<and> \<not> (outgoing_reaped (current_tcb s core) s \<and> current_tcb s core = Some u)"
    by (rule sched_next_thread_selects [OF assms(1-3) sel], rule that; (assumption | blast))
  have "1 - core \<noteq> core" using assms(2) by arith
  then have ne: "current_tcb s' (1 - core) \<noteq> Some t" using s'(5,8) by (simp add: selectable_def)
  have hi: "\<forall>u < 16. tcb_used s u \<and> selectable core s u \<longrightarrow> prio_of (tcb_pool s t) \<le> prio_of (tcb_pool s u)"
    using s'(6) by blast
  have "outgoing_reaped (current_tcb s core) s \<and> current_tcb s core = Some u \<longleftrightarrow>
      current_tcb s core = Some u \<and> reaped_here (tcb_pool s u)" for u
    by (auto simp: outgoing_reaped_def)
  then have used: "\<forall>u. tcb_used s' u \<longleftrightarrow>
       tcb_used s u \<and> \<not> (current_tcb s core = Some u \<and> reaped_here (tcb_pool s u))"
    using s'(10) by (simp only: simp_thms)
  show ?thesis unfolding kernel_consts
    by (rule exI [of _ t], rule exI [of _ s'], rule exI [of _ "snd (selection core s qs)"])
      (intro conjI s'(1-5) hi s'(7,8) ne s'(9) used)
qed

theorem sched_next_thread_highest_witness:
  "\<exists>(s :: kstate) t s'. sched_next_thread 0 s = Some (Some t, s') \<and> t_state (tcb_pool s' t) = THREAD_RUNNING"
proof -
  obtain s :: kstate where s: "sched_inv s ((\<lambda>_. [])(7 := [0, 1]))" "tcb_used s = (\<lambda>t. t = 0 \<or> t = 1)"
    "\<And>t. t < 2 \<Longrightarrow> t_state (tcb_pool s t) = THREAD_READY \<and> t_affinity (tcb_pool s t) = THREAD_AFFINITY_ANY \<and>
       \<not> t_kill_pending (tcb_pool s t) \<and> prio_of (tcb_pool s t) = 7 \<and> t_pid (tcb_pool s t) = 0"
    "current_tcb s = (\<lambda>_. None)" "canary_intact (Some 0) s"
    by (rule boot_two_threads, rule that; (assumption | blast))
  have "selectable 0 s 0" "canary_intact (current_tcb s 0) s"
    using s(3) [of 0] s(4) by (simp_all add: selectable_def canary_intact_def)
  with sched_next_thread_highest [OF s(1), of 0 0] s(2) show ?thesis by auto
qed

text \<open>
  C6. Round robin: when the outgoing thread is still READY, is at the head of its queue and no
  higher queue has a thread for this core, the thread selected is the first eligible one behind
  it, or itself if there is none, and it goes to the tail of the queue.
\<close>

theorem sched_next_thread_round_robin:
  assumes "sched_inv s qs" and "core < 2" and "canary_intact (Some c) s"
    and "current_tcb s core = Some c" and "t_state (tcb_pool s c) = THREAD_RUNNING"
    and "\<not> t_kill_pending (tcb_pool s c)" and "p = prio_of (tcb_pool s c)"
    and "qs p = c # peers" and "peers \<noteq> []"
    and "\<forall>q < p. \<forall>x \<in> set (qs q). \<not> selectable core s x"
    and "find (selectable core s) (peers @ [c]) = Some t"
  shows "\<exists>s' qs'. sched_next_thread core s = Some (Some t, s') \<and> sched_inv s' qs' \<and> qs' p = peers @ [c] \<and>
    t_state (tcb_pool s' t) = THREAD_RUNNING \<and> current_tcb s' core = Some t \<and>
    (c \<noteq> t \<longrightarrow> t_state (tcb_pool s' c) = THREAD_READY)"
proof -
  have can: "canary_intact (current_tcb s core) s" using assms(3,4) by simp
  have left: "left_state (tcb_pool s c) = THREAD_READY" using assms(5,6) by (simp add: left_state_def)
  then have L: "left_queues (current_tcb s core) s qs = qs"
    using assms(4) by (simp add: left_queues_def reaped_here_def)
  have front: "outgoing_ready core s c" using assms(4) left by (simp add: outgoing_ready_def)
  have rot: "rotated (outgoing_ready core s) (qs p) = peers @ [c]"
    using assms(8,9) front by (cases peers) (simp_all add: rotated_def)
  have p: "p < 8" using assms(7) by simp
  have sel: "fst (spec_select (selectable core s) (outgoing_ready core s) (us @ p # vs) Q) = Some t \<and>
      snd (spec_select (selectable core s) (outgoing_ready core s) (us @ p # vs) Q) p = peers @ [c]"
    if "\<forall>q \<in> set us. \<forall>x \<in> set (Q q). \<not> selectable core s x" "p \<notin> set us" "Q p = qs p" for us vs Q
    using that
  proof (induction us arbitrary: Q)
    case Nil
    then have "rotated (outgoing_ready core s) (Q p) = peers @ [c]" using rot by simp
    with assms(11) show ?case using spec_select_hit [of "selectable core s" "outgoing_ready core s" Q p t vs] by simp
  next
    case (Cons q us)
    then have "find (selectable core s) (rotated (outgoing_ready core s) (Q q)) = None"
      by (simp add: find_rotated_None)
    then show ?case using Cons.prems
      by (simp only: append_Cons spec_select_skip) (rule Cons.IH; simp)
  qed
  have split: "[0..<NUM_PRIORITIES] = [0..<p] @ p # [Suc p..<NUM_PRIORITIES]"
    using p upt_add_eq_append [of 0 p "8 - p"] upt_conv_Cons [of p 8] by (simp del: upt_Suc)
  have none: "\<forall>q \<in> set [0..<p]. \<forall>x \<in> set (qs q). \<not> selectable core s x" using assms(10) by simp
  have S: "fst (selection core s qs) = Some t" "snd (selection core s qs) p = peers @ [c]"
    unfolding selection_def split L using sel [OF none] by simp_all
  obtain s' where s': "sched_next_thread core s = Some (Some t, s')" "sched_inv s' (snd (selection core s qs))"
    "t_state (tcb_pool s' t) = THREAD_RUNNING" "current_tcb s' = (current_tcb s)(core := Some t)"
    "\<And>u. tcb_used s' u \<longleftrightarrow> tcb_used s u \<and> \<not> (outgoing_reaped (current_tcb s core) s \<and> current_tcb s core = Some u)"
    "\<And>u. u \<noteq> t \<Longrightarrow> tcb_used s' u \<Longrightarrow> t_state (tcb_pool s' u) =
       (if current_tcb s core = Some u then left_state (tcb_pool s u) else t_state (tcb_pool s u))"
    by (rule sched_next_thread_selects [OF assms(1,2) can S(1)], rule that; (assumption | blast))
  have "tcb_used s c" using queue_invD(3) [OF sched_invD(4) [OF assms(1), unfolded queue_ok_def], of c] assms(2,4)
    by (cases core) (auto simp: is_current_def less_Suc_eq numeral_2_eq_2)
  then have "tcb_used s' c" using s'(5) assms(4) left by (simp add: outgoing_reaped_def reaped_here_def)
  then have "c \<noteq> t \<longrightarrow> t_state (tcb_pool s' c) = THREAD_READY" using s'(6) [of c] assms(4) left by simp
  then show ?thesis using s' S(2) by auto
qed

theorem sched_next_thread_round_robin_witness:
  "\<exists>(s :: kstate) s' qs'. current_tcb s 0 = Some 0 \<and> sched_next_thread 0 s = Some (Some 1, s') \<and> sched_inv s' qs' \<and>
     qs' 7 = [1, 0]"
proof -
  obtain s :: kstate where s: "sched_inv s ((\<lambda>_. [])(7 := [0, 1]))" "tcb_used s = (\<lambda>t. t = 0 \<or> t = 1)"
    "\<And>t. t < 2 \<Longrightarrow> t_state (tcb_pool s t) = (if t = 0 then THREAD_RUNNING else THREAD_READY) \<and>
       t_affinity (tcb_pool s t) = THREAD_AFFINITY_ANY \<and>
       \<not> t_kill_pending (tcb_pool s t) \<and> prio_of (tcb_pool s t) = 7 \<and> t_pid (tcb_pool s t) = 0"
    "current_tcb s = (\<lambda>_. None)(0 := Some 0)" "canary_intact (Some 0) s"
    by (rule boot_running, rule that; (assumption | blast))
  have cur: "current_tcb s 0 = Some 0" "current_tcb s 1 = None" by (simp_all add: s(4))
  have zero: "t_state (tcb_pool s 0) = THREAD_RUNNING" "\<not> t_kill_pending (tcb_pool s 0)" "7 = prio_of (tcb_pool s 0)"
    using s(3) [of 0] by simp_all
  have sel: "selectable 0 s 1" using s(3) [of 1] cur by (simp add: selectable_def)
  have pre: "\<forall>q < (7 :: nat). \<forall>x \<in> set (((\<lambda>_. [])(7 := [0, 1])) q). \<not> selectable 0 s x" by simp
  have "find (selectable 0 s) ([1] @ [0]) = Some 1" using sel by simp
  from sched_next_thread_round_robin [OF s(1) _ s(5) cur(1) zero _ _ pre this]
  show ?thesis using cur(1) by auto
qed

text \<open>
  C5. Killing a thread in use always returns and keeps the scheduler invariant and every other
  thread's state and slot. The caller's own thread becomes a zombie; the other core's current
  thread only gets \<open>kill_pending\<close>; a blocked thread becomes a zombie and stays in the pool for
  its waker to free; any other thread is out of its queue and freed with its stack at once.
\<close>

theorem task_kill_thread_effect:
  assumes "sched_inv s qs" and "t < MAX_THREADS" and "tcb_used s t" and "core < 2"
  shows "\<exists>s' qs'. task_kill_thread core (Some t) s = Some s' \<and> sched_inv s' qs' \<and>
    current_tcb s' = current_tcb s \<and>
    (\<forall>u. u \<noteq> t \<longrightarrow> tcb_used s' u = tcb_used s u \<and> t_state (tcb_pool s' u) = t_state (tcb_pool s u)) \<and>
    (if current_tcb s core = Some t then tcb_used s' t \<and> t_state (tcb_pool s' t) = THREAD_ZOMBIE
     else if current_tcb s (1 - core) = Some t then
       tcb_used s' t \<and> t_kill_pending (tcb_pool s' t) \<and> t_state (tcb_pool s' t) = t_state (tcb_pool s t)
     else if t_state (tcb_pool s t) \<in> {THREAD_BLOCKED, THREAD_ZOMBIE} then
       tcb_used s' t \<and> t_state (tcb_pool s' t) = THREAD_ZOMBIE
     else \<not> tcb_used s' t \<and>
       heap_live s' = {x \<in> heap_live s. Some (fst x) \<noteq> t_stack_base (tcb_pool s t)})"
proof -
  have t: "t < 16" using assms(2) by simp
  let ?p = "prio_of (tcb_pool s t)"
  obtain s' qs' where s': "task_kill_thread core (Some t) s = Some s'" "sched_inv s' qs'"
    "current_tcb s' = current_tcb s"
    "\<And>u. u \<noteq> t \<Longrightarrow> tcb_used s' u = tcb_used s u \<and> t_state (tcb_pool s' u) = t_state (tcb_pool s u)"
    "if current_tcb s core = Some t then tcb_used s' t \<and> t_state (tcb_pool s' t) = THREAD_ZOMBIE
     else if current_tcb s (1 - core) = Some t then
       tcb_used s' t \<and> t_kill_pending (tcb_pool s' t) \<and> t_state (tcb_pool s' t) = t_state (tcb_pool s t)
     else if t_state (tcb_pool s t) = THREAD_BLOCKED \<or> t_state (tcb_pool s t) = THREAD_ZOMBIE then
       tcb_used s' t \<and> t_state (tcb_pool s' t) = THREAD_ZOMBIE
     else \<not> tcb_used s' t \<and> qs' = qs(?p := remove1 t (qs ?p)) \<and>
       heap_live s' = {x \<in> heap_live s. Some (fst x) \<noteq> t_stack_base (tcb_pool s t)}"
    by (rule task_kill_thread_spec [OF assms(1) t assms(3,4)], rule that; (assumption | blast))
  have "\<forall>u. u \<noteq> t \<longrightarrow> tcb_used s' u = tcb_used s u \<and> t_state (tcb_pool s' u) = t_state (tcb_pool s u)"
    using s'(4) by blast
  with s'(1-3,5) show ?thesis
    by (intro exI [of _ s'] exI [of _ qs'] conjI) (simp_all split: if_splits)
qed

theorem task_kill_thread_effect_witness:
  "\<exists>(s :: kstate) s'. tcb_used s 1 \<and> task_kill_thread 0 (Some 1) s = Some s' \<and> \<not> tcb_used s' 1 \<and> tcb_used s' 0"
proof -
  obtain s :: kstate where s: "sched_inv s ((\<lambda>_. [])(7 := [0, 1]))" "tcb_used s = (\<lambda>t. t = 0 \<or> t = 1)"
    "\<And>t. t < 2 \<Longrightarrow> t_state (tcb_pool s t) = (if t = 0 then THREAD_RUNNING else THREAD_READY) \<and>
       t_affinity (tcb_pool s t) = THREAD_AFFINITY_ANY \<and>
       \<not> t_kill_pending (tcb_pool s t) \<and> prio_of (tcb_pool s t) = 7 \<and> t_pid (tcb_pool s t) = 0"
    "current_tcb s = (\<lambda>_. None)(0 := Some 0)" "canary_intact (Some 0) s"
    by (rule boot_running, rule that; (assumption | blast))
  have cur: "current_tcb s 0 = Some 0" "current_tcb s (1 - 0) = None" by (simp_all add: s(4))
  have one: "t_state (tcb_pool s 1) = THREAD_READY" using s(3) [of 1] by simp
  have used: "tcb_used s 1" "tcb_used s 0" by (simp_all add: s(2))
  from task_kill_thread_effect [OF s(1) _ used(1), of 0] obtain s' where
    s': "task_kill_thread 0 (Some 1) s = Some s'" "tcb_used s' 0 = tcb_used s 0" "\<not> tcb_used s' 1"
    using one cur by auto
  with used show ?thesis by (intro exI [of _ s] exI [of _ s']) simp
qed

section \<open>The tick\<close>

lemma enter_locked:
  fixes s :: "'a kstate_scheme" and t :: nat
  assumes inv: "locked_inv s qs" and t: "t < 16" "tcb_used s t"
    and off: "t \<notin> set (qs (prio_of (tcb_pool s t)))"
  defines "p \<equiv> prio_of (tcb_pool s t)"
  obtains s2 where "sched_add_thread_raw (Some t) (set_state t THREAD_READY s) = Some s2"
    "relinked (insert t (set (qs p))) (set_state t THREAD_READY s) s2"
    "locked_inv s2 (qs(p := qs p @ [t]))"
proof -
  let ?s1 = "set_state t THREAD_READY s"
  have i: "tasks_wf s" "rq_abs s qs" "queue_ok s qs" using inv by (simp_all add: locked_inv_def)
  have "rq_abs ?s1 qs" using i(2) by simp
  from add_raw_spec [OF this, of t] off obtain s2 where
    s2: "sched_add_thread_raw (Some t) ?s1 = Some s2" "rq_abs s2 (qs(p := qs p @ [t]))"
      "relinked (insert t (set (qs p))) ?s1 s2" by (auto simp: p_def)
  have "tasks_wf s2" using tasks_wf_relinked [OF s2(3)] i(1) by (simp add: frame_simps)
  moreover have "queue_ok ?s1 (qs(p := qs p @ [t]))"
    using queue_inv_enter [OF i(3) [unfolded queue_ok_def] t] by (simp add: queue_ok_set_state p_def)
  then have "queue_ok s2 (qs(p := qs p @ [t]))" using queue_ok_relinked [OF s2(3)] by simp
  ultimately show ?thesis using that s2 by (simp add: locked_inv_def)
qed

text \<open>A thread the tick wakes at time \<open>now\<close>.\<close>

definition expired :: "u64 \<Rightarrow> 'a kstate_scheme \<Rightarrow> nat \<Rightarrow> bool" where
  "expired now s t \<longleftrightarrow> tcb_used s t \<and> t_state (tcb_pool s t) = THREAD_SLEEPING \<and> t_wake_time_us (tcb_pool s t) \<le> now"

definition same_but_states :: "'a kstate_scheme \<Rightarrow> 'a kstate_scheme \<Rightarrow> bool" where
  "same_but_states s s' \<longleftrightarrow> tcb_used s' = tcb_used s \<and> current_tcb s' = current_tcb s \<and>
     sched_lock s' = sched_lock s \<and> slice_remaining s' = slice_remaining s \<and> pendsv s' = pendsv s \<and>
     tick_count s' = tick_count s \<and>
     (\<forall>t. t_wake_time_us (tcb_pool s' t) = t_wake_time_us (tcb_pool s t) \<and>
          t_cpu_time_us (tcb_pool s' t) = t_cpu_time_us (tcb_pool s t) \<and> keeps_id (tcb_pool s t) (tcb_pool s' t))"

lemma same_but_states_trans:
  "same_but_states s s' \<Longrightarrow> same_but_states s' s'' \<Longrightarrow> same_but_states s s''"
  unfolding same_but_states_def by (auto intro: keeps_id_trans)

lemma wake_sleepers_spec:
  assumes "locked_inv s qs" and "set is \<subseteq> {..<16}"
  shows "\<exists>s' qs'. wake_sleepers is core now s = Some s' \<and> locked_inv s' qs' \<and> same_but_states s s' \<and>
    (\<forall>u. t_state (tcb_pool s' u) = (if u \<in> set is \<and> expired now s u then THREAD_READY else t_state (tcb_pool s u)))"
  using assms
proof (induction "is" arbitrary: s qs)
  case Nil
  then show ?case by (auto simp: same_but_states_def)
next
  case (Cons i "is")
  have i: "i < 16" and "is": "set is \<subseteq> {..<16}" using Cons.prems(2) by auto
  have slot: "task_get_thread_slot (int i) s = (if tcb_used s i then Some i else None)"
    using i by (simp add: task_get_thread_slot_def)
  show ?case
  proof (cases "expired now s i")
    case False
    then have "wake_sleepers (i # is) core now s = wake_sleepers is core now s"
      by (auto simp: slot expired_def)
    with Cons.IH [OF Cons.prems(1) "is"] False show ?thesis by auto
  next
    case True
    then have u: "tcb_used s i" "t_state (tcb_pool s i) = THREAD_SLEEPING" "t_wake_time_us (tcb_pool s i) \<le> now"
      by (simp_all add: expired_def)
    have ok: "queue_ok s qs" using Cons.prems(1) by (simp add: locked_inv_def)
    have off: "i \<notin> set (qs (prio_of (tcb_pool s i)))"
      using queue_invD(2) [OF ok [unfolded queue_ok_def] i u(1)] u(2) by (auto simp: thread_inv_def)
    obtain s1 where s1: "sched_add_thread_raw (Some i) (set_state i THREAD_READY s) = Some s1"
      "relinked (insert i (set (qs (prio_of (tcb_pool s i))))) (set_state i THREAD_READY s) s1"
      "locked_inv s1 (qs(prio_of (tcb_pool s i) := qs (prio_of (tcb_pool s i)) @ [i]))"
      by (rule enter_locked [OF Cons.prems(1) i u(1) off])
    define s2 where "s2 = (if trace_on s1 then trace_record core TRACE_WAKE 0 (t_tid (tcb_pool s1 i))
                 (Some (t_name (tcb_pool s1 i))) 0 None s1 else s1)"
    obtain R n where s2: "s2 = s1\<lparr>trace_ring := R, trace_seq := n\<rparr>"
      using maybe_trace [of "trace_on s1" core TRACE_WAKE 0 "t_tid (tcb_pool s1 i)"
          "Some (t_name (tcb_pool s1 i))" 0 None s1]
      unfolding s2_def [symmetric] by (elim exE) (rule that)
    have l2: "locked_inv s2 (qs(prio_of (tcb_pool s i) := qs (prio_of (tcb_pool s i)) @ [i]))"
      using s1(3) by (simp add: s2_def frame_simps)
    obtain N Q where r: "s1 = (set_state i THREAD_READY s)\<lparr>tcb_pool :=
        (\<lambda>x. (tcb_pool (set_state i THREAD_READY s) x)\<lparr>t_next := N x\<rparr>), ready_queues := Q\<rparr>"
      using s1(2) unfolding relinked_def by blast
    have same: "same_but_states s s2"
      unfolding s2 r by (simp add: same_but_states_def set_state_def upd_tcb_def keeps_id_def)
    have st: "t_state (tcb_pool s2 u) = (if u = i then THREAD_READY else t_state (tcb_pool s u))" for u
      unfolding s2 r by simp
    have ex: "expired now s2 u \<longleftrightarrow> u \<noteq> i \<and> expired now s u" for u
      using st [of u] same by (simp add: expired_def same_but_states_def)
    have "wake_sleepers (i # is) core now s = wake_sleepers is core now s2"
      using u s1(1) by (simp add: slot Let_def s2_def)
    moreover from Cons.IH [OF l2 "is"] obtain s3 qs3 where
      s3: "wake_sleepers is core now s2 = Some s3" "locked_inv s3 qs3" "same_but_states s2 s3"
        "\<And>u. t_state (tcb_pool s3 u) =
          (if u \<in> set is \<and> expired now s2 u then THREAD_READY else t_state (tcb_pool s2 u))" by blast
    ultimately have "wake_sleepers (i # is) core now s = Some s3" by simp
    moreover have "t_state (tcb_pool s3 u) =
        (if u \<in> set (i # is) \<and> expired now s u then THREAD_READY else t_state (tcb_pool s u))" for u
      using s3(4) [of u] st [of u] ex [of u] True by (simp split: if_splits)
    ultimately show ?thesis using s3(2) same_but_states_trans [OF same s3(3)] by blast
  qed
qed

text \<open>
  C7. The tick of core 0 always returns, keeps the scheduler invariant, counts, and makes READY
  exactly the sleeping threads whose wake time has come, changing no other thread's state; when
  the slice is used up it is refilled and PendSV is raised.
\<close>

theorem isr_systick_wakes_expired:
  assumes "sched_inv s qs"
  shows "\<exists>s' qs'. isr_systick 0 s = Some s' \<and> sched_inv s' qs' \<and> tick_count s' = tick_count s + 1 \<and>
    (\<forall>t < MAX_THREADS. t_state (tcb_pool s' t) =
       (if expired (time_us s) s t then THREAD_READY else t_state (tcb_pool s t))) \<and>
    tcb_used s' = tcb_used s \<and> current_tcb s' = current_tcb s \<and>
    slice_remaining s' 0 = (if slice_remaining s 0 \<le> 1 then TIME_SLICE_MS else slice_remaining s 0 - 1) \<and>
    (pendsv s' 0 \<longleftrightarrow> pendsv s 0 \<or> slice_remaining s 0 \<le> 1)"
proof -
  define s1 where "s1 = (case current_tcb s 0 of None \<Rightarrow> s
      | Some c \<Rightarrow> upd_tcb c (\<lambda>b. b\<lparr>t_cpu_time_us := t_cpu_time_us b + 1000\<rparr>) s)"
  define s2 where "s2 = (if 0 < slice_remaining s1 0 then
      s1\<lparr>slice_remaining := (slice_remaining s1)(0 := slice_remaining s1 0 - 1)\<rparr> else s1)"
  define s3 where "s3 = (if slice_remaining s2 0 = 0 then
      s2\<lparr>slice_remaining := (slice_remaining s2)(0 := TIME_SLICE_MS), pendsv := (pendsv s2)(0 := True)\<rparr> else s2)"
  define s4 where "s4 = s3\<lparr>tick_count := tick_count s3 + 1\<rparr>"
  have f1: "heap_blocks s1 = heap_blocks s" "heap_head s1 = heap_head s" "heap_lock s1 = heap_lock s"
    "tcb_used s1 = tcb_used s" "pcb_used s1 = pcb_used s" "pcb_pool s1 = pcb_pool s" "current_tcb s1 = current_tcb s"
    "ready_queues s1 = ready_queues s" "sched_lock s1 = sched_lock s" "time_us s1 = time_us s"
    "slice_remaining s1 = slice_remaining s" "pendsv s1 = pendsv s" "tick_count s1 = tick_count s"
    by (simp_all add: s1_def upd_tcb_def split: option.split)
  have t1: "t_stack_base (tcb_pool s1 t) = t_stack_base (tcb_pool s t)"
      "t_stack_size (tcb_pool s1 t) = t_stack_size (tcb_pool s t)" "t_pid (tcb_pool s1 t) = t_pid (tcb_pool s t)"
      "t_state (tcb_pool s1 t) = t_state (tcb_pool s t)" "t_priority (tcb_pool s1 t) = t_priority (tcb_pool s t)"
      "t_kill_pending (tcb_pool s1 t) = t_kill_pending (tcb_pool s t)" "t_next (tcb_pool s1 t) = t_next (tcb_pool s t)"
      "t_wake_time_us (tcb_pool s1 t) = t_wake_time_us (tcb_pool s t)" for t
    by (simp_all add: s1_def upd_tcb_def split: option.split)
  have f4: "heap_blocks s4 = heap_blocks s1" "heap_head s4 = heap_head s1" "heap_lock s4 = heap_lock s1"
    "tcb_used s4 = tcb_used s1" "pcb_used s4 = pcb_used s1" "pcb_pool s4 = pcb_pool s1" "current_tcb s4 = current_tcb s1"
    "ready_queues s4 = ready_queues s1" "sched_lock s4 = sched_lock s1" "time_us s4 = time_us s1" "tcb_pool s4 = tcb_pool s1"
    "tick_count s4 = tick_count s1 + 1"
    by (simp_all add: s4_def s3_def s2_def)
  have le: "slice_remaining s 0 \<le> 1 \<longleftrightarrow> slice_remaining s 0 = 0 \<or> slice_remaining s 0 = 1"
    by (simp add: word_le_nat_alt word_unat_eq_iff) arith
  have sl: "slice_remaining s4 0 = (if slice_remaining s 0 \<le> 1 then TIME_SLICE_MS else slice_remaining s 0 - 1)"
    "pendsv s4 0 \<longleftrightarrow> pendsv s 0 \<or> slice_remaining s 0 \<le> 1"
    unfolding le by (auto simp: s4_def s3_def s2_def f1 word_gt_0)
  have inv4: "sched_inv s4 qs" using assms sched_inv_cong [of s4 s qs] by (simp add: f1 f4 t1)
  have "set [0..<16] \<subseteq> {..<(16::nat)}" by auto
  from wake_sleepers_spec [OF sched_inv_locked [OF inv4, of True] this, of 0 "time_us s"] obtain s6 qs6 where
    s6: "wake_sleepers [0..<16] 0 (time_us s) (s4\<lparr>sched_lock := True\<rparr>) = Some s6" "locked_inv s6 qs6"
      "same_but_states (s4\<lparr>sched_lock := True\<rparr>) s6"
      "\<And>u. t_state (tcb_pool s6 u) = (if u \<in> set [0..<16] \<and> expired (time_us s) (s4\<lparr>sched_lock := True\<rparr>) u
         then THREAD_READY else t_state (tcb_pool (s4\<lparr>sched_lock := True\<rparr>) u))" by blast
  have run: "isr_systick 0 s = Some (sched_release s6)"
  proof -
    have "sched_acquire s4 = Some (s4\<lparr>sched_lock := True\<rparr>)"
      by (rule sched_acquire_free [OF sched_invD(3) [OF inv4]])
    moreover have "time_us s4 = time_us s" by (simp only: f1 f4)
    moreover have "wake_sleepers [0..<MAX_THREADS] 0 (time_us s) (s4\<lparr>sched_lock := True\<rparr>) = Some s6"
      unfolding MAX_THREADS_def by (rule s6(1))
    ultimately show ?thesis
      unfolding isr_systick_def s1_def [symmetric] Let_def s2_def [symmetric] s3_def [symmetric] s4_def [symmetric]
      by (simp del: MAX_THREADS_def wake_sleepers.simps)
  qed
  have "tick_count s6 = tick_count s + 1" "tcb_used s6 = tcb_used s" "current_tcb s6 = current_tcb s"
    "slice_remaining s6 = slice_remaining s4" "pendsv s6 = pendsv s4"
    using s6(3) by (simp_all add: same_but_states_def f1 f4)
  moreover have "expired (time_us s) (s4\<lparr>sched_lock := True\<rparr>) u = expired (time_us s) s u" for u
    by (simp add: expired_def f1 f4 t1)
  then have "\<forall>t < 16. t_state (tcb_pool s6 t) =
      (if expired (time_us s) s t then THREAD_READY else t_state (tcb_pool s t))"
    by (simp add: s6(4) f4 t1)
  moreover have "sched_inv (sched_release s6) qs6" by (rule locked_inv_release [OF s6(2)])
  ultimately show ?thesis using run sl
    by (intro exI [of _ "sched_release s6"] exI [of _ qs6]) (simp add: sched_release_def)
qed

theorem isr_systick_wakes_expired_witness:
  "\<exists>s'. isr_systick 0 kernel_boot = Some s' \<and> tick_count s' = tick_count kernel_boot + 1"
  using isr_systick_wakes_expired [OF boot_sched_inv] by blast

section \<open>The trace\<close>

text \<open>The events recorded since \<open>sched_trace_start\<close>, of which the ring holds the last 128.\<close>

definition trace_abs :: "'a kstate_scheme \<Rightarrow> trace_event list \<Rightarrow> bool" where
  "trace_abs s evs \<longleftrightarrow> unat (trace_seq s) = length evs \<and>
     (\<forall>i < length evs. length evs \<le> i + 128 \<longrightarrow> trace_ring s (i mod 128) = evs ! i)"

lemma trace_abs_snoc:
  assumes "trace_abs s evs" and "Suc (length evs) < 2 ^ 32"
    and "trace_ring s' = (trace_ring s)(unat (trace_seq s mod TRACE_EVENTS) := e)"
    and "trace_seq s' = trace_seq s + 1"
  shows "trace_abs s' (evs @ [e])"
proof -
  let ?n = "length evs"
  have n: "unat (trace_seq s) = ?n" using assms(1) by (simp add: trace_abs_def)
  then have sq: "unat (trace_seq s') = Suc ?n" using assms(2,4) by (simp add: unat_word_ariths)
  have slot: "unat (trace_seq s mod TRACE_EVENTS) = ?n mod 128"
    using n by (simp add: unat_mod_distrib TRACE_EVENTS_def)
  have "trace_ring s' (i mod 128) = (evs @ [e]) ! i" if i: "i < Suc ?n" "Suc ?n \<le> i + 128" for i
  proof (cases "i = ?n")
    case True
    then show ?thesis using slot assms(3) by simp
  next
    case False
    then have "i < ?n" using i by simp
    moreover have "i mod 128 \<noteq> ?n mod 128"
    proof
      assume "i mod 128 = ?n mod 128"
      then have "128 dvd ?n - i" using \<open>i < ?n\<close> by (metis less_imp_le mod_eq_dvd_iff_nat)
      then have "128 \<le> ?n - i" using \<open>i < ?n\<close> by (intro dvd_imp_le) simp_all
      then show False using i(2) by simp
    qed
    ultimately show ?thesis using assms(1) i slot assms(3) by (simp add: trace_abs_def nth_append)
  qed
  with sq show ?thesis by (simp add: trace_abs_def)
qed



section \<open>All histories\<close>

lemma create_thread_split:
  fixes s :: "'a kstate_scheme"
  assumes inv: "sched_inv s qs" and ok: "proc_ok proc s" and n: "68 \<le> unat n" "unat n + 7 < 2 ^ 32"
  obtains (Fail) s' where "task_create_thread te proc name entry arg pr n s = Some (None, s')" "sched_inv s' qs"
      "tcb_used s' = tcb_used s" "pcb_used s' = pcb_used s" "pcb_pool s' = pcb_pool s" "current_tcb s' = current_tcb s"
      "\<And>u. tcb_used s u \<Longrightarrow> tcb_pool s' u = tcb_pool s u" "heap_segs s' = heap_segs s" "heap_mem s' = heap_mem s"
  | (Made) t s' qs' base where "task_create_thread te proc name entry arg pr n s = Some (Some t, s')" "sched_inv s' qs'"
      "t < 16" "\<not> tcb_used s t" "tcb_used s' = (tcb_used s)(t := True)" "tcb_pool s' t = new_tcb proc name pr n base s"
      "\<And>u. u \<noteq> t \<Longrightarrow> (tcb_pool s' u)\<lparr>t_next := None\<rparr> = (tcb_pool s u)\<lparr>t_next := None\<rparr>" "current_tcb s' = current_tcb s"
      "pcb_used s' = pcb_used s" "pcb_pool s' = link_thread proc t (pcb_pool s)"
      "heap_mem s' = thread_memory te entry arg base n (heap_mem s)" "\<exists>k. unat n \<le> k \<and> heap_live s' = insert (base, k) (heap_live s) \<and> (\<forall>j. (base, j) \<notin> heap_live s)"
proof (cases "first_slot (\<lambda>i. \<not> tcb_used s i) MAX_THREADS")
  case None
  then have "task_create_thread te proc name entry arg pr n s = Some (None, s)"
    unfolding task_create_thread_def by simp
  then show ?thesis using inv by (intro Fail [of s]) simp_all
next
  case (Some t)
  let ?s1 = "s\<lparr>tcb_used := (tcb_used s)(t := True)\<rparr>"
  note i = sched_invD [OF inv]
  have t: "t < 16" "\<not> tcb_used s t" using first_slot_SomeD [OF Some] by auto
  have "heap_wf ?s1" using i(1) heap_cong(2) [of ?s1 s] by (simp add: tasks_wf_def stacks_wf_def)
  then show ?thesis
  proof (cases rule: kmalloc_cases [where n = n])
    case Null
    let ?s' = "upd_tcb t (\<lambda>b. b\<lparr>t_stack_base := None\<rparr>) s"
    have notin: "\<And>p. p < 8 \<Longrightarrow> t \<notin> set (qs p)"
      using sched_inv_queued_used [OF inv] t by (auto simp: queued_used_def)
    have "stacks_wf ?s'" using i(1) t heap_cong [of ?s' s] by (auto simp: tasks_wf_def stacks_wf_def upd_tcb_def)
    moreover have "procs_wf ?s'" using i(1) procs_wf_cong [of ?s' s] by (simp add: tasks_wf_def upd_tcb_def)
    moreover have "rq_abs ?s' qs" using rq_abs_upd_off [OF i(2)] notin .
    moreover have "queue_ok ?s' qs" using i(4) by (subst queue_ok_cong) (simp_all add: frame_simps)
    ultimately have inv': "sched_inv ?s' qs" using i(3) by (simp add: sched_inv_def tasks_wf_def frame_simps)
    show ?thesis by (rule Fail [OF create_thread_no_memory [OF Some Null(1)] inv']) (use t in \<open>auto simp: upd_tcb_def intro: heap_cong\<close>)
  next
    case (Block B base l')
    have "heap_wf ?s1" by fact
    from kheap.alloc_some [OF this Block(3)] obtain k where
      k0: "unat (ALIGN8 n) \<le> k" "heap_live (?s1\<lparr>heap_blocks := B\<rparr>) = insert (base, k) (heap_live ?s1)" "\<forall>j. (base, j) \<notin> heap_live ?s1" by blast
    have "base + k \<le> 65536"
      using live_bounds [OF heap_wf_tiled [OF Block(4)], of base k] k0(2) by (simp add: heap_live_def)
    with k0 ALIGN8_ge [OF n(2)] heap_cong(3) [of ?s1 s]
    have k: "\<exists>k. unat n \<le> k \<and> heap_live (?s1\<lparr>heap_blocks := B\<rparr>) = insert (base, k) (heap_live s) \<and> (\<forall>j. (base, j) \<notin> heap_live s)"
      by (intro exI [of _ k]) simp
    obtain s' where c: "task_create_thread te proc name entry arg pr n s = Some (Some t, s')"
      "sched_inv s' (qs(prio_of (tcb_pool s' t) := qs (prio_of (tcb_pool s' t)) @ [t]))"
      "tcb_used s' = (tcb_used s)(t := True)" "tcb_pool s' t = new_tcb proc name pr n base s"
      "\<And>u. u \<noteq> t \<Longrightarrow> (tcb_pool s' u)\<lparr>t_next := None\<rparr> = (tcb_pool s u)\<lparr>t_next := None\<rparr>"
      "heap_mem s' = thread_memory te entry arg base n (heap_mem s)"
      "current_tcb s' = current_tcb s" "heap_segs s' = heap_segs (?s1\<lparr>heap_blocks := B\<rparr>)"
      "pcb_used s' = pcb_used s" "pcb_pool s' = link_thread proc t (pcb_pool s)"
      by (rule create_thread_inv [OF inv ok n Some Block(3), of te name entry arg pr], rule that; (assumption | blast))
    have l: "\<exists>k. unat n \<le> k \<and> heap_live s' = insert (base, k) (heap_live s) \<and> (\<forall>j. (base, j) \<notin> heap_live s)" using k c(8) by (simp add: heap_live_def)
    show ?thesis by (rule Made; (fact c(1) c(2) t c(3) c(4) c(7) c(9) c(10) c(6) l | (rule c(5), assumption)))
  qed
qed

lemma create_thread_any:
  fixes s :: "'a kstate_scheme"
  assumes "sched_inv s qs" and "proc_ok proc s" and "68 \<le> unat n" "unat n + 7 < 2 ^ 32"
  shows "\<exists>r s' qs'. task_create_thread te proc name entry arg pr n s = Some (r, s') \<and> sched_inv s' qs'"
  by (rule create_thread_split [OF assms, of te name entry arg pr]; blast)

text \<open>
  One call into the kernel, made by whoever runs on \<open>core\<close>. A thread is woken only when it is
  blocked, or is a zombie that has left its core; \<open>sched_next_thread\<close> runs when the core has a
  thread to run (each core has its own idle thread).
\<close>

inductive sched_step :: "kstate \<Rightarrow> kstate \<Rightarrow> bool" where
  create: "proc_ok proc s \<Longrightarrow> 68 \<le> unat n \<Longrightarrow> unat n + 7 < 2 ^ 32 \<Longrightarrow>
     task_create_thread te proc name entry arg pr n s = Some (r, s') \<Longrightarrow> sched_step s s'"
| block: "current_tcb s core = Some t \<Longrightarrow> sched_block (Some t) s = Some s' \<Longrightarrow> sched_step s s'"
| unblock: "t < MAX_THREADS \<Longrightarrow> tcb_used s t \<Longrightarrow> t_state (tcb_pool s t) = THREAD_BLOCKED \<or>
       t_state (tcb_pool s t) = THREAD_ZOMBIE \<and> \<not> is_current (current_tcb s) t \<Longrightarrow>
     sched_unblock core (Some t) s = Some (b, s') \<Longrightarrow> sched_step s s'"
| sleep: "core < 2 \<Longrightarrow> sched_sleep core ms s = Some s' \<Longrightarrow> sched_step s s'"
| yield: "sched_step s (sched_yield core s)"
| kill: "core < 2 \<Longrightarrow> t < MAX_THREADS \<Longrightarrow> tcb_used s t \<Longrightarrow>
     task_kill_thread core (Some t) s = Some s' \<Longrightarrow> sched_step s s'"
| exit: "core < 2 \<Longrightarrow> sched_step s (thread_exit_step core s)"
| pendsv: "core < 2 \<Longrightarrow> v < MAX_THREADS \<Longrightarrow> tcb_used s v \<Longrightarrow> selectable core s v \<Longrightarrow>
     sched_next_thread core s = Some (r, s') \<Longrightarrow> sched_step s s'"
| tick: "isr_systick core s = Some s' \<Longrightarrow> sched_step s s'"

inductive sched_reach :: "kstate \<Rightarrow> bool" where
  boot: "sched_reach kernel_boot"
| step: "sched_reach s \<Longrightarrow> sched_step s s' \<Longrightarrow> sched_reach s'"

inductive_cases sched_stepE: "sched_step s s'"

lemma exit_inv:
  assumes inv: "sched_inv s qs" and core: "core < 2"
  shows "sched_inv (thread_exit_step core s) qs"
proof (cases "current_tcb s core")
  case None
  then show ?thesis using inv by (simp add: thread_exit_step_def frame_simps)
next
  case (Some t)
  then have "is_current (current_tcb s) t" using core by (cases core) (auto simp: is_current_def less_Suc_eq numeral_2_eq_2)
  from locked_inv_zombie [OF _ this, of qs] inv
  have "locked_inv (set_state t THREAD_ZOMBIE s) qs" by (simp add: locked_inv_def sched_inv_def)
  then have "sched_inv (set_state t THREAD_ZOMBIE s) qs"
    using inv by (simp add: locked_inv_def sched_inv_def frame_simps)
  then show ?thesis using Some by (simp add: thread_exit_step_def frame_simps)
qed

lemma tick1_inv:
  assumes inv: "sched_inv s qs" and run: "isr_systick core s = Some s'" and core: "core \<noteq> 0"
  shows "sched_inv s' qs"
proof -
  have "sched_inv s' qs \<longleftrightarrow> sched_inv s qs"
    using run core by (intro sched_inv_cong)
      (auto simp: isr_systick_def upd_tcb_def Let_def split: option.splits if_splits)
  with inv show ?thesis by simp
qed

text \<open>The state core 0's tick has reached when it takes the scheduler lock.\<close>

definition tick_state :: "'a kstate_scheme \<Rightarrow> 'a kstate_scheme" where
  "tick_state s = (let s1 = (case current_tcb s 0 of None \<Rightarrow> s
      | Some c \<Rightarrow> upd_tcb c (\<lambda>b. b\<lparr>t_cpu_time_us := t_cpu_time_us b + 1000\<rparr>) s);
     s2 = (if 0 < slice_remaining s1 0 then
      s1\<lparr>slice_remaining := (slice_remaining s1)(0 := slice_remaining s1 0 - 1)\<rparr> else s1);
     s3 = (if slice_remaining s2 0 = 0 then
      s2\<lparr>slice_remaining := (slice_remaining s2)(0 := TIME_SLICE_MS), pendsv := (pendsv s2)(0 := True)\<rparr> else s2)
    in s3\<lparr>tick_count := tick_count s3 + 1\<rparr>)"

lemma systick0_eq: "isr_systick 0 s = Option.bind (sched_acquire (tick_state s))
      (\<lambda>s5. Option.bind (wake_sleepers [0..<MAX_THREADS] 0 (time_us (tick_state s)) s5) (\<lambda>s6. Some (sched_release s6)))"
  unfolding isr_systick_def tick_state_def Let_def by simp

lemma tick_state_inv: "sched_inv (tick_state s) qs \<longleftrightarrow> sched_inv s qs"
  unfolding tick_state_def Let_def by (intro sched_inv_cong) (simp_all add: upd_tcb_def split: option.split)

lemma isr_systick_returns: "sched_inv s qs \<Longrightarrow> isr_systick 0 s \<noteq> None"
proof -
  assume inv: "sched_inv s qs"
  let ?s4 = "tick_state s"
  have inv4: "sched_inv ?s4 qs" using tick_state_inv [of s qs] inv by simp
  have "set [0..<MAX_THREADS] \<subseteq> {..<(16::nat)}" by auto
  from wake_sleepers_spec [OF sched_inv_locked [OF inv4, of True] this, of 0 "time_us ?s4"]
  show ?thesis using sched_acquire_free [OF sched_invD(3) [OF inv4]] by (auto simp: systick0_eq)
qed

lemma tick0_inv:
  assumes inv: "sched_inv s qs" and run: "isr_systick 0 s = Some s'"
  shows "\<exists>qs'. sched_inv s' qs'"
proof -
  let ?s4 = "tick_state s"
  have inv4: "sched_inv ?s4 qs" using tick_state_inv [of s qs] inv by simp
  from run sched_acquire_free [OF sched_invD(3) [OF inv4]] obtain s6 where
    s6: "wake_sleepers [0..<MAX_THREADS] 0 (time_us ?s4) (?s4\<lparr>sched_lock := True\<rparr>) = Some s6" "s' = sched_release s6"
    by (auto simp: bind_simps systick0_eq)
  have "set [0..<MAX_THREADS] \<subseteq> {..<(16::nat)}" by auto
  from wake_sleepers_spec [OF sched_inv_locked [OF inv4, of True] this, of 0 "time_us ?s4"] s6
  show ?thesis using locked_inv_release by auto
qed

lemma unblock_inv:
  assumes inv: "sched_inv s qs" and t: "t < 16" "tcb_used s t"
    and st: "t_state (tcb_pool s t) = THREAD_BLOCKED \<or>
       t_state (tcb_pool s t) = THREAD_ZOMBIE \<and> \<not> is_current (current_tcb s) t"
    and run: "sched_unblock core (Some t) s = Some (b, s')"
  shows "\<exists>qs'. sched_inv s' qs'"
  using st
proof (elim disjE conjE)
  assume bl: "t_state (tcb_pool s t) = THREAD_BLOCKED"
  obtain s1 where "sched_unblock core (Some t) s = Some (True, s1)"
    "sched_inv s1 (qs(prio_of (tcb_pool s t) := qs (prio_of (tcb_pool s t)) @ [t]))"
    by (rule sched_unblock_wakes [OF inv t bl], rule that; (assumption | blast))
  with run show ?thesis by auto
next
  assume z: "t_state (tcb_pool s t) = THREAD_ZOMBIE" "\<not> is_current (current_tcb s) t"
  obtain s1 where "sched_unblock core (Some t) s = Some (False, s1)" "sched_inv s1 qs"
    by (rule sched_unblock_frees [OF inv t z], rule that; (assumption | blast))
  with run show ?thesis by auto
qed

lemma next_thread_inv:
  assumes inv: "sched_inv s qs" and core: "core < 2" and v: "v < 16" "tcb_used s v" "selectable core s v"
    and run: "sched_next_thread core s = Some (r, s')"
  shows "\<exists>qs'. sched_inv s' qs'"
proof -
  have can: "canary_intact (current_tcb s core) s"
  proof (rule ccontr)
    assume "\<not> ?thesis"
    moreover have "canary_intact (current_tcb s core) (s\<lparr>sched_lock := True\<rparr>) = canary_intact (current_tcb s core) s"
      by (simp add: canary_intact_def split: option.split)
    ultimately have "\<not> canary_intact (current_tcb s core) (s\<lparr>sched_lock := True\<rparr>)" by simp
    then show False using run sched_acquire_free [OF sched_invD(3) [OF inv]] by (simp add: sched_next_thread_def)
  qed
  from selection_exists [OF inv v] obtain t where sel: "fst (selection core s qs) = Some t" by auto
  obtain s1 where "sched_next_thread core s = Some (Some t, s1)" "sched_inv s1 (snd (selection core s qs))"
    by (rule sched_next_thread_selects [OF inv core can sel], rule that; (assumption | blast))
  with run show ?thesis by auto
qed

lemma sched_step_inv:
  assumes inv: "sched_inv s qs" and step: "sched_step s s'"
  shows "\<exists>qs'. sched_inv s' qs'"
  using step
proof (cases rule: sched_step.cases)
  case (create proc n te name entry arg pr r)
  from create_thread_any [OF inv create(1-3), of te name entry arg pr] create(4) show ?thesis by auto
next
  case (block core t)
  obtain s1 where "sched_block (Some t) s = Some s1"
    "sched_inv s1 (qs(prio_of (tcb_pool s t) := remove1 t (qs (prio_of (tcb_pool s t)))))"
    by (rule sched_block_inv [OF inv], rule that; (assumption | blast))
  with block(2) show ?thesis by auto
next
  case (unblock t core b)
  then show ?thesis by (intro unblock_inv [OF inv]) simp_all
next
  case (sleep core ms)
  show ?thesis
  proof (cases "current_tcb s core")
    case None
    with sleep inv show ?thesis by (auto simp: sched_sleep_def)
  next
    case (Some t)
    obtain s1 where "sched_sleep core ms s = Some s1"
      "sched_inv s1 (qs(prio_of (tcb_pool s t) := remove1 t (qs (prio_of (tcb_pool s t)))))"
      by (rule sched_sleep_inv [OF inv Some], rule that; (assumption | blast))
    with sleep(2) show ?thesis by auto
  qed
next
  case (yield core)
  with inv show ?thesis by (auto simp: frame_simps)
next
  case (kill core t)
  then have t: "t < 16" by simp
  obtain s1 qs1 where "task_kill_thread core (Some t) s = Some s1" "sched_inv s1 qs1"
    by (rule task_kill_thread_spec [OF inv t kill(3,1)], rule that; (assumption | blast))
  with kill(4) show ?thesis by auto
next
  case (exit core)
  with exit_inv [OF inv] show ?thesis by blast
next
  case (pendsv core v r)
  then show ?thesis by (intro next_thread_inv [OF inv]) simp_all
next
  case (tick core)
  then show ?thesis using tick0_inv [OF inv] tick1_inv [OF inv] by (cases "core = 0") auto
qed

lemma sched_reach_inv: "sched_reach s \<Longrightarrow> \<exists>qs. sched_inv s qs"
proof (induction rule: sched_reach.induct)
  case boot
  then show ?case using boot_sched_inv by blast
next
  case (step s s')
  then show ?case using sched_step_inv by blast
qed





end
