(* ===== verification/Launch.thy ===== *)
theory Launch
  imports Sched
begin

text \<open>
  Starting an application: a process, then its first thread. The system call \<open>SYS_SPAWN\<close>, the shell's
  \<open>run\<close>, \<open>AUTORUN=\<close> and the buttons all do these two steps, and free the process when the second
  fails. The lemma of this theory says what each outcome leaves behind; it carries the properties of
  all four.
\<close>

text \<open>
  The steps that all launchers share: the process, then its thread. \<open>Inl None\<close>: no process;
  \<open>Inl (Some p)\<close>: no thread for the process \<open>p\<close>, which the caller then frees.
\<close>

definition launch ::
  "u32 \<Rightarrow> string option \<Rightarrow> u32 \<Rightarrow> u32 \<Rightarrow> u32 \<Rightarrow> u8 \<Rightarrow> 'a kstate_scheme \<Rightarrow> ((nat option + nat \<times> nat) \<times> 'a kstate_scheme) option" where
  "launch te name pid entry arg prio s = (case task_create_process name pid s of
       (None, s1) \<Rightarrow> Some (Inl None, s1)
     | (Some proc, s1) \<Rightarrow> do {
         (t, s2) \<leftarrow> task_create_thread te (Some proc) name entry arg prio DEFAULT_STACK_SIZE s1;
         Some (case t of None \<Rightarrow> Inl (Some proc) | Some t \<Rightarrow> Inr (proc, t), s2)
       })"

text \<open>One new live process \<open>p\<close> with the PID \<open>pid\<close>, whose only thread \<open>t\<close> is new and READY.\<close>

definition new_app :: "'a kstate_scheme \<Rightarrow> u32 \<Rightarrow> nat \<Rightarrow> nat \<Rightarrow> 'a kstate_scheme \<Rightarrow> bool" where
  "new_app s pid p t s' \<longleftrightarrow> p < MAX_PROCESSES \<and> t < MAX_THREADS \<and> \<not> pcb_used s p \<and> \<not> tcb_used s t \<and>
     p_pid (pcb_pool s' p) = pid \<and> task_find_process pid s = None \<and> p_alive (pcb_pool s' p) \<and>
     pcb_used s' = (pcb_used s)(p := True) \<and> tcb_used s' = (tcb_used s)(t := True) \<and>
     thread_list (pcb_pool s' p) = [t] \<and> t_pid (tcb_pool s' t) = pid \<and> t_state (tcb_pool s' t) = THREAD_READY \<and>
     (\<forall>q. q \<noteq> p \<longrightarrow> pcb_pool s' q = pcb_pool s q)"

text \<open>No trace of a start in the pools and the heap.\<close>

definition no_app :: "'a kstate_scheme \<Rightarrow> 'a kstate_scheme \<Rightarrow> bool" where
  "no_app s s' \<longleftrightarrow> pcb_used s' = pcb_used s \<and> tcb_used s' = tcb_used s \<and> (\<forall>q. pcb_used s q \<longrightarrow> pcb_pool s' q = pcb_pool s q) \<and>
     (\<forall>u. tcb_used s u \<longrightarrow> tcb_pool s' u = tcb_pool s u) \<and> heap_segs s' = heap_segs s"

text \<open>The memory of the new thread: entry point and argument in its initial frame, on a stack of its own.\<close>

definition entry_frame :: "u32 \<Rightarrow> u32 \<Rightarrow> nat \<Rightarrow> 'a kstate_scheme \<Rightarrow> bool" where
  "entry_frame entry arg t s \<longleftrightarrow> (let sp = t_saved_sp (tcb_pool s t)
   in heap_mem s (sp + 32) = arg \<and> heap_mem s (sp + 56) = entry)"

lemma create_process_kernel:
  assumes "fst (task_create_process name pid s) = Some p"
  defines "s' \<equiv> snd (task_create_process name pid s)"
  shows "ready_queues s' = ready_queues s" "sched_lock s' = sched_lock s" "current_tcb s' = current_tcb s"
    "heap_mem s' = heap_mem s"
  using assms by (auto simp: task_create_process_def upd_pcb_def split: if_splits option.splits)

lemma create_process_sched_inv:
  assumes inv: "sched_inv s qs" and p: "fst (task_create_process name pid s) = Some p"
  shows "sched_inv (snd (task_create_process name pid s)) qs"
proof -
  let ?s = "snd (task_create_process name pid s)"
  note f = create_process_fields [OF p] and g = create_process_kernel [OF p] and i = sched_invD [OF inv]
  have "rq_abs ?s qs" using i(2) by (subst rq_abs_cong) (simp_all add: f g next_of_def fun_eq_iff)
  moreover have "queue_ok ?s qs" using i(4) by (subst queue_ok_cong) (simp_all add: f g)
  ultimately show ?thesis using tasks_wf_create_process [OF i(1) p] i(3) by (simp add: sched_inv_def g)
qed

text \<open>The process table after the process is given back.\<close>

lemma procs_wf_restore:
  assumes "procs_wf s" and "pcb_used s' = pcb_used s" "tcb_used s' = tcb_used s"
    and "\<And>q. pcb_used s q \<Longrightarrow> pcb_pool s' q = pcb_pool s q" and "\<And>u. tcb_used s u \<Longrightarrow> t_pid (tcb_pool s' u) = t_pid (tcb_pool s u)"
  shows "procs_wf s'"
proof -
  have "{t. t < MAX_THREADS \<and> tcb_used s t \<and> t_pid (tcb_pool s' t) = x} = {t. t < MAX_THREADS \<and> tcb_used s t \<and> t_pid (tcb_pool s t) = x}" for x
    using assms(5) by auto
  with assms show ?thesis by (simp add: procs_wf_def cong: conj_cong)
qed

lemma thread_list_linked:
  assumes "p_thread_count b = 0" "p_threads b = replicate 16 None"
  shows "thread_list (link_thread (Some p) t (P(p := b)) p) = [t]" "p_pid (link_thread (Some p) t (P(p := b)) p) = p_pid b"
    "p_alive (link_thread (Some p) t (P(p := b)) p) = p_alive b"
  using assms by (simp_all add: link_thread_def thread_list_def eval_nat_numeral)

lemma link_thread_other: "q \<noteq> p \<Longrightarrow> link_thread (Some p) t P q = P q"
  by (simp add: link_thread_def)

text \<open>Allocating a PID changes nothing that the invariant or the outcome of a start depends on.\<close>

lemma alloc_pid_frame:
  assumes "task_alloc_pid rng s = (pid, s1)"
  shows "sched_inv s1 qs \<longleftrightarrow> sched_inv s qs" and "no_app s1 s' \<longleftrightarrow> no_app s s'"
    and "new_app s1 pid p t s' \<longleftrightarrow> new_app s pid p t s'" and "heap_mem s1 = heap_mem s" "heap_segs s1 = heap_segs s"
proof -
  obtain rs where s1: "s1 = s\<lparr>pid_ranges := rs\<rparr>"
    using assms by (auto simp: task_alloc_pid_def Let_def split: if_splits option.splits intro: that [of "pid_ranges s"] that)
  show "sched_inv s1 qs \<longleftrightarrow> sched_inv s qs" by (rule sched_inv_cong) (simp_all add: s1)
  show h: "heap_segs s1 = heap_segs s" by (rule heap_cong) (simp_all add: s1)
  then show "no_app s1 s' \<longleftrightarrow> no_app s s'" by (simp add: no_app_def s1)
  show "new_app s1 pid p t s' \<longleftrightarrow> new_app s pid p t s'" by (simp add: new_app_def task_find_process_def s1)
  show "heap_mem s1 = heap_mem s" by (simp add: s1)
qed

lemma launch_cases:
  fixes s :: "'a kstate_scheme"
  assumes inv: "sched_inv s qs"
  obtains (NoProcess) "launch te name pid entry arg prio s = Some (Inl None, s)"
  | (NoThread) p s' where "launch te name pid entry arg prio s = Some (Inl (Some p), s')"
      "sched_inv (task_free_process (Some p) s') qs" "no_app s (task_free_process (Some p) s')"
  | (Started) p t s' qs' base where "launch te name pid entry arg prio s = Some (Inr (p, t), s')" "sched_inv s' qs'"
      "new_app s pid p t s'" "entry_frame entry arg t s'" "\<exists>k. 2048 \<le> k \<and> heap_live s' = insert (base, k) (heap_live s) \<and> (\<forall>j. (base, j) \<notin> heap_live s)"
      "\<And>x. x < base \<or> base + 2048 \<le> x \<Longrightarrow> heap_mem s' x = heap_mem s x" "pid \<noteq> 0"
proof (cases rule: create_process_cases [of name pid s])
  case Fail
  then show ?thesis by (intro NoProcess) (simp add: launch_def)
next
  case (Slot p)
  obtain s2 where c: "task_create_process name pid s = (Some p, s2)" using Slot(5) by (cases "task_create_process name pid s") simp
  note f2 = create_process_fields [OF Slot(5), unfolded c snd_conv] and i2 = create_process_sched_inv [OF inv Slot(5), unfolded c snd_conv]
  note k2 = create_process_kernel [OF Slot(5), unfolded c snd_conv]
  have ok: "proc_ok (Some p) s2" using Slot(3) f2(1) by (simp add: proc_ok_def)
  have n: "68 \<le> unat DEFAULT_STACK_SIZE" "unat DEFAULT_STACK_SIZE + 7 < 2 ^ 32" by (simp_all add: DEFAULT_STACK_SIZE_def)
  have h2: "heap_segs s2 = heap_segs s" "heap_live s2 = heap_live s" using heap_cong [OF f2(10-12)] by simp_all
  show ?thesis
  proof (cases rule: create_thread_split [OF i2 ok n, of te name entry arg prio])
    case (1 s3)
    let ?s4 = "task_free_process (Some p) s3"
    have s4: "?s4 = upd_pcb p (\<lambda>_. pcb_zero) (s3\<lparr>pcb_used := (pcb_used s3)(p := False)\<rparr>)"
      using Slot(3) by (simp add: task_free_process_def)
    have u: "pcb_used ?s4 = pcb_used s" "tcb_used ?s4 = tcb_used s" "tcb_pool ?s4 = tcb_pool s3"
      using Slot(4) 1(3,4) f2(1,8) by (auto simp: s4 upd_pcb_def fun_eq_iff)
    have pool: "pcb_pool ?s4 q = pcb_pool s q" if "pcb_used s q" for q
      using that Slot(4) 1(5) f2(2) [of q] by (auto simp: s4 upd_pcb_def)
    have "procs_wf ?s4"
    proof (rule procs_wf_restore [of s])
      show "procs_wf s" using sched_invD(1) [OF inv] by (simp add: tasks_wf_def)
      show "t_pid (tcb_pool ?s4 v) = t_pid (tcb_pool s v)" if "tcb_used s v" for v
        using that 1(7) [of v] f2(8,9) u(3) by simp
    qed (use u pool in simp_all)
    moreover have "stacks_wf ?s4" using sched_invD(1) [OF 1(2)]
      by (subst stacks_wf_cong [of _ s3]) (simp_all add: s4 upd_pcb_def tasks_wf_def)
    moreover have "rq_abs ?s4 qs" using sched_invD(2) [OF 1(2)]
      by (subst rq_abs_cong [of _ s3]) (simp_all add: s4 upd_pcb_def next_of_def fun_eq_iff)
    moreover have "queue_ok ?s4 qs" using sched_invD(4) [OF 1(2)]
      by (subst queue_ok_cong [of _ s3]) (simp_all add: s4 upd_pcb_def)
    moreover have "\<not> sched_lock ?s4" using sched_invD(3) [OF 1(2)] by (simp add: s4 upd_pcb_def)
    ultimately have i4: "sched_inv ?s4 qs" by (simp add: sched_inv_def tasks_wf_def)
    have "heap_segs ?s4 = heap_segs s" using 1(8) h2(1) heap_cong(1) [of ?s4 s3] by (simp add: s4 upd_pcb_def)
    moreover have "tcb_pool ?s4 v = tcb_pool s v" if "tcb_used s v" for v
      using that 1(7) [of v] f2(8,9) u(3) by simp
    ultimately have "no_app s ?s4" using u(1,2) pool by (simp add: no_app_def)
    moreover have "launch te name pid entry arg prio s = Some (Inl (Some p), s3)" using c 1(1) by (simp add: launch_def)
    ultimately show ?thesis using i4 NoThread by blast
  next
    case (2 t s3 qs' base)
    have e: "pcb_pool s3 = link_thread (Some p) t ((pcb_pool s2)(p := pcb_pool s2 p))" using 2(10) by simp
    note l = thread_list_linked [OF f2(6,7), of p t "pcb_pool s2", folded e]
    have m: "heap_mem s3 = thread_memory te entry arg base 2048 (heap_mem s)" using 2(11) k2(4) by (simp add: DEFAULT_STACK_SIZE_def)
    have sp: "t_saved_sp (tcb_pool s3 t) = base + 1984" using 2(6) by (simp add: new_tcb_def DEFAULT_STACK_SIZE_def)
    have la: "launch te name pid entry arg prio s = Some (Inr (p, t), s3)" using c 2(1) by (simp add: launch_def)
    have na: "new_app s pid p t s3"
      unfolding new_app_def
    proof (intro conjI)
      show "t_pid (tcb_pool s3 t) = pid" using 2(6) f2(3) by (simp add: new_tcb_def)
      show "t_state (tcb_pool s3 t) = THREAD_READY" using 2(6) by (simp add: new_tcb_def)
      show "\<forall>q. q \<noteq> p \<longrightarrow> pcb_pool s3 q = pcb_pool s q" using 2(10) f2(2) by (simp add: link_thread_other)
    qed (use Slot(2-4) 2(3-5,9) f2(1,3,4,8) l in simp_all)
    have ef: "entry_frame entry arg t s3"
      using thread_memory_frame(2) [where n = 2048 and te = te and entry = entry and arg = arg and base = base and m = "heap_mem s" and i = 8]
        thread_memory_frame(2) [where n = 2048 and te = te and entry = entry and arg = arg and base = base and m = "heap_mem s" and i = 14]
      by (simp add: entry_frame_def sp m initial_frame_def)
    show ?thesis
      by (rule Started [OF la 2(2) na ef]) (use 2(12) h2(2) Slot(1) thread_memory_frame(3) [where n = 2048 and te = te and entry = entry and arg = arg and base = base and m = "heap_mem s"] in
        \<open>simp_all add: m DEFAULT_STACK_SIZE_def\<close>)
  qed
qed

end
