(* ===== verification/Spinlock.thy ===== *)
theory Spinlock
  imports Prelude
begin

text \<open>
  The spinlocks of \<open>src/kernel/sync.c\<close> and the pool of hardware locks that the primitives share.

  The RP2040 spinlock registers and the interrupt mask belong to the pico-sdk. They are a value
  of type \<open>'h\<close>, and the SDK's functions a record of parameters (\<open>sdk\<close>) over it; \<open>sdk_ok\<close> states
  what their documentation promises. Waiting for a lock that is held is not returning
  (\<^const>\<open>None\<close>): no other core takes part in the step that waits.
\<close>

section \<open>The SDK\<close>

record 'h sdk =
  spin_lock_claim_unused :: "'h \<Rightarrow> (nat \<times> 'h) option"
  spin_lock_claim :: "nat \<Rightarrow> 'h \<Rightarrow> 'h option"
  spin_lock_init :: "nat \<Rightarrow> 'h \<Rightarrow> nat \<times> 'h"
  spin_lock_is_claimed :: "nat \<Rightarrow> 'h \<Rightarrow> bool"
  spin_lock_blocking :: "nat \<Rightarrow> 'h \<Rightarrow> (u32 \<times> 'h) option"
  spin_unlock :: "nat \<Rightarrow> u32 \<Rightarrow> 'h \<Rightarrow> 'h"
  spin_unlock_unsafe :: "nat \<Rightarrow> 'h \<Rightarrow> 'h"
  sio_read :: "nat \<Rightarrow> 'h \<Rightarrow> u32 \<times> 'h"
  save_and_disable_interrupts :: "'h \<Rightarrow> u32 \<times> 'h"
  restore_interrupts :: "u32 \<Rightarrow> 'h \<Rightarrow> 'h"

definition PICO_SPINLOCK_ID_OS1 :: nat where "PICO_SPINLOCK_ID_OS1 = 14"
definition PICO_SPINLOCK_ID_OS2 :: nat where "PICO_SPINLOCK_ID_OS2 = 15"
definition CLAIM_FREE_FIRST :: nat where "CLAIM_FREE_FIRST = 24"
definition CLAIM_FREE_LAST :: nat where "CLAIM_FREE_LAST = 31"

text \<open>
  The documented behaviour: which hardware locks are held and claimed, read off the hardware
  value by \<open>held\<close> and \<open>claimed\<close>. \<open>spin_lock_claim_unused(true)\<close> panics when all of 24 to 31
  are claimed.
\<close>

definition sdk_ok :: "'h sdk \<Rightarrow> ('h \<Rightarrow> nat \<Rightarrow> bool) \<Rightarrow> ('h \<Rightarrow> nat \<Rightarrow> bool) \<Rightarrow> bool" where
  "sdk_ok D held claimed \<longleftrightarrow>
     (\<forall>n h. (held h n \<longrightarrow> spin_lock_blocking D n h = None) \<and>
       (\<not> held h n \<longrightarrow> (\<exists>v h'. spin_lock_blocking D n h = Some (v, h') \<and>
          held h' = (held h)(n := True) \<and> claimed h' = claimed h))) \<and>
     (\<forall>n v h. held (spin_unlock D n v h) = (held h)(n := False) \<and> claimed (spin_unlock D n v h) = claimed h) \<and>
     (\<forall>n h. held (spin_unlock_unsafe D n h) = (held h)(n := False) \<and>
       claimed (spin_unlock_unsafe D n h) = claimed h) \<and>
     (\<forall>n h. (if held h n then sio_read D n h = (0, h)
       else fst (sio_read D n h) \<noteq> 0 \<and> held (snd (sio_read D n h)) = (held h)(n := True) \<and>
         claimed (snd (sio_read D n h)) = claimed h)) \<and>
     (\<forall>h. held (snd (save_and_disable_interrupts D h)) = held h \<and>
       claimed (snd (save_and_disable_interrupts D h)) = claimed h) \<and>
     (\<forall>v h. held (restore_interrupts D v h) = held h \<and> claimed (restore_interrupts D v h) = claimed h) \<and>
     (\<forall>n h. fst (spin_lock_init D n h) = n \<and> held (snd (spin_lock_init D n h)) = (held h)(n := False) \<and>
       claimed (snd (spin_lock_init D n h)) = claimed h) \<and>
     (\<forall>n h. (claimed h n \<longrightarrow> spin_lock_claim D n h = None) \<and>
       (\<not> claimed h n \<longrightarrow> (\<exists>h'. spin_lock_claim D n h = Some h' \<and> held h' = held h \<and>
          claimed h' = (claimed h)(n := True)))) \<and>
     (\<forall>h. if \<forall>n \<in> {CLAIM_FREE_FIRST..CLAIM_FREE_LAST}. claimed h n then spin_lock_claim_unused D h = None
       else (\<exists>n h'. spin_lock_claim_unused D h = Some (n, h') \<and> n \<in> {CLAIM_FREE_FIRST..CLAIM_FREE_LAST} \<and>
          \<not> claimed h n \<and> held h' = held h \<and> claimed h' = (claimed h)(n := True))) \<and>
     (\<forall>n h. spin_lock_is_claimed D n h = claimed h n)"

section \<open>Operations\<close>

text \<open>\<open>hw\<close> is \<open>NULL\<close> until a hardware lock is attached; \<open>lock\<close> is the fallback word.\<close>

record spinlock_t =
  sl_hw :: "nat option"
  sl_lock :: u32

definition spinlock_init :: "'h sdk \<Rightarrow> 'h \<Rightarrow> (spinlock_t \<times> 'h) option" where
  "spinlock_init D h = do {
     (n, h1) \<leftarrow> spin_lock_claim_unused D h;
     let (hw, h2) = spin_lock_init D n h1;
     Some (\<lparr>sl_hw = Some hw, sl_lock = 0\<rparr>, h2)
   }"

definition claim_spinlock_by_id :: "'h sdk \<Rightarrow> nat \<Rightarrow> 'h \<Rightarrow> (spinlock_t \<times> 'h) option" where
  "claim_spinlock_by_id D lock_num h = do {
     h1 \<leftarrow> spin_lock_claim D lock_num h;
     let (hw, h2) = spin_lock_init D lock_num h1;
     Some (\<lparr>sl_hw = Some hw, sl_lock = 0\<rparr>, h2)
   }"

definition spinlock_irq_acquire :: "'h sdk \<Rightarrow> spinlock_t \<Rightarrow> 'h \<Rightarrow> (u32 \<times> spinlock_t \<times> 'h) option" where
  "spinlock_irq_acquire D s h = (case sl_hw s of
       Some n \<Rightarrow> do { (save, h1) \<leftarrow> spin_lock_blocking D n h; Some (save, s, h1) }
     | None \<Rightarrow>
         let (save, h1) = save_and_disable_interrupts D h
         in if sl_lock s \<noteq> 0 then None else Some (save, s\<lparr>sl_lock := 1\<rparr>, h1))"

definition spinlock_irq_release :: "'h sdk \<Rightarrow> spinlock_t \<Rightarrow> u32 \<Rightarrow> 'h \<Rightarrow> spinlock_t \<times> 'h" where
  "spinlock_irq_release D s saved_irq h = (case sl_hw s of
       Some n \<Rightarrow> (s, spin_unlock D n saved_irq h)
     | None \<Rightarrow> (s\<lparr>sl_lock := 0\<rparr>, restore_interrupts D saved_irq h))"

text \<open>\<open>while (!*s->hw) { }\<close>: each read of the register tries to take the lock.\<close>

partial_function (option) sio_spin :: "'h sdk \<Rightarrow> nat \<Rightarrow> 'h \<Rightarrow> 'h option" where
  "sio_spin D n h = (case sio_read D n h of (v, h') \<Rightarrow> if v = 0 then sio_spin D n h' else Some h')"

definition spinlock_acquire :: "'h sdk \<Rightarrow> spinlock_t \<Rightarrow> 'h \<Rightarrow> (spinlock_t \<times> 'h) option" where
  "spinlock_acquire D s h = (case sl_hw s of
       Some n \<Rightarrow> do { h1 \<leftarrow> sio_spin D n h; Some (s, h1) }
     | None \<Rightarrow> if sl_lock s \<noteq> 0 then None else Some (s\<lparr>sl_lock := 1\<rparr>, h))"

definition spinlock_release :: "'h sdk \<Rightarrow> spinlock_t \<Rightarrow> 'h \<Rightarrow> spinlock_t \<times> 'h" where
  "spinlock_release D s h = (case sl_hw s of
       Some n \<Rightarrow> (s, spin_unlock_unsafe D n h)
     | None \<Rightarrow> (s\<lparr>sl_lock := 0\<rparr>, h))"

section \<open>The striping pool\<close>

definition PRIM_POOL_SIZE :: nat where "PRIM_POOL_SIZE = 4"

text \<open>\<open>owner\<close> is the address of the primitive.\<close>

definition prim_pool_assign :: "(nat \<Rightarrow> spinlock_t) \<Rightarrow> nat \<Rightarrow> spinlock_t" where
  "prim_pool_assign prim_pool owner =
     \<lparr>sl_hw = sl_hw (prim_pool (drop_bit 4 owner mod PRIM_POOL_SIZE)), sl_lock = 0\<rparr>"

fun init_stripes :: "'h sdk \<Rightarrow> nat list \<Rightarrow> (nat \<Rightarrow> spinlock_t) \<Rightarrow> 'h \<Rightarrow> ((nat \<Rightarrow> spinlock_t) \<times> 'h) option" where
  "init_stripes D [] pool h = Some (pool, h)"
| "init_stripes D (i # is) pool h =
     Option.bind (spinlock_init D h) (\<lambda>(l, h1). init_stripes D is (pool(i := l)) h1)"

text \<open>\<open>sync_init\<close>: the pool and \<open>event_pool_lock\<close>.\<close>

definition sync_init ::
  "'h sdk \<Rightarrow> (nat \<Rightarrow> spinlock_t) \<Rightarrow> 'h \<Rightarrow> ((nat \<Rightarrow> spinlock_t) \<times> spinlock_t \<times> 'h) option" where
  "sync_init D pool h = do {
     (l0, h0) \<leftarrow> claim_spinlock_by_id D PICO_SPINLOCK_ID_OS1 h;
     (l1, h1) \<leftarrow> claim_spinlock_by_id D PICO_SPINLOCK_ID_OS2 h0;
     (pool', h2) \<leftarrow> init_stripes D [2..<PRIM_POOL_SIZE] (pool(0 := l0, 1 := l1)) h1;
     (ev, h3) \<leftarrow> spinlock_init D h2;
     Some (pool', ev, h3)
   }"

fun report_loop :: "'h sdk \<Rightarrow> nat list \<Rightarrow> nat \<Rightarrow> 'h \<Rightarrow> nat" where
  "report_loop D [] n h = n"
| "report_loop D (i # is) n h = report_loop D is (if spin_lock_is_claimed D i h then n + 1 else n) h"

definition sync_spinlock_report :: "'h sdk \<Rightarrow> 'h \<Rightarrow> nat \<times> nat" where
  "sync_spinlock_report D h =
     (report_loop D [CLAIM_FREE_FIRST..<CLAIM_FREE_LAST + 1] 0 h, CLAIM_FREE_LAST - CLAIM_FREE_FIRST + 1)"

section \<open>What a spinlock promises\<close>

definition lock_free :: "('h \<Rightarrow> nat \<Rightarrow> bool) \<Rightarrow> spinlock_t \<Rightarrow> 'h \<Rightarrow> bool" where
  "lock_free held l h \<longleftrightarrow> (case sl_hw l of Some n \<Rightarrow> \<not> held h n | None \<Rightarrow> sl_lock l = 0)"

lemma sdk_blocking:
  "sdk_ok D held claimed \<Longrightarrow> \<not> held h n \<Longrightarrow> \<exists>v h'. spin_lock_blocking D n h = Some (v, h') \<and>
     held h' = (held h)(n := True) \<and> claimed h' = claimed h"
  and sdk_blocked: "sdk_ok D held claimed \<Longrightarrow> held h n \<Longrightarrow> spin_lock_blocking D n h = None"
  and sdk_unlock: "sdk_ok D held claimed \<Longrightarrow> held (spin_unlock D n v h) = (held h)(n := False)"
  and sdk_irq: "sdk_ok D held claimed \<Longrightarrow> held (snd (save_and_disable_interrupts D h)) = held h"
    "sdk_ok D held claimed \<Longrightarrow> held (restore_interrupts D v h) = held h"
  and sdk_init: "sdk_ok D held claimed \<Longrightarrow> fst (spin_lock_init D n h) = n \<and>
     held (snd (spin_lock_init D n h)) = (held h)(n := False) \<and> claimed (snd (spin_lock_init D n h)) = claimed h"
  and sdk_claim: "sdk_ok D held claimed \<Longrightarrow> \<not> claimed h n \<Longrightarrow>
     \<exists>h'. spin_lock_claim D n h = Some h' \<and> held h' = held h \<and> claimed h' = (claimed h)(n := True)"
  and sdk_claimed: "sdk_ok D held claimed \<Longrightarrow> spin_lock_is_claimed D n h = claimed h n"
  unfolding sdk_ok_def by blast+

lemma sdk_claim_unused:
  assumes "sdk_ok D held claimed"
  shows "if \<forall>n \<in> {24..31}. claimed h n then spin_lock_claim_unused D h = None
       else (\<exists>n h'. spin_lock_claim_unused D h = Some (n, h') \<and> n \<in> {24..31} \<and>
          \<not> claimed h n \<and> held h' = held h \<and> claimed h' = (claimed h)(n := True))"
proof -
  from assms have "\<forall>h. if \<forall>n \<in> {CLAIM_FREE_FIRST..CLAIM_FREE_LAST}. claimed h n then spin_lock_claim_unused D h = None
       else (\<exists>n h'. spin_lock_claim_unused D h = Some (n, h') \<and> n \<in> {CLAIM_FREE_FIRST..CLAIM_FREE_LAST} \<and>
          \<not> claimed h n \<and> held h' = held h \<and> claimed h' = (claimed h)(n := True))"
    unfolding sdk_ok_def by (elim conjE)
  then show ?thesis unfolding CLAIM_FREE_FIRST_def CLAIM_FREE_LAST_def by (rule spec)
qed

text \<open>A critical section: a free lock is taken, and released it is what it was.\<close>

lemma irq_acquire_free:
  assumes D: "sdk_ok D held claimed" and l: "lock_free held l h"
  obtains v l' h' where "spinlock_irq_acquire D l h = Some (v, l', h')" "\<not> lock_free held l' h'"
    "\<And>n. sl_hw l \<noteq> Some n \<Longrightarrow> held h' n = held h n"
    "\<And>h2. held h2 = held h' \<Longrightarrow> \<exists>h3. spinlock_irq_release D l' v h2 = (l, h3) \<and> held h3 = held h"
proof (cases "sl_hw l")
  case (Some n)
  then have "\<not> held h n" using l by (simp add: lock_free_def)
  from sdk_blocking [OF D this] obtain v h' where
    h': "spin_lock_blocking D n h = Some (v, h')" "held h' = (held h)(n := True)" by blast
  have "(held h)(n := False) = held h" using \<open>\<not> held h n\<close> by (simp add: fun_upd_idem)
  then show ?thesis using that [of v l h'] Some h' sdk_unlock [OF D]
    by (simp add: spinlock_irq_acquire_def spinlock_irq_release_def lock_free_def)
next
  case None
  then have z: "sl_lock l = 0" using l by (simp add: lock_free_def)
  obtain v h' where h': "save_and_disable_interrupts D h = (v, h')" by (cases "save_and_disable_interrupts D h")
  then have "held h' = held h" using sdk_irq(1) [OF D, of h] by simp
  moreover have "(l\<lparr>sl_lock := 1\<rparr>)\<lparr>sl_lock := 0\<rparr> = l" using z by (cases l) simp
  ultimately show ?thesis using that [of v "l\<lparr>sl_lock := 1\<rparr>" h'] None h' z sdk_irq(2) [OF D]
    by (simp add: spinlock_irq_acquire_def spinlock_irq_release_def lock_free_def)
qed

lemma irq_acquire_held:
  "sdk_ok D held claimed \<Longrightarrow> \<not> lock_free held l h \<Longrightarrow> spinlock_irq_acquire D l h = None"
  by (auto simp: lock_free_def spinlock_irq_acquire_def sdk_blocked split: option.splits prod.splits)

section \<open>Claims\<close>

text \<open>The locks of the contended range that are still free, and the report as a count.\<close>

definition unclaimed :: "('h \<Rightarrow> nat \<Rightarrow> bool) \<Rightarrow> 'h \<Rightarrow> nat set" where
  "unclaimed claimed h = {n \<in> {24..31}. \<not> claimed h n}"

lemma finite_unclaimed [simp]: "finite (unclaimed claimed h)"
  by (rule finite_subset [of _ "{24..31}"]) (auto simp: unclaimed_def)

lemma spinlock_init_spec:
  assumes D: "sdk_ok D held claimed" and free: "unclaimed claimed h \<noteq> {}"
  obtains n h' where "spinlock_init D h = Some (\<lparr>sl_hw = Some n, sl_lock = 0\<rparr>, h')" "n \<in> unclaimed claimed h"
    "held h' = (held h)(n := False)" "claimed h' = (claimed h)(n := True)"
    "unclaimed claimed h' = unclaimed claimed h - {n}"
proof -
  from free have "\<not> (\<forall>n \<in> {24..31}. claimed h n)" by (auto simp: unclaimed_def)
  with sdk_claim_unused [OF D, of h] obtain n h1 where
    h1: "spin_lock_claim_unused D h = Some (n, h1)" "n \<in> {24..31}" "\<not> claimed h n"
      "held h1 = held h" "claimed h1 = (claimed h)(n := True)" by metis
  obtain k h2 where h2: "spin_lock_init D n h1 = (k, h2)" by (cases "spin_lock_init D n h1")
  with sdk_init [OF D, of n h1] have k: "k = n" "held h2 = (held h)(n := False)" "claimed h2 = (claimed h)(n := True)"
    using h1(4,5) by simp_all
  then have "unclaimed claimed h2 = unclaimed claimed h - {n}" by (auto simp: unclaimed_def)
  with that [of n h2] h1 h2 k show ?thesis by (simp add: spinlock_init_def unclaimed_def)
qed

lemma spinlock_init_panics:
  "sdk_ok D held claimed \<Longrightarrow> unclaimed claimed h = {} \<Longrightarrow> spinlock_init D h = None"
  using sdk_claim_unused [of D held claimed h] by (auto simp: spinlock_init_def unclaimed_def split: if_splits)

lemma claim_by_id_spec:
  assumes D: "sdk_ok D held claimed" and free: "\<not> claimed h n"
  obtains h' where "claim_spinlock_by_id D n h = Some (\<lparr>sl_hw = Some n, sl_lock = 0\<rparr>, h')"
    "held h' = (held h)(n := False)" "claimed h' = (claimed h)(n := True)"
proof -
  from sdk_claim [OF D free] obtain h1 where
    h1: "spin_lock_claim D n h = Some h1" "held h1 = held h" "claimed h1 = (claimed h)(n := True)" by blast
  obtain k h2 where h2: "spin_lock_init D n h1 = (k, h2)" by (cases "spin_lock_init D n h1")
  with sdk_init [OF D, of n h1] h1 that [of h2] show ?thesis by (simp add: claim_spinlock_by_id_def)
qed

lemma report_loop_count:
  "sdk_ok D held claimed \<Longrightarrow> report_loop D is n h = n + length (filter (claimed h) is)"
  by (induction "is" arbitrary: n) (auto simp: sdk_claimed)

lemma report_unclaimed:
  assumes "sdk_ok D held claimed"
  shows "fst (sync_spinlock_report D h) + card (unclaimed claimed h) = 8"
proof -
  have "length (filter (claimed h) [24..<32]) + length (filter (\<lambda>n. \<not> claimed h n) [24..<32]) = length [24..<32]"
    by (rule sum_length_filter_compl)
  moreover have "unclaimed claimed h = set (filter (\<lambda>n. \<not> claimed h n) [24..<32])"
    unfolding set_filter set_upt unclaimed_def by auto
  then have "card (unclaimed claimed h) = length (filter (\<lambda>n. \<not> claimed h n) [24..<32])"
    by (simp only: distinct_card distinct_filter distinct_upt)
  moreover have "fst (sync_spinlock_report D h) = length (filter (claimed h) [24..<32])"
    using report_loop_count [OF assms, of "[24..<32]" 0 h]
    by (simp add: sync_spinlock_report_def CLAIM_FREE_FIRST_def CLAIM_FREE_LAST_def)
  ultimately show ?thesis by simp
qed

lemma sync_init_outcome:
  assumes D: "sdk_ok D held claimed" and os: "\<not> claimed h PICO_SPINLOCK_ID_OS1" "\<not> claimed h PICO_SPINLOCK_ID_OS2"
  shows "if 3 \<le> card (unclaimed claimed h) then
      \<exists>pool' ev h'. sync_init D pool h = Some (pool', ev, h') \<and>
        distinct (map (\<lambda>i. sl_hw (pool' i)) [0..<PRIM_POOL_SIZE] @ [sl_hw ev]) \<and>
        (\<forall>i < PRIM_POOL_SIZE. sl_hw (pool' i) \<noteq> None \<and> lock_free held (pool' i) h') \<and> lock_free held ev h' \<and>
        fst (sync_spinlock_report D h') = fst (sync_spinlock_report D h) + 3 \<and>
        (\<forall>addr. \<exists>i < PRIM_POOL_SIZE. prim_pool_assign pool' addr = \<lparr>sl_hw = sl_hw (pool' i), sl_lock = 0\<rparr>)
    else sync_init D pool h = None"
proof -
  have os': "\<not> claimed h 14" "\<not> claimed h 15"
    using os by (simp_all add: PICO_SPINLOCK_ID_OS1_def PICO_SPINLOCK_ID_OS2_def)
  obtain h0 where h0: "claim_spinlock_by_id D 14 h = Some (\<lparr>sl_hw = Some 14, sl_lock = 0\<rparr>, h0)"
    "held h0 = (held h)(14 := False)" "claimed h0 = (claimed h)(14 := True)"
    by (rule claim_by_id_spec [OF D os'(1)])
  then have "\<not> claimed h0 15" using os' by simp
  then obtain h1 where h1: "claim_spinlock_by_id D 15 h0 = Some (\<lparr>sl_hw = Some 15, sl_lock = 0\<rparr>, h1)"
    "held h1 = (held h0)(15 := False)" "claimed h1 = (claimed h0)(15 := True)"
    by (rule claim_by_id_spec [OF D])
  have U: "unclaimed claimed h1 = unclaimed claimed h" using h0(3) h1(3) by (auto simp: unclaimed_def)
  have two: "[2..<PRIM_POOL_SIZE] = [2, 3]" by (simp add: PRIM_POOL_SIZE_def upt_rec)
  let ?l = "\<lambda>n. \<lparr>sl_hw = Some n, sl_lock = 0\<rparr>"
  have run: "sync_init D pool h = Option.bind (spinlock_init D h1) (\<lambda>(a, h2).
      Option.bind (spinlock_init D h2) (\<lambda>(b, h3). Option.bind (spinlock_init D h3) (\<lambda>(c, h4).
        Some (pool(0 := ?l 14, 1 := ?l 15, 2 := a, 3 := b), c, h4))))"
    unfolding sync_init_def two using h0(1) h1(1)
    by (simp add: PICO_SPINLOCK_ID_OS1_def PICO_SPINLOCK_ID_OS2_def Option.bind_assoc case_prod_beta')
  show ?thesis
  proof (cases "3 \<le> card (unclaimed claimed h)")
    case True
    then have "unclaimed claimed h1 \<noteq> {}" using U by auto
    then obtain a h2 where h2: "spinlock_init D h1 = Some (?l a, h2)" "a \<in> unclaimed claimed h1"
      "held h2 = (held h1)(a := False)" "unclaimed claimed h2 = unclaimed claimed h1 - {a}"
      by (rule spinlock_init_spec [OF D])
    have c2: "card (unclaimed claimed h2) = card (unclaimed claimed h) - 1" using h2(2,4) U by simp
    then have "unclaimed claimed h2 \<noteq> {}" using True by auto
    then obtain b h3 where h3: "spinlock_init D h2 = Some (?l b, h3)" "b \<in> unclaimed claimed h2"
      "held h3 = (held h2)(b := False)" "unclaimed claimed h3 = unclaimed claimed h2 - {b}"
      by (rule spinlock_init_spec [OF D])
    have c3: "card (unclaimed claimed h3) = card (unclaimed claimed h) - 2" using h3(2,4) c2 by simp
    then have "unclaimed claimed h3 \<noteq> {}" using True by auto
    then obtain c h4 where h4: "spinlock_init D h3 = Some (?l c, h4)" "c \<in> unclaimed claimed h3"
      "held h4 = (held h3)(c := False)" "unclaimed claimed h4 = unclaimed claimed h3 - {c}"
      by (rule spinlock_init_spec [OF D])
    have c4: "card (unclaimed claimed h4) = card (unclaimed claimed h) - 3" using h4(2,4) c3 by simp
    let ?pool = "pool(0 := ?l 14, 1 := ?l 15, 2 := ?l a, 3 := ?l b)"
    have d: "a \<noteq> b" "a \<noteq> c" "b \<noteq> c" "a \<in> {24..31}" "b \<in> {24..31}" "c \<in> {24..31}"
      using h2(2,4) h3(2,4) h4(2) by (auto simp: unclaimed_def)
    have four: "[0..<PRIM_POOL_SIZE] = [0, 1, 2, 3]" by (simp add: PRIM_POOL_SIZE_def upt_rec)
    have all4: "(\<forall>i < PRIM_POOL_SIZE. P i) \<longleftrightarrow> P 0 \<and> P 1 \<and> P 2 \<and> P 3" for P
      by (auto simp: PRIM_POOL_SIZE_def numeral_eq_Suc less_Suc_eq)
    have "sync_init D pool h = Some (?pool, ?l c, h4)" unfolding run by (simp add: h2(1) h3(1) h4(1))
    moreover have "distinct (map (\<lambda>i. sl_hw (?pool i)) [0..<PRIM_POOL_SIZE] @ [sl_hw (?l c)])"
      unfolding four using d by auto
    moreover have "\<forall>i < PRIM_POOL_SIZE. sl_hw (?pool i) \<noteq> None \<and> lock_free held (?pool i) h4" "lock_free held (?l c) h4"
      unfolding all4 using h0(2) h1(2) h2(3) h3(3) h4(3) by (simp_all add: lock_free_def)
    moreover have "fst (sync_spinlock_report D h4) = fst (sync_spinlock_report D h) + 3"
      using report_unclaimed [OF D, of h] report_unclaimed [OF D, of h4] c4 True by simp
    moreover have "\<forall>addr. \<exists>i < PRIM_POOL_SIZE. prim_pool_assign ?pool addr = \<lparr>sl_hw = sl_hw (?pool i), sl_lock = 0\<rparr>"
      unfolding prim_pool_assign_def by (metis PRIM_POOL_SIZE_def mod_less_divisor zero_less_numeral)
    ultimately show ?thesis using True by (simp del: fun_upd_apply)
  next
    case False
    then have few: "card (unclaimed claimed h) < 3" by simp
    have "sync_init D pool h = None"
    proof (rule ccontr)
      assume "\<not> ?thesis"
      then obtain a h2 b h3 c h4 where r: "spinlock_init D h1 = Some (a, h2)" "spinlock_init D h2 = Some (b, h3)"
        "spinlock_init D h3 = Some (c, h4)" unfolding run by (auto simp: bind_simps split: prod.splits)
      have step: "\<exists>n. n \<in> unclaimed claimed x \<and> unclaimed claimed y = unclaimed claimed x - {n}"
        if "spinlock_init D x = Some (l, y)" for x y l
      proof -
        have "unclaimed claimed x \<noteq> {}" using spinlock_init_panics [OF D, of x] that by auto
        then show ?thesis by (rule spinlock_init_spec [OF D]) (use that in auto)
      qed
      have "card (unclaimed claimed x) = Suc (card (unclaimed claimed y))" if "spinlock_init D x = Some (l, y)" for x y l
        using step [OF that] card_Suc_Diff1 [OF finite_unclaimed] by metis
      from this [OF r(1)] this [OF r(2)] this [OF r(3)] few U show False by simp
    qed
    with False show ?thesis by simp
  qed
qed

text \<open>
  C22. \<open>sync_init\<close> returns exactly when the two OS locks are free and three of the eight
  contended locks are; then the four stripes and \<open>event_pool_lock\<close> are five different hardware
  locks, all of them free, the report counts three more claims, and every primitive that
  \<open>prim_pool_assign\<close> gives a lock shares one of the four stripes, whatever its address.
\<close>

theorem sync_init_budget:
  assumes D: "sdk_ok D held claimed" and os: "\<not> claimed h PICO_SPINLOCK_ID_OS1" "\<not> claimed h PICO_SPINLOCK_ID_OS2"
  shows "if 3 \<le> card (unclaimed claimed h) then
      \<exists>pool' ev h'. sync_init D pool h = Some (pool', ev, h') \<and>
        distinct (map (\<lambda>i. sl_hw (pool' i)) [0..<PRIM_POOL_SIZE] @ [sl_hw ev]) \<and>
        (\<forall>i < PRIM_POOL_SIZE. sl_hw (pool' i) \<noteq> None \<and> lock_free held (pool' i) h') \<and> lock_free held ev h' \<and>
        fst (sync_spinlock_report D h') = fst (sync_spinlock_report D h) + 3 \<and>
        (\<forall>addr. \<exists>i < PRIM_POOL_SIZE. prim_pool_assign pool' addr = \<lparr>sl_hw = sl_hw (pool' i), sl_lock = 0\<rparr>)
    else sync_init D pool h = None"
  by (rule sync_init_outcome [OF assms])

text \<open>A machine that satisfies the hypotheses: the locks held and claimed, and nothing else.\<close>

definition sim_sdk :: "((nat \<Rightarrow> bool) \<times> (nat \<Rightarrow> bool)) sdk" where
  "sim_sdk = \<lparr>
     spin_lock_claim_unused = (\<lambda>(held, cl). case find (\<lambda>n. \<not> cl n) [24..<32] of
         None \<Rightarrow> None | Some n \<Rightarrow> Some (n, (held, cl(n := True)))),
     spin_lock_claim = (\<lambda>n (held, cl). if cl n then None else Some (held, cl(n := True))),
     spin_lock_init = (\<lambda>n (held, cl). (n, (held(n := False), cl))),
     spin_lock_is_claimed = (\<lambda>n (held, cl). cl n),
     spin_lock_blocking = (\<lambda>n (held, cl). if held n then None else Some (0, (held(n := True), cl))),
     spin_unlock = (\<lambda>n v (held, cl). (held(n := False), cl)),
     spin_unlock_unsafe = (\<lambda>n (held, cl). (held(n := False), cl)),
     sio_read = (\<lambda>n (held, cl). if held n then (0, (held, cl)) else (1, (held(n := True), cl))),
     save_and_disable_interrupts = (\<lambda>h. (0, h)),
     restore_interrupts = (\<lambda>v h. h)\<rparr>"

lemma sim_sdk_ok: "sdk_ok sim_sdk fst snd"
  unfolding sdk_ok_def
proof (intro conjI allI)
  fix h :: "(nat \<Rightarrow> bool) \<times> (nat \<Rightarrow> bool)"
  show "if \<forall>n\<in>{CLAIM_FREE_FIRST..CLAIM_FREE_LAST}. snd h n then spin_lock_claim_unused sim_sdk h = None
       else \<exists>n h'. spin_lock_claim_unused sim_sdk h = Some (n, h') \<and> n \<in> {CLAIM_FREE_FIRST..CLAIM_FREE_LAST} \<and>
          \<not> snd h n \<and> fst h' = fst h \<and> snd h' = (snd h)(n := True)"
  proof (cases "find (\<lambda>n. \<not> snd h n) [24..<32]")
    case None
    then have "\<not> (\<exists>n. n \<in> set [24..<32] \<and> \<not> snd h n)" unfolding find_None_iff .
    then have "\<forall>n\<in>{24..31}. snd h n" unfolding set_upt by auto
    with None show ?thesis
      by (simp add: CLAIM_FREE_FIRST_def CLAIM_FREE_LAST_def sim_sdk_def split_beta del: upt_Suc)
  next
    case (Some n)
    then have "n \<in> set [24..<32] \<and> \<not> snd h n" by (rule find_SomeD)
    then have "n \<in> {24..31}" "\<not> snd h n" unfolding set_upt by auto
    with Some show ?thesis
      by (auto simp: CLAIM_FREE_FIRST_def CLAIM_FREE_LAST_def sim_sdk_def split_beta simp del: upt_Suc)
  qed
qed (auto simp: sim_sdk_def split_beta)

theorem sync_init_budget_witness:
  "\<exists>pool' ev h'. sync_init sim_sdk (\<lambda>_. \<lparr>sl_hw = None, sl_lock = 0\<rparr>) (\<lambda>_. False, \<lambda>_. False) = Some (pool', ev, h') \<and>
     fst (sync_spinlock_report sim_sdk h') = fst (sync_spinlock_report sim_sdk (\<lambda>_. False, \<lambda>_. False)) + 3"
proof -
  let ?h = "(\<lambda>_. False, \<lambda>_. False) :: (nat \<Rightarrow> bool) \<times> (nat \<Rightarrow> bool)"
  have "unclaimed snd ?h = {24..31}" by (auto simp: unclaimed_def)
  then have c: "3 \<le> card (unclaimed snd ?h)" by simp
  have os: "\<not> snd ?h PICO_SPINLOCK_ID_OS1" "\<not> snd ?h PICO_SPINLOCK_ID_OS2" by simp_all
  show ?thesis
    using sync_init_budget [OF sim_sdk_ok os, of "\<lambda>_. \<lparr>sl_hw = None, sl_lock = 0\<rparr>"]
    unfolding if_P [OF c] by blast
qed

end
