(* ===== verification/Sync.thy ===== *)
theory Sync
  imports Sched Spinlock
begin

text \<open>
  \<open>src/kernel/sync.c\<close>: mutexes, semaphores, event flags and message queues over waiter lists
  linked through \<open>tcb_t.next\<close>. A primitive is a record that each operation returns updated; its
  \<open>waiters\<close> field is the head pointer of a chain in the thread table.

  A blocking operation is a \<open>while (1)\<close> around a critical section; one definition is one pass
  through it. It either completes, or parks the calling thread (waiter list, BLOCKED, yield) and
  is entered again from the top when the thread runs next.
\<close>

section \<open>State\<close>

record event_waiter =
  ew_thread :: "nat option"
  ew_mask :: u32
  ew_all :: bool

record 'h sync_state = kstate +
  sio :: 'h
  event_pool_lock :: spinlock_t
  event_waiter_pool :: "nat \<Rightarrow> event_waiter"

record kmutex_t =
  m_spin :: spinlock_t
  m_owner_tid :: u32
  m_count :: u32
  m_waiters :: "nat option"

record ksemaphore_t =
  k_spin :: spinlock_t
  k_count :: "32 word"
  k_waiters :: "nat option"

record event_flags_t =
  e_spin :: spinlock_t
  e_flags :: u32
  e_waiters :: "nat option"

record mqueue_t =
  q_spin :: spinlock_t
  q_buf :: "u8 list list"
  q_msg_size :: u32
  q_head :: u32
  q_tail :: u32
  q_count :: u32
  q_send_waiters :: "nat option"
  q_recv_waiters :: "nat option"

definition MQ_MAX_MSG :: u32 where "MQ_MAX_MSG = 16"
definition MQ_MSG_SIZE :: u32 where "MQ_MSG_SIZE = 64"

text \<open>Taking and releasing a primitive's spinlock in the state.\<close>

definition spin_acquire ::
  "'h sdk \<Rightarrow> spinlock_t \<Rightarrow> ('h, 'a) sync_state_scheme \<Rightarrow> (u32 \<times> spinlock_t \<times> ('h, 'a) sync_state_scheme) option" where
  "spin_acquire D l s = do {
     (save, l', h) \<leftarrow> spinlock_irq_acquire D l (sio s);
     Some (save, l', s\<lparr>sio := h\<rparr>)
   }"

definition spin_release ::
  "'h sdk \<Rightarrow> spinlock_t \<Rightarrow> u32 \<Rightarrow> ('h, 'a) sync_state_scheme \<Rightarrow> spinlock_t \<times> ('h, 'a) sync_state_scheme" where
  "spin_release D l save s = (case spinlock_irq_release D l save (sio s) of (l', h) \<Rightarrow> (l', s\<lparr>sio := h\<rparr>))"

section \<open>Waiter lists\<close>

definition waiter_enqueue ::
  "nat option \<Rightarrow> nat \<Rightarrow> 'a kstate_scheme \<Rightarrow> (nat option \<times> 'a kstate_scheme) option" where
  "waiter_enqueue head t s = (let s1 = set_next t None s in
     (case head of
        None \<Rightarrow> Some (Some t, s1)
      | Some h \<Rightarrow> do {
          cur \<leftarrow> last_node (next_of s1) h;
          Some (Some h, set_next cur (Some t) s1)
        }))"

definition waiter_dequeue ::
  "nat option \<Rightarrow> 'a kstate_scheme \<Rightarrow> nat option \<times> nat option \<times> 'a kstate_scheme" where
  "waiter_dequeue head s = (case head of
       None \<Rightarrow> (None, None, s)
     | Some t \<Rightarrow> (Some t, next_of s t, set_next t None s))"

partial_function (option) wake_one ::
  "nat \<Rightarrow> nat option \<Rightarrow> 'a kstate_scheme \<Rightarrow> (nat option \<times> 'a kstate_scheme) option" where
  "wake_one core head s = (case waiter_dequeue head s of
       (None, head', s') \<Rightarrow> Some (head', s')
     | (Some t, head', s') \<Rightarrow> Option.bind (sched_unblock core (Some t) s')
         (\<lambda>(woken, s''). if woken then Some (head', s'') else wake_one core head' s''))"

text \<open>The wait path up to the release of the spinlock: enqueue the calling thread and block it.\<close>

definition park :: "nat \<Rightarrow> nat option \<Rightarrow> 'a kstate_scheme \<Rightarrow> (nat option \<times> 'a kstate_scheme) option" where
  "park core head s = do {
     t \<leftarrow> current_tcb s core;
     (head', s1) \<leftarrow> waiter_enqueue head t s;
     s2 \<leftarrow> sched_block (Some t) s1;
     Some (head', s2)
   }"

section \<open>Mutex\<close>

definition kmutex_init :: "(nat \<Rightarrow> spinlock_t) \<Rightarrow> nat \<Rightarrow> kmutex_t" where
  "kmutex_init pool addr =
     \<lparr>m_spin = prim_pool_assign pool addr, m_owner_tid = - 1, m_count = 0, m_waiters = None\<rparr>"

text \<open>\<^const>\<open>True\<close>: the lock is taken; \<^const>\<open>False\<close>: the thread is parked and tries again.\<close>

definition kmutex_lock ::
  "'h sdk \<Rightarrow> nat \<Rightarrow> kmutex_t \<Rightarrow> ('h, 'a) sync_state_scheme \<Rightarrow>
     (bool \<times> kmutex_t \<times> ('h, 'a) sync_state_scheme) option" where
  "kmutex_lock D core m s = do {
     (irq_save, l, s1) \<leftarrow> spin_acquire D (m_spin m) s;
     if m_owner_tid m = - 1 then do {
       cur \<leftarrow> current_tcb s1 core;
       let (l', s2) = spin_release D l irq_save s1;
       Some (True, m\<lparr>m_spin := l', m_owner_tid := t_tid (tcb_pool s1 cur), m_count := 1\<rparr>, s2)
     }
     else do {
       (w, s2) \<leftarrow> park core (m_waiters m) s1;
       let (l', s3) = spin_release D l irq_save s2;
       Some (False, m\<lparr>m_spin := l', m_waiters := w\<rparr>, sched_yield core s3)
     }
   }"

definition kmutex_unlock ::
  "'h sdk \<Rightarrow> nat \<Rightarrow> kmutex_t \<Rightarrow> ('h, 'a) sync_state_scheme \<Rightarrow> (kmutex_t \<times> ('h, 'a) sync_state_scheme) option" where
  "kmutex_unlock D core m s = do {
     (irq_save, l, s1) \<leftarrow> spin_acquire D (m_spin m) s;
     (w, s2) \<leftarrow> wake_one core (m_waiters m) s1;
     let (l', s3) = spin_release D l irq_save s2;
     Some (m\<lparr>m_spin := l', m_owner_tid := - 1, m_count := 0, m_waiters := w\<rparr>, s3)
   }"

section \<open>Semaphore\<close>

definition ksemaphore_init :: "(nat \<Rightarrow> spinlock_t) \<Rightarrow> nat \<Rightarrow> 32 word \<Rightarrow> ksemaphore_t" where
  "ksemaphore_init pool addr initial_count =
     \<lparr>k_spin = prim_pool_assign pool addr, k_count = initial_count, k_waiters = None\<rparr>"

definition ksemaphore_wait ::
  "'h sdk \<Rightarrow> nat \<Rightarrow> ksemaphore_t \<Rightarrow> ('h, 'a) sync_state_scheme \<Rightarrow>
     (bool \<times> ksemaphore_t \<times> ('h, 'a) sync_state_scheme) option" where
  "ksemaphore_wait D core k s = do {
     (irq_save, l, s1) \<leftarrow> spin_acquire D (k_spin k) s;
     if 0 < sint (k_count k) then do {
       let (l', s2) = spin_release D l irq_save s1;
       Some (True, k\<lparr>k_spin := l', k_count := k_count k - 1\<rparr>, s2)
     }
     else do {
       (w, s2) \<leftarrow> park core (k_waiters k) s1;
       let (l', s3) = spin_release D l irq_save s2;
       Some (False, k\<lparr>k_spin := l', k_waiters := w\<rparr>, sched_yield core s3)
     }
   }"

definition ksemaphore_signal ::
  "'h sdk \<Rightarrow> nat \<Rightarrow> ksemaphore_t \<Rightarrow> ('h, 'a) sync_state_scheme \<Rightarrow>
     (ksemaphore_t \<times> ('h, 'a) sync_state_scheme) option" where
  "ksemaphore_signal D core k s = do {
     (irq_save, l, s1) \<leftarrow> spin_acquire D (k_spin k) s;
     (w, s2) \<leftarrow> wake_one core (k_waiters k) s1;
     let (l', s3) = spin_release D l irq_save s2;
     Some (k\<lparr>k_spin := l', k_count := k_count k + 1, k_waiters := w\<rparr>, s3)
   }"

section \<open>Event flags\<close>

definition MAX_EVENT_WAITERS :: nat where "MAX_EVENT_WAITERS = MAX_THREADS"

definition event_waiter_alloc ::
  "'h sdk \<Rightarrow> nat \<Rightarrow> u32 \<Rightarrow> bool \<Rightarrow> ('h, 'a) sync_state_scheme \<Rightarrow> (int \<times> ('h, 'a) sync_state_scheme) option" where
  "event_waiter_alloc D t wmask wait_for_all s = do {
     (save, l, s1) \<leftarrow> spin_acquire D (event_pool_lock s) s;
     let (idx, s2) = (case first_slot (\<lambda>i. ew_thread (event_waiter_pool s1 i) = None) MAX_EVENT_WAITERS of
         None \<Rightarrow> (- 1, s1)
       | Some i \<Rightarrow> (int i, s1\<lparr>event_waiter_pool := (event_waiter_pool s1)
           (i := \<lparr>ew_thread = Some t, ew_mask = wmask, ew_all = wait_for_all\<rparr>)\<rparr>));
     let (l', s3) = spin_release D l save s2;
     Some (idx, s3\<lparr>event_pool_lock := l'\<rparr>)
   }"

definition event_waiter_free ::
  "'h sdk \<Rightarrow> nat \<Rightarrow> ('h, 'a) sync_state_scheme \<Rightarrow> ('h, 'a) sync_state_scheme option" where
  "event_waiter_free D t s = do {
     (save, l, s1) \<leftarrow> spin_acquire D (event_pool_lock s) s;
     let s2 = (case first_slot (\<lambda>i. ew_thread (event_waiter_pool s1 i) = Some t) MAX_EVENT_WAITERS of
         None \<Rightarrow> s1
       | Some i \<Rightarrow> s1\<lparr>event_waiter_pool := (event_waiter_pool s1)
           (i := (event_waiter_pool s1 i)\<lparr>ew_thread := None\<rparr>)\<rparr>);
     let (l', s3) = spin_release D l save s2;
     Some (s3\<lparr>event_pool_lock := l'\<rparr>)
   }"

text \<open>The mask and mode a waiter is registered with, read under the pool lock.\<close>

definition event_waiter_lookup ::
  "'h sdk \<Rightarrow> nat \<Rightarrow> ('h, 'a) sync_state_scheme \<Rightarrow> ((u32 \<times> bool) \<times> ('h, 'a) sync_state_scheme) option" where
  "event_waiter_lookup D t s = do {
     (save, l, s1) \<leftarrow> spin_acquire D (event_pool_lock s) s;
     let r = (case first_slot (\<lambda>i. ew_thread (event_waiter_pool s1 i) = Some t) MAX_EVENT_WAITERS of
         None \<Rightarrow> (0, False)
       | Some i \<Rightarrow> (ew_mask (event_waiter_pool s1 i), ew_all (event_waiter_pool s1 i)));
     let (l', s2) = spin_release D l save s1;
     Some (r, s2\<lparr>event_pool_lock := l'\<rparr>)
   }"

definition event_satisfied :: "u32 \<Rightarrow> u32 \<Rightarrow> bool \<Rightarrow> bool" where
  "event_satisfied flags wmask wait_for_all \<longleftrightarrow>
     (if wait_for_all then and flags wmask = wmask else and flags wmask \<noteq> 0)"

definition event_flags_init :: "(nat \<Rightarrow> spinlock_t) \<Rightarrow> nat \<Rightarrow> event_flags_t" where
  "event_flags_init pool addr = \<lparr>e_spin = prim_pool_assign pool addr, e_flags = 0, e_waiters = None\<rparr>"

text \<open>\<open>prev_ptr\<close> is \<open>&e->waiters\<close> (\<^const>\<open>None\<close>) or the \<open>next\<close> field of a thread.\<close>

partial_function (option) event_set_loop ::
  "'h sdk \<Rightarrow> nat \<Rightarrow> nat option \<Rightarrow> nat option \<Rightarrow> u32 \<Rightarrow> nat option \<Rightarrow> ('h, 'a) sync_state_scheme \<Rightarrow>
     (nat option \<times> ('h, 'a) sync_state_scheme) option" where
  "event_set_loop D core cur prev flags waiters s = (case cur of
       None \<Rightarrow> Some (waiters, s)
     | Some c \<Rightarrow>
         let next = next_of s c
         in Option.bind (event_waiter_lookup D c s) (\<lambda>((wmask, wait_for_all), s1).
           if event_satisfied flags wmask wait_for_all then
             let (waiters', s2) = (case prev of None \<Rightarrow> (next, s1) | Some p \<Rightarrow> (waiters, set_next p next s1));
                 s3 = set_next c None s2
             in Option.bind (event_waiter_free D c s3) (\<lambda>s4.
                Option.bind (sched_unblock core (Some c) s4) (\<lambda>(woken, s5).
                  event_set_loop D core next prev flags waiters' s5))
           else event_set_loop D core next (Some c) flags waiters s1))"

definition event_flags_set ::
  "'h sdk \<Rightarrow> nat \<Rightarrow> event_flags_t \<Rightarrow> u32 \<Rightarrow> ('h, 'a) sync_state_scheme \<Rightarrow>
     (event_flags_t \<times> ('h, 'a) sync_state_scheme) option" where
  "event_flags_set D core e wmask s = do {
     (irq_save, l, s1) \<leftarrow> spin_acquire D (e_spin e) s;
     let flags = or (e_flags e) wmask;
     (w, s2) \<leftarrow> event_set_loop D core (e_waiters e) None flags (e_waiters e) s1;
     let (l', s3) = spin_release D l irq_save s2;
     Some (e\<lparr>e_spin := l', e_flags := flags, e_waiters := w\<rparr>, s3)
   }"

definition event_flags_clear ::
  "'h sdk \<Rightarrow> event_flags_t \<Rightarrow> u32 \<Rightarrow> ('h, 'a) sync_state_scheme \<Rightarrow>
     (event_flags_t \<times> ('h, 'a) sync_state_scheme) option" where
  "event_flags_clear D e wmask s = do {
     (irq_save, l, s1) \<leftarrow> spin_acquire D (e_spin e) s;
     let (l', s2) = spin_release D l irq_save s1;
     Some (e\<lparr>e_spin := l', e_flags := and (e_flags e) (not wmask)\<rparr>, s2)
   }"

definition event_flags_wait ::
  "'h sdk \<Rightarrow> nat \<Rightarrow> event_flags_t \<Rightarrow> u32 \<Rightarrow> bool \<Rightarrow> ('h, 'a) sync_state_scheme \<Rightarrow>
     (u32 option \<times> event_flags_t \<times> ('h, 'a) sync_state_scheme) option" where
  "event_flags_wait D core e wmask wait_for_all s = do {
     (irq_save, l, s1) \<leftarrow> spin_acquire D (e_spin e) s;
     if event_satisfied (e_flags e) wmask wait_for_all then do {
       let (l', s2) = spin_release D l irq_save s1;
       Some (Some (e_flags e), e\<lparr>e_spin := l'\<rparr>, s2)
     }
     else do {
       t \<leftarrow> current_tcb s1 core;
       (idx, s2) \<leftarrow> event_waiter_alloc D t wmask wait_for_all s1;
       (w, s3) \<leftarrow> park core (e_waiters e) s2;
       let (l', s4) = spin_release D l irq_save s3;
       Some (None, e\<lparr>e_spin := l', e_waiters := w\<rparr>, sched_yield core s4)
     }
   }"

section \<open>Message queue\<close>

definition mqueue_init :: "(nat \<Rightarrow> spinlock_t) \<Rightarrow> nat \<Rightarrow> u32 \<Rightarrow> mqueue_t" where
  "mqueue_init pool addr msg_size =
     \<lparr>q_spin = prim_pool_assign pool addr, q_buf = replicate (unat MQ_MAX_MSG) (replicate (unat MQ_MSG_SIZE) 0),
      q_msg_size = (if msg_size \<le> MQ_MSG_SIZE then msg_size else MQ_MSG_SIZE),
      q_head = 0, q_tail = 0, q_count = 0, q_send_waiters = None, q_recv_waiters = None\<rparr>"

text \<open>\<open>memcpy(dst, src, n)\<close> into and out of a slot of the ring.\<close>

definition ring_put :: "u8 list \<Rightarrow> mqueue_t \<Rightarrow> mqueue_t" where
  "ring_put msg q = q\<lparr>
     q_buf := (q_buf q)[unat (q_tail q) := take (unat (q_msg_size q)) msg @
       drop (unat (q_msg_size q)) (q_buf q ! unat (q_tail q))],
     q_tail := (q_tail q + 1) mod MQ_MAX_MSG, q_count := q_count q + 1\<rparr>"

definition ring_get :: "mqueue_t \<Rightarrow> u8 list \<times> mqueue_t" where
  "ring_get q = (take (unat (q_msg_size q)) (q_buf q ! unat (q_head q)),
     q\<lparr>q_head := (q_head q + 1) mod MQ_MAX_MSG, q_count := q_count q - 1\<rparr>)"

definition mqueue_send ::
  "'h sdk \<Rightarrow> nat \<Rightarrow> mqueue_t \<Rightarrow> u8 list \<Rightarrow> ('h, 'a) sync_state_scheme \<Rightarrow>
     (bool \<times> mqueue_t \<times> ('h, 'a) sync_state_scheme) option" where
  "mqueue_send D core q msg s = do {
     (irq_save, l, s1) \<leftarrow> spin_acquire D (q_spin q) s;
     if q_count q < MQ_MAX_MSG then do {
       let q1 = ring_put msg q;
       (w, s2) \<leftarrow> wake_one core (q_recv_waiters q1) s1;
       let (l', s3) = spin_release D l irq_save s2;
       Some (True, q1\<lparr>q_spin := l', q_recv_waiters := w\<rparr>, s3)
     }
     else do {
       (w, s2) \<leftarrow> park core (q_send_waiters q) s1;
       let (l', s3) = spin_release D l irq_save s2;
       Some (False, q\<lparr>q_spin := l', q_send_waiters := w\<rparr>, sched_yield core s3)
     }
   }"

definition mqueue_recv ::
  "'h sdk \<Rightarrow> nat \<Rightarrow> mqueue_t \<Rightarrow> ('h, 'a) sync_state_scheme \<Rightarrow>
     (u8 list option \<times> mqueue_t \<times> ('h, 'a) sync_state_scheme) option" where
  "mqueue_recv D core q s = do {
     (irq_save, l, s1) \<leftarrow> spin_acquire D (q_spin q) s;
     if 0 < q_count q then do {
       let (msg, q1) = ring_get q;
       (w, s2) \<leftarrow> wake_one core (q_send_waiters q1) s1;
       let (l', s3) = spin_release D l irq_save s2;
       Some (Some msg, q1\<lparr>q_spin := l', q_send_waiters := w\<rparr>, s3)
     }
     else do {
       (w, s2) \<leftarrow> park core (q_recv_waiters q) s1;
       let (l', s3) = spin_release D l irq_save s2;
       Some (None, q\<lparr>q_spin := l', q_recv_waiters := w\<rparr>, sched_yield core s3)
     }
   }"

definition mqueue_try_send ::
  "'h sdk \<Rightarrow> nat \<Rightarrow> mqueue_t \<Rightarrow> u8 list \<Rightarrow> ('h, 'a) sync_state_scheme \<Rightarrow>
     (bool \<times> mqueue_t \<times> ('h, 'a) sync_state_scheme) option" where
  "mqueue_try_send D core q msg s = do {
     (irq_save, l, s1) \<leftarrow> spin_acquire D (q_spin q) s;
     if MQ_MAX_MSG \<le> q_count q then do {
       let (l', s2) = spin_release D l irq_save s1;
       Some (False, q\<lparr>q_spin := l'\<rparr>, s2)
     }
     else do {
       let q1 = ring_put msg q;
       (w, s2) \<leftarrow> wake_one core (q_recv_waiters q1) s1;
       let (l', s3) = spin_release D l irq_save s2;
       Some (True, q1\<lparr>q_spin := l', q_recv_waiters := w\<rparr>, s3)
     }
   }"

definition mqueue_try_recv ::
  "'h sdk \<Rightarrow> nat \<Rightarrow> mqueue_t \<Rightarrow> ('h, 'a) sync_state_scheme \<Rightarrow>
     (u8 list option \<times> mqueue_t \<times> ('h, 'a) sync_state_scheme) option" where
  "mqueue_try_recv D core q s = do {
     (irq_save, l, s1) \<leftarrow> spin_acquire D (q_spin q) s;
     if q_count q = 0 then do {
       let (l', s2) = spin_release D l irq_save s1;
       Some (None, q\<lparr>q_spin := l'\<rparr>, s2)
     }
     else do {
       let (msg, q1) = ring_get q;
       (w, s2) \<leftarrow> wake_one core (q_send_waiters q1) s1;
       let (l', s3) = spin_release D l irq_save s2;
       Some (Some msg, q1\<lparr>q_spin := l', q_send_waiters := w\<rparr>, s3)
     }
   }"

section \<open>Frames\<close>

text \<open>The scheduler calls leave the fields of \<open>sync.c\<close> alone.\<close>

lemma kfree_shape: "kfree p h = Some h' \<Longrightarrow> \<exists>B b. h' = h\<lparr>heap_blocks := B, heap_lock := b\<rparr>"
proof -
  assume a: "kfree p h = Some h'"
  show ?thesis
  proof (cases p)
    case None
    with a show ?thesis by (intro exI [of _ "heap_blocks h"] exI [of _ "heap_lock h"]) simp
  next
    case (Some q)
    with a obtain B h1 where "heap_acquire h = Some h1" "h' = heap_release (h1\<lparr>heap_blocks := B\<rparr>)"
      by (auto simp: kfree_def Let_def bind_simps)
    then have "h' = h\<lparr>heap_blocks := B, heap_lock := False\<rparr>"
      by (auto simp: heap_acquire_def heap_release_def split: if_splits)
    then show ?thesis by blast
  qed
qed

lemma more_simps [frame_simps]:
  "kstate.more (set_next t n s) = kstate.more s" "kstate.more (set_state t st s) = kstate.more s"
  "kstate.more (set_ready p h s) = kstate.more s" "kstate.more (sched_release s) = kstate.more s"
  "kstate.more (sched_yield core s) = kstate.more s" "kstate.more (upd_tcb t f s) = kstate.more s"
  "kstate.more (upd_pcb p g s) = kstate.more s" "kstate.more (task_free_process pp s) = kstate.more s"
  by (simp_all add: set_next_def set_state_def set_ready_def sched_release_def sched_yield_def upd_tcb_def
      upd_pcb_def task_free_process_def split: option.split)

lemma trace_more [frame_simps]: "kstate.more (trace_record core ty st tid nm tt tn s) = kstate.more s"
  by (rule trace_record_frame [of core ty st tid nm tt tn s]) simp

lemma acquire_more: "sched_acquire s = Some s' \<Longrightarrow> kstate.more s' = kstate.more s"
  by (auto simp: sched_acquire_def split: if_splits)

lemma add_raw_more: "sched_add_thread_raw t s = Some s' \<Longrightarrow> kstate.more s' = kstate.more s"
  by (auto simp: sched_add_thread_raw_def Let_def bind_simps frame_simps split: option.splits)

lemma remove_raw_more: "sched_remove_thread_raw t s = Some s' \<Longrightarrow> kstate.more s' = kstate.more s"
  by (auto simp: sched_remove_thread_raw_def Let_def bind_simps frame_simps split: option.splits if_splits)

lemma free_thread_more: "task_free_thread tp s = Some s' \<Longrightarrow> kstate.more s' = kstate.more s"
proof -
  assume a: "task_free_thread tp s = Some s'"
  show ?thesis
  proof (cases tp)
    case (Some t)
    define s1 where "s1 = (case task_find_process (t_pid (tcb_pool s t)) s of None \<Rightarrow> s
        | Some p \<Rightarrow> upd_pcb p (unlink_thread t) s)"
    have s1: "kstate.more s1 = kstate.more s" by (simp add: s1_def frame_simps split: option.split)
    from a Some obtain s2 where s2: "kstate.more s' = kstate.more s2"
      "(if t < MAX_THREADS then kfree (t_stack_base (tcb_pool s1 t))
          (upd_tcb t (\<lambda>_. tcb_zero) (s1\<lparr>tcb_used := (tcb_used s1)(t := False)\<rparr>)) else Some s1) = Some s2"
      by (auto simp: task_free_thread_def Let_def s1_def bind_simps frame_simps split: option.splits if_splits)
    then have "kstate.more s2 = kstate.more s1"
      by (auto dest!: kfree_shape simp: upd_tcb_def split: if_splits)
    with s1 s2 show ?thesis by simp
  qed (use a in \<open>simp add: task_free_thread_def\<close>)
qed

lemma unblock_more: "sched_unblock core tp s = Some (b, s') \<Longrightarrow> kstate.more s' = kstate.more s"
  by (auto simp: sched_unblock_def bind_simps Let_def frame_simps
      dest!: acquire_more free_thread_more add_raw_more split: option.splits if_splits)

lemma block_more: "sched_block tp s = Some s' \<Longrightarrow> kstate.more s' = kstate.more s"
  by (auto simp: sched_block_def bind_simps frame_simps dest!: acquire_more remove_raw_more split: option.splits)

lemma dequeue_more: "waiter_dequeue head s = (r, head', s') \<Longrightarrow> kstate.more s' = kstate.more s"
  by (auto simp: waiter_dequeue_def frame_simps split: option.splits)

lemma enqueue_more: "waiter_enqueue head t s = Some (head', s') \<Longrightarrow> kstate.more s' = kstate.more s"
  by (auto simp: waiter_enqueue_def Let_def bind_simps frame_simps split: option.splits)

lemma more_fields:
  fixes s s' :: "('h, 'a) sync_state_scheme"
  assumes "kstate.more s' = kstate.more s"
  shows "sio s' = sio s" "event_pool_lock s' = event_pool_lock s" "event_waiter_pool s' = event_waiter_pool s"
  using assms by (cases s; cases s'; simp)+

section \<open>Waiter lists are FIFO queues\<close>

lemma waiter_enqueue_spec:
  assumes "chain (next_of s) head ws" and "t \<notin> set ws"
  obtains head' s' where "waiter_enqueue head t s = Some (head', s')" "chain (next_of s') head' (ws @ [t])"
    "relinked (insert t (set ws)) s s'"
proof (cases head)
  case None
  with assms have "ws = []" by simp
  moreover have "relinked (insert t {}) s (set_next t None s)" by (intro relinked_set_next relinked_refl) simp
  ultimately show ?thesis using None that [of "Some t" "set_next t None s"] by (simp add: waiter_enqueue_def)
next
  case (Some h)
  with assms(1) have ne: "ws \<noteq> []" by auto
  let ?s1 = "set_next t None s"
  have c1: "chain (next_of ?s1) head ws" using assms by (simp add: chain_upd_other del: fun_upd_apply)
  have l: "last_node (next_of ?s1) h = Some (last ws)"
    using last_node_chain [of "next_of ?s1" head h "tl ws"] c1 ne Some by (cases ws) auto
  let ?s2 = "set_next (last ws) (Some t) ?s1"
  have "chain (next_of ?s2) head (ws @ [t])"
    using chain_append_tail [OF assms(1) ne assms(2)] by (simp del: fun_upd_apply)
  moreover have "relinked (insert t (set ws)) s ?s2"
    by (intro relinked_set_next relinked_refl) (use ne in auto)
  ultimately show ?thesis using that [of head ?s2] Some l by (simp add: waiter_enqueue_def)
qed

lemma waiter_dequeue_Nil: "chain (next_of s) head [] \<Longrightarrow> waiter_dequeue head s = (None, None, s)"
  by (simp add: waiter_dequeue_def)

lemma waiter_dequeue_Cons:
  "chain (next_of s) head (t # ws) \<Longrightarrow>
     waiter_dequeue head s = (Some t, next_of s t, set_next t None s) \<and>
     chain (next_of (set_next t None s)) (next_of s t) ws"
  using chain_remove_head [of "next_of s" t ws] by (auto simp: waiter_dequeue_def simp del: fun_upd_apply)

interpretation waiters: fifo_queue "\<lambda>t (head, s). waiter_enqueue head t s"
  "\<lambda>(head, s) ws. chain (next_of s) head ws" "\<lambda>t q. True"
  "\<lambda>(head, s). case waiter_dequeue head s of (r, head', s') \<Rightarrow> (r, (head', s'))"
proof (unfold_locales, goal_cases)
  case (1 q ws t)
  then show ?case using waiter_enqueue_spec [of "snd q" "fst q" ws t] by (cases q) (auto elim: waiter_enqueue_spec)
next
  case (2 q)
  then show ?case by (auto simp: waiter_dequeue_Nil split: prod.splits)
next
  case (3 q t ws)
  then show ?case using waiter_dequeue_Cons [of "snd q" "fst q" t ws] by (auto simp del: fun_upd_apply)
qed

text \<open>
  A waiter list is a first-in first-out queue: threads enqueued one after the other are
  dequeued in the same order, and then the list is empty again.
\<close>

lemma waiter_list_fifo:
  assumes "distinct ts"
  shows "\<exists>q q'. put_list (\<lambda>t (head, s). waiter_enqueue head t s) ts (None, s) = Some q \<and>
    take_list (\<lambda>(head, s). case waiter_dequeue head s of (r, head', s') \<Rightarrow> (r, (head', s'))) (length ts) q = (ts, q') \<and>
    chain (next_of (snd q')) (fst q') []"
  using waiters.put_take [of "(None, s)" ts] assms by (auto simp: split_beta)

section \<open>Waking\<close>

text \<open>Threads that may be on a waiter list: blocked, or killed while blocked.\<close>

definition dead :: "'a kstate_scheme \<Rightarrow> nat \<Rightarrow> bool" where
  "dead s t \<longleftrightarrow> t_state (tcb_pool s t) = THREAD_ZOMBIE"

definition waiting :: "'a kstate_scheme \<Rightarrow> nat list \<Rightarrow> bool" where
  "waiting s ws \<longleftrightarrow> (\<forall>t \<in> set ws. t < MAX_THREADS \<and> tcb_used s t \<and>
     (t_state (tcb_pool s t) = THREAD_BLOCKED \<or> dead s t \<and> \<not> is_current (current_tcb s) t))"

definition woken :: "'a kstate_scheme \<Rightarrow> nat list \<Rightarrow> nat option" where
  "woken s ws = find (\<lambda>t. \<not> dead s t) ws"

definition after_wake :: "'a kstate_scheme \<Rightarrow> nat list \<Rightarrow> (nat \<Rightarrow> nat list) \<Rightarrow> nat \<Rightarrow> nat list" where
  "after_wake s ws qs = (case woken s ws of None \<Rightarrow> qs
     | Some w \<Rightarrow> qs(prio_of (tcb_pool s w) := qs (prio_of (tcb_pool s w)) @ [w]))"

lemma waiting_off_queue:
  assumes "sched_inv s qs" and "waiting s ws" and "t \<in> set ws" and "p < 8"
  shows "t \<notin> set (qs p)"
proof -
  have "t \<notin> set (qs (prio_of (tcb_pool s t)))"
    using assms(2,3) by (intro blocked_off_queue [OF assms(1)]) (auto simp: waiting_def dead_def)
  then show ?thesis using rq_abs_other [OF sched_invD(2) [OF assms(1)] assms(4)] by auto
qed

lemma sched_inv_set_next:
  assumes inv: "sched_inv s qs" and off: "\<And>p. p < 8 \<Longrightarrow> t \<notin> set (qs p)"
  shows "sched_inv (set_next t n s) qs"
proof -
  let ?s = "set_next t n s"
  note i = sched_invD [OF inv]
  have "rq_abs ?s qs" unfolding set_next_def by (rule rq_abs_upd_off [OF i(2) off])
  moreover have "tasks_wf ?s \<longleftrightarrow> tasks_wf s"
    by (rule tasks_wf_cong) (simp_all add: set_next_def upd_tcb_def)
  moreover have "queue_ok ?s qs \<longleftrightarrow> queue_ok s qs"
    by (rule queue_ok_cong) (simp_all add: set_next_def upd_tcb_def)
  moreover have "sched_lock ?s = sched_lock s" by (simp add: set_next_def upd_tcb_def)
  ultimately show ?thesis using i by (simp add: sched_inv_def)
qed

lemma set_next_fields [frame_simps]:
  "tcb_used (set_next t n s) = tcb_used s" "current_tcb (set_next t n s) = current_tcb s"
  "t_state (tcb_pool (set_next t n s) u) = t_state (tcb_pool s u)"
  "prio_of (tcb_pool (set_next t n s) u) = prio_of (tcb_pool s u)"
  by (simp_all add: set_next_def upd_tcb_def prio_of_def)

text \<open>
  \<open>wake_one\<close> on a list of waiters: the dead ones in front are freed, the first live one becomes
  READY at the tail of its ready queue, the rest stay.
\<close>

lemma wake_one_spec:
  assumes "sched_inv s qs" and "chain (next_of s) head ws" and "waiting s ws"
  shows "\<exists>head' s'. wake_one core head s = Some (head', s') \<and>
    chain (next_of s') head' (tl (dropWhile (dead s) ws)) \<and> sched_inv s' (after_wake s ws qs) \<and>
    kstate.more s' = kstate.more s \<and> current_tcb s' = current_tcb s \<and>
    (\<forall>u. tcb_used s' u \<longleftrightarrow> tcb_used s u \<and> u \<notin> set (takeWhile (dead s) ws)) \<and>
    (\<forall>u. tcb_used s' u \<longrightarrow> prio_of (tcb_pool s' u) = prio_of (tcb_pool s u) \<and>
       t_state (tcb_pool s' u) = (if woken s ws = Some u then THREAD_READY else t_state (tcb_pool s u)))"
  using assms
proof (induction ws arbitrary: s head)
  case Nil
  then have "wake_one core head s = Some (None, s)" by (simp add: wake_one.simps waiter_dequeue_def)
  with Nil show ?case by (simp add: after_wake_def woken_def)
next
  case (Cons t ws)
  let ?s1 = "set_next t None s"
  from Cons.prems have c: "head = Some t" by simp
  have dist: "t \<notin> set ws" using chain_distinct [OF Cons.prems(2)] by simp
  from Cons.prems(3) have t: "t < 16" "tcb_used s t" by (auto simp: waiting_def)
  have inv1: "sched_inv ?s1 qs"
    using waiting_off_queue [OF Cons.prems(1,3)] by (intro sched_inv_set_next [OF Cons.prems(1)]) simp
  have deq: "waiter_dequeue head s = (Some t, next_of s t, ?s1)" "chain (next_of ?s1) (next_of s t) ws"
    using waiter_dequeue_Cons Cons.prems(2) by auto
  have t1: "tcb_used ?s1 t" using t(2) by (simp add: frame_simps)
  show ?case
  proof (cases "dead s t")
    case True
    then have z: "t_state (tcb_pool ?s1 t) = THREAD_ZOMBIE" "\<not> is_current (current_tcb ?s1) t"
      using Cons.prems(3) by (auto simp: waiting_def dead_def frame_simps)
    obtain s2 where s2: "sched_unblock core (Some t) ?s1 = Some (False, s2)" "sched_inv s2 qs"
      "tcb_used s2 = (tcb_used ?s1)(t := False)" "current_tcb s2 = current_tcb ?s1"
      "tcb_pool s2 = (tcb_pool ?s1)(t := tcb_zero)"
      by (rule sched_unblock_frees [OF inv1 t(1) t1 z])
    have same: "t_state (tcb_pool s2 u) = t_state (tcb_pool s u)" "prio_of (tcb_pool s2 u) = prio_of (tcb_pool s u)"
        "tcb_used s2 u = tcb_used s u" "next_of s2 u = next_of ?s1 u" if "u \<noteq> t" for u
      using that s2(3,5) by (simp_all add: frame_simps next_of_def)
    have deads: "dead s2 u = dead s u" if "u \<in> set ws" for u using same(1) [of u] that dist by (cases "u = t") (auto simp: dead_def)
    have chain2: "chain (next_of s2) (next_of s t) ws"
      by (rule chain_cong [OF deq(2)]) (use same(4) dist in auto)
    have "waiting s2 ws"
      unfolding waiting_def
    proof
      fix u assume u: "u \<in> set ws"
      then have "u \<noteq> t" using dist by auto
      then show "u < MAX_THREADS \<and> tcb_used s2 u \<and>
          (t_state (tcb_pool s2 u) = THREAD_BLOCKED \<or> dead s2 u \<and> \<not> is_current (current_tcb s2) u)"
        using Cons.prems(3) u same [of u] deads [OF u] s2(4) by (auto simp: waiting_def frame_simps)
    qed
    from Cons.IH [OF s2(2) chain2 this] obtain head' s' where
      s': "wake_one core (next_of s t) s2 = Some (head', s')"
        "chain (next_of s') head' (tl (dropWhile (dead s2) ws))" "sched_inv s' (after_wake s2 ws qs)"
        "kstate.more s' = kstate.more s2" "current_tcb s' = current_tcb s2"
        "\<And>u. tcb_used s' u \<longleftrightarrow> tcb_used s2 u \<and> u \<notin> set (takeWhile (dead s2) ws)"
        "\<And>u. tcb_used s' u \<Longrightarrow> prio_of (tcb_pool s' u) = prio_of (tcb_pool s2 u) \<and>
          t_state (tcb_pool s' u) = (if woken s2 ws = Some u then THREAD_READY else t_state (tcb_pool s2 u))"
      by blast
    have w: "woken s2 ws = woken s ws" unfolding woken_def by (rule find_cong) (use deads in auto)
    have "woken s ws = Some u \<Longrightarrow> u \<noteq> t" for u using find_SomeD [of _ ws u] dist by (auto simp: woken_def)
    then have aw: "after_wake s2 ws qs = after_wake s (t # ws) qs"
      using True w same(2) by (auto simp: after_wake_def woken_def split: option.split)
    have dw: "dropWhile (dead s2) ws = dropWhile (dead s) ws" "takeWhile (dead s2) ws = takeWhile (dead s) ws"
      using deads by (auto cong: dropWhile_cong takeWhile_cong)
    have "wake_one core head s = Some (head', s')"
      using deq(1) s2(1) s'(1) by (subst wake_one.simps) simp
    moreover have "kstate.more s2 = kstate.more s" using unblock_more [OF s2(1)] by (simp add: frame_simps)
    moreover have "tcb_used s' u \<longleftrightarrow> tcb_used s u \<and> u \<notin> set (takeWhile (dead s) (t # ws))" for u
      using s'(6) [of u] same(3) [of u] s2(3) True dw by (cases "u = t") auto
    moreover have "prio_of (tcb_pool s' u) = prio_of (tcb_pool s u) \<and>
          t_state (tcb_pool s' u) = (if woken s (t # ws) = Some u then THREAD_READY else t_state (tcb_pool s u))"
      if "tcb_used s' u" for u
    proof -
      have "u \<noteq> t" using s'(6) [of u] that s2(3) by auto
      moreover have "woken s (t # ws) = woken s ws" using True by (simp add: woken_def)
      ultimately show ?thesis using s'(7) [OF that] same [of u] w by simp
    qed
    ultimately show ?thesis using s'(2-5) s2(4) aw dw True by (simp add: frame_simps)
  next
    case False
    then have bl: "t_state (tcb_pool ?s1 t) = THREAD_BLOCKED"
      using Cons.prems(3) by (auto simp: waiting_def frame_simps)
    obtain s2 where s2: "sched_unblock core (Some t) ?s1 = Some (True, s2)"
      "sched_inv s2 (qs(prio_of (tcb_pool ?s1 t) := qs (prio_of (tcb_pool ?s1 t)) @ [t]))"
      "t_state (tcb_pool s2 t) = THREAD_READY" "tcb_used s2 = tcb_used ?s1" "current_tcb s2 = current_tcb ?s1"
      "\<And>u. u \<noteq> t \<Longrightarrow> t_state (tcb_pool s2 u) = t_state (tcb_pool ?s1 u)"
      "\<And>u. u \<noteq> t \<Longrightarrow> u \<notin> set (qs (prio_of (tcb_pool ?s1 t))) \<Longrightarrow> next_of s2 u = next_of ?s1 u"
      "\<And>u. prio_of (tcb_pool s2 u) = prio_of (tcb_pool ?s1 u)"
      by (rule sched_unblock_wakes [OF inv1 t(1) t1 bl, of core], rule that; (assumption | blast))
    have "next_of s2 u = next_of ?s1 u" if "u \<in> set ws" for u
      using that dist waiting_off_queue [OF Cons.prems(1,3), of u "prio_of (tcb_pool ?s1 t)"]
      by (intro s2(7)) auto
    then have "chain (next_of s2) (next_of s t) ws" by (rule chain_cong [OF deq(2)])
    moreover have "wake_one core head s = Some (next_of s t, s2)"
      using deq(1) s2(1) by (subst wake_one.simps) simp
    moreover have "kstate.more s2 = kstate.more s" using unblock_more [OF s2(1)] by (simp add: frame_simps)
    moreover have w: "woken s (t # ws) = Some t" using False by (simp add: woken_def)
    moreover have "prio_of (tcb_pool s2 u) = prio_of (tcb_pool s u)" for u
      using s2(8) [of u] by (simp only: set_next_fields)
    moreover have "sched_inv s2 (after_wake s (t # ws) qs)"
      using s2(2) unfolding after_wake_def w set_next_fields by simp
    ultimately show ?thesis using s2(3-6) False by (simp add: frame_simps)
  qed
qed

section \<open>Parking\<close>

lemma remove_raw_next_None:
  "sched_remove_thread_raw (Some t) s = Some s' \<Longrightarrow> next_of s t = None \<Longrightarrow> next_of s' t = None"
  by (auto simp: sched_remove_thread_raw_def Let_def bind_simps split: if_splits option.splits)

text \<open>
  The calling thread \<open>t\<close> is queued as \<open>us @ t # vs\<close>. Linking it into the waiter list first clears
  its \<open>next\<close>, which cuts the ready queue behind it, and \<open>sched_block\<close> then removes \<open>t\<close>: only \<open>us\<close>
  is left of the queue.
\<close>

lemma park_spec:
  fixes s :: "'a kstate_scheme"
  assumes inv: "sched_inv s qs" and cur: "current_tcb s core = Some t"
    and ws: "chain (next_of s) head ws" "waiting s ws" and t: "t \<notin> set ws"
    and q: "qs (prio_of (tcb_pool s t)) = us @ t # vs"
  defines "p \<equiv> prio_of (tcb_pool s t)"
  obtains head' s' where "park core head s = Some (head', s')" "chain (next_of s') head' (ws @ [t])"
    "rq_abs s' (qs(p := us))" "kstate.more s' = kstate.more s" "current_tcb s' = current_tcb s"
    "tcb_used s' = tcb_used s" "t_state (tcb_pool s' t) = THREAD_BLOCKED"
    "\<And>u. u \<noteq> t \<Longrightarrow> t_state (tcb_pool s' u) = t_state (tcb_pool s u)"
    "\<And>u. prio_of (tcb_pool s' u) = prio_of (tcb_pool s u)"
    "\<not> sched_lock s'" "vs = [] \<Longrightarrow> sched_inv s' (qs(p := us))"
proof -
  note i = sched_invD [OF inv]
  have p: "p < 8" by (simp add: p_def)
  have qp: "qs p = us @ t # vs" using q by (simp add: p_def)
  obtain head' s1 where e: "waiter_enqueue head t s = Some (head', s1)" "chain (next_of s1) head' (ws @ [t])"
    "relinked (insert t (set ws)) s s1" by (rule waiter_enqueue_spec [OF ws(1) t])
  note r1 = relinked_fields [OF e(3)] relinked_tcb [OF e(3)]
  have n1: "next_of s1 t = None" using chain_suffix [OF e(2)] by simp
  have other: "next_of s1 u = next_of s u" if "u \<noteq> t" "u \<notin> set ws" for u
    using e(3) that by (auto simp: relinked_def next_of_def)
  have ready: "ready_queues s1 = ready_queues s"
    using e(1) by (auto simp: waiter_enqueue_def bind_simps Let_def set_next_def upd_tcb_def split: option.splits)
  have off: "u \<notin> set ws" if "u \<in> set (qs p')" "p' < 8" for u p'
    using waiting_off_queue [OF inv ws(2) _ that(2)] that(1) by blast
  let ?qs = "qs(p := us @ [t])"
  have rq1: "rq_abs s1 ?qs"
    unfolding rq_abs_def
  proof (intro allI impI conjI ballI)
    fix p' assume "p' < NUM_PRIORITIES"
    then have p': "p' < 8" by simp
    have c: "chain (next_of s) (ready_queues s p') (qs p')" by (rule rq_abs_chain [OF i(2) p'])
    show "chain (next_of s1) (ready_queues s1 p') (?qs p')"
    proof (cases "p' = p")
      case True
      from c True qp have "chain ((next_of s)(t := None)) (ready_queues s p) (us @ [t])"
        using chain_cut by metis
      then have "chain (next_of s1) (ready_queues s p) (us @ [t])"
        by (rule chain_cong) (use other n1 off [OF _ p] qp in \<open>auto simp del: fun_upd_apply simp: fun_upd_def\<close>)
      then show ?thesis using True ready by simp
    next
      case False
      have "t \<notin> set (qs p')" using rq_abs_other [OF i(2) p', of t] False by (auto simp: p_def)
      then have "next_of s1 x = next_of s x" if "x \<in> set (qs p')" for x
        using other [of x] off [OF that p'] that by auto
      then have "chain (next_of s1) (ready_queues s p') (qs p')" by (rule chain_cong [OF c])
      then show ?thesis using False ready by simp
    qed
    fix x assume "x \<in> set (?qs p')"
    then have "x \<in> set (qs p')" using qp by (auto split: if_splits)
    then show "prio_of (tcb_pool s1 x) = p'" using rq_abs_other [OF i(2) p'] r1 by simp
  qed
  have lock1: "\<not> sched_lock s1" using r1 i(3) by simp
  let ?s2 = "set_state t THREAD_BLOCKED (s1\<lparr>sched_lock := True\<rparr>)"
  have "rq_abs ?s2 ?qs" using rq1 by simp
  from remove_raw_spec [OF this, of t] obtain s3 where
    s3: "sched_remove_thread_raw (Some t) ?s2 = Some s3"
      "rq_abs s3 (?qs(prio_of (tcb_pool ?s2 t) := remove1 t (?qs (prio_of (tcb_pool ?s2 t)))))"
      "relinked (insert t (set (?qs (prio_of (tcb_pool ?s2 t))))) ?s2 s3" by blast
  have pr: "prio_of (tcb_pool ?s2 t) = p" using r1 by (simp add: p_def)
  have "t \<notin> set us" using rq_abs_distinct [OF i(2) p] qp by simp
  then have rem: "remove1 t (us @ [t]) = us" by (simp add: remove1_append)
  have rq3: "rq_abs s3 (qs(p := us))" using s3(2) unfolding pr by (simp add: rem)
  have block: "sched_block (Some t) s1 = Some (sched_release s3)"
    using s3(1) by (simp add: sched_block_def sched_acquire_free [OF lock1])
  note r3 = relinked_fields [OF s3(3)] relinked_tcb [OF s3(3)]
  have "next_of ?s2 = next_of s1" by (simp add: next_of_def fun_eq_iff)
  then have n3: "next_of s3 t = None" using remove_raw_next_None [OF s3(1)] n1 by simp
  have "next_of s3 u = next_of s1 u" if "u \<in> set (ws @ [t])" for u
  proof (cases "u = t")
    case False
    then have "u \<in> set ws" using that by simp
    then have "u \<notin> insert t (set (?qs p))" using off [OF _ p, of u] qp False by auto
    then show ?thesis using s3(3) \<open>next_of ?s2 = next_of s1\<close> unfolding pr
      by (auto simp: relinked_def next_of_def)
  qed (use n1 n3 in simp)
  then have ch: "chain (next_of s3) head' (ws @ [t])" by (rule chain_cong [OF e(2)])
  have run: "park core head s = Some (head', sched_release s3)"
    using cur e(1) block by (simp add: park_def)
  have more: "kstate.more (sched_release s3) = kstate.more s"
    using enqueue_more [OF e(1)] block_more [OF block] by simp
  have inv': "sched_inv (sched_release s3) (qs(p := us))" if "vs = []"
  proof -
    have eq: "?qs = qs" using that qp by (simp add: fun_upd_idem)
    have inv1: "sched_inv s1 qs"
      using tasks_wf_relinked [OF e(3)] queue_ok_relinked [OF e(3), of qs] rq1 lock1 i eq
      by (simp add: sched_inv_def)
    obtain s4 where "sched_block (Some t) s1 = Some s4"
      "sched_inv s4 (qs(prio_of (tcb_pool s1 t) := remove1 t (qs (prio_of (tcb_pool s1 t)))))"
      by (rule sched_block_inv [OF inv1, of t], rule that; (assumption | blast))
    with block r1 qp rem that show ?thesis by (simp add: p_def)
  qed
  show ?thesis
    by (rule that [OF run]) (use ch rq3 more r1 r3 inv' in \<open>simp_all add: frame_simps\<close>)
qed

section \<open>Critical sections\<close>

lemma sio_frame [frame_simps]:
  fixes s :: "('h, 'a) sync_state_scheme"
  shows "sched_inv (s\<lparr>sio := h\<rparr>) qs \<longleftrightarrow> sched_inv s qs" "rq_abs (s\<lparr>sio := h\<rparr>) qs \<longleftrightarrow> rq_abs s qs"
    "next_of (s\<lparr>sio := h\<rparr>) = next_of s" "waiting (s\<lparr>sio := h\<rparr>) ws \<longleftrightarrow> waiting s ws"
    "dead (s\<lparr>sio := h\<rparr>) = dead s" "woken (s\<lparr>sio := h\<rparr>) ws = woken s ws"
    "after_wake (s\<lparr>sio := h\<rparr>) ws qs = after_wake s ws qs"
proof -
  show "sched_inv (s\<lparr>sio := h\<rparr>) qs \<longleftrightarrow> sched_inv s qs" by (rule sched_inv_cong) simp_all
  show "rq_abs (s\<lparr>sio := h\<rparr>) qs \<longleftrightarrow> rq_abs s qs" by (rule rq_abs_cong) (simp_all add: next_of_def fun_eq_iff)
  show "next_of (s\<lparr>sio := h\<rparr>) = next_of s" by (simp add: next_of_def fun_eq_iff)
  have d: "dead (s\<lparr>sio := h\<rparr>) = dead s" by (simp add: dead_def fun_eq_iff)
  then show "dead (s\<lparr>sio := h\<rparr>) = dead s" .
  show "waiting (s\<lparr>sio := h\<rparr>) ws \<longleftrightarrow> waiting s ws" by (simp add: waiting_def d)
  show w: "woken (s\<lparr>sio := h\<rparr>) ws = woken s ws" by (simp add: woken_def d)
  show "after_wake (s\<lparr>sio := h\<rparr>) ws qs = after_wake s ws qs" by (simp add: after_wake_def w split: option.split)
qed

lemma spin_section:
  fixes s :: "('h, 'a) sync_state_scheme"
  assumes "sdk_ok D held claimed" and "lock_free held l (sio s)"
  obtains v l' h where "spin_acquire D l s = Some (v, l', s\<lparr>sio := h\<rparr>)"
    "\<And>n. sl_hw l \<noteq> Some n \<Longrightarrow> held h n = held (sio s) n"
    "\<And>s2 :: ('h, 'a) sync_state_scheme. held (sio s2) = held h \<Longrightarrow>
       \<exists>h3. spin_release D l' v s2 = (l, s2\<lparr>sio := h3\<rparr>) \<and> held h3 = held (sio s)"
proof -
  obtain v l' h where h: "spinlock_irq_acquire D l (sio s) = Some (v, l', h)"
    "\<And>n. sl_hw l \<noteq> Some n \<Longrightarrow> held h n = held (sio s) n"
    "\<And>h2. held h2 = held h \<Longrightarrow> \<exists>h3. spinlock_irq_release D l' v h2 = (l, h3) \<and> held h3 = held (sio s)"
    by (rule irq_acquire_free [OF assms], rule that; (assumption | blast))
  have "\<exists>h3. spin_release D l' v s2 = (l, s2\<lparr>sio := h3\<rparr>) \<and> held h3 = held (sio s)"
    if "held (sio s2) = held h" for s2 :: "('h, 'a) sync_state_scheme"
    using h(3) [OF that] by (auto simp: spin_release_def)
  then show ?thesis using that [of v l' h] h(1,2) by (simp add: spin_acquire_def)
qed

text \<open>Waking inside a critical section, as every signalling operation does it.\<close>

lemma wake_section:
  fixes s :: "('h, 'a) sync_state_scheme"
  assumes D: "sdk_ok D held claimed" and l: "lock_free held l (sio s)"
    and inv: "sched_inv s qs" and ws: "chain (next_of s) head ws" "waiting s ws"
  obtains v l' s1 w s2 s3 where "spin_acquire D l s = Some (v, l', s1)" "wake_one core head s1 = Some (w, s2)"
    "spin_release D l' v s2 = (l, s3)" "held (sio s3) = held (sio s)"
    "chain (next_of s3) w (tl (dropWhile (dead s) ws))" "sched_inv s3 (after_wake s ws qs)"
    "\<And>t. woken s ws = Some t \<Longrightarrow> t_state (tcb_pool s3 t) = THREAD_READY \<and> tcb_used s3 t"
    "\<And>t. tcb_used s3 t \<longleftrightarrow> tcb_used s t \<and> t \<notin> set (takeWhile (dead s) ws)"
    "\<And>t. woken s ws \<noteq> Some t \<Longrightarrow> tcb_used s3 t \<Longrightarrow> t_state (tcb_pool s3 t) = t_state (tcb_pool s t)"
    "current_tcb s3 = current_tcb s"
proof -
  obtain v l' h where h: "spin_acquire D l s = Some (v, l', s\<lparr>sio := h\<rparr>)"
    "\<And>s2 :: ('h, 'a) sync_state_scheme. held (sio s2) = held h \<Longrightarrow>
       \<exists>h3. spin_release D l' v s2 = (l, s2\<lparr>sio := h3\<rparr>) \<and> held h3 = held (sio s)"
    by (rule spin_section [OF D l], rule that; (assumption | blast))
  let ?s1 = "s\<lparr>sio := h\<rparr>"
  have "sched_inv ?s1 qs" "chain (next_of ?s1) head ws" "waiting ?s1 ws" using inv ws by (simp_all add: frame_simps)
  from wake_one_spec [OF this, of core] obtain w s2 where
    s2: "wake_one core head ?s1 = Some (w, s2)" "chain (next_of s2) w (tl (dropWhile (dead ?s1) ws))"
      "sched_inv s2 (after_wake ?s1 ws qs)" "kstate.more s2 = kstate.more ?s1" "current_tcb s2 = current_tcb ?s1"
      "\<And>u. tcb_used s2 u \<longleftrightarrow> tcb_used ?s1 u \<and> u \<notin> set (takeWhile (dead ?s1) ws)"
      "\<And>u. tcb_used s2 u \<Longrightarrow> prio_of (tcb_pool s2 u) = prio_of (tcb_pool ?s1 u) \<and>
       t_state (tcb_pool s2 u) = (if woken ?s1 ws = Some u then THREAD_READY else t_state (tcb_pool ?s1 u))"
    by blast
  have "sio s2 = h" using more_fields(1) [OF s2(4)] by simp
  then obtain h3 where h3: "spin_release D l' v s2 = (l, s2\<lparr>sio := h3\<rparr>)" "held h3 = held (sio s)" using h(2) by blast
  have used: "tcb_used s2 t" if "woken s ws = Some t" for t
  proof -
    have t: "t \<in> set ws" "\<not> dead s t" using find_SomeD that by (fastforce simp: woken_def)+
    then have "t \<notin> set (takeWhile (dead s) ws)" by (auto dest: set_takeWhileD)
    then show ?thesis using s2(6) [of t] ws(2) t(1) by (auto simp: frame_simps waiting_def)
  qed
  show ?thesis
    by (rule that [OF h(1) s2(1) h3(1)]) (use h3(2) s2(2,3,5,6,7) used in \<open>simp_all add: frame_simps\<close>)
qed

lemma park_section:
  fixes s :: "('h, 'a) sync_state_scheme"
  assumes D: "sdk_ok D held claimed" and l: "lock_free held l (sio s)"
    and inv: "sched_inv s qs" and ws: "chain (next_of s) head ws" "waiting s ws"
    and cur: "current_tcb s core = Some t" and t: "t \<notin> set ws"
    and q: "qs (prio_of (tcb_pool s t)) = us @ t # vs"
  obtains v l' s1 w s2 s3 where "spin_acquire D l s = Some (v, l', s1)" "current_tcb s1 = current_tcb s"
    "park core head s1 = Some (w, s2)" "spin_release D l' v s2 = (l, s3)" "held (sio s3) = held (sio s)"
    "chain (next_of s3) w (ws @ [t])" "rq_abs s3 (qs(prio_of (tcb_pool s t) := us))"
    "vs = [] \<Longrightarrow> sched_inv s3 (qs(prio_of (tcb_pool s t) := us))"
    "t_state (tcb_pool s3 t) = THREAD_BLOCKED"
    "\<And>u. u \<noteq> t \<Longrightarrow> t_state (tcb_pool s3 u) = t_state (tcb_pool s u)" "tcb_used s3 = tcb_used s"
    "current_tcb s3 = current_tcb s"
proof -
  obtain v l' h where h: "spin_acquire D l s = Some (v, l', s\<lparr>sio := h\<rparr>)"
    "\<And>s2 :: ('h, 'a) sync_state_scheme. held (sio s2) = held h \<Longrightarrow>
       \<exists>h3. spin_release D l' v s2 = (l, s2\<lparr>sio := h3\<rparr>) \<and> held h3 = held (sio s)"
    by (rule spin_section [OF D l], rule that; (assumption | blast))
  let ?s1 = "s\<lparr>sio := h\<rparr>"
  have a: "sched_inv ?s1 qs" "current_tcb ?s1 core = Some t" "chain (next_of ?s1) head ws" "waiting ?s1 ws"
    "qs (prio_of (tcb_pool ?s1 t)) = us @ t # vs"
    using inv ws cur q by (simp_all add: frame_simps)
  obtain w s2 where s2: "park core head ?s1 = Some (w, s2)" "chain (next_of s2) w (ws @ [t])"
    "rq_abs s2 (qs(prio_of (tcb_pool ?s1 t) := us))" "kstate.more s2 = kstate.more ?s1" "current_tcb s2 = current_tcb ?s1"
    "tcb_used s2 = tcb_used ?s1" "t_state (tcb_pool s2 t) = THREAD_BLOCKED"
    "\<And>u. u \<noteq> t \<Longrightarrow> t_state (tcb_pool s2 u) = t_state (tcb_pool ?s1 u)"
    "vs = [] \<Longrightarrow> sched_inv s2 (qs(prio_of (tcb_pool ?s1 t) := us))"
    by (rule park_spec [OF a(1-4) t a(5)], rule that; (assumption | blast))
  have "sio s2 = h" using more_fields(1) [OF s2(4)] by simp
  then obtain h3 where h3: "spin_release D l' v s2 = (l, s2\<lparr>sio := h3\<rparr>)" "held h3 = held (sio s)" using h(2) by blast
  show ?thesis
    by (rule that [OF h(1) _ s2(1) h3(1)]) (use h3(2) s2(2,3,5-9) in \<open>simp_all add: frame_simps\<close>)
qed

section \<open>Mutexes and semaphores\<close>

lemma sched_yield_frame [frame_simps]:
  "tcb_pool (sched_yield core s) = tcb_pool s" "tcb_used (sched_yield core s) = tcb_used s"
  "current_tcb (sched_yield core s) = current_tcb s" "next_of (sched_yield core s) = next_of s"
  "rq_abs (sched_yield core s) qs \<longleftrightarrow> rq_abs s qs"
  by (simp_all add: sched_yield_def next_of_def fun_eq_iff) (rule rq_abs_cong, simp_all add: next_of_def fun_eq_iff)

lemma yield_sio [frame_simps]: "sio (sched_yield core s) = sio s"
  by (simp add: sched_yield_def)

text \<open>
  C19. Unlocking a mutex always returns with the mutex free and its spinlock released: the dead
  waiters in front of the list are freed, the first live one, and no other thread, becomes READY
  at the tail of its ready queue, the later waiters keep their order, and the scheduler
  invariant is kept. If the whole list is dead it ends empty.
\<close>

theorem kmutex_unlock_wakes_next:
  assumes "sdk_ok D held claimed" and "lock_free held (m_spin m) (sio s)"
    and "sched_inv s qs" and "chain (next_of s) (m_waiters m) ws" and "waiting s ws"
  shows "\<exists>m' s'. kmutex_unlock D core m s = Some (m', s') \<and> m_owner_tid m' = - 1 \<and> m_count m' = 0 \<and>
    m_spin m' = m_spin m \<and> lock_free held (m_spin m') (sio s') \<and>
    chain (next_of s') (m_waiters m') (tl (dropWhile (dead s) ws)) \<and> sched_inv s' (after_wake s ws qs) \<and>
    (\<forall>t. tcb_used s' t \<longleftrightarrow> tcb_used s t \<and> t \<notin> set (takeWhile (dead s) ws)) \<and>
    (\<forall>t. tcb_used s' t \<longrightarrow> t_state (tcb_pool s' t) =
       (if woken s ws = Some t then THREAD_READY else t_state (tcb_pool s t)))"
proof -
  obtain v l' s1 w s2 s3 where r: "spin_acquire D (m_spin m) s = Some (v, l', s1)"
    "wake_one core (m_waiters m) s1 = Some (w, s2)" "spin_release D l' v s2 = (m_spin m, s3)"
    "held (sio s3) = held (sio s)" "chain (next_of s3) w (tl (dropWhile (dead s) ws))"
    "sched_inv s3 (after_wake s ws qs)"
    "\<And>t. woken s ws = Some t \<Longrightarrow> t_state (tcb_pool s3 t) = THREAD_READY \<and> tcb_used s3 t"
    "\<And>t. tcb_used s3 t \<longleftrightarrow> tcb_used s t \<and> t \<notin> set (takeWhile (dead s) ws)"
    "\<And>t. woken s ws \<noteq> Some t \<Longrightarrow> tcb_used s3 t \<Longrightarrow> t_state (tcb_pool s3 t) = t_state (tcb_pool s t)"
    by (rule wake_section [OF assms], rule that; (assumption | blast))
  have "lock_free held (m_spin m) (sio s3)"
    using assms(2) r(4) by (simp add: lock_free_def split: option.splits)
  then show ?thesis using r by (simp add: kmutex_unlock_def)
qed

text \<open>A kernel state with no spinlock held, for the instances below.\<close>

definition with_sync :: "kstate \<Rightarrow> ((nat \<Rightarrow> bool) \<times> (nat \<Rightarrow> bool)) sync_state" where
  "with_sync s = kstate.extend s (sync_state.fields (\<lambda>_. False, \<lambda>_. False)
     \<lparr>sl_hw = None, sl_lock = 0\<rparr> (\<lambda>_. \<lparr>ew_thread = None, ew_mask = 0, ew_all = False\<rparr>))"

lemma with_sync_fields [simp]:
  "tcb_pool (with_sync s) = tcb_pool s" "tcb_used (with_sync s) = tcb_used s"
  "current_tcb (with_sync s) = current_tcb s" "sio (with_sync s) = (\<lambda>_. False, \<lambda>_. False)"
  "event_pool_lock (with_sync s) = \<lparr>sl_hw = None, sl_lock = 0\<rparr>"
  "event_waiter_pool (with_sync s) i = \<lparr>ew_thread = None, ew_mask = 0, ew_all = False\<rparr>"
  "sched_inv (with_sync s) qs \<longleftrightarrow> sched_inv s qs" "next_of (with_sync s) = next_of s"
proof -
  show "sched_inv (with_sync s) qs \<longleftrightarrow> sched_inv s qs"
    by (rule sched_inv_cong) (simp_all add: with_sync_def kstate.defs)
qed (simp_all add: with_sync_def kstate.defs sync_state.defs next_of_def fun_eq_iff)

theorem kmutex_unlock_wakes_next_witness:
  "\<exists>m' s'. kmutex_unlock sim_sdk 0 \<lparr>m_spin = \<lparr>sl_hw = Some 14, sl_lock = 0\<rparr>, m_owner_tid = 3, m_count = 1, m_waiters = None\<rparr>
     (with_sync kernel_boot) = Some (m', s') \<and> m_owner_tid m' = - 1"
proof -
  have "sched_inv (with_sync kernel_boot) (\<lambda>_. [])" by simp
  from kmutex_unlock_wakes_next [OF sim_sdk_ok _ this, of
    "\<lparr>m_spin = \<lparr>sl_hw = Some 14, sl_lock = 0\<rparr>, m_owner_tid = 3, m_count = 1, m_waiters = None\<rparr>" "[]" 0]
  show ?thesis by (auto simp: lock_free_def waiting_def)
qed

text \<open>
  C18. Locking a mutex never gives it to two threads: it is taken exactly when it is free, and then
  only the owner changes; when it is held the caller joins the tail of the waiter list and is
  BLOCKED, the mutex keeps its owner, and PendSV is raised. The scheduler invariant is kept when
  no thread is queued behind the caller.
\<close>

theorem kmutex_lock_exclusive:
  fixes s :: "('h, 'a) sync_state_scheme"
  assumes "sdk_ok D held claimed" and "lock_free held (m_spin m) (sio s)"
    and "sched_inv s qs" and "chain (next_of s) (m_waiters m) ws" and "waiting s ws"
    and "current_tcb s core = Some t" and "t \<notin> set ws" and "qs (prio_of (tcb_pool s t)) = us @ t # vs"
  shows "\<exists>b m' s'. kmutex_lock D core m s = Some (b, m', s') \<and> (b \<longleftrightarrow> m_owner_tid m = - 1) \<and>
    m_spin m' = m_spin m \<and> lock_free held (m_spin m') (sio s') \<and>
    (if b then m_owner_tid m' = t_tid (tcb_pool s t) \<and> m_count m' = 1 \<and> m_waiters m' = m_waiters m \<and>
       (\<exists>h. s' = s\<lparr>sio := h\<rparr>)
     else m_owner_tid m' = m_owner_tid m \<and> chain (next_of s') (m_waiters m') (ws @ [t]) \<and>
       t_state (tcb_pool s' t) = THREAD_BLOCKED \<and> pendsv s' core \<and>
       (vs = [] \<longrightarrow> sched_inv s' (qs(prio_of (tcb_pool s t) := us))))"
proof (cases "m_owner_tid m = - 1")
  case True
  obtain v l' h where h: "spin_acquire D (m_spin m) s = Some (v, l', s\<lparr>sio := h\<rparr>)"
    "\<And>s2 :: ('h, 'a) sync_state_scheme. held (sio s2) = held h \<Longrightarrow>
       \<exists>h3. spin_release D l' v s2 = (m_spin m, s2\<lparr>sio := h3\<rparr>) \<and> held h3 = held (sio s)"
    by (rule spin_section [OF assms(1,2)], rule that; (assumption | blast))
  from h(2) [of "s\<lparr>sio := h\<rparr>"] obtain h3 where
    h3: "spin_release D l' v (s\<lparr>sio := h\<rparr>) = (m_spin m, s\<lparr>sio := h3\<rparr>)" "held h3 = held (sio s)" by auto
  have "lock_free held (m_spin m) h3" using assms(2) h3(2) by (simp add: lock_free_def split: option.splits)
  then show ?thesis using True h(1) h3(1) assms(6) by (auto simp: kmutex_lock_def)
next
  case False
  obtain v l' s1 w s2 s3 where r: "spin_acquire D (m_spin m) s = Some (v, l', s1)"
    "park core (m_waiters m) s1 = Some (w, s2)" "spin_release D l' v s2 = (m_spin m, s3)"
    "held (sio s3) = held (sio s)" "chain (next_of s3) w (ws @ [t])"
    "vs = [] \<Longrightarrow> sched_inv s3 (qs(prio_of (tcb_pool s t) := us))"
    "t_state (tcb_pool s3 t) = THREAD_BLOCKED"
    by (rule park_section [OF assms], rule that; (assumption | blast))
  have "lock_free held (m_spin m) (sio s3)" using assms(2) r(4) by (simp add: lock_free_def split: option.splits)
  moreover have "kmutex_lock D core m s = Some (False, m\<lparr>m_spin := m_spin m, m_waiters := w\<rparr>, sched_yield core s3)"
    using r(1-3) False by (simp add: kmutex_lock_def)
  moreover have "pendsv (sched_yield core s3) core" by (simp add: sched_yield_def)
  ultimately show ?thesis using r(5-7) False
    by (intro exI [of _ False] exI [of _ "m\<lparr>m_spin := m_spin m, m_waiters := w\<rparr>"] exI [of _ "sched_yield core s3"])
      (simp add: frame_simps del: fun_upd_apply)
qed

theorem kmutex_lock_exclusive_witness:
  "\<exists>(s :: ((nat \<Rightarrow> bool) \<times> (nat \<Rightarrow> bool)) sync_state) m' s'. kmutex_lock sim_sdk 0
     \<lparr>m_spin = \<lparr>sl_hw = Some 14, sl_lock = 0\<rparr>, m_owner_tid = - 1, m_count = 0, m_waiters = None\<rparr> s = Some (True, m', s')"
proof -
  obtain s :: kstate where s: "sched_inv s ((\<lambda>_. [])(7 := [0, 1]))" "tcb_used s = (\<lambda>t. t = 0 \<or> t = 1)"
    "\<And>t. t < 2 \<Longrightarrow> t_state (tcb_pool s t) = (if t = 0 then THREAD_RUNNING else THREAD_READY) \<and>
       t_affinity (tcb_pool s t) = THREAD_AFFINITY_ANY \<and>
       \<not> t_kill_pending (tcb_pool s t) \<and> prio_of (tcb_pool s t) = 7 \<and> t_pid (tcb_pool s t) = 0"
    "current_tcb s = (\<lambda>_. None)(0 := Some 0)" "canary_intact (Some 0) s"
    by (rule boot_running, rule that; (assumption | blast))
  have inv: "sched_inv (with_sync s) ((\<lambda>_. [])(7 := [0, 1]))" using s(1) by simp
  have pr: "prio_of (tcb_pool s 0) = 7" using s(3) [of 0] by simp
  let ?m = "\<lparr>m_spin = \<lparr>sl_hw = Some 14, sl_lock = 0\<rparr>, m_owner_tid = - 1, m_count = 0, m_waiters = None\<rparr>"
  from kmutex_lock_exclusive [OF sim_sdk_ok _ inv, of ?m "[]" 0 0 "[]" "[1]"]
  show ?thesis using pr s(4) by (intro exI [of _ "with_sync s"]) (auto simp: lock_free_def waiting_def)
qed

text \<open>
  C21. What a blocking call does to the threads queued behind the caller: \<open>waiter_enqueue\<close> clears
  the caller's \<open>next\<close> while it is still on its ready queue, so the threads behind it, all of them
  READY and unchanged, are on no ready queue afterwards and cannot be selected by any core.
\<close>

theorem blocking_drops_ready_threads:
  assumes "sdk_ok D held claimed" and "lock_free held (m_spin m) (sio s)"
    and "sched_inv s qs" and "chain (next_of s) (m_waiters m) ws" and "waiting s ws"
    and "current_tcb s core = Some t" and "t \<notin> set ws" and "qs (prio_of (tcb_pool s t)) = us @ t # vs"
    and "m_owner_tid m \<noteq> - 1" and "v \<in> set vs"
  shows "\<exists>m' s' qs'. kmutex_lock D core m s = Some (False, m', s') \<and> rq_abs s' qs' \<and>
    t_state (tcb_pool s' v) = t_state (tcb_pool s v) \<and> (\<forall>p < NUM_PRIORITIES. v \<notin> set (qs' p))"
proof -
  let ?p = "prio_of (tcb_pool s t)"
  obtain u l' s1 w s2 s3 where r: "spin_acquire D (m_spin m) s = Some (u, l', s1)"
    "park core (m_waiters m) s1 = Some (w, s2)" "spin_release D l' u s2 = (m_spin m, s3)"
    "rq_abs s3 (qs(?p := us))"
    "\<And>u. u \<noteq> t \<Longrightarrow> t_state (tcb_pool s3 u) = t_state (tcb_pool s u)"
    by (rule park_section [OF assms(1-8)], rule that; (assumption | blast))
  note rq = sched_invD(2) [OF assms(3)]
  have d: "distinct (us @ t # vs)" using rq_abs_distinct [OF rq, of ?p] assms(8) by simp
  then have vt: "v \<noteq> t" "v \<notin> set us" using assms(10) by auto
  have pv: "prio_of (tcb_pool s v) = ?p" using rq_abs_other [OF rq, of ?p v] assms(8,10) by simp
  have "v \<notin> set ((qs(?p := us)) p)" if "p < 8" for p
    using rq_abs_other [OF rq that, of v] pv vt by auto
  moreover have "kmutex_lock D core m s = Some (False, m\<lparr>m_spin := m_spin m, m_waiters := w\<rparr>, sched_yield core s3)"
    using r(1-3) assms(9) by (simp add: kmutex_lock_def)
  moreover have "rq_abs (sched_yield core s3) (qs(?p := us))" using r(4) by (simp only: frame_simps)
  moreover have "t_state (tcb_pool (sched_yield core s3) v) = t_state (tcb_pool s v)"
    using r(5) [OF vt(1)] by (simp add: frame_simps)
  ultimately show ?thesis unfolding kernel_consts by blast
qed

theorem blocking_drops_ready_threads_witness:
  "\<exists>(s :: ((nat \<Rightarrow> bool) \<times> (nat \<Rightarrow> bool)) sync_state) m' s' qs'. kmutex_lock sim_sdk 0
     \<lparr>m_spin = \<lparr>sl_hw = Some 14, sl_lock = 0\<rparr>, m_owner_tid = 9, m_count = 1, m_waiters = None\<rparr> s = Some (False, m', s') \<and>
     rq_abs s' qs' \<and> t_state (tcb_pool s' 1) = THREAD_READY \<and> (\<forall>p < NUM_PRIORITIES. 1 \<notin> set (qs' p))"
proof -
  obtain s :: kstate where s: "sched_inv s ((\<lambda>_. [])(7 := [0, 1]))" "tcb_used s = (\<lambda>t. t = 0 \<or> t = 1)"
    "\<And>t. t < 2 \<Longrightarrow> t_state (tcb_pool s t) = (if t = 0 then THREAD_RUNNING else THREAD_READY) \<and>
       t_affinity (tcb_pool s t) = THREAD_AFFINITY_ANY \<and>
       \<not> t_kill_pending (tcb_pool s t) \<and> prio_of (tcb_pool s t) = 7 \<and> t_pid (tcb_pool s t) = 0"
    "current_tcb s = (\<lambda>_. None)(0 := Some 0)" "canary_intact (Some 0) s"
    by (rule boot_running, rule that; (assumption | blast))
  have inv: "sched_inv (with_sync s) ((\<lambda>_. [])(7 := [0, 1]))" using s(1) by simp
  have pr: "prio_of (tcb_pool s 0) = 7" "t_state (tcb_pool s 1) = THREAD_READY" using s(3) [of 0] s(3) [of 1] by simp_all
  let ?m = "\<lparr>m_spin = \<lparr>sl_hw = Some 14, sl_lock = 0\<rparr>, m_owner_tid = 9, m_count = 1, m_waiters = None\<rparr>"
  from blocking_drops_ready_threads [OF sim_sdk_ok _ inv, of ?m "[]" 0 0 "[]" "[1]" 1]
  show ?thesis using pr s(4) by (intro exI [of _ "with_sync s"]) (auto simp: lock_free_def waiting_def)
qed

lemma sint_dec: "0 < sint (c :: 32 word) \<Longrightarrow> sint (c - 1) = sint c - 1"
  by (simp add: sint_word_ariths signed_take_bit_int_eq_self sint_greater_eq sint_less)
    (rule signed_take_bit_int_eq_self; use sint_less [of c] in simp)

lemma sint_inc: "sint (c :: 32 word) < 2 ^ 31 - 1 \<Longrightarrow> sint (c + 1) = sint c + 1"
  by (simp add: sint_word_ariths) (rule signed_take_bit_int_eq_self; use sint_greater_eq [of c] in simp)

text \<open>
  C20. The count of a semaphore never goes below zero: a wait takes one unit when there is one and
  otherwise parks the caller with the count unchanged; a signal adds one unit and makes the first
  live waiter READY; both return with the spinlock released.
\<close>

theorem ksemaphore_never_negative:
  fixes s :: "('h, 'a) sync_state_scheme"
  assumes "sdk_ok D held claimed" and "lock_free held (k_spin k) (sio s)"
    and "sched_inv s qs" and "chain (next_of s) (k_waiters k) ws" and "waiting s ws"
    and "current_tcb s core = Some t" and "t \<notin> set ws" and "qs (prio_of (tcb_pool s t)) = us @ t # vs"
    and "0 \<le> sint (k_count k)"
  shows "(\<exists>b k' s'. ksemaphore_wait D core k s = Some (b, k', s') \<and> (b \<longleftrightarrow> 0 < sint (k_count k)) \<and>
       sint (k_count k') = sint (k_count k) - (if b then 1 else 0) \<and> 0 \<le> sint (k_count k') \<and>
       k_spin k' = k_spin k \<and> lock_free held (k_spin k') (sio s') \<and>
       (if b then k_waiters k' = k_waiters k \<and> (\<exists>h. s' = s\<lparr>sio := h\<rparr>)
        else chain (next_of s') (k_waiters k') (ws @ [t]) \<and> t_state (tcb_pool s' t) = THREAD_BLOCKED)) \<and>
    (\<exists>k' s'. ksemaphore_signal D core k s = Some (k', s') \<and> k_spin k' = k_spin k \<and>
       lock_free held (k_spin k') (sio s') \<and>
       (sint (k_count k) < 2 ^ 31 - 1 \<longrightarrow> sint (k_count k') = sint (k_count k) + 1) \<and>
       chain (next_of s') (k_waiters k') (tl (dropWhile (dead s) ws)) \<and> sched_inv s' (after_wake s ws qs) \<and>
       (\<forall>w. woken s ws = Some w \<longrightarrow> t_state (tcb_pool s' w) = THREAD_READY))"
proof (intro conjI)
  have free: "lock_free held (k_spin k) h" if "held h = held (sio s)" for h
    using assms(2) that by (simp add: lock_free_def split: option.splits)
  show "\<exists>b k' s'. ksemaphore_wait D core k s = Some (b, k', s') \<and> (b \<longleftrightarrow> 0 < sint (k_count k)) \<and>
       sint (k_count k') = sint (k_count k) - (if b then 1 else 0) \<and> 0 \<le> sint (k_count k') \<and>
       k_spin k' = k_spin k \<and> lock_free held (k_spin k') (sio s') \<and>
       (if b then k_waiters k' = k_waiters k \<and> (\<exists>h. s' = s\<lparr>sio := h\<rparr>)
        else chain (next_of s') (k_waiters k') (ws @ [t]) \<and> t_state (tcb_pool s' t) = THREAD_BLOCKED)"
  proof (cases "0 < sint (k_count k)")
    case True
    obtain v l' h where h: "spin_acquire D (k_spin k) s = Some (v, l', s\<lparr>sio := h\<rparr>)"
      "\<And>s2 :: ('h, 'a) sync_state_scheme. held (sio s2) = held h \<Longrightarrow>
         \<exists>h3. spin_release D l' v s2 = (k_spin k, s2\<lparr>sio := h3\<rparr>) \<and> held h3 = held (sio s)"
      by (rule spin_section [OF assms(1,2)], rule that; (assumption | blast))
    from h(2) [of "s\<lparr>sio := h\<rparr>"] obtain h3 where
      h3: "spin_release D l' v (s\<lparr>sio := h\<rparr>) = (k_spin k, s\<lparr>sio := h3\<rparr>)" "held h3 = held (sio s)" by auto
    have "ksemaphore_wait D core k s =
        Some (True, k\<lparr>k_spin := k_spin k, k_count := k_count k - 1\<rparr>, s\<lparr>sio := h3\<rparr>)"
      using True h(1) h3(1) by (simp add: ksemaphore_wait_def)
    then show ?thesis using True sint_dec [OF True] free [OF h3(2)]
      by (intro exI [of _ True] exI [of _ "k\<lparr>k_spin := k_spin k, k_count := k_count k - 1\<rparr>"]
          exI [of _ "s\<lparr>sio := h3\<rparr>"]) auto
  next
    case False
    obtain u l' s1 w s2 s3 where r: "spin_acquire D (k_spin k) s = Some (u, l', s1)"
      "park core (k_waiters k) s1 = Some (w, s2)" "spin_release D l' u s2 = (k_spin k, s3)"
      "held (sio s3) = held (sio s)" "chain (next_of s3) w (ws @ [t])" "t_state (tcb_pool s3 t) = THREAD_BLOCKED"
      by (rule park_section [OF assms(1-8)], rule that; (assumption | blast))
    have "ksemaphore_wait D core k s = Some (False, k\<lparr>k_spin := k_spin k, k_waiters := w\<rparr>, sched_yield core s3)"
      using r(1-3) False by (simp add: ksemaphore_wait_def)
    then show ?thesis using False r(5,6) free [OF r(4)] assms(9)
      by (intro exI [of _ False] exI [of _ "k\<lparr>k_spin := k_spin k, k_waiters := w\<rparr>"] exI [of _ "sched_yield core s3"])
        (simp add: frame_simps)
  qed
  obtain v l' s1 w s2 s3 where r: "spin_acquire D (k_spin k) s = Some (v, l', s1)"
    "wake_one core (k_waiters k) s1 = Some (w, s2)" "spin_release D l' v s2 = (k_spin k, s3)"
    "held (sio s3) = held (sio s)" "chain (next_of s3) w (tl (dropWhile (dead s) ws))"
    "sched_inv s3 (after_wake s ws qs)"
    "\<And>t. woken s ws = Some t \<Longrightarrow> t_state (tcb_pool s3 t) = THREAD_READY \<and> tcb_used s3 t"
    by (rule wake_section [OF assms(1-5)], rule that; (assumption | blast))
  have "ksemaphore_signal D core k s = Some (k\<lparr>k_spin := k_spin k, k_count := k_count k + 1, k_waiters := w\<rparr>, s3)"
    using r(1-3) by (simp add: ksemaphore_signal_def)
  then show "\<exists>k' s'. ksemaphore_signal D core k s = Some (k', s') \<and> k_spin k' = k_spin k \<and>
       lock_free held (k_spin k') (sio s') \<and>
       (sint (k_count k) < 2 ^ 31 - 1 \<longrightarrow> sint (k_count k') = sint (k_count k) + 1) \<and>
       chain (next_of s') (k_waiters k') (tl (dropWhile (dead s) ws)) \<and> sched_inv s' (after_wake s ws qs) \<and>
       (\<forall>w. woken s ws = Some w \<longrightarrow> t_state (tcb_pool s' w) = THREAD_READY)"
    using r(5-7) free [OF r(4)] sint_inc [of "k_count k"]
    by (intro exI [of _ "k\<lparr>k_spin := k_spin k, k_count := k_count k + 1, k_waiters := w\<rparr>"] exI [of _ s3]) simp
qed

theorem ksemaphore_never_negative_witness:
  "\<exists>(s :: ((nat \<Rightarrow> bool) \<times> (nat \<Rightarrow> bool)) sync_state) k' s'.
     ksemaphore_wait sim_sdk 0 \<lparr>k_spin = \<lparr>sl_hw = Some 14, sl_lock = 0\<rparr>, k_count = 2, k_waiters = None\<rparr> s =
       Some (True, k', s') \<and> sint (k_count k') = 1"
proof -
  obtain s :: kstate where s: "sched_inv s ((\<lambda>_. [])(7 := [0, 1]))" "tcb_used s = (\<lambda>t. t = 0 \<or> t = 1)"
    "\<And>t. t < 2 \<Longrightarrow> t_state (tcb_pool s t) = (if t = 0 then THREAD_RUNNING else THREAD_READY) \<and>
       t_affinity (tcb_pool s t) = THREAD_AFFINITY_ANY \<and>
       \<not> t_kill_pending (tcb_pool s t) \<and> prio_of (tcb_pool s t) = 7 \<and> t_pid (tcb_pool s t) = 0"
    "current_tcb s = (\<lambda>_. None)(0 := Some 0)" "canary_intact (Some 0) s"
    by (rule boot_running, rule that; (assumption | blast))
  have inv: "sched_inv (with_sync s) ((\<lambda>_. [])(7 := [0, 1]))" using s(1) by simp
  have pr: "prio_of (tcb_pool s 0) = 7" using s(3) [of 0] by simp
  let ?k = "\<lparr>k_spin = \<lparr>sl_hw = Some 14, sl_lock = 0\<rparr>, k_count = 2, k_waiters = None\<rparr>"
  from ksemaphore_never_negative [OF sim_sdk_ok _ inv, of ?k "[]" 0 0 "[]" "[1]"]
  show ?thesis using pr s(4) by (intro exI [of _ "with_sync s"]) (auto simp: lock_free_def waiting_def)
qed

section \<open>Message queues\<close>

text \<open>The ring as a bounded list of messages, oldest first.\<close>

definition mq_abs :: "mqueue_t \<Rightarrow> u8 list list \<Rightarrow> bool" where
  "mq_abs q msgs \<longleftrightarrow> q_msg_size q \<le> 64 \<and> unat (q_head q) < 16 \<and> unat (q_count q) = length msgs \<and> length msgs \<le> 16 \<and>
     unat (q_tail q) = (unat (q_head q) + length msgs) mod 16 \<and>
     length (q_buf q) = 16 \<and> (\<forall>row \<in> set (q_buf q). length row = 64) \<and>
     (\<forall>i < length msgs. take (unat (q_msg_size q)) (q_buf q ! ((unat (q_head q) + i) mod 16)) = msgs ! i)"

lemma mq_abs_init: "mq_abs (mqueue_init pool addr n) []"
  by (simp add: mq_abs_def mqueue_init_def MQ_MAX_MSG_def MQ_MSG_SIZE_def)

lemma unat_succ_mod16: "unat w < 16 \<Longrightarrow> unat ((w + 1) mod MQ_MAX_MSG) = (unat w + 1) mod 16" for w :: u32
  by (simp add: MQ_MAX_MSG_def unat_mod_distrib unat_word_ariths)

lemma ring_distinct: "(h :: nat) < 16 \<Longrightarrow> i < n \<Longrightarrow> n < 16 \<Longrightarrow> (h + i) mod 16 \<noteq> (h + n) mod 16"
proof
  assume a: "h < 16" "i < n" "n < 16" "(h + i) mod 16 = (h + n) mod 16"
  then have "16 dvd (h + n) - (h + i)" by (metis add_le_cancel_left less_imp_le mod_eq_dvd_iff_nat)
  then have "16 dvd n - i" by simp
  then have "16 \<le> n - i" using a(2) by (intro dvd_imp_le) simp_all
  then show False using a(3) by simp
qed

lemma mq_abs_put:
  assumes q: "mq_abs q msgs" and room: "length msgs < 16" and msg: "unat (q_msg_size q) \<le> length msg"
  shows "mq_abs (ring_put msg q) (msgs @ [take (unat (q_msg_size q)) msg])"
proof -
  let ?z = "unat (q_msg_size q)" and ?t = "unat (q_tail q)" and ?h = "unat (q_head q)"
  let ?row = "take ?z msg @ drop ?z (q_buf q ! ?t)"
  note a = q [unfolded mq_abs_def]
  have z: "?z \<le> 64" using a by (simp add: word_le_nat_alt)
  have t: "?t = (?h + length msgs) mod 16" "?t < 16" using a by simp_all
  have "length (q_buf q ! ?t) = 64" using a t(2) by (metis nth_mem)
  then have row: "length ?row = 64" "take ?z ?row = take ?z msg" using z msg by simp_all
  have tail: "unat ((q_tail q + 1) mod MQ_MAX_MSG) = (?h + Suc (length msgs)) mod 16"
    using unat_succ_mod16 [OF t(2)] t(1) by (simp add: mod_Suc_eq)
  have count: "unat (q_count q + 1) = Suc (length msgs)" using a room by (simp add: unat_word_ariths)
  have "take ?z ((q_buf q)[?t := ?row] ! ((?h + i) mod 16)) = (msgs @ [take ?z msg]) ! i"
    if i: "i < Suc (length msgs)" for i
  proof (cases "i = length msgs")
    case True
    then show ?thesis using t row(2) a by simp
  next
    case False
    then have "(?h + i) mod 16 \<noteq> (?h + length msgs) mod 16"
    proof -
      have "?h < 16" "i < length msgs" using a i False by simp_all
      then show ?thesis using room by (intro ring_distinct)
    qed
    then show ?thesis using t a i False by (simp add: nth_append)
  qed
  then have cells: "\<forall>i < Suc (length msgs). take ?z ((q_buf q)[?t := ?row] ! ((?h + i) mod 16)) =
      (msgs @ [take ?z msg]) ! i" by blast
  have rows: "\<forall>r \<in> set ((q_buf q)[?t := ?row]). length r = 64"
    using a row(1) by (auto dest!: subsetD [OF set_update_subset_insert])
  let ?q = "ring_put msg q"
  have f: "q_msg_size ?q = q_msg_size q" "q_head ?q = q_head q" "q_count ?q = q_count q + 1"
    "q_tail ?q = (q_tail q + 1) mod MQ_MAX_MSG" "q_buf ?q = (q_buf q)[?t := ?row]"
    by (simp_all add: ring_put_def)
  have len: "length (msgs @ [take ?z msg]) = Suc (length msgs)" "length ((q_buf q)[?t := ?row]) = length (q_buf q)"
    by simp_all
  have b: "q_msg_size q \<le> 64" "length (q_buf q) = 16" "?h < 16" "Suc (length msgs) \<le> 16" using a room by simp_all
  show ?thesis unfolding mq_abs_def f len by (intro conjI b tail count rows cells)
qed

lemma mq_abs_get:
  assumes q: "mq_abs q (m # msgs)"
  shows "fst (ring_get q) = m \<and> mq_abs (snd (ring_get q)) msgs"
proof -
  let ?h = "unat (q_head q)"
  note a = q [unfolded mq_abs_def]
  have h: "?h < 16" using a by simp
  have head: "unat ((q_head q + 1) mod MQ_MAX_MSG) = (?h + 1) mod 16" by (rule unat_succ_mod16 [OF h])
  have "q_count q \<noteq> 0" using a by auto
  then have count: "unat (q_count q - 1) = length msgs" using a by (simp add: unat_minus_one)
  have "((?h + 1) mod 16 + i) mod 16 = (?h + Suc i) mod 16" for i by (simp add: mod_add_left_eq)
  moreover have "take (unat (q_msg_size q)) (q_buf q ! ((?h + Suc i) mod 16)) = msgs ! i" if "i < length msgs" for i
  proof -
    have "Suc i < length (m # msgs)" using that by simp
    then show ?thesis using a by (metis nth_Cons_Suc)
  qed
  moreover have "take (unat (q_msg_size q)) (q_buf q ! (?h mod 16)) = m"
    using a by (metis add_0_right length_greater_0_conv list.distinct(1) nth_Cons_0)
  ultimately show ?thesis using a h head count
    by (simp add: mq_abs_def ring_get_def mod_add_left_eq)
qed

lemma mq_abs_update [simp]:
  "mq_abs (q\<lparr>q_spin := l\<rparr>) msgs \<longleftrightarrow> mq_abs q msgs"
  "mq_abs (q\<lparr>q_recv_waiters := w\<rparr>) msgs \<longleftrightarrow> mq_abs q msgs"
  "mq_abs (q\<lparr>q_send_waiters := w\<rparr>) msgs \<longleftrightarrow> mq_abs q msgs"
  by (simp_all add: mq_abs_def)

lemma ring_fields [simp]:
  "q_recv_waiters (ring_put msg q) = q_recv_waiters q" "q_send_waiters (ring_put msg q) = q_send_waiters q"
  "q_recv_waiters (snd (ring_get q)) = q_recv_waiters q" "q_send_waiters (snd (ring_get q)) = q_send_waiters q"
  "q_spin (ring_put msg q) = q_spin q" "q_spin (snd (ring_get q)) = q_spin q"
  by (simp_all add: ring_put_def ring_get_def)

lemma mq_abs_full: "mq_abs q msgs \<Longrightarrow> q_count q < MQ_MAX_MSG \<longleftrightarrow> length msgs < 16"
  and mq_abs_empty: "mq_abs q msgs \<Longrightarrow> 0 < q_count q \<longleftrightarrow> msgs \<noteq> []"
  and mq_abs_zero: "mq_abs q msgs \<Longrightarrow> q_count q = 0 \<longleftrightarrow> msgs = []"
proof -
  assume "mq_abs q msgs"
  then have c: "unat (q_count q) = length msgs" by (simp add: mq_abs_def)
  show "q_count q < MQ_MAX_MSG \<longleftrightarrow> length msgs < 16" by (simp add: word_less_nat_alt MQ_MAX_MSG_def c)
  show z: "q_count q = 0 \<longleftrightarrow> msgs = []" using c by (metis length_0_conv unat_eq_zero)
  show "0 < q_count q \<longleftrightarrow> msgs \<noteq> []" using z by (simp add: word_gt_0)
qed

text \<open>
  C17. A message queue is a first-in first-out list of at most 16 messages. With room, \<open>send\<close> and
  \<open>try_send\<close> append the first \<open>msg_size\<close> bytes and wake the first live receiver; without room
  \<open>try_send\<close> fails and \<open>send\<close> parks the caller, the messages unchanged. With a message,
  \<open>recv\<close> and \<open>try_recv\<close> take the oldest and wake the first live sender; without one \<open>try_recv\<close>
  fails and \<open>recv\<close> parks.
\<close>

theorem mqueue_bounded_fifo:
  fixes s :: "('h, 'a) sync_state_scheme"
  assumes "sdk_ok D held claimed" and "lock_free held (q_spin q) (sio s)" and "sched_inv s qs"
    and q: "mq_abs q msgs"
    and rs: "chain (next_of s) (q_recv_waiters q) rs" "waiting s rs"
    and ss: "chain (next_of s) (q_send_waiters q) ss" "waiting s ss"
    and cur: "current_tcb s core = Some t" "t \<notin> set rs" "t \<notin> set ss" "qs (prio_of (tcb_pool s t)) = us @ t # vs"
    and msg: "unat (q_msg_size q) \<le> length msg"
  shows "(length msgs < 16 \<longrightarrow> (\<exists>q' s'. mqueue_send D core q msg s = Some (True, q', s') \<and>
        mqueue_try_send D core q msg s = Some (True, q', s') \<and>
        mq_abs q' (msgs @ [take (unat (q_msg_size q)) msg]) \<and>
        chain (next_of s') (q_recv_waiters q') (tl (dropWhile (dead s) rs)) \<and> sched_inv s' (after_wake s rs qs))) \<and>
    (length msgs = 16 \<longrightarrow> (\<exists>q' s'. mqueue_try_send D core q msg s = Some (False, q', s') \<and> mq_abs q' msgs) \<and>
      (\<exists>q' s'. mqueue_send D core q msg s = Some (False, q', s') \<and> mq_abs q' msgs \<and>
        chain (next_of s') (q_send_waiters q') (ss @ [t]) \<and> t_state (tcb_pool s' t) = THREAD_BLOCKED)) \<and>
    (case msgs of
       m # ms \<Rightarrow> (\<exists>q' s'. mqueue_recv D core q s = Some (Some m, q', s') \<and>
          mqueue_try_recv D core q s = Some (Some m, q', s') \<and> mq_abs q' ms \<and>
          chain (next_of s') (q_send_waiters q') (tl (dropWhile (dead s) ss)) \<and> sched_inv s' (after_wake s ss qs))
     | [] \<Rightarrow> (\<exists>q' s'. mqueue_try_recv D core q s = Some (None, q', s') \<and> mq_abs q' []) \<and>
        (\<exists>q' s'. mqueue_recv D core q s = Some (None, q', s') \<and> mq_abs q' [] \<and>
          chain (next_of s') (q_recv_waiters q') (rs @ [t]) \<and> t_state (tcb_pool s' t) = THREAD_BLOCKED))"
proof -
  obtain v l' h where h: "spin_acquire D (q_spin q) s = Some (v, l', s\<lparr>sio := h\<rparr>)"
    "\<And>s2 :: ('h, 'a) sync_state_scheme. held (sio s2) = held h \<Longrightarrow>
       \<exists>h3. spin_release D l' v s2 = (q_spin q, s2\<lparr>sio := h3\<rparr>) \<and> held h3 = held (sio s)"
    by (rule spin_section [OF assms(1,2)], rule that; (assumption | blast))
  from h(2) [of "s\<lparr>sio := h\<rparr>"] obtain h3 where h3: "spin_release D l' v (s\<lparr>sio := h\<rparr>) = (q_spin q, s\<lparr>sio := h3\<rparr>)" by auto
  have notle: "MQ_MAX_MSG \<le> q_count q \<longleftrightarrow> \<not> length msgs < 16" using mq_abs_full [OF q] by (simp add: not_less [symmetric])
  have send: "\<exists>q' s'. mqueue_send D core q msg s = Some (True, q', s') \<and>
        mqueue_try_send D core q msg s = Some (True, q', s') \<and>
        mq_abs q' (msgs @ [take (unat (q_msg_size q)) msg]) \<and>
        chain (next_of s') (q_recv_waiters q') (tl (dropWhile (dead s) rs)) \<and> sched_inv s' (after_wake s rs qs)"
    if room: "length msgs < 16"
  proof -
    obtain v l' s1 w s2 s3 where r: "spin_acquire D (q_spin q) s = Some (v, l', s1)"
      "wake_one core (q_recv_waiters q) s1 = Some (w, s2)" "spin_release D l' v s2 = (q_spin q, s3)"
      "chain (next_of s3) w (tl (dropWhile (dead s) rs))" "sched_inv s3 (after_wake s rs qs)"
      by (rule wake_section [OF assms(1-3) rs], rule that; (assumption | blast))
    let ?q = "(ring_put msg q)\<lparr>q_spin := q_spin q, q_recv_waiters := w\<rparr>"
    have "mqueue_send D core q msg s = Some (True, ?q, s3)"
      using r(1-3) room mq_abs_full [OF q] by (simp add: mqueue_send_def Let_def)
    moreover have "mqueue_try_send D core q msg s = Some (True, ?q, s3)"
      using r(1-3) room notle by (simp add: mqueue_try_send_def Let_def)
    moreover have "mq_abs ?q (msgs @ [take (unat (q_msg_size q)) msg])" using mq_abs_put [OF q room msg] by simp
    ultimately show ?thesis using r(4,5) by (intro exI [of _ ?q] exI [of _ s3]) simp
  qed
  have full: "(\<exists>q' s'. mqueue_try_send D core q msg s = Some (False, q', s') \<and> mq_abs q' msgs) \<and>
      (\<exists>q' s'. mqueue_send D core q msg s = Some (False, q', s') \<and> mq_abs q' msgs \<and>
        chain (next_of s') (q_send_waiters q') (ss @ [t]) \<and> t_state (tcb_pool s' t) = THREAD_BLOCKED)"
    if f: "length msgs = 16"
  proof -
    obtain u k' s1 w s2 s3 where r: "spin_acquire D (q_spin q) s = Some (u, k', s1)"
      "park core (q_send_waiters q) s1 = Some (w, s2)" "spin_release D k' u s2 = (q_spin q, s3)"
      "chain (next_of s3) w (ss @ [t])" "t_state (tcb_pool s3 t) = THREAD_BLOCKED"
      by (rule park_section [OF assms(1-3) ss cur(1,3,4)], rule that; (assumption | blast))
    have "mqueue_send D core q msg s = Some (False, q\<lparr>q_spin := q_spin q, q_send_waiters := w\<rparr>, sched_yield core s3)"
      using r(1-3) f mq_abs_full [OF q] by (simp add: mqueue_send_def)
    moreover have "mqueue_try_send D core q msg s = Some (False, q\<lparr>q_spin := q_spin q\<rparr>, s\<lparr>sio := h3\<rparr>)"
      using h(1) h3 f notle by (simp add: mqueue_try_send_def)
    ultimately show ?thesis using q r(4,5) by (simp add: frame_simps)
  qed
  show ?thesis
  proof (cases msgs)
    case Nil
    obtain u k' s1 w s2 s3 where r: "spin_acquire D (q_spin q) s = Some (u, k', s1)"
      "park core (q_recv_waiters q) s1 = Some (w, s2)" "spin_release D k' u s2 = (q_spin q, s3)"
      "chain (next_of s3) w (rs @ [t])" "t_state (tcb_pool s3 t) = THREAD_BLOCKED"
      by (rule park_section [OF assms(1-3) rs cur(1,2,4)], rule that; (assumption | blast))
    have "mqueue_recv D core q s = Some (None, q\<lparr>q_spin := q_spin q, q_recv_waiters := w\<rparr>, sched_yield core s3)"
      using r(1-3) Nil mq_abs_zero [OF q] by (simp add: mqueue_recv_def)
    moreover have "mqueue_try_recv D core q s = Some (None, q\<lparr>q_spin := q_spin q\<rparr>, s\<lparr>sio := h3\<rparr>)"
      using h(1) h3 Nil mq_abs_zero [OF q] by (simp add: mqueue_try_recv_def)
    ultimately show ?thesis using send Nil q r(4,5) by (simp add: frame_simps)
  next
    case (Cons m ms)
    obtain v l' s1 w s2 s3 where r: "spin_acquire D (q_spin q) s = Some (v, l', s1)"
      "wake_one core (q_send_waiters q) s1 = Some (w, s2)" "spin_release D l' v s2 = (q_spin q, s3)"
      "chain (next_of s3) w (tl (dropWhile (dead s) ss))" "sched_inv s3 (after_wake s ss qs)"
      by (rule wake_section [OF assms(1-3) ss], rule that; (assumption | blast))
    let ?q = "(snd (ring_get q))\<lparr>q_spin := q_spin q, q_send_waiters := w\<rparr>"
    have get: "fst (ring_get q) = m" "mq_abs (snd (ring_get q)) ms"
      using mq_abs_get [of q m ms] q Cons by simp_all
    have "mqueue_recv D core q s = Some (Some m, ?q, s3)"
      using r(1-3) Cons mq_abs_zero [OF q] mq_abs_empty [OF q] by (simp add: mqueue_recv_def split_beta get(1))
    moreover have "mqueue_try_recv D core q s = Some (Some m, ?q, s3)"
      using r(1-3) Cons mq_abs_zero [OF q] by (simp add: mqueue_try_recv_def split_beta get(1))
    ultimately show ?thesis using send full Cons get(2) r(4,5) by (auto simp: frame_simps)
  qed
qed

theorem mqueue_bounded_fifo_witness:
  "\<exists>(s :: ((nat \<Rightarrow> bool) \<times> (nat \<Rightarrow> bool)) sync_state) q s' q'.
     mqueue_try_send sim_sdk 0 q [1, 2, 3, 4] s = Some (True, q', s') \<and> mq_abs q' [[1, 2, 3, 4]]"
proof -
  obtain s :: kstate where s: "sched_inv s ((\<lambda>_. [])(7 := [0, 1]))" "tcb_used s = (\<lambda>t. t = 0 \<or> t = 1)"
    "\<And>t. t < 2 \<Longrightarrow> t_state (tcb_pool s t) = (if t = 0 then THREAD_RUNNING else THREAD_READY) \<and>
       t_affinity (tcb_pool s t) = THREAD_AFFINITY_ANY \<and>
       \<not> t_kill_pending (tcb_pool s t) \<and> prio_of (tcb_pool s t) = 7 \<and> t_pid (tcb_pool s t) = 0"
    "current_tcb s = (\<lambda>_. None)(0 := Some 0)" "canary_intact (Some 0) s"
    by (rule boot_running, rule that; (assumption | blast))
  have inv: "sched_inv (with_sync s) ((\<lambda>_. [])(7 := [0, 1]))" using s(1) by simp
  have pr: "prio_of (tcb_pool s 0) = 7" using s(3) [of 0] by simp
  let ?q = "mqueue_init (\<lambda>_. \<lparr>sl_hw = Some 14, sl_lock = 0\<rparr>) 0 4"
  have f: "q_spin ?q = \<lparr>sl_hw = Some 14, sl_lock = 0\<rparr>" "q_recv_waiters ?q = None" "q_send_waiters ?q = None" "q_msg_size ?q = 4"
    by (simp_all add: mqueue_init_def prim_pool_assign_def MQ_MSG_SIZE_def)
  have "mq_abs ?q []" by (rule mq_abs_init)
  from mqueue_bounded_fifo [where q = ?q and msgs = "[]" and rs = "[]" and ss = "[]" and core = 0 and t = 0 and us = "[]" and vs = "[1]" and msg = "[1, 2, 3, 4]",
      OF sim_sdk_ok _ inv this]
  have "\<exists>q' s'. mqueue_try_send sim_sdk 0 ?q [1, 2, 3, 4] (with_sync s) = Some (True, q', s') \<and> mq_abs q' [[1, 2, 3, 4]]"
    using pr s(4) f by (auto simp: lock_free_def waiting_def)
  then show ?thesis by blast
qed

end
