(* ===== verification/Board.thy ===== *)
theory Board
  imports Prelude
begin

text \<open>
  The pico-sdk calls of the device drivers. A call that returns nothing is recorded, in order, in
  a log; the few calls that return a value are parameters (\<open>board\<close>). What the board does with
  the log (pin functions, PWM levels) is read off it by the functions at the end.
\<close>

datatype gpio_func = GPIO_FUNC_SPI | GPIO_FUNC_PWM | GPIO_FUNC_SIO

datatype hw_op =
    GpioSetFunction nat gpio_func
  | GpioInit nat
  | GpioSetDir nat bool
  | GpioPut nat bool
  | GpioPullUp nat
  | PwmSetWrap nat nat
  | PwmSetChanLevel nat nat u8
  | PwmSetEnabled nat bool
  | SpiInit u32
  | SpiSetFormat
  | SpiWrite "u8 list"
  | SleepMs nat
  | IrqSave
  | IrqRestore
  | PutcharRaw u8
  | StdioFlush
  | Printf string

text \<open>\<open>pwm_gpio_to_slice_num\<close>, \<open>pwm_gpio_to_channel\<close> and \<open>gpio_get\<close>.\<close>

record board =
  slice_num :: "nat \<Rightarrow> nat"
  pwm_chan :: "nat \<Rightarrow> nat"
  gpio_get :: "nat \<Rightarrow> bool"

record hw =
  hw_log :: "hw_op list"

definition emit :: "hw_op list \<Rightarrow> 'a hw_scheme \<Rightarrow> 'a hw_scheme" where
  "emit ops s = s\<lparr>hw_log := hw_log s @ ops\<rparr>"

lemma emit_log [simp]: "hw_log (emit ops s) = hw_log s @ ops"
  by (simp add: emit_def)

lemma emit_emit [simp]: "emit ys (emit xs s) = emit (xs @ ys) s"
  by (simp add: emit_def)

section \<open>Reading the log\<close>

fun pin_function :: "hw_op list \<Rightarrow> nat \<Rightarrow> gpio_func option" where
  "pin_function [] p = None"
| "pin_function (x # xs) p = (case pin_function xs p of
       Some f \<Rightarrow> Some f
     | None \<Rightarrow> (case x of GpioSetFunction q f \<Rightarrow> if q = p then Some f else None
                  | GpioInit q \<Rightarrow> if q = p then Some GPIO_FUNC_SIO else None | _ \<Rightarrow> None))"

fun chan_level :: "hw_op list \<Rightarrow> nat \<Rightarrow> nat \<Rightarrow> u8 option" where
  "chan_level [] sl ch = None"
| "chan_level (x # xs) sl ch = (case chan_level xs sl ch of
       Some f \<Rightarrow> Some f
     | None \<Rightarrow> (case x of PwmSetChanLevel a b l \<Rightarrow> if a = sl \<and> b = ch then Some l else None | _ \<Rightarrow> None))"

lemma pin_function_append:
  "pin_function (xs @ ys) p = (case pin_function ys p of Some f \<Rightarrow> Some f | None \<Rightarrow> pin_function xs p)"
  by (induction xs) (auto split: option.splits)

lemma chan_level_append:
  "chan_level (xs @ ys) a b = (case chan_level ys a b of Some f \<Rightarrow> Some f | None \<Rightarrow> chan_level xs a b)"
  by (induction xs) (auto split: option.splits)

end
