(* ===== verification/Libc.thy ===== *)
theory Libc
  imports Prelude
begin

text \<open>
  The C library functions of the drivers' shell commands: \<open>strtoul(s, &end, 16)\<close> and
  \<open>atoi\<close> on C strings (\<open>unsigned long\<close> has 32 bits), and the decimal output of \<open>printf\<close>.
\<close>

definition c_isspace :: "char \<Rightarrow> bool" where
  "c_isspace c \<longleftrightarrow> c = CHR 0x20 \<or> 9 \<le> (of_char c :: nat) \<and> (of_char c :: nat) \<le> 13"

definition digit_value :: "nat \<Rightarrow> char \<Rightarrow> nat option" where
  "digit_value base c = (let n = of_char c :: nat;
     v = (if 48 \<le> n \<and> n \<le> 57 then n - 48
          else if 97 \<le> n \<and> n \<le> 102 then n - 87
          else if 65 \<le> n \<and> n \<le> 70 then n - 55 else 99)
   in if v < base then Some v else None)"

definition number :: "nat \<Rightarrow> string \<Rightarrow> nat" where
  "number base ds = foldl (\<lambda>a c. a * base + the (digit_value base c)) 0 ds"

definition sign_of :: "string \<Rightarrow> bool \<times> string" where
  "sign_of s = (case s of
       [] \<Rightarrow> (False, [])
     | c # r \<Rightarrow> if c = CHR 0x2D then (True, r) else if c = CHR 0x2B then (False, r) else (False, s))"

definition skip_0x :: "string \<Rightarrow> string" where
  "skip_0x s = (case s of
       a # b # c # r \<Rightarrow>
         if a = CHR 0x30 \<and> (b = CHR 0x78 \<or> b = CHR 0x58) \<and> digit_value 16 c \<noteq> None then c # r else s
     | _ \<Rightarrow> s)"

text \<open>The value and the text that \<open>end\<close> points to; with no digits \<open>end\<close> is the start.\<close>

definition strtoul16 :: "string \<Rightarrow> u32 \<times> string" where
  "strtoul16 str = (let
     (neg, s2) = sign_of (dropWhile c_isspace str);
     s3 = skip_0x s2;
     ds = takeWhile (\<lambda>c. digit_value 16 c \<noteq> None) s3;
     v = number 16 ds
   in if ds = [] then (0, str)
      else (if 2 ^ 32 \<le> v then - 1 else if neg then - word_of_nat v else word_of_nat v,
            dropWhile (\<lambda>c. digit_value 16 c \<noteq> None) s3))"

definition atoi :: "string \<Rightarrow> int" where
  "atoi str = (let
     (neg, s2) = sign_of (dropWhile c_isspace str);
     v = int (number 10 (takeWhile (\<lambda>c. digit_value 10 c \<noteq> None) s2))
   in if neg then - v else v)"

fun dec :: "nat \<Rightarrow> string" where
  "dec n = (if n < 10 then [char_of (48 + n)] else dec (n div 10) @ [char_of (48 + n mod 10)])"

declare dec.simps [simp del]

end
