(* ===== verification/Led.thy ===== *)
theory Led
  imports Board Libc
begin

text \<open>
  \<open>src/drivers/led.c\<close>: the active-low RGB LED on three PWM channels. \<open>led\<close> is the driver's
  static state over the log of its SDK calls.
\<close>

section \<open>Driver\<close>

record led = hw +
  s_r :: u8
  s_g :: u8
  s_b :: u8

definition LED_PIN_R :: nat where "LED_PIN_R = 6"
definition LED_PIN_G :: nat where "LED_PIN_G = 7"
definition LED_PIN_B :: nat where "LED_PIN_B = 8"

definition IOCTL_LED_SET_RGB :: u32 where "IOCTL_LED_SET_RGB = 0x0400"
definition IOCTL_LED_OFF :: u32 where "IOCTL_LED_OFF = 0x0401"

definition led_pwm_set :: "board \<Rightarrow> nat \<Rightarrow> u8 \<Rightarrow> 'a hw_scheme \<Rightarrow> 'a hw_scheme" where
  "led_pwm_set B gpio brightness = (let duty = 255 - brightness; slice = slice_num B gpio; chan = pwm_chan B gpio
     in emit [PwmSetWrap slice 255, PwmSetChanLevel slice chan duty, PwmSetEnabled slice True])"

definition led_set :: "board \<Rightarrow> u8 \<Rightarrow> u8 \<Rightarrow> u8 \<Rightarrow> 'a hw_scheme \<Rightarrow> 'a hw_scheme" where
  "led_set B r g b s = led_pwm_set B LED_PIN_B b (led_pwm_set B LED_PIN_G g (led_pwm_set B LED_PIN_R r s))"

definition led_open :: "board \<Rightarrow> led \<Rightarrow> int \<times> led" where
  "led_open B s = (let
     s1 = emit [GpioSetFunction LED_PIN_R GPIO_FUNC_PWM, GpioSetFunction LED_PIN_G GPIO_FUNC_PWM,
                GpioSetFunction LED_PIN_B GPIO_FUNC_PWM] s;
     s2 = led_set B 0 0 0 s1
   in (0, s2\<lparr>s_r := 0, s_g := 0, s_b := 0\<rparr>))"

definition led_read :: "u32 \<Rightarrow> led \<Rightarrow> int \<times> led" where
  "led_read len s = (- 1, s)"

text \<open>\<open>buf\<close> is \<^const>\<open>None\<close> for \<open>NULL\<close>, else the bytes from \<open>buf\<close> on.\<close>

definition led_write :: "board \<Rightarrow> u8 list option \<Rightarrow> u32 \<Rightarrow> led \<Rightarrow> int \<times> led" where
  "led_write B buf len s = (case buf of
       None \<Rightarrow> (- 1, s)
     | Some bs \<Rightarrow>
         if len < 3 then (- 1, s)
         else let s1 = s\<lparr>s_r := bs ! 0, s_g := bs ! 1, s_b := bs ! 2\<rparr>
              in (3, led_set B (s_r s1) (s_g s1) (s_b s1) s1))"

text \<open>\<open>arg\<close> is \<^const>\<open>None\<close> for \<open>NULL\<close>, else the word it points to.\<close>

definition led_ioctl :: "board \<Rightarrow> u32 \<Rightarrow> u32 option \<Rightarrow> led \<Rightarrow> int \<times> led" where
  "led_ioctl B cmd arg s =
     (if cmd = IOCTL_LED_SET_RGB then
        (case arg of
           None \<Rightarrow> (- 1, s)
         | Some rgb \<Rightarrow>
             let s1 = s\<lparr>s_r := ucast (and (drop_bit 16 rgb) 0xFF), s_g := ucast (and (drop_bit 8 rgb) 0xFF),
                        s_b := ucast (and rgb 0xFF)\<rparr>
             in (0, led_set B (s_r s1) (s_g s1) (s_b s1) s1))
      else if cmd = IOCTL_LED_OFF then (0, led_set B 0 0 0 (s\<lparr>s_r := 0, s_g := 0, s_b := 0\<rparr>))
      else (- 1, s))"

definition led_close :: "board \<Rightarrow> led \<Rightarrow> led" where
  "led_close B s = (let
     s1 = led_set B 0 0 0 s;
     s2 = emit [PwmSetEnabled (slice_num B LED_PIN_R) False, PwmSetEnabled (slice_num B LED_PIN_B) False] s1;
     s3 = emit [GpioSetFunction LED_PIN_R GPIO_FUNC_SIO, GpioSetFunction LED_PIN_G GPIO_FUNC_SIO,
                GpioSetFunction LED_PIN_B GPIO_FUNC_SIO,
                GpioSetDir LED_PIN_R True, GpioSetDir LED_PIN_G True, GpioSetDir LED_PIN_B True,
                GpioPut LED_PIN_R True, GpioPut LED_PIN_G True, GpioPut LED_PIN_B True] s2
   in s3\<lparr>s_r := 0, s_g := 0, s_b := 0\<rparr>)"

section \<open>Shell command\<close>

text \<open>\<open>args\<close> is \<open>argv[1]\<close> onwards.\<close>

definition led_color :: "string \<Rightarrow> (u8 \<times> u8 \<times> u8) + string" where
  "led_color a =
     (if strcmp_eq a ''red'' then Inl (255, 0, 0)
      else if strcmp_eq a ''green'' then Inl (0, 255, 0)
      else if strcmp_eq a ''blue'' then Inl (0, 0, 255)
      else if strcmp_eq a ''white'' then Inl (255, 255, 255)
      else if strcmp_eq a ''cyan'' then Inl (0, 255, 255)
      else if strcmp_eq a ''magenta'' then Inl (255, 0, 255)
      else if strcmp_eq a ''yellow'' then Inl (255, 255, 0)
      else if length (cstr a) = 6 then
        (let (rgb, rest) = strtoul16 (cstr a)
         in if rest \<noteq> [] then Inr (''Invalid hex color: '' @ cstr a @ [CHR 0x0A])
            else Inl (ucast (and (drop_bit 16 rgb) 0xFF), ucast (and (drop_bit 8 rgb) 0xFF), ucast (and rgb 0xFF)))
      else Inr (''Unknown color: '' @ cstr a @ [CHR 0x0A]))"

definition cmd_led :: "board \<Rightarrow> string list \<Rightarrow> led \<Rightarrow> int \<times> led" where
  "cmd_led B args s = (case args of
       [] \<Rightarrow> (- 1, emit [Printf (''Usage: led on'' @ [CHR 0x0A]), Printf (''       led off'' @ [CHR 0x0A]),
           Printf (''       led RRGGBB         (hex, e.g. FF0000 = red)'' @ [CHR 0x0A]),
           Printf (''       led red|green|blue|white|cyan|magenta|yellow'' @ [CHR 0x0A])] s)
     | a # _ \<Rightarrow>
         if strcmp_eq a ''on'' then (0, snd (led_open B s))
         else if strcmp_eq a ''off'' then (0, led_close B (snd (led_write B (Some [0, 0, 0]) 3 s)))
         else (case led_color a of
             Inr msg \<Rightarrow> (- 1, emit [Printf msg] s)
           | Inl (r, g, b) \<Rightarrow> (0, snd (led_write B (Some [r, g, b]) 3 s))))"

section \<open>What the LED shows\<close>

text \<open>The calls of the driver as a history from power-on.\<close>

datatype led_call =
    LedOpen
  | LedWrite "u8 list option" u32
  | LedIoctl u32 "u32 option"
  | LedClose
  | LedShell "string list"

fun led_step :: "board \<Rightarrow> led_call \<Rightarrow> led \<Rightarrow> led" where
  "led_step B LedOpen s = snd (led_open B s)"
| "led_step B (LedWrite buf n) s = snd (led_write B buf n s)"
| "led_step B (LedIoctl c a) s = snd (led_ioctl B c a s)"
| "led_step B LedClose s = led_close B s"
| "led_step B (LedShell args) s = snd (cmd_led B args s)"

definition led_boot :: led where
  "led_boot = \<lparr>hw_log = [], s_r = 0, s_g = 0, s_b = 0\<rparr>"

definition led_pins :: "board \<Rightarrow> bool" where
  "led_pins B \<longleftrightarrow> distinct (map (\<lambda>p. (slice_num B p, pwm_chan B p)) [LED_PIN_R, LED_PIN_G, LED_PIN_B])"

text \<open>Whether the last of \<open>led_open\<close> and \<open>led_close\<close> in the history was an open.\<close>

fun switches :: "led_call \<Rightarrow> bool option" where
  "switches LedOpen = Some True"
| "switches LedClose = Some False"
| "switches (LedShell (a # as)) =
     (if strcmp_eq a ''on'' then Some True else if strcmp_eq a ''off'' then Some False else None)"
| "switches _ = None"

definition driven :: "led_call list \<Rightarrow> bool" where
  "driven cs = fold (\<lambda>c d. case switches c of Some b \<Rightarrow> b | None \<Rightarrow> d) cs False"

text \<open>The three channels carry the inverted brightness, or have never been set.\<close>

definition level_ok :: "board \<Rightarrow> nat \<Rightarrow> u8 \<Rightarrow> 'a hw_scheme \<Rightarrow> bool" where
  "level_ok B pin v s \<longleftrightarrow> (case chan_level (hw_log s) (slice_num B pin) (pwm_chan B pin) of
     Some l \<Rightarrow> l = 255 - v | None \<Rightarrow> v = 0)"

definition led_inv :: "board \<Rightarrow> bool \<Rightarrow> led \<Rightarrow> bool" where
  "led_inv B d s \<longleftrightarrow> level_ok B LED_PIN_R (s_r s) s \<and> level_ok B LED_PIN_G (s_g s) s \<and> level_ok B LED_PIN_B (s_b s) s \<and>
     (\<forall>p \<in> {LED_PIN_R, LED_PIN_G, LED_PIN_B}. pin_function (hw_log s) p = Some GPIO_FUNC_PWM \<longleftrightarrow> d)"

lemma led_set_log:
  "hw_log (led_set B r g b s) = hw_log s @
     [PwmSetWrap (slice_num B LED_PIN_R) 255, PwmSetChanLevel (slice_num B LED_PIN_R) (pwm_chan B LED_PIN_R) (255 - r),
      PwmSetEnabled (slice_num B LED_PIN_R) True,
      PwmSetWrap (slice_num B LED_PIN_G) 255, PwmSetChanLevel (slice_num B LED_PIN_G) (pwm_chan B LED_PIN_G) (255 - g),
      PwmSetEnabled (slice_num B LED_PIN_G) True,
      PwmSetWrap (slice_num B LED_PIN_B) 255, PwmSetChanLevel (slice_num B LED_PIN_B) (pwm_chan B LED_PIN_B) (255 - b),
      PwmSetEnabled (slice_num B LED_PIN_B) True]"
  by (simp add: led_set_def led_pwm_set_def Let_def)

lemma led_set_fields [simp]: "s_r (led_set B r g b s) = s_r s" "s_g (led_set B r g b s) = s_g s" "s_b (led_set B r g b s) = s_b s"
  by (simp_all add: led_set_def led_pwm_set_def Let_def emit_def)

lemma led_set_pins: "pin_function (hw_log (led_set B r g b s)) p = pin_function (hw_log s) p"
  by (simp add: led_set_log pin_function_append)

text \<open>Setting the three channels to the recorded brightness establishes the invariant.\<close>

lemma led_set_levels:
  assumes "led_pins B"
  shows "chan_level (hw_log (led_set B r g b s)) (slice_num B LED_PIN_R) (pwm_chan B LED_PIN_R) = Some (255 - r)"
    and "chan_level (hw_log (led_set B r g b s)) (slice_num B LED_PIN_G) (pwm_chan B LED_PIN_G) = Some (255 - g)"
    and "chan_level (hw_log (led_set B r g b s)) (slice_num B LED_PIN_B) (pwm_chan B LED_PIN_B) = Some (255 - b)"
  using assms by (auto simp add: led_pins_def led_set_log chan_level_append split: if_split)

lemma led_set_inv:
  assumes "led_pins B" and v: "s_r s' = r" "s_g s' = g" "s_b s' = b"
    and log: "hw_log s' = hw_log (led_set B r g b s) @ ops"
    and ops: "\<And>a b. chan_level ops a b = None"
    and pins: "\<And>p. p \<in> {LED_PIN_R, LED_PIN_G, LED_PIN_B} \<Longrightarrow>
       pin_function (hw_log s @ ops) p = Some GPIO_FUNC_PWM \<longleftrightarrow> d"
  shows "led_inv B d s'"
proof -
  have p: "pin_function (hw_log s') p = pin_function (hw_log s @ ops) p" for p
    unfolding log pin_function_append led_set_pins ..
  have l: "chan_level (hw_log s') x y = chan_level (hw_log (led_set B r g b s)) x y" for x y
    by (simp add: log chan_level_append ops)
  show ?thesis unfolding led_inv_def level_ok_def l v led_set_levels [OF assms(1)] p
    using pins by simp
qed

lemma led_open_inv: "led_pins B \<Longrightarrow> led_inv B True (snd (led_open B s))"
  by (rule led_set_inv [where ops = "[]" and r = 0 and g = 0 and b = 0 and
        s = "emit [GpioSetFunction LED_PIN_R GPIO_FUNC_PWM, GpioSetFunction LED_PIN_G GPIO_FUNC_PWM,
                GpioSetFunction LED_PIN_B GPIO_FUNC_PWM] s"])
    (auto simp: led_open_def Let_def pin_function_append LED_PIN_R_def LED_PIN_G_def LED_PIN_B_def)

lemma led_write_inv:
  assumes "led_pins B" and "led_inv B d s"
  shows "led_inv B d (snd (led_write B buf len s))"
proof (cases "buf = None \<or> len < 3")
  case True
  with assms(2) show ?thesis by (auto simp: led_write_def split: option.split)
next
  case False
  then obtain bs where b: "buf = Some bs" "\<not> len < 3" by auto
  show ?thesis
    by (rule led_set_inv [where ops = "[]" and r = "bs ! 0" and g = "bs ! 1" and b = "bs ! 2" and
          s = "s\<lparr>s_r := bs ! 0, s_g := bs ! 1, s_b := bs ! 2\<rparr>", OF assms(1)])
      (use b assms(2) in \<open>auto simp: led_write_def Let_def led_inv_def\<close>)
qed

lemma led_off_inv:
  assumes "led_pins B" and "led_inv B d s"
  shows "led_inv B d (led_set B r g b (s\<lparr>s_r := r, s_g := g, s_b := b\<rparr>))"
  by (rule led_set_inv [where ops = "[]" and r = r and g = g and b = b and s = "s\<lparr>s_r := r, s_g := g, s_b := b\<rparr>", OF assms(1)])
    (use assms(2) in \<open>auto simp: led_inv_def\<close>)

lemma led_ioctl_inv: "led_pins B \<Longrightarrow> led_inv B d s \<Longrightarrow> led_inv B d (snd (led_ioctl B cmd arg s))"
  by (auto simp: led_ioctl_def Let_def split: option.split intro: led_off_inv)

lemma led_close_inv: "led_pins B \<Longrightarrow> led_inv B False (led_close B s)"
  by (rule led_set_inv [where r = 0 and g = 0 and b = 0 and s = s and
        ops = "drop (length (hw_log (led_set B 0 0 0 s))) (hw_log (led_close B s))"])
    (auto simp: led_close_def Let_def pin_function_append LED_PIN_R_def LED_PIN_G_def LED_PIN_B_def split: option.split)

lemma led_step_inv:
  assumes "led_pins B" and "led_inv B d s"
  shows "led_inv B (case switches c of Some b \<Rightarrow> b | None \<Rightarrow> d) (led_step B c s)"
proof (cases c)
  case (LedShell args)
  show ?thesis
  proof (cases args)
    case Nil
    have "hw_log (emit ops s) = hw_log s @ ops" for ops by simp
    with LedShell Nil assms(2) show ?thesis
      by (auto simp: cmd_led_def led_inv_def level_ok_def chan_level_append pin_function_append emit_def)
  next
    case (Cons a as)
    consider "strcmp_eq a ''on''" | "\<not> strcmp_eq a ''on''" "strcmp_eq a ''off''"
      | "\<not> strcmp_eq a ''on''" "\<not> strcmp_eq a ''off''" by blast
    then show ?thesis
    proof cases
      case 3
      show ?thesis
      proof (cases "led_color a")
        case (Inl x)
        obtain r g b where "x = (r, g, b)" by (cases x)
        with 3 Inl LedShell Cons assms show ?thesis by (simp add: cmd_led_def led_write_inv)
      next
        case (Inr msg)
        with 3 LedShell Cons assms(2) show ?thesis
          by (auto simp: cmd_led_def led_inv_def level_ok_def chan_level_append pin_function_append emit_def)
      qed
    qed (use LedShell Cons assms in \<open>simp_all add: cmd_led_def led_open_inv led_close_inv\<close>)
  qed
qed (use assms in \<open>simp_all add: led_open_inv led_write_inv led_ioctl_inv led_close_inv\<close>)

lemma led_boot_inv: "led_inv B False led_boot"
  by (simp add: led_inv_def led_boot_def level_ok_def)

lemma led_run_inv:
  assumes "led_pins B" and "led_inv B d s"
  shows "led_inv B (fold (\<lambda>c d. case switches c of Some b \<Rightarrow> b | None \<Rightarrow> d) cs d) (fold (led_step B) cs s)"
  using assms(2)
proof (induction cs arbitrary: d s)
  case (Cons c cs)
  from Cons.IH [OF led_step_inv [OF assms(1) Cons.prems]] show ?case by simp
qed simp

text \<open>
  C25. After any history of driver calls and shell commands from power-on, each of the three
  channels carries the inverse of the driver's recorded brightness (255 is off, the LED is
  active-low) or has never been set and is recorded dark, and the three pins are switched to
  their PWM channels exactly when the last of \<open>led_open\<close> and \<open>led_close\<close> was an open.
\<close>

theorem led_history_levels:
  assumes "led_pins B"
  shows "led_inv B (driven cs) (fold (led_step B) cs led_boot)"
  unfolding driven_def by (rule led_run_inv [OF assms led_boot_inv])

theorem led_history_levels_witness:
  "led_inv \<lparr>slice_num = (\<lambda>p. p div 2), pwm_chan = (\<lambda>p. p mod 2), gpio_get = (\<lambda>_. True)\<rparr> True
     (fold (led_step \<lparr>slice_num = (\<lambda>p. p div 2), pwm_chan = (\<lambda>p. p mod 2), gpio_get = (\<lambda>_. True)\<rparr>)
        [LedOpen, LedWrite (Some [255, 0, 128]) 3] led_boot)"
  using led_history_levels [of "\<lparr>slice_num = (\<lambda>p. p div 2), pwm_chan = (\<lambda>p. p mod 2), gpio_get = (\<lambda>_. True)\<rparr>"
      "[LedOpen, LedWrite (Some [255, 0, 128]) 3]"]
  by (simp add: led_pins_def driven_def LED_PIN_R_def LED_PIN_G_def LED_PIN_B_def)

text \<open>
  A colour command after \<open>led off\<close> does not light the LED: the driver records full red, but
  \<open>led off\<close> has handed the pins back to plain GPIO, driven high, and \<open>led_write\<close> does not take
  them back, so the pin carries no PWM signal.
\<close>

lemma led_color_after_off_dark:
  "let s' = snd (cmd_led B [''red''] (snd (cmd_led B [''off''] s)))
   in s_r s' = 255 \<and> pin_function (hw_log s') LED_PIN_R = Some GPIO_FUNC_SIO \<and>
      pin_function (hw_log s') LED_PIN_G = Some GPIO_FUNC_SIO \<and> pin_function (hw_log s') LED_PIN_B = Some GPIO_FUNC_SIO"
proof -
  have c: "strcmp_eq ''red'' ''red''" "\<not> strcmp_eq ''red'' ''on''" "\<not> strcmp_eq ''red'' ''off''"
    "strcmp_eq ''off'' ''off''" "\<not> strcmp_eq ''off'' ''on''" by (simp_all add: strcmp_eq_def cstr_def)
  have pins: "\<forall>p \<in> {LED_PIN_R, LED_PIN_G, LED_PIN_B}. pin_function (hw_log (led_close B s)) p = Some GPIO_FUNC_SIO" for s
    by (simp add: led_close_def Let_def pin_function_append LED_PIN_R_def LED_PIN_G_def LED_PIN_B_def)
  have w: "pin_function (hw_log (snd (led_write B (Some [r, g, b]) 3 s))) p = pin_function (hw_log s) p" for r g b s p
    by (simp add: led_write_def Let_def led_set_pins)
  have r: "s_r (snd (led_write B (Some [r, g, b]) 3 s)) = r" for r g b s by (simp add: led_write_def Let_def)
  show ?thesis using pins by (simp add: cmd_led_def c led_color_def w r Let_def)
qed

end
