(* ===== verification/Display.thy ===== *)
theory Display
  imports Board Libc
begin

text \<open>
  \<open>src/drivers/display.c\<close>, the driver of the 240x135 ST7789 panel: an RGB332 framebuffer with
  dirty-row tracking, the drawing primitives, the device interface and the shell command. \<open>display\<close>
  is the driver's static state over the log of its SDK calls; C \<open>int\<close>s are \<open>int\<close> (the coordinates
  come from 16-bit arguments, so nothing overflows).
\<close>

section \<open>State\<close>

definition DISP_WIDTH :: u32 where "DISP_WIDTH = 240"
definition DISP_HEIGHT :: u32 where "DISP_HEIGHT = 135"
definition DISP_COL_OFFSET :: u32 where "DISP_COL_OFFSET = 40"
definition DISP_ROW_OFFSET :: u32 where "DISP_ROW_OFFSET = 53"

definition DISP_PIN_SCK :: nat where "DISP_PIN_SCK = 18"
definition DISP_PIN_MOSI :: nat where "DISP_PIN_MOSI = 19"
definition DISP_PIN_CS :: nat where "DISP_PIN_CS = 17"
definition DISP_PIN_DC :: nat where "DISP_PIN_DC = 16"
definition DISP_PIN_BL :: nat where "DISP_PIN_BL = 20"
definition DISP_PIN_BTN_A :: nat where "DISP_PIN_BTN_A = 12"
definition DISP_PIN_BTN_B :: nat where "DISP_PIN_BTN_B = 13"
definition DISP_PIN_BTN_X :: nat where "DISP_PIN_BTN_X = 14"
definition DISP_PIN_BTN_Y :: nat where "DISP_PIN_BTN_Y = 15"

definition ST7789_SWRESET :: u8 where "ST7789_SWRESET = 0x01"
definition ST7789_SLPOUT :: u8 where "ST7789_SLPOUT = 0x11"
definition ST7789_COLMOD :: u8 where "ST7789_COLMOD = 0x3A"
definition ST7789_MADCTL :: u8 where "ST7789_MADCTL = 0x36"
definition ST7789_CASET :: u8 where "ST7789_CASET = 0x2A"
definition ST7789_RASET :: u8 where "ST7789_RASET = 0x2B"
definition ST7789_INVON :: u8 where "ST7789_INVON = 0x21"
definition ST7789_NORON :: u8 where "ST7789_NORON = 0x13"
definition ST7789_DISPON :: u8 where "ST7789_DISPON = 0x29"
definition ST7789_RAMWR :: u8 where "ST7789_RAMWR = 0x2C"

definition RGB332 :: "u32 \<Rightarrow> u32 \<Rightarrow> u32 \<Rightarrow> u8" where
  "RGB332 r g b = ucast (or (or (and r 0xE0) (drop_bit 3 (and g 0xE0))) (drop_bit 6 (and b 0xC0)))"

definition COLOR_BLACK :: u8 where "COLOR_BLACK = RGB332 0 0 0"
definition COLOR_WHITE :: u8 where "COLOR_WHITE = RGB332 255 255 255"
definition COLOR_BLUE :: u8 where "COLOR_BLUE = RGB332 0 0 255"

definition font8x8 :: "u8 list list" where
  "font8x8 = [
   [0x00, 0x00, 0x00, 0x00, 0x00, 0x00, 0x00, 0x00],
   [0x18, 0x3C, 0x3C, 0x18, 0x18, 0x00, 0x18, 0x00],
   [0x36, 0x36, 0x00, 0x00, 0x00, 0x00, 0x00, 0x00],
   [0x36, 0x36, 0x7F, 0x36, 0x7F, 0x36, 0x36, 0x00],
   [0x0C, 0x3E, 0x03, 0x1E, 0x30, 0x1F, 0x0C, 0x00],
   [0x00, 0x63, 0x33, 0x18, 0x0C, 0x66, 0x63, 0x00],
   [0x1C, 0x36, 0x1C, 0x6E, 0x3B, 0x33, 0x6E, 0x00],
   [0x06, 0x06, 0x03, 0x00, 0x00, 0x00, 0x00, 0x00],
   [0x18, 0x0C, 0x06, 0x06, 0x06, 0x0C, 0x18, 0x00],
   [0x06, 0x0C, 0x18, 0x18, 0x18, 0x0C, 0x06, 0x00],
   [0x00, 0x66, 0x3C, 0xFF, 0x3C, 0x66, 0x00, 0x00],
   [0x00, 0x0C, 0x0C, 0x3F, 0x0C, 0x0C, 0x00, 0x00],
   [0x00, 0x00, 0x00, 0x00, 0x00, 0x0C, 0x0C, 0x06],
   [0x00, 0x00, 0x00, 0x3F, 0x00, 0x00, 0x00, 0x00],
   [0x00, 0x00, 0x00, 0x00, 0x00, 0x0C, 0x0C, 0x00],
   [0x60, 0x30, 0x18, 0x0C, 0x06, 0x03, 0x01, 0x00],
   [0x3E, 0x63, 0x73, 0x7B, 0x6F, 0x67, 0x3E, 0x00],
   [0x0C, 0x0E, 0x0C, 0x0C, 0x0C, 0x0C, 0x3F, 0x00],
   [0x1E, 0x33, 0x30, 0x1C, 0x06, 0x33, 0x3F, 0x00],
   [0x1E, 0x33, 0x30, 0x1C, 0x30, 0x33, 0x1E, 0x00],
   [0x38, 0x3C, 0x36, 0x33, 0x7F, 0x30, 0x78, 0x00],
   [0x3F, 0x03, 0x1F, 0x30, 0x30, 0x33, 0x1E, 0x00],
   [0x1C, 0x06, 0x03, 0x1F, 0x33, 0x33, 0x1E, 0x00],
   [0x3F, 0x33, 0x30, 0x18, 0x0C, 0x0C, 0x0C, 0x00],
   [0x1E, 0x33, 0x33, 0x1E, 0x33, 0x33, 0x1E, 0x00],
   [0x1E, 0x33, 0x33, 0x3E, 0x30, 0x18, 0x0E, 0x00],
   [0x00, 0x0C, 0x0C, 0x00, 0x00, 0x0C, 0x0C, 0x00],
   [0x00, 0x0C, 0x0C, 0x00, 0x00, 0x0C, 0x0C, 0x06],
   [0x18, 0x0C, 0x06, 0x03, 0x06, 0x0C, 0x18, 0x00],
   [0x00, 0x00, 0x3F, 0x00, 0x00, 0x3F, 0x00, 0x00],
   [0x06, 0x0C, 0x18, 0x30, 0x18, 0x0C, 0x06, 0x00],
   [0x1E, 0x33, 0x30, 0x18, 0x0C, 0x00, 0x0C, 0x00],
   [0x3E, 0x63, 0x7B, 0x7B, 0x7B, 0x03, 0x1E, 0x00],
   [0x0C, 0x1E, 0x33, 0x33, 0x3F, 0x33, 0x33, 0x00],
   [0x3F, 0x66, 0x66, 0x3E, 0x66, 0x66, 0x3F, 0x00],
   [0x3C, 0x66, 0x03, 0x03, 0x03, 0x66, 0x3C, 0x00],
   [0x1F, 0x36, 0x66, 0x66, 0x66, 0x36, 0x1F, 0x00],
   [0x7F, 0x46, 0x16, 0x1E, 0x16, 0x46, 0x7F, 0x00],
   [0x7F, 0x46, 0x16, 0x1E, 0x16, 0x06, 0x0F, 0x00],
   [0x3C, 0x66, 0x03, 0x03, 0x73, 0x66, 0x7C, 0x00],
   [0x33, 0x33, 0x33, 0x3F, 0x33, 0x33, 0x33, 0x00],
   [0x1E, 0x0C, 0x0C, 0x0C, 0x0C, 0x0C, 0x1E, 0x00],
   [0x78, 0x30, 0x30, 0x30, 0x33, 0x33, 0x1E, 0x00],
   [0x67, 0x66, 0x36, 0x1E, 0x36, 0x66, 0x67, 0x00],
   [0x0F, 0x06, 0x06, 0x06, 0x46, 0x66, 0x7F, 0x00],
   [0x63, 0x77, 0x7F, 0x7F, 0x6B, 0x63, 0x63, 0x00],
   [0x63, 0x67, 0x6F, 0x7B, 0x73, 0x63, 0x63, 0x00],
   [0x1C, 0x36, 0x63, 0x63, 0x63, 0x36, 0x1C, 0x00],
   [0x3F, 0x66, 0x66, 0x3E, 0x06, 0x06, 0x0F, 0x00],
   [0x1E, 0x33, 0x33, 0x33, 0x3B, 0x1E, 0x38, 0x00],
   [0x3F, 0x66, 0x66, 0x3E, 0x36, 0x66, 0x67, 0x00],
   [0x1E, 0x33, 0x07, 0x0E, 0x38, 0x33, 0x1E, 0x00],
   [0x3F, 0x2D, 0x0C, 0x0C, 0x0C, 0x0C, 0x1E, 0x00],
   [0x33, 0x33, 0x33, 0x33, 0x33, 0x33, 0x3F, 0x00],
   [0x33, 0x33, 0x33, 0x33, 0x33, 0x1E, 0x0C, 0x00],
   [0x63, 0x63, 0x63, 0x6B, 0x7F, 0x77, 0x63, 0x00],
   [0x63, 0x63, 0x36, 0x1C, 0x1C, 0x36, 0x63, 0x00],
   [0x33, 0x33, 0x33, 0x1E, 0x0C, 0x0C, 0x1E, 0x00],
   [0x7F, 0x63, 0x31, 0x18, 0x4C, 0x66, 0x7F, 0x00],
   [0x1E, 0x06, 0x06, 0x06, 0x06, 0x06, 0x1E, 0x00],
   [0x03, 0x06, 0x0C, 0x18, 0x30, 0x60, 0x40, 0x00],
   [0x1E, 0x18, 0x18, 0x18, 0x18, 0x18, 0x1E, 0x00],
   [0x08, 0x1C, 0x36, 0x63, 0x00, 0x00, 0x00, 0x00],
   [0x00, 0x00, 0x00, 0x00, 0x00, 0x00, 0x00, 0xFF],
   [0x0C, 0x0C, 0x18, 0x00, 0x00, 0x00, 0x00, 0x00],
   [0x00, 0x00, 0x1E, 0x30, 0x3E, 0x33, 0x6E, 0x00],
   [0x07, 0x06, 0x06, 0x3E, 0x66, 0x66, 0x3B, 0x00],
   [0x00, 0x00, 0x1E, 0x33, 0x03, 0x33, 0x1E, 0x00],
   [0x38, 0x30, 0x30, 0x3E, 0x33, 0x33, 0x6E, 0x00],
   [0x00, 0x00, 0x1E, 0x33, 0x3F, 0x03, 0x1E, 0x00],
   [0x1C, 0x36, 0x06, 0x0F, 0x06, 0x06, 0x0F, 0x00],
   [0x00, 0x00, 0x6E, 0x33, 0x33, 0x3E, 0x30, 0x1F],
   [0x07, 0x06, 0x36, 0x6E, 0x66, 0x66, 0x67, 0x00],
   [0x0C, 0x00, 0x0E, 0x0C, 0x0C, 0x0C, 0x1E, 0x00],
   [0x30, 0x00, 0x30, 0x30, 0x30, 0x33, 0x33, 0x1E],
   [0x07, 0x06, 0x66, 0x36, 0x1E, 0x36, 0x67, 0x00],
   [0x0E, 0x0C, 0x0C, 0x0C, 0x0C, 0x0C, 0x1E, 0x00],
   [0x00, 0x00, 0x33, 0x7F, 0x7F, 0x6B, 0x63, 0x00],
   [0x00, 0x00, 0x1F, 0x33, 0x33, 0x33, 0x33, 0x00],
   [0x00, 0x00, 0x1E, 0x33, 0x33, 0x33, 0x1E, 0x00],
   [0x00, 0x00, 0x3B, 0x66, 0x66, 0x3E, 0x06, 0x0F],
   [0x00, 0x00, 0x6E, 0x33, 0x33, 0x3E, 0x30, 0x78],
   [0x00, 0x00, 0x3B, 0x6E, 0x66, 0x06, 0x0F, 0x00],
   [0x00, 0x00, 0x3E, 0x03, 0x1E, 0x30, 0x1F, 0x00],
   [0x08, 0x0C, 0x3E, 0x0C, 0x0C, 0x2C, 0x18, 0x00],
   [0x00, 0x00, 0x33, 0x33, 0x33, 0x33, 0x6E, 0x00],
   [0x00, 0x00, 0x33, 0x33, 0x33, 0x1E, 0x0C, 0x00],
   [0x00, 0x00, 0x63, 0x6B, 0x7F, 0x7F, 0x36, 0x00],
   [0x00, 0x00, 0x63, 0x36, 0x1C, 0x36, 0x63, 0x00],
   [0x00, 0x00, 0x33, 0x33, 0x33, 0x3E, 0x30, 0x1F],
   [0x00, 0x00, 0x3F, 0x19, 0x0C, 0x26, 0x3F, 0x00],
   [0x38, 0x0C, 0x0C, 0x07, 0x0C, 0x0C, 0x38, 0x00],
   [0x18, 0x18, 0x18, 0x00, 0x18, 0x18, 0x18, 0x00],
   [0x07, 0x0C, 0x0C, 0x38, 0x0C, 0x0C, 0x07, 0x00],
   [0x6E, 0x3B, 0x00, 0x00, 0x00, 0x00, 0x00, 0x00]]"

record display = hw +
  framebuffer :: "u8 list"
  bg_color :: u8
  initialized :: bool
  write_cursor :: u32
  dirty_min :: u32
  dirty_max :: u32

definition display_boot :: display where
  "display_boot = \<lparr>hw_log = [], framebuffer = replicate (unat (DISP_WIDTH * DISP_HEIGHT)) 0,
     bg_color = COLOR_BLACK, initialized = False, write_cursor = 0, dirty_min = DISP_HEIGHT, dirty_max = 0\<rparr>"

definition dirty_mark_row :: "u32 \<Rightarrow> display \<Rightarrow> display" where
  "dirty_mark_row y s = (let
     s1 = (if y < dirty_min s then s\<lparr>dirty_min := y\<rparr> else s)
   in if dirty_max s1 < y then s1\<lparr>dirty_max := y\<rparr> else s1)"

definition dirty_mark_all :: "display \<Rightarrow> display" where
  "dirty_mark_all s = s\<lparr>dirty_min := 0, dirty_max := DISP_HEIGHT - 1\<rparr>"

definition dirty_reset :: "display \<Rightarrow> display" where
  "dirty_reset s = s\<lparr>dirty_min := DISP_HEIGHT, dirty_max := 0\<rparr>"

section \<open>Panel commands\<close>

definition st7789_cmd :: "u8 \<Rightarrow> hw_op list" where
  "st7789_cmd c = [GpioPut DISP_PIN_DC False, GpioPut DISP_PIN_CS False, SpiWrite [c], GpioPut DISP_PIN_CS True]"

definition st7789_data :: "u8 list \<Rightarrow> hw_op list" where
  "st7789_data bytes = [GpioPut DISP_PIN_DC True, GpioPut DISP_PIN_CS False, SpiWrite bytes, GpioPut DISP_PIN_CS True]"

definition st7789_data1 :: "u8 \<Rightarrow> hw_op list" where
  "st7789_data1 byte = st7789_data [byte]"

text \<open>The four data bytes of a column or row window.\<close>

definition window_bytes :: "u16 \<Rightarrow> u16 \<Rightarrow> u8 list" where
  "window_bytes from until = [ucast (drop_bit 8 from), ucast (and from 0xFF), ucast (drop_bit 8 until), ucast (and until 0xFF)]"

definition backlight_set :: "board \<Rightarrow> u8 \<Rightarrow> hw_op list" where
  "backlight_set B brightness = (let slice = slice_num B DISP_PIN_BL; chan = pwm_chan B DISP_PIN_BL
     in [PwmSetWrap slice 255, PwmSetChanLevel slice chan brightness, PwmSetEnabled slice True])"

definition display_hw_init :: "board \<Rightarrow> display \<Rightarrow> display" where
  "display_hw_init B s = (emit (
     [GpioSetFunction DISP_PIN_SCK GPIO_FUNC_SPI, GpioSetFunction DISP_PIN_MOSI GPIO_FUNC_SPI,
      GpioInit DISP_PIN_CS, GpioSetDir DISP_PIN_CS True, GpioPut DISP_PIN_CS True,
      GpioInit DISP_PIN_DC, GpioSetDir DISP_PIN_DC True, GpioPut DISP_PIN_DC True,
      GpioSetFunction DISP_PIN_BL GPIO_FUNC_PWM,
      GpioInit DISP_PIN_BTN_A, GpioSetDir DISP_PIN_BTN_A False, GpioPullUp DISP_PIN_BTN_A,
      GpioInit DISP_PIN_BTN_B, GpioSetDir DISP_PIN_BTN_B False, GpioPullUp DISP_PIN_BTN_B,
      GpioInit DISP_PIN_BTN_X, GpioSetDir DISP_PIN_BTN_X False, GpioPullUp DISP_PIN_BTN_X,
      GpioInit DISP_PIN_BTN_Y, GpioSetDir DISP_PIN_BTN_Y False, GpioPullUp DISP_PIN_BTN_Y,
      SpiInit 62500000, SpiSetFormat] @
     st7789_cmd ST7789_SWRESET @ [SleepMs 150] @
     st7789_cmd ST7789_SLPOUT @ [SleepMs 10] @
     st7789_cmd ST7789_COLMOD @ st7789_data1 0x55 @
     st7789_cmd ST7789_MADCTL @ st7789_data1 0x70 @
     st7789_cmd ST7789_CASET @
       st7789_data (window_bytes (ucast DISP_COL_OFFSET) (ucast (DISP_COL_OFFSET + DISP_WIDTH - 1))) @
     st7789_cmd ST7789_RASET @
       st7789_data (window_bytes (ucast DISP_ROW_OFFSET) (ucast (DISP_ROW_OFFSET + DISP_HEIGHT - 1))) @
     st7789_cmd ST7789_INVON @ st7789_cmd ST7789_NORON @ st7789_cmd ST7789_DISPON @ [SleepMs 10] @
     backlight_set B 255) s)
     \<lparr>framebuffer := replicate (unat (DISP_WIDTH * DISP_HEIGHT)) COLOR_BLACK\<rparr>"

section \<open>Flush\<close>

text \<open>One pixel expanded from RGB332 to the two bytes of RGB565.\<close>

definition expand565 :: "u8 \<Rightarrow> u8 list" where
  "expand565 p = (let
     r3 = and (ucast (drop_bit 5 p)) 0x07 :: u16;
     g3 = and (ucast (drop_bit 2 p)) 0x07 :: u16;
     b2 = ucast (and p 0x03) :: u16;
     r5 = or (push_bit 2 r3) (drop_bit 1 r3);
     g6 = or (push_bit 3 g3) g3;
     b5 = or (or (push_bit 3 b2) (push_bit 1 b2)) (drop_bit 1 b2);
     px = or (or (push_bit 11 r5) (push_bit 5 g6)) b5
   in [ucast (drop_bit 8 px), ucast (and px 0xFF)])"

definition row_buf :: "display \<Rightarrow> nat \<Rightarrow> u8 list" where
  "row_buf s y = concat (map (\<lambda>x. expand565 (framebuffer s ! (y * unat DISP_WIDTH + x))) [0..<unat DISP_WIDTH])"

definition display_flush_fb :: "display \<Rightarrow> display" where
  "display_flush_fb s =
     (if dirty_max s < dirty_min s then s
      else dirty_reset (emit (
        [IrqSave, SpiInit 62500000, SpiSetFormat,
         GpioSetFunction DISP_PIN_SCK GPIO_FUNC_SPI, GpioSetFunction DISP_PIN_MOSI GPIO_FUNC_SPI] @
        st7789_cmd ST7789_CASET @
          st7789_data (window_bytes (ucast DISP_COL_OFFSET) (ucast (DISP_COL_OFFSET + DISP_WIDTH - 1))) @
        st7789_cmd ST7789_RASET @
          st7789_data (window_bytes (ucast (DISP_ROW_OFFSET + dirty_min s)) (ucast (DISP_ROW_OFFSET + dirty_max s))) @
        st7789_cmd ST7789_RAMWR @ [IrqRestore, GpioPut DISP_PIN_DC True, GpioPut DISP_PIN_CS False] @
        map (\<lambda>y. SpiWrite (row_buf s y)) [unat (dirty_min s)..<unat (dirty_max s) + 1] @
        [GpioPut DISP_PIN_CS True]) s))"

section \<open>Drawing\<close>

definition draw_pixel_impl :: "int \<Rightarrow> int \<Rightarrow> u8 \<Rightarrow> display \<Rightarrow> display" where
  "draw_pixel_impl x y color s =
     (if x < 0 \<or> y < 0 \<or> int (unat DISP_WIDTH) \<le> x \<or> int (unat DISP_HEIGHT) \<le> y then s
      else dirty_mark_row (word_of_int y)
        (s\<lparr>framebuffer := (framebuffer s)[nat y * unat DISP_WIDTH + nat x := color]\<rparr>))"

text \<open>The loop of \<open>draw_line_impl\<close> over the current point and the error term.\<close>

partial_function (option) draw_line_loop ::
  "int \<Rightarrow> int \<Rightarrow> int \<Rightarrow> int \<Rightarrow> int \<Rightarrow> int \<Rightarrow> u8 \<Rightarrow> int \<Rightarrow> int \<Rightarrow> int \<Rightarrow> display \<Rightarrow> display option" where
  "draw_line_loop dx dy sx sy x1 y1 color x0 y0 err s =
     (let s1 = draw_pixel_impl x0 y0 color s
      in if x0 = x1 \<and> y0 = y1 then Some s1
         else let e2 = 2 * err;
                  (err1, x0') = (if dy \<le> e2 then (err + dy, x0 + sx) else (err, x0));
                  (err2, y0') = (if e2 \<le> dx then (err1 + dx, y0 + sy) else (err1, y0))
              in draw_line_loop dx dy sx sy x1 y1 color x0' y0' err2 s1)"

definition draw_line_impl :: "int \<Rightarrow> int \<Rightarrow> int \<Rightarrow> int \<Rightarrow> u8 \<Rightarrow> display \<Rightarrow> display option" where
  "draw_line_impl x0 y0 x1 y1 color s = (let
     dx = (if x0 < x1 then x1 - x0 else x0 - x1);
     dy = - (if y0 < y1 then y1 - y0 else y0 - y1);
     sx = (if x0 < x1 then 1 else - 1);
     sy = (if y0 < y1 then 1 else - 1)
   in draw_line_loop dx dy sx sy x1 y1 color x0 y0 (dx + dy) s)"

definition fill_rect :: "int \<Rightarrow> int \<Rightarrow> int \<Rightarrow> int \<Rightarrow> u8 \<Rightarrow> display \<Rightarrow> display" where
  "fill_rect x y w h color s =
     fold (\<lambda>row. fold (\<lambda>col. draw_pixel_impl col row color) [x..x + w - 1]) [y..y + h - 1] s"

definition draw_rect_impl :: "int \<Rightarrow> int \<Rightarrow> int \<Rightarrow> int \<Rightarrow> u8 \<Rightarrow> bool \<Rightarrow> display \<Rightarrow> display option" where
  "draw_rect_impl x y w h color filled s =
     (if filled then Some (fill_rect x y w h color s)
      else do {
        s1 \<leftarrow> draw_line_impl x y (x + w - 1) y color s;
        s2 \<leftarrow> draw_line_impl (x + w - 1) y (x + w - 1) (y + h - 1) color s1;
        s3 \<leftarrow> draw_line_impl (x + w - 1) (y + h - 1) x (y + h - 1) color s2;
        draw_line_impl x (y + h - 1) x y color s3
      })"

definition clamp_scale :: "u8 \<Rightarrow> u8" where
  "clamp_scale scale = (let s1 = (if scale < 1 then 1 else scale) in if 4 < s1 then 4 else s1)"

definition glyph_of :: "char \<Rightarrow> u8 list" where
  "glyph_of c = (let n = (of_char c :: nat); n' = (if n < 0x20 \<or> 0x7E < n then of_char CHR 0x3F else n)
     in font8x8 ! (n' - 0x20))"

definition draw_char_impl :: "int \<Rightarrow> int \<Rightarrow> char \<Rightarrow> u8 \<Rightarrow> u8 \<Rightarrow> u8 \<Rightarrow> display \<Rightarrow> display" where
  "draw_char_impl px py c fg bg_c scale0 s = (let
     glyph = glyph_of c;
     scale = uint (clamp_scale scale0)
   in fold (\<lambda>row. fold (\<lambda>col. let pixel = (if bit (glyph ! row) col then fg else bg_c)
        in fold (\<lambda>sy. fold (\<lambda>sx. draw_pixel_impl (px + int col * scale + sx) (py + int row * scale + sy) pixel)
             [0..scale - 1]) [0..scale - 1]) [0..<8]) [0..<8] s)"

fun text_loop :: "int \<Rightarrow> int \<Rightarrow> u8 \<Rightarrow> u8 \<Rightarrow> u8 \<Rightarrow> int \<Rightarrow> int \<Rightarrow> string \<Rightarrow> display \<Rightarrow> display" where
  "text_loop px char_w fg bg_c scale cx cy [] s = s"
| "text_loop px char_w fg bg_c scale cx cy (c # str) s =
     (if c = CHR 0x0A then text_loop px char_w fg bg_c scale px (cy + 8 * uint scale) str s
      else let (cx1, cy1) = (if int (unat DISP_WIDTH) < cx + char_w then (px, cy + 8 * uint scale) else (cx, cy))
           in if int (unat DISP_HEIGHT) < cy1 + 8 * uint scale then s
              else text_loop px char_w fg bg_c scale (cx1 + char_w) cy1 str
                     (draw_char_impl cx1 cy1 c fg bg_c scale s))"

definition draw_text_impl :: "int \<Rightarrow> int \<Rightarrow> string option \<Rightarrow> u8 \<Rightarrow> u8 \<Rightarrow> u8 \<Rightarrow> display \<Rightarrow> display" where
  "draw_text_impl px py str fg bg_c scale0 s = (case str of
       None \<Rightarrow> s
     | Some t \<Rightarrow> let scale = clamp_scale scale0
         in text_loop px (8 * uint scale) fg bg_c scale px py (cstr t) s)"

section \<open>Device interface\<close>

text \<open>\<open>splash\<close> is \<open>PICOOS_SPLASH_TEXT\<close>, the version string that the build generates.\<close>

definition display_open :: "board \<Rightarrow> string \<Rightarrow> display \<Rightarrow> int \<times> display" where
  "display_open B splash s = (let
     s1 = (if initialized s then s
       else let s1 = (display_hw_init B s)\<lparr>initialized := True\<rparr>;
                scale = 2 :: u8;
                tx = sint ((DISP_WIDTH - word_of_nat (length splash) * 8 * ucast scale) div 2);
                ty = sint ((DISP_HEIGHT - 8 * ucast scale) div 2);
                s2 = dirty_mark_all (s1\<lparr>framebuffer := replicate (length (framebuffer s1)) COLOR_BLUE\<rparr>);
                s3 = draw_text_impl tx ty (Some splash) COLOR_WHITE COLOR_BLUE scale s2
            in display_flush_fb s3)
   in (0, s1\<lparr>write_cursor := 0\<rparr>))"

definition display_read :: "u32 \<Rightarrow> display \<Rightarrow> int \<times> display" where
  "display_read len s = (- 1, s)"

fun write_loop :: "u8 list \<Rightarrow> u32 \<Rightarrow> display \<Rightarrow> u32 \<times> display" where
  "write_loop [] n s = (n, s)"
| "write_loop (b # bs) n s =
     (if write_cursor s < DISP_WIDTH * DISP_HEIGHT then
        write_loop bs (n + 1) (s\<lparr>framebuffer := (framebuffer s)[unat (write_cursor s) := b],
                                 write_cursor := write_cursor s + 1\<rparr>)
      else (n, s))"

definition display_write :: "u8 list option \<Rightarrow> u32 \<Rightarrow> display \<Rightarrow> int \<times> display" where
  "display_write buf len s = (case buf of
       None \<Rightarrow> (- 1, s)
     | Some bs \<Rightarrow>
         if len = 0 then (- 1, s)
         else let start = write_cursor s;
                  (written, s1) = write_loop (take (unat len) bs) 0 s
              in (sint written,
                  if 0 < written then
                    dirty_mark_row ((write_cursor s1 - 1) div DISP_WIDTH) (dirty_mark_row (start div DISP_WIDTH) s1)
                  else s1))"

text \<open>
  What \<open>arg\<close> points to: the argument structures of \<open>dev.h\<close>, or a byte. A command given the
  argument of another one has no meaning here (\<^const>\<open>None\<close>).
\<close>

datatype disp_arg =
    DispNull
  | DispByte u8
  | DispPixel u16 u16 u8
  | DispLine u16 u16 u16 u16 u8
  | DispRect u16 u16 u16 u16 u8 u8
  | DispText u16 u16 u8 u8 u8 "string option"
  | DispDims u16 u16

definition IOCTL_DISP_CLEAR :: u32 where "IOCTL_DISP_CLEAR = 0x0300"
definition IOCTL_DISP_FLUSH :: u32 where "IOCTL_DISP_FLUSH = 0x0301"
definition IOCTL_DISP_SET_BG :: u32 where "IOCTL_DISP_SET_BG = 0x0302"
definition IOCTL_DISP_DRAW_PIXEL :: u32 where "IOCTL_DISP_DRAW_PIXEL = 0x0303"
definition IOCTL_DISP_DRAW_LINE :: u32 where "IOCTL_DISP_DRAW_LINE = 0x0304"
definition IOCTL_DISP_DRAW_RECT :: u32 where "IOCTL_DISP_DRAW_RECT = 0x0305"
definition IOCTL_DISP_DRAW_TEXT :: u32 where "IOCTL_DISP_DRAW_TEXT = 0x0306"
definition IOCTL_DISP_SET_BL :: u32 where "IOCTL_DISP_SET_BL = 0x0307"
definition IOCTL_DISP_GET_BTNS :: u32 where "IOCTL_DISP_GET_BTNS = 0x0308"
definition IOCTL_DISP_GET_DIMS :: u32 where "IOCTL_DISP_GET_DIMS = 0x0309"

definition DISP_BTN_A :: u8 where "DISP_BTN_A = push_bit 0 1"
definition DISP_BTN_B :: u8 where "DISP_BTN_B = push_bit 1 1"
definition DISP_BTN_X :: u8 where "DISP_BTN_X = push_bit 2 1"
definition DISP_BTN_Y :: u8 where "DISP_BTN_Y = push_bit 3 1"

definition buttons :: "board \<Rightarrow> u8" where
  "buttons B = (let
     b0 = (if \<not> gpio_get B DISP_PIN_BTN_A then or 0 DISP_BTN_A else 0);
     b1 = (if \<not> gpio_get B DISP_PIN_BTN_B then or b0 DISP_BTN_B else b0);
     b2 = (if \<not> gpio_get B DISP_PIN_BTN_X then or b1 DISP_BTN_X else b1)
   in if \<not> gpio_get B DISP_PIN_BTN_Y then or b2 DISP_BTN_Y else b2)"

definition display_ioctl :: "board \<Rightarrow> u32 \<Rightarrow> disp_arg \<Rightarrow> display \<Rightarrow> (int \<times> disp_arg \<times> display) option" where
  "display_ioctl B cmd arg s =
     (if cmd = IOCTL_DISP_CLEAR then
        Some (0, arg, dirty_mark_all (s\<lparr>framebuffer := replicate (length (framebuffer s)) (bg_color s)\<rparr>))
      else if cmd = IOCTL_DISP_FLUSH then Some (0, arg, display_flush_fb s)
      else if cmd = IOCTL_DISP_SET_BG then
        (case arg of DispNull \<Rightarrow> Some (- 1, arg, s) | DispByte c \<Rightarrow> Some (0, arg, s\<lparr>bg_color := c\<rparr>) | _ \<Rightarrow> None)
      else if cmd = IOCTL_DISP_DRAW_PIXEL then
        (case arg of DispNull \<Rightarrow> Some (- 1, arg, s)
         | DispPixel x y color \<Rightarrow> Some (0, arg, draw_pixel_impl (uint x) (uint y) color s) | _ \<Rightarrow> None)
      else if cmd = IOCTL_DISP_DRAW_LINE then
        (case arg of DispNull \<Rightarrow> Some (- 1, arg, s)
         | DispLine x0 y0 x1 y1 color \<Rightarrow>
             do { s1 \<leftarrow> draw_line_impl (uint x0) (uint y0) (uint x1) (uint y1) color s; Some (0, arg, s1) }
         | _ \<Rightarrow> None)
      else if cmd = IOCTL_DISP_DRAW_RECT then
        (case arg of DispNull \<Rightarrow> Some (- 1, arg, s)
         | DispRect x y w h color filled \<Rightarrow>
             do { s1 \<leftarrow> draw_rect_impl (uint x) (uint y) (uint w) (uint h) color (filled \<noteq> 0) s; Some (0, arg, s1) }
         | _ \<Rightarrow> None)
      else if cmd = IOCTL_DISP_DRAW_TEXT then
        (case arg of DispNull \<Rightarrow> Some (- 1, arg, s)
         | DispText x y color bg scale str \<Rightarrow>
             Some (0, arg, draw_text_impl (uint x) (uint y) str color bg (if scale \<noteq> 0 then scale else 1) s)
         | _ \<Rightarrow> None)
      else if cmd = IOCTL_DISP_SET_BL then
        (case arg of DispNull \<Rightarrow> Some (- 1, arg, s) | DispByte b \<Rightarrow> Some (0, arg, emit (backlight_set B b) s) | _ \<Rightarrow> None)
      else if cmd = IOCTL_DISP_GET_BTNS then
        (case arg of DispNull \<Rightarrow> Some (- 1, arg, s) | DispByte _ \<Rightarrow> Some (0, DispByte (buttons B), s) | _ \<Rightarrow> None)
      else if cmd = IOCTL_DISP_GET_DIMS then
        (case arg of DispNull \<Rightarrow> Some (- 1, arg, s)
         | DispDims _ _ \<Rightarrow> Some (0, DispDims (ucast DISP_WIDTH) (ucast DISP_HEIGHT), s) | _ \<Rightarrow> None)
      else Some (- 1, arg, s))"

definition display_close :: "display \<Rightarrow> display" where
  "display_close s = s"

section \<open>Lines\<close>

definition plot :: "u8 \<Rightarrow> (int \<times> int) list \<Rightarrow> display \<Rightarrow> display" where
  "plot color pts s = fold (\<lambda>(x, y). draw_pixel_impl x y color) pts s"

lemma plot_Nil [simp]: "plot color [] s = s"
  and plot_Cons [simp]: "plot color ((x, y) # pts) s = plot color pts (draw_pixel_impl x y color s)"
  by (simp_all add: plot_def)

definition neighbours :: "int \<times> int \<Rightarrow> int \<times> int \<Rightarrow> bool" where
  "neighbours p q \<longleftrightarrow> \<bar>fst p - fst q\<bar> \<le> 1 \<and> \<bar>snd p - snd q\<bar> \<le> 1"

text \<open>
  Along the longer axis (\<open>a \<ge> b\<close>, or \<open>b \<ge> a\<close> with the roles exchanged) every turn of the loop
  steps, \<open>e = a j - b i\<close> stays within half of the longer side, and neither coordinate overshoots.
\<close>

lemma bresenham_x:
  fixes a b i j e :: int
  assumes "b \<le> a" "0 \<le> b" "0 \<le> i" "i \<le> a" "0 \<le> j" "j \<le> b" "e = a * j - b * i" "2 * \<bar>e\<bar> \<le> a" "\<not> (i = a \<and> j = b)"
  shows "- b \<le> 2 * (e + a - b)" and "i < a"
    and "2 * (e + a - b) \<le> a \<Longrightarrow> j < b \<and> 2 * \<bar>e - b + a\<bar> \<le> a"
    and "\<not> 2 * (e + a - b) \<le> a \<Longrightarrow> 2 * \<bar>e - b\<bar> \<le> a"
proof -
  have E: "- a \<le> 2 * e" "2 * e \<le> a" using assms(8) by (simp_all add: abs_if split: if_splits)
  show "- b \<le> 2 * (e + a - b)" using assms(1) E by presburger
  show i: "i < a"
  proof (rule ccontr)
    assume "\<not> i < a"
    then have "i = a" "j < b" using assms(4,6,9) by auto
    then have "e = - (a * (b - j))" using assms(7) by (simp add: algebra_simps)
    moreover have "a * 1 \<le> a * (b - j)" by (rule mult_left_mono) (use \<open>j < b\<close> assms in linarith)+
    moreover have "0 < a" using \<open>j < b\<close> assms(1,5) by linarith
    ultimately show False using E assms(1,2) by linarith
  qed
  show "j < b \<and> 2 * \<bar>e - b + a\<bar> \<le> a" if "2 * (e + a - b) \<le> a"
  proof
    show "j < b"
    proof (rule ccontr)
      assume "\<not> j < b"
      then have "e = b * (a - i)" using assms(6,7) by (simp add: algebra_simps)
      moreover have "b * 1 \<le> b * (a - i)" by (rule mult_left_mono) (use i assms in linarith)+
      ultimately have "b \<le> e" by simp
      then show False using that i assms(3) by presburger
    qed
    show "2 * \<bar>e - b + a\<bar> \<le> a" using that assms(1,2) E by (simp add: abs_if)
  qed
  show "2 * \<bar>e - b\<bar> \<le> a" if "\<not> 2 * (e + a - b) \<le> a" using that assms(1,2) E by (simp add: abs_if)
qed

definition on_line :: "int \<Rightarrow> int \<Rightarrow> int \<Rightarrow> int \<Rightarrow> int \<Rightarrow> int \<Rightarrow> int \<times> int \<Rightarrow> bool" where
  "on_line x0 y0 sx sy a b p \<longleftrightarrow>
     (\<exists>i j. p = (x0 + i * sx, y0 + j * sy) \<and> 2 * \<bar>a * j - b * i\<bar> \<le> max a b)"

lemma line_loop:
  fixes a b i j e :: int
  assumes "0 \<le> a" "0 \<le> b" "0 \<le> i" "i \<le> a" "0 \<le> j" "j \<le> b" "e = a * j - b * i" "2 * \<bar>e\<bar> \<le> max a b"
    and s: "\<bar>sx\<bar> = 1" "\<bar>sy\<bar> = 1"
  shows "\<exists>pts. draw_line_loop a (- b) sx sy (x0 + a * sx) (y0 + b * sy) color (x0 + i * sx) (y0 + j * sy) (e + a - b) s =
      Some (plot color pts s) \<and> pts \<noteq> [] \<and> hd pts = (x0 + i * sx, y0 + j * sy) \<and> last pts = (x0 + a * sx, y0 + b * sy) \<and>
      int (length pts) = max a b - (if b \<le> a then i else j) + 1 \<and>
      (\<forall>p \<in> set pts. on_line x0 y0 sx sy a b p) \<and> successively neighbours pts"
  using assms(3-8)
proof (induction "nat (a - i + (b - j))" arbitrary: i j e s rule: less_induct)
  case less
  let ?p = "(x0 + i * sx, y0 + j * sy)"
  let ?s = "draw_pixel_impl (x0 + i * sx) (y0 + j * sy) color s"
  have on: "on_line x0 y0 sx sy a b ?p" using less.prems by (auto simp: on_line_def)
  have end_iff: "x0 + i * sx = x0 + a * sx \<and> y0 + j * sy = y0 + b * sy \<longleftrightarrow> i = a \<and> j = b" using s by auto
  show ?case
  proof (cases "i = a \<and> j = b")
    case True
    then show ?thesis using on
      by (intro exI [of _ "[?p]"]) (simp add: draw_line_loop.simps [of a "- b"] Let_def)
  next
    case False
    then have ne: "\<not> (x0 + i * sx = x0 + a * sx \<and> y0 + j * sy = y0 + b * sy)" using end_iff by blast
    define i' where "i' = (if - b \<le> 2 * (e + a - b) then i + 1 else i)"
    define j' where "j' = (if 2 * (e + a - b) \<le> a then j + 1 else j)"
    define e' where "e' = (if 2 * (e + a - b) \<le> a then (if - b \<le> 2 * (e + a - b) then e - b else e) + a
      else if - b \<le> 2 * (e + a - b) then e - b else e)"
    have step: "draw_line_loop a (- b) sx sy (x0 + a * sx) (y0 + b * sy) color (x0 + i * sx) (y0 + j * sy) (e + a - b) s =
      draw_line_loop a (- b) sx sy (x0 + a * sx) (y0 + b * sy) color (x0 + i' * sx) (y0 + j' * sy) (e' + a - b) ?s"
      by (subst draw_line_loop.simps, unfold Let_def if_not_P [OF ne])
        (simp add: i'_def j'_def e'_def algebra_simps)
    have e': "e' = a * j' - b * i'" using less.prems(5) by (simp add: e'_def i'_def j'_def algebra_simps)
    have "i \<le> i'" "i' \<le> i + 1" "j \<le> j'" "j' \<le> j + 1" by (auto simp: i'_def j'_def)
    have bd: "i' \<le> a \<and> j' \<le> b \<and> 2 * \<bar>e'\<bar> \<le> max a b \<and> (if b \<le> a then i' = i + 1 else j' = j + 1)"
    proof (cases "b \<le> a")
      case True
      note x = bresenham_x [OF True assms(2) less.prems(1-5) _ False]
      have m: "2 * \<bar>e\<bar> \<le> a" using less.prems(6) True by simp
      from x(1,2) [OF m] x(3,4) [OF m] True show ?thesis
        using less.prems(4) by (cases "2 * (e + a - b) \<le> a") (auto simp: i'_def j'_def e'_def)
    next
      case F: False
      then have ba: "a \<le> b" by simp
      note x = bresenham_x [of a b j i "- e", OF ba assms(1) less.prems(3,4,1,2)]
      have m: "2 * \<bar>- e\<bar> \<le> b" "- e = b * i - a * j" "\<not> (j = b \<and> i = a)"
        using less.prems(6) ba False by (simp add: max_absorb2, simp add: less.prems(5), blast)
      note y = x(1) [OF m(2,1,3)] x(2) [OF m(2,1,3)] x(3) [OF m(2,1,3)] x(4) [OF m(2,1,3)]
      have ab: "\<bar>- e - a + b\<bar> = \<bar>e - b + a\<bar>" "\<bar>- e - a\<bar> = \<bar>e + a\<bar>" by presburger+
      have c: "2 * (e + a - b) \<le> a" using y(1) by presburger
      show ?thesis
      proof (cases "- b \<le> 2 * (e + a - b)")
        case True
        then have "2 * (- e + b - a) \<le> b" by presburger
        from y(3) [OF this] y(2) F c True ab show ?thesis by (auto simp: i'_def j'_def e'_def)
      next
        case N: False
        then have "\<not> 2 * (- e + b - a) \<le> b" by presburger
        from y(4) [OF this] y(2) F c N ab less.prems(2) show ?thesis by (auto simp: i'_def j'_def e'_def)
      qed
    qed
    have "nat (a - i' + (b - j')) < nat (a - i + (b - j))"
      using bd \<open>i \<le> i'\<close> \<open>j \<le> j'\<close> by (auto split: if_splits)
    from less.hyps [OF this _ _ _ _ e', of ?s] bd less.prems(1,3) \<open>i \<le> i'\<close> \<open>j \<le> j'\<close> obtain pts where
      IH: "draw_line_loop a (- b) sx sy (x0 + a * sx) (y0 + b * sy) color (x0 + i' * sx) (y0 + j' * sy) (e' + a - b) ?s =
          Some (plot color pts ?s)" "pts \<noteq> []" "hd pts = (x0 + i' * sx, y0 + j' * sy)" "last pts = (x0 + a * sx, y0 + b * sy)"
        "int (length pts) = max a b - (if b \<le> a then i' else j') + 1"
        "\<forall>p \<in> set pts. on_line x0 y0 sx sy a b p" "successively neighbours pts" by auto
    have "\<bar>i' - i\<bar> \<le> 1" "\<bar>j' - j\<bar> \<le> 1" using \<open>i \<le> i'\<close> \<open>i' \<le> i + 1\<close> \<open>j \<le> j'\<close> \<open>j' \<le> j + 1\<close> by auto
    then have nb: "neighbours ?p (hd pts)"
      unfolding IH(3) using s by (auto simp: neighbours_def abs_mult left_diff_distrib [symmetric])
    have "successively neighbours (?p # pts)" using nb IH(2,7) by (cases pts) auto
    moreover have "int (length (?p # pts)) = max a b - (if b \<le> a then i else j) + 1" using IH(5) bd by (auto split: if_splits)
    ultimately show ?thesis using step IH on by (intro exI [of _ "?p # pts"]) auto
  qed
qed

lemma draw_line_points:
  fixes x0 y0 x1 y1 :: int
  obtains pts where "draw_line_impl x0 y0 x1 y1 color s = Some (plot color pts s)" "pts \<noteq> []"
    "hd pts = (x0, y0)" "last pts = (x1, y1)" "int (length pts) = max \<bar>x1 - x0\<bar> \<bar>y1 - y0\<bar> + 1"
    "successively neighbours pts"
    "\<forall>(x, y) \<in> set pts. 2 * \<bar>(x1 - x0) * (y - y0) - (y1 - y0) * (x - x0)\<bar> \<le> max \<bar>x1 - x0\<bar> \<bar>y1 - y0\<bar>"
proof -
  define a where "a = \<bar>x1 - x0\<bar>"
  define b where "b = \<bar>y1 - y0\<bar>"
  define sx :: int where "sx = (if x0 < x1 then 1 else - 1)"
  define sy :: int where "sy = (if y0 < y1 then 1 else - 1)"
  have x1: "x1 = x0 + a * sx" and y1: "y1 = y0 + b * sy" by (auto simp: a_def b_def sx_def sy_def)
  have d: "(if x0 < x1 then x1 - x0 else x0 - x1) = a" "(if y0 < y1 then y1 - y0 else y0 - y1) = b"
    by (auto simp: a_def b_def)
  have one: "\<bar>sx\<bar> = 1" "\<bar>sy\<bar> = 1" by (auto simp: sx_def sy_def)
  have "\<exists>pts. draw_line_loop a (- b) sx sy (x0 + a * sx) (y0 + b * sy) color (x0 + 0 * sx) (y0 + 0 * sy) (0 + a - b) s =
      Some (plot color pts s) \<and> pts \<noteq> [] \<and> hd pts = (x0 + 0 * sx, y0 + 0 * sy) \<and> last pts = (x0 + a * sx, y0 + b * sy) \<and>
      int (length pts) = max a b - (if b \<le> a then 0 else 0) + 1 \<and>
      (\<forall>p \<in> set pts. on_line x0 y0 sx sy a b p) \<and> successively neighbours pts"
    by (rule line_loop [OF _ _ _ _ _ _ _ _ one]) (simp_all add: a_def b_def)
  then obtain pts where p: "draw_line_loop a (- b) sx sy x1 y1 color x0 y0 (a - b) s = Some (plot color pts s)" "pts \<noteq> []"
    "hd pts = (x0, y0)" "last pts = (x1, y1)" "int (length pts) = max a b + 1"
    "\<forall>p \<in> set pts. on_line x0 y0 sx sy a b p" "successively neighbours pts" unfolding x1 [symmetric] y1 [symmetric] by auto
  have "draw_line_impl x0 y0 x1 y1 color s = Some (plot color pts s)"
    unfolding draw_line_impl_def Let_def d using p(1) by (simp add: sx_def sy_def)
  moreover have "2 * \<bar>(x1 - x0) * (y - y0) - (y1 - y0) * (x - x0)\<bar> \<le> max a b" if xy: "(x, y) \<in> set pts" for x y
  proof -
    from xy p(6) obtain i j where ij: "x = x0 + i * sx" "y = y0 + j * sy" "2 * \<bar>a * j - b * i\<bar> \<le> max a b"
      unfolding on_line_def by blast
    have "(x1 - x0) * (y - y0) - (y1 - y0) * (x - x0) = (sx * sy) * (a * j - b * i)"
      unfolding ij x1 y1 by (simp add: algebra_simps)
    then have "\<bar>(x1 - x0) * (y - y0) - (y1 - y0) * (x - x0)\<bar> = \<bar>a * j - b * i\<bar>" using one by (simp add: abs_mult)
    then show ?thesis using ij(3) by simp
  qed
  ultimately show thesis using that [of pts] p(2-5,7) unfolding a_def b_def by blast
qed

text \<open>
  C24. A line is always drawn (the loop terminates for every pair of end points), as a run of
  neighbouring pixels from the first end point to the second, one per step along the longer
  axis, and every pixel lies within half a pixel of the ideal line.
\<close>

theorem draw_line_bresenham:
  "\<exists>pts. draw_line_impl x0 y0 x1 y1 color s = Some (fold (\<lambda>(x, y). draw_pixel_impl x y color) pts s) \<and>
     pts \<noteq> [] \<and> hd pts = (x0, y0) \<and> last pts = (x1, y1) \<and>
     int (length pts) = max \<bar>x1 - x0\<bar> \<bar>y1 - y0\<bar> + 1 \<and> successively neighbours pts \<and>
     (\<forall>(x, y) \<in> set pts. 2 * \<bar>(x1 - x0) * (y - y0) - (y1 - y0) * (x - x0)\<bar> \<le> max \<bar>x1 - x0\<bar> \<bar>y1 - y0\<bar>)"
proof -
  obtain pts where "draw_line_impl x0 y0 x1 y1 color s = Some (plot color pts s)" "pts \<noteq> []"
    "hd pts = (x0, y0)" "last pts = (x1, y1)" "int (length pts) = max \<bar>x1 - x0\<bar> \<bar>y1 - y0\<bar> + 1"
    "successively neighbours pts"
    "\<forall>(x, y) \<in> set pts. 2 * \<bar>(x1 - x0) * (y - y0) - (y1 - y0) * (x - x0)\<bar> \<le> max \<bar>x1 - x0\<bar> \<bar>y1 - y0\<bar>"
    by (rule draw_line_points)
  then show ?thesis unfolding plot_def by (intro exI [of _ pts] conjI)
qed

theorem draw_line_bresenham_witness:
  "\<exists>pts. draw_line_impl 0 0 3 1 7 display_boot = Some (fold (\<lambda>(x, y). draw_pixel_impl x y 7) pts display_boot) \<and>
     length pts = 4 \<and> hd pts = (0, 0) \<and> last pts = (3, 1)"
  using draw_line_bresenham [of 0 0 3 1 7 display_boot] by fastforce

section \<open>Pixels and dirty rows\<close>

definition pixel :: "display \<Rightarrow> nat \<Rightarrow> nat \<Rightarrow> u8" where
  "pixel s x y = framebuffer s ! (y * 240 + x)"

definition dirty :: "display \<Rightarrow> nat \<Rightarrow> bool" where
  "dirty s y \<longleftrightarrow> unat (dirty_min s) \<le> y \<and> y \<le> unat (dirty_max s)"

text \<open>The framebuffer has its size, and the dirty range is a range of rows or the sentinel.\<close>

definition display_ok :: "display \<Rightarrow> bool" where
  "display_ok s \<longleftrightarrow> length (framebuffer s) = 32400 \<and> unat (write_cursor s) \<le> 32400 \<and>
     (unat (dirty_min s) \<le> unat (dirty_max s) \<and> unat (dirty_max s) < 135 \<or>
      dirty_min s = DISP_HEIGHT \<and> dirty_max s = 0)"

text \<open>What a drawing operation keeps: the log, and every pixel outside the rows it marks.\<close>

definition draws :: "display \<Rightarrow> display \<Rightarrow> bool" where
  "draws s s' \<longleftrightarrow> hw_log s' = hw_log s \<and> initialized s' = initialized s \<and> bg_color s' = bg_color s \<and>
     (display_ok s \<longrightarrow> display_ok s' \<and> (\<forall>y<135. dirty s y \<longrightarrow> dirty s' y) \<and>
       (\<forall>y<135. \<not> dirty s' y \<longrightarrow> (\<forall>x<240. pixel s' x y = pixel s x y)))"

lemma draws_refl [simp]: "draws s s" by (simp add: draws_def)

lemma draws_trans: "draws s s' \<Longrightarrow> draws s' s'' \<Longrightarrow> draws s s''"
  by (auto simp: draws_def)

lemma draws_fold: "(\<And>x s. x \<in> set xs \<Longrightarrow> draws s (f x s)) \<Longrightarrow> draws s (fold f xs s)"
proof (induction xs arbitrary: s)
  case (Cons x xs)
  have "draws s (f x s)" "draws (f x s) (fold f xs (f x s))" using Cons by auto
  then show ?case by (simp add: draws_trans)
qed simp

lemma disp_consts: "unat DISP_WIDTH = 240" "unat DISP_HEIGHT = 135" "unat (DISP_WIDTH * DISP_HEIGHT) = 32400"
  "DISP_WIDTH * DISP_HEIGHT = 32400"
  by (simp_all add: DISP_WIDTH_def DISP_HEIGHT_def)

lemma mark_row_fields [simp]:
  "framebuffer (dirty_mark_row y s) = framebuffer s" "hw_log (dirty_mark_row y s) = hw_log s"
  "initialized (dirty_mark_row y s) = initialized s" "bg_color (dirty_mark_row y s) = bg_color s"
  "write_cursor (dirty_mark_row y s) = write_cursor s"
  by (simp_all add: dirty_mark_row_def Let_def)

lemma pixel_mark_row [simp]: "pixel (dirty_mark_row y s) = pixel s"
  by (simp add: pixel_def fun_eq_iff)

lemma mark_row_range:
  assumes "display_ok s" and "unat y < 135"
  shows "display_ok (dirty_mark_row y s)" and "dirty (dirty_mark_row y s) (unat y)"
    and "dirty s z \<Longrightarrow> dirty (dirty_mark_row y s) z"
proof -
  have r: "unat (dirty_min (dirty_mark_row y s)) = min (unat (dirty_min s)) (unat y)"
    "unat (dirty_max (dirty_mark_row y s)) = max (unat (dirty_max s)) (unat y)"
    by (auto simp: dirty_mark_row_def Let_def word_less_nat_alt)
  show "dirty (dirty_mark_row y s) (unat y)" "dirty s z \<Longrightarrow> dirty (dirty_mark_row y s) z"
    by (auto simp: dirty_def r)
  have "dirty_min s = DISP_HEIGHT \<Longrightarrow> unat (dirty_min s) = 135" "dirty_max s = 0 \<Longrightarrow> unat (dirty_max s) = 0"
    by (simp_all add: disp_consts)
  then show "display_ok (dirty_mark_row y s)"
    using assms by (auto simp: display_ok_def r)
qed

lemma draw_pixel_at:
  assumes "display_ok s" and "x < 240" "y < 135"
  shows "pixel (draw_pixel_impl i j c s) x y = (if i = int x \<and> j = int y then c else pixel s x y)"
proof (cases "i < 0 \<or> j < 0 \<or> 240 \<le> i \<or> 135 \<le> j")
  case True
  then show ?thesis using assms(2,3) by (auto simp: draw_pixel_impl_def disp_consts)
next
  case False
  then have nm: "i = int (nat i)" "j = int (nat j)" "nat i < 240" "nat j < 135" by auto
  define n where "n = nat i"
  define m where "m = nat j"
  note nm = nm [folded n_def m_def]
  have "m * 240 + n < length (framebuffer s)" using nm assms(1) by (simp add: display_ok_def)
  moreover have "m * 240 + n = y * 240 + x \<longleftrightarrow> n = x \<and> m = y"
  proof
    assume e: "m * 240 + n = y * 240 + x"
    have "(m * 240 + n) mod 240 = n" "(y * 240 + x) mod 240 = x" using nm(3) assms(2) by simp_all
    with e have "n = x" by presburger
    with e show "n = x \<and> m = y" by simp
  qed simp
  ultimately show ?thesis using nm
    by (auto simp: draw_pixel_impl_def disp_consts pixel_def nth_list_update)
qed

lemma draw_pixel_draws: "draws s (draw_pixel_impl i j c s)"
proof (cases "i < 0 \<or> j < 0 \<or> 240 \<le> i \<or> 135 \<le> j")
  case True
  then show ?thesis by (auto simp: draw_pixel_impl_def disp_consts)
next
  case False
  then have "take_bit 32 j = j" by (simp add: take_bit_int_eq_self_iff)
  with False have u: "unat (word_of_int j :: u32) = nat j" "nat j < 135"
    by (auto simp: unat_eq_nat_uint uint_word_of_int_eq)
  show ?thesis
  proof (cases "display_ok s")
    case True
    let ?s = "s\<lparr>framebuffer := (framebuffer s)[nat j * 240 + nat i := c]\<rparr>"
    have ok: "display_ok ?s" using True by (simp add: display_ok_def)
    note m = mark_row_range [OF ok, of "word_of_int j", unfolded u, OF u(2)]
    have e: "draw_pixel_impl i j c s = dirty_mark_row (word_of_int j) ?s"
      using False by (simp add: draw_pixel_impl_def disp_consts)
    have "pixel (draw_pixel_impl i j c s) x y = pixel s x y"
      if "x < 240" "y < 135" "\<not> dirty (draw_pixel_impl i j c s) y" for x y
    proof -
      have "\<not> (i = int x \<and> j = int y)" using that(3) m(2) unfolding e by auto
      with draw_pixel_at [OF True that(1,2), of i j c] show ?thesis by auto
    qed
    moreover have "dirty s y \<Longrightarrow> dirty ?s y" for y by (simp add: dirty_def)
    ultimately show ?thesis using m(1,3) e by (auto simp: draws_def)
  next
    case F: False
    with False show ?thesis by (simp add: draws_def draw_pixel_impl_def disp_consts)
  qed
qed

lemma plot_draws: "draws s (plot color pts s)"
  unfolding plot_def by (rule draws_fold) (auto simp: split_beta intro: draw_pixel_draws)

lemma draw_line_draws: "\<exists>s'. draw_line_impl x0 y0 x1 y1 color s = Some s' \<and> draws s s'"
proof -
  obtain pts where "draw_line_impl x0 y0 x1 y1 color s = Some (plot color pts s)" by (rule draw_line_points)
  then show ?thesis using plot_draws by blast
qed

lemma draw_rect_draws: "\<exists>s'. draw_rect_impl x y w h color filled s = Some s' \<and> draws s s'"
proof (cases filled)
  case True
  have "draws s (fill_rect x y w h color s)"
    unfolding fill_rect_def by (intro draws_fold draw_pixel_draws)
  with True show ?thesis by (simp add: draw_rect_impl_def)
next
  case False
  obtain s1 where 1: "draw_line_impl x y (x + w - 1) y color s = Some s1" "draws s s1" using draw_line_draws by blast
  obtain s2 where 2: "draw_line_impl (x + w - 1) y (x + w - 1) (y + h - 1) color s1 = Some s2" "draws s1 s2"
    using draw_line_draws by blast
  obtain s3 where 3: "draw_line_impl (x + w - 1) (y + h - 1) x (y + h - 1) color s2 = Some s3" "draws s2 s3"
    using draw_line_draws by blast
  obtain s4 where 4: "draw_line_impl x (y + h - 1) x y color s3 = Some s4" "draws s3 s4" using draw_line_draws by blast
  have "draws s s4" using 1(2) 2(2) 3(2) 4(2) by (blast intro: draws_trans)
  with 1 2 3 4 False show ?thesis by (simp add: draw_rect_impl_def)
qed

lemma draw_char_draws: "draws s (draw_char_impl px py c fg bg_c scale s)"
  unfolding draw_char_impl_def Let_def by (intro draws_fold draw_pixel_draws)

lemma text_loop_draws: "draws s (text_loop px w fg bg_c scale cx cy str s)"
proof (induction px w fg bg_c scale cx cy str s rule: text_loop.induct)
  case (2 px w fg bg_c scale cx cy c str s)
  note IH = 2
  show ?case
  proof (cases "c = CHR 0x0A")
    case False
    obtain cx1 cy1 where xy: "(if int (unat DISP_WIDTH) < cx + w then (px, cy + 8 * uint scale) else (cx, cy)) = (cx1, cy1)"
      by fastforce
    show ?thesis
    proof (cases "int (unat DISP_HEIGHT) < cy1 + 8 * uint scale")
      case F: False
      from IH(2) [OF False refl xy [symmetric] F] draw_char_draws
      have "draws s (text_loop px w fg bg_c scale (cx1 + w) cy1 str (draw_char_impl cx1 cy1 c fg bg_c scale s))"
        by (blast intro: draws_trans)
      with False F xy show ?thesis by simp
    qed (use False xy in simp)
  qed (use IH(1) in simp)
qed simp

lemma draw_text_draws: "draws s (draw_text_impl px py str fg bg_c scale s)"
  by (simp add: draw_text_impl_def Let_def text_loop_draws split: option.split)

section \<open>Streaming pixels\<close>

lemma unat_plus1: "unat c < 32400 \<Longrightarrow> unat (c + 1 :: u32) = unat c + 1"
  by (simp add: unat_word_ariths)

lemma write_loop_spec:
  assumes "length (framebuffer s) = 32400" and "unat (write_cursor s) \<le> 32400"
    and "k = min (length bs) (32400 - unat (write_cursor s))"
  shows "write_loop bs n s = (n + word_of_nat k, s\<lparr>
     framebuffer := take (unat (write_cursor s)) (framebuffer s) @ take k bs @ drop (unat (write_cursor s) + k) (framebuffer s),
     write_cursor := write_cursor s + word_of_nat k\<rparr>)"
  using assms
proof (induction bs n s arbitrary: k rule: write_loop.induct)
  case (1 n s)
  then show ?case by simp
next
  case (2 b bs n s)
  let ?c = "unat (write_cursor s)"
  show ?case
  proof (cases "write_cursor s < DISP_WIDTH * DISP_HEIGHT")
    case True
    then have c: "?c < 32400" by (simp add: disp_consts word_less_nat_alt)
    let ?s = "s\<lparr>framebuffer := (framebuffer s)[?c := b], write_cursor := write_cursor s + 1\<rparr>"
    have "k \<noteq> 0" using 2(4) c by simp
    then obtain k' where k: "k = Suc k'" by (cases k) auto
    have u: "unat (write_cursor s + 1) = Suc ?c" using unat_plus1 [OF c] by simp
    have IH: "write_loop bs (n + 1) ?s = (n + 1 + word_of_nat k', ?s\<lparr>
       framebuffer := take (unat (write_cursor ?s)) (framebuffer ?s) @ take k' bs @ drop (unat (write_cursor ?s) + k') (framebuffer ?s),
       write_cursor := write_cursor ?s + word_of_nat k'\<rparr>)"
      by (rule 2(1) [OF True]) (use 2(2-4) c k u in auto)
    have t: "take (Suc ?c) ((framebuffer s)[?c := b]) = take ?c (framebuffer s) @ [b]"
      using c 2(2) by (simp add: take_Suc_conv_app_nth)
    have d: "drop (Suc ?c + k') ((framebuffer s)[?c := b]) = drop (Suc ?c + k') (framebuffer s)" by simp
    have "write_loop (b # bs) n s = write_loop bs (n + 1) ?s" using True by simp
    also have "\<dots> = (n + word_of_nat k, s\<lparr>
       framebuffer := take ?c (framebuffer s) @ take k (b # bs) @ drop (?c + k) (framebuffer s),
       write_cursor := write_cursor s + word_of_nat k\<rparr>)"
      unfolding IH by (simp add: u t d k add.assoc)
    finally show ?thesis .
  next
    case False
    then have "?c = 32400" using 2(3) by (simp add: disp_consts word_less_nat_alt)
    with False 2(2,4) show ?thesis by simp
  qed
qed

lemma div_pixel: "x < 240 \<Longrightarrow> (y * 240 + x) div 240 = (y :: nat)"
  by simp

lemma display_write_spec:
  assumes ok: "display_ok s" and bs: "length bs = unat len" and k: "k = min (unat len) (32400 - unat (write_cursor s))"
    and pos: "0 < len"
  obtains s' where "display_write (Some bs) len s = (int k, s')" "display_ok s'"
    "unat (write_cursor s') = unat (write_cursor s) + k"
    "hw_log s' = hw_log s" "initialized s' = initialized s" "bg_color s' = bg_color s"
    "\<And>x y. x < 240 \<Longrightarrow> y < 135 \<Longrightarrow> pixel s' x y =
       (if unat (write_cursor s) \<le> y * 240 + x \<and> y * 240 + x < unat (write_cursor s) + k
        then bs ! (y * 240 + x - unat (write_cursor s)) else pixel s x y)"
    "\<And>y. dirty s y \<Longrightarrow> dirty s' y"
    "\<And>x y. x < 240 \<Longrightarrow> y < 135 \<Longrightarrow> \<not> dirty s' y \<Longrightarrow> pixel s' x y = pixel s x y"
proof -
  let ?c = "unat (write_cursor s)"
  have len: "length (framebuffer s) = 32400" "?c \<le> 32400" using ok by (simp_all add: display_ok_def)
  have k': "k = min (length bs) (32400 - ?c)" using k bs by simp
  define s1 where "s1 = s\<lparr>framebuffer := take ?c (framebuffer s) @ take k bs @ drop (?c + k) (framebuffer s),
     write_cursor := write_cursor s + word_of_nat k\<rparr>"
  have loop: "write_loop (take (unat len) bs) 0 s = (word_of_nat k, s1)"
    using write_loop_spec [OF len k', of 0] bs by (simp add: s1_def)
  have kle: "k \<le> 32400 - ?c" using k by simp
  have uk: "unat (word_of_nat k :: u32) = k" using kle by (simp add: unat_of_nat take_bit_nat_eq_self)
  have cur: "unat (write_cursor s1) = ?c + k"
    using kle len(2) by (simp add: s1_def unat_word_ariths uk)
  have sk: "sint (word_of_nat k :: u32) = int k"
    using kle sint_sbintrunc' [of "int k", where 'a = 32] by (simp add: signed_take_bit_int_eq_self)
  have ok1: "display_ok s1" using ok kle len bs k' cur by (auto simp: display_ok_def s1_def)
  have px: "pixel s1 x y = (if ?c \<le> y * 240 + x \<and> y * 240 + x < ?c + k then bs ! (y * 240 + x - ?c) else pixel s x y)"
    if "x < 240" "y < 135" for x y
  proof -
    have "y * 240 + x < 32400" using that by simp
    then show ?thesis using len kle k' by (auto simp: pixel_def s1_def nth_append min_def)
  qed
  show thesis
  proof (cases "k = 0")
    case True
    then have "display_write (Some bs) len s = (0, s1)"
      using loop pos by (simp add: display_write_def)
    moreover have "s1 = s" using True by (simp add: s1_def)
    ultimately have "display_write (Some bs) len s = (int k, s)" using True by simp
    then show ?thesis by (rule that) (use True ok in auto)
  next
    case False
    define a where "a = write_cursor s div DISP_WIDTH"
    define b where "b = (write_cursor s1 - 1) div DISP_WIDTH"
    define s2 where "s2 = dirty_mark_row b (dirty_mark_row a s1)"
    have w: "display_write (Some bs) len s = (int k, s2)"
    proof -
      have "len \<noteq> 0" "0 < (word_of_nat k :: u32)" using pos uk False by (auto simp: word_less_nat_alt)
      with loop sk show ?thesis by (simp add: display_write_def s2_def a_def b_def)
    qed
    have ua: "unat a = ?c div 240" by (simp add: a_def unat_div disp_consts)
    have "1 \<le> write_cursor s1" using cur False by (simp add: word_le_nat_alt)
    then have ub: "unat b = (?c + k - 1) div 240" by (simp add: b_def unat_div disp_consts unat_sub cur)
    have "?c < 32400" using False kle by simp
    then have la: "unat a < 135" unfolding ua by (simp add: less_mult_imp_div_less)
    have "?c + k - 1 < 32400" using False kle len(2) by simp
    then have lb: "unat b < 135" unfolding ub by (simp add: less_mult_imp_div_less)
    note m1 = mark_row_range [OF ok1 la]
    note m2 = mark_row_range [OF m1(1) lb, folded s2_def]
    have dab: "dirty s2 z" if "unat a \<le> z" "z \<le> unat b" for z
      using m2(2) m2(3) [OF m1(2)] that by (auto simp: dirty_def)
    have "pixel s2 x y = pixel s x y" if xy: "x < 240" "y < 135" "\<not> dirty s2 y" for x y
    proof -
      have "\<not> (?c \<le> y * 240 + x \<and> y * 240 + x < ?c + k)"
      proof
        assume i: "?c \<le> y * 240 + x \<and> y * 240 + x < ?c + k"
        have "?c div 240 \<le> (y * 240 + x) div 240" "(y * 240 + x) div 240 \<le> (?c + k - 1) div 240"
          by (rule div_le_mono; use i in linarith)+
        then have "unat a \<le> y" "y \<le> unat b" using xy(1) by (simp_all add: ua ub)
        then show False using dab xy(3) by blast
      qed
      then show ?thesis using px [OF xy(1,2)] by (auto simp: s2_def)
    qed
    moreover have "dirty s y \<Longrightarrow> dirty s2 y" for y
      using m1(3) m2(3) by (simp add: dirty_def s1_def)
    ultimately show ?thesis using that [OF w m2(1)] cur px by (simp add: s2_def s1_def)
  qed
qed

text \<open>
  \<open>write\<close> streams bytes into the framebuffer from the write cursor on: it stores as many as
  fit before the end of the framebuffer and returns their number, advances the cursor by it,
  leaves every other pixel alone, marks every row it changes as dirty, and never leaves the
  framebuffer, however long the buffer is.
\<close>

lemma display_write_streams:
  assumes "display_ok s" and "length bs = unat len" and "0 < len"
    and "k = min (unat len) (32400 - unat (write_cursor s))"
  shows "\<exists>s'. display_write (Some bs) len s = (int k, s') \<and> display_ok s' \<and>
    unat (write_cursor s') = unat (write_cursor s) + k \<and>
    (\<forall>x<240. \<forall>y<135. pixel s' x y =
       (if unat (write_cursor s) \<le> y * 240 + x \<and> y * 240 + x < unat (write_cursor s) + k
        then bs ! (y * 240 + x - unat (write_cursor s)) else pixel s x y) \<and>
       (pixel s' x y \<noteq> pixel s x y \<longrightarrow> dirty s' y))"
proof -
  obtain s' where "display_write (Some bs) len s = (int k, s')" "display_ok s'"
    "unat (write_cursor s') = unat (write_cursor s) + k"
    "hw_log s' = hw_log s" "initialized s' = initialized s" "bg_color s' = bg_color s"
    and p: "\<And>x y. x < 240 \<Longrightarrow> y < 135 \<Longrightarrow> pixel s' x y =
       (if unat (write_cursor s) \<le> y * 240 + x \<and> y * 240 + x < unat (write_cursor s) + k
        then bs ! (y * 240 + x - unat (write_cursor s)) else pixel s x y)"
    "\<And>y. dirty s y \<Longrightarrow> dirty s' y"
    "\<And>x y. x < 240 \<Longrightarrow> y < 135 \<Longrightarrow> \<not> dirty s' y \<Longrightarrow> pixel s' x y = pixel s x y"
    by (rule display_write_spec [OF assms(1,2,4,3)], rule that; (assumption | blast))
  then show ?thesis by (intro exI [of _ s'] conjI allI impI) (simp, simp, simp, erule p, assumption, blast)
qed

section \<open>What the panel shows\<close>

text \<open>
  The ST7789 as its data sheet has it, as far as the driver uses it: a command byte is written
  with D/C low; \<open>CASET\<close> and \<open>RASET\<close> set the window; the data bytes after \<open>RAMWR\<close> fill the window
  row by row. \<open>pn_mem r b\<close> is byte \<open>b\<close> of physical row \<open>r\<close>, two bytes a pixel.
\<close>

record panel =
  pn_dc :: bool
  pn_cmd :: u8
  pn_cs :: nat
  pn_ce :: nat
  pn_rs :: nat
  pn_re :: nat
  pn_pos :: nat
  pn_mem :: "nat \<Rightarrow> nat \<Rightarrow> u8"

definition be16 :: "u8 list \<Rightarrow> nat \<Rightarrow> nat" where
  "be16 bs i = unat (bs ! i) * 256 + unat (bs ! (i + 1))"

definition panel_fill :: "u8 list \<Rightarrow> panel \<Rightarrow> panel" where
  "panel_fill bs p = (let w = 2 * (pn_ce p + 1 - pn_cs p)
     in p\<lparr>pn_pos := pn_pos p + length bs,
          pn_mem := (\<lambda>r b.
            if pn_rs p \<le> r \<and> r \<le> pn_re p \<and> 2 * pn_cs p \<le> b \<and> b < 2 * pn_cs p + w \<and>
               pn_pos p \<le> (r - pn_rs p) * w + (b - 2 * pn_cs p) \<and>
               (r - pn_rs p) * w + (b - 2 * pn_cs p) < pn_pos p + length bs
            then bs ! ((r - pn_rs p) * w + (b - 2 * pn_cs p) - pn_pos p) else pn_mem p r b)\<rparr>)"

fun panel_op :: "hw_op \<Rightarrow> panel \<Rightarrow> panel" where
  "panel_op (GpioPut q v) p = (if q = DISP_PIN_DC then p\<lparr>pn_dc := v\<rparr> else p)"
| "panel_op (SpiWrite bs) p =
     (if \<not> pn_dc p then p\<lparr>pn_cmd := bs ! 0, pn_pos := 0\<rparr>
      else if pn_cmd p = ST7789_CASET then p\<lparr>pn_cs := be16 bs 0, pn_ce := be16 bs 2\<rparr>
      else if pn_cmd p = ST7789_RASET then p\<lparr>pn_rs := be16 bs 0, pn_re := be16 bs 2\<rparr>
      else if pn_cmd p = ST7789_RAMWR then panel_fill bs p
      else p)"
| "panel_op _ p = p"

definition panel_of :: "hw_op list \<Rightarrow> panel" where
  "panel_of ops = fold panel_op ops
     \<lparr>pn_dc = False, pn_cmd = 0, pn_cs = 0, pn_ce = 0, pn_rs = 0, pn_re = 0, pn_pos = 0, pn_mem = (\<lambda>_ _. 0)\<rparr>"

text \<open>The two bytes that the panel shows for a pixel of the framebuffer.\<close>

definition shown :: "display \<Rightarrow> nat \<Rightarrow> nat \<Rightarrow> u8 list" where
  "shown s x y = [pn_mem (panel_of (hw_log s)) (53 + y) (2 * (40 + x)), pn_mem (panel_of (hw_log s)) (53 + y) (2 * (40 + x) + 1)]"

lemma length_expand565 [simp]: "length (expand565 p) = 2"
  by (simp add: expand565_def Let_def)

lemma row_buf_nth:
  assumes "x < 240" "k < 2"
  shows "row_buf s y ! (2 * x + k) = expand565 (pixel s x y) ! k" and "length (row_buf s y) = 480"
proof -
  have "concat (map f [0..<n]) ! (2 * x + k) = f x ! k" if "x < n" "\<And>i. length (f i) = 2" for n and f :: "nat \<Rightarrow> u8 list"
    using that(1)
  proof (induction n)
    case (Suc n)
    have l: "length (concat (map f [0..<n])) = 2 * n" for n by (induction n) (simp_all add: that(2))
    from Suc assms(2) show ?case
      by (cases "x = n") (auto simp: nth_append l)
  qed simp
  from this [of 240 "\<lambda>x. expand565 (framebuffer s ! (y * 240 + x))"] assms
  show "row_buf s y ! (2 * x + k) = expand565 (pixel s x y) ! k"
    by (simp add: row_buf_def disp_consts pixel_def del: upt_Suc upt_rec_numeral)
  have "length (concat (map f [0..<n])) = 2 * n" if "\<And>i. length (f i) = 2" for n and f :: "nat \<Rightarrow> u8 list"
    by (induction n) (simp_all add: that)
  from this [of "\<lambda>x. expand565 (framebuffer s ! (y * 240 + x))" 240] show "length (row_buf s y) = 480"
    by (simp add: row_buf_def disp_consts del: upt_Suc upt_rec_numeral)
qed

lemma window_bytes_be16:
  "be16 (window_bytes a b) 0 = unat a" "be16 (window_bytes a b) 2 = unat b"
proof -
  have "unat (ucast (drop_bit 8 w) :: u8) * 256 + unat (ucast (and w 0xFF) :: u8) = unat w" for w :: u16
  proof -
    have "unat (ucast (drop_bit 8 w) :: u8) = unat w div 256"
    proof -
      have "unat w < 2 ^ LENGTH(16)" by (rule unsigned_less)
      moreover have "unat (ucast (drop_bit 8 w) :: u8) = take_bit 8 (drop_bit 8 (unat w))"
        by (simp add: unsigned_ucast_eq unat_drop_bit_eq)
      ultimately show ?thesis
        by (simp add: drop_bit_eq_div take_bit_eq_mod less_mult_imp_div_less)
    qed
    moreover have "unat (ucast (and w 0xFF) :: u8) = unat w mod 256"
    proof -
      have "and w 0xFF = take_bit 8 w" by (simp add: take_bit_eq_mask mask_eq_exp_minus_1)
      then show ?thesis by (simp add: unsigned_ucast_eq take_bit_eq_mod unat_mod_distrib)
    qed
    ultimately show ?thesis by simp
  qed
  then show "be16 (window_bytes a b) 0 = unat a" "be16 (window_bytes a b) 2 = unat b"
    by (simp_all add: be16_def window_bytes_def)
qed

text \<open>Streaming whole rows into a window of the full width.\<close>

lemma panel_rows:
  assumes "pn_dc p" "pn_cmd p = ST7789_RAMWR" "pn_cs p = 40" "pn_ce p = 279" "pn_pos p = i * 480"
    and "\<And>y. length (f y) = 480" and "pn_rs p + i + n \<le> pn_re p + 1"
  shows "pn_mem (fold panel_op (map (\<lambda>y. SpiWrite (f y)) [y0..<y0 + n]) p) r b =
    (if pn_rs p + i \<le> r \<and> r < pn_rs p + i + n \<and> 80 \<le> b \<and> b < 560 then f (y0 + (r - pn_rs p - i)) ! (b - 80)
     else pn_mem p r b)"
  using assms(5,7)
proof (induction n)
  case 0
  then show ?case by auto
next
  case (Suc n)
  let ?q = "fold panel_op (map (\<lambda>y. SpiWrite (f y)) [y0..<y0 + n]) p"
  have ram: "ST7789_RAMWR \<noteq> ST7789_CASET" "ST7789_RAMWR \<noteq> ST7789_RASET"
    by (simp_all add: ST7789_RAMWR_def ST7789_CASET_def ST7789_RASET_def)
  have q: "pn_dc ?q \<and> pn_cmd ?q = ST7789_RAMWR \<and> pn_cs ?q = 40 \<and> pn_ce ?q = 279 \<and> pn_rs ?q = pn_rs p \<and>
    pn_re ?q = pn_re p \<and> pn_pos ?q = (i + n) * 480"
    using assms(1-5) ram by (induction n) (auto simp: panel_fill_def Let_def assms(6))
  have "pn_mem (fold panel_op (map (\<lambda>y. SpiWrite (f y)) [y0..<y0 + Suc n]) p) r b = pn_mem (panel_fill (f (y0 + n)) ?q) r b"
    using q ram by simp
  also have "\<dots> = (if pn_rs p + i + n = r \<and> 80 \<le> b \<and> b < 560 then f (y0 + n) ! (b - 80) else pn_mem ?q r b)"
  proof -
    have "(i + n) * 480 \<le> (r - pn_rs p) * 480 + (b - 80) \<and> (r - pn_rs p) * 480 + (b - 80) < (i + n) * 480 + 480 \<longleftrightarrow>
        r = pn_rs p + i + n" if "pn_rs p \<le> r" "80 \<le> b" "b < 560"
      using that by (auto simp: algebra_simps)
    then show ?thesis using q Suc.prems by (auto simp: panel_fill_def Let_def assms(6) algebra_simps)
  qed
  finally show ?case using Suc by auto
qed

lemma row_window:
  assumes "unat y < 135"
  shows "unat (ucast (DISP_ROW_OFFSET + y) :: u16) = 53 + unat y"
  using assms by (simp add: DISP_ROW_OFFSET_def unsigned_ucast_eq unat_word_ariths take_bit_eq_mod)

lemma col_window: "unat (ucast DISP_COL_OFFSET :: u16) = 40" "unat (ucast (DISP_COL_OFFSET + DISP_WIDTH - 1) :: u16) = 279"
  by (simp_all add: DISP_COL_OFFSET_def DISP_WIDTH_def)

definition flush_head :: "display \<Rightarrow> hw_op list" where
  "flush_head s =
        [IrqSave, SpiInit 62500000, SpiSetFormat,
         GpioSetFunction DISP_PIN_SCK GPIO_FUNC_SPI, GpioSetFunction DISP_PIN_MOSI GPIO_FUNC_SPI] @
        st7789_cmd ST7789_CASET @
          st7789_data (window_bytes (ucast DISP_COL_OFFSET) (ucast (DISP_COL_OFFSET + DISP_WIDTH - 1))) @
        st7789_cmd ST7789_RASET @
          st7789_data (window_bytes (ucast (DISP_ROW_OFFSET + dirty_min s)) (ucast (DISP_ROW_OFFSET + dirty_max s))) @
        st7789_cmd ST7789_RAMWR @ [IrqRestore, GpioPut DISP_PIN_DC True, GpioPut DISP_PIN_CS False]"

lemma flush_head_panel:
  assumes "unat (dirty_min s) < 135" "unat (dirty_max s) < 135"
  shows "fold panel_op (flush_head s) p = p\<lparr>pn_dc := True, pn_cmd := ST7789_RAMWR, pn_cs := 40, pn_ce := 279,
    pn_rs := 53 + unat (dirty_min s), pn_re := 53 + unat (dirty_max s), pn_pos := 0\<rparr>"
  by (cases p) (simp add: flush_head_def st7789_cmd_def st7789_data_def window_bytes_be16 row_window col_window assms
      ST7789_RAMWR_def ST7789_CASET_def ST7789_RASET_def DISP_PIN_DC_def DISP_PIN_CS_def)

lemma flush_log:
  assumes "\<not> dirty_max s < dirty_min s"
  shows "hw_log (display_flush_fb s) = hw_log s @ flush_head s @
    map (\<lambda>y. SpiWrite (row_buf s y)) [unat (dirty_min s)..<unat (dirty_max s) + 1] @ [GpioPut DISP_PIN_CS True]"
  using assms by (simp add: display_flush_fb_def dirty_reset_def flush_head_def)

lemma expand565_pair: "expand565 p = [expand565 p ! 0, expand565 p ! 1]"
  by (simp add: expand565_def Let_def)

lemma flush_initialized [simp]: "initialized (display_flush_fb s) = initialized s"
  by (simp add: display_flush_fb_def dirty_reset_def emit_def)

lemma flush_spec:
  assumes "display_ok s"
  shows "display_ok (display_flush_fb s)" "framebuffer (display_flush_fb s) = framebuffer s"
    "initialized (display_flush_fb s) = initialized s" "write_cursor (display_flush_fb s) = write_cursor s"
    "bg_color (display_flush_fb s) = bg_color s"
    "\<not> dirty (display_flush_fb s) y"
    "x < 240 \<Longrightarrow> y < 135 \<Longrightarrow> shown (display_flush_fb s) x y = (if dirty s y then expand565 (pixel s x y) else shown s x y)"
proof -
  let ?f = "display_flush_fb s"
  show "framebuffer ?f = framebuffer s" "initialized ?f = initialized s" "write_cursor ?f = write_cursor s"
    "bg_color ?f = bg_color s"
    by (simp_all add: display_flush_fb_def dirty_reset_def emit_def)
  then show "display_ok ?f" using assms
    by (auto simp: display_ok_def display_flush_fb_def dirty_reset_def word_less_nat_alt disp_consts)
  show "\<not> dirty ?f y"
    using assms by (auto simp: dirty_def display_flush_fb_def dirty_reset_def disp_consts word_less_nat_alt)
  assume x: "x < 240" and y: "y < 135"
  show "shown ?f x y = (if dirty s y then expand565 (pixel s x y) else shown s x y)"
  proof (cases "dirty_max s < dirty_min s")
    case True
    then show ?thesis by (auto simp: display_flush_fb_def dirty_def word_less_nat_alt)
  next
    case False
    then have le: "unat (dirty_min s) \<le> unat (dirty_max s)" "unat (dirty_max s) < 135"
      using assms by (auto simp: display_ok_def disp_consts word_less_nat_alt)
    define p where "p = panel_of (hw_log s)"
    define q where "q = fold panel_op (flush_head s) p"
    have q: "q = p\<lparr>pn_dc := True, pn_cmd := ST7789_RAMWR, pn_cs := 40, pn_ce := 279,
      pn_rs := 53 + unat (dirty_min s), pn_re := 53 + unat (dirty_max s), pn_pos := 0\<rparr>"
      unfolding q_def by (rule flush_head_panel) (use le in simp_all)
    define n where "n = unat (dirty_max s) + 1 - unat (dirty_min s)"
    have n: "unat (dirty_max s) + 1 = unat (dirty_min s) + n" using le by (simp add: n_def)
    have mem: "pn_mem (panel_of (hw_log ?f)) r b =
      (if pn_rs q + 0 \<le> r \<and> r < pn_rs q + 0 + n \<and> 80 \<le> b \<and> b < 560
       then row_buf s (unat (dirty_min s) + (r - pn_rs q - 0)) ! (b - 80) else pn_mem q r b)" for r b
    proof -
      have "pn_mem (panel_of (hw_log ?f)) r b =
          pn_mem (fold panel_op (map (\<lambda>y. SpiWrite (row_buf s y)) [unat (dirty_min s)..<unat (dirty_min s) + n]) q) r b"
        unfolding flush_log [OF False] n by (simp add: panel_of_def p_def q_def DISP_PIN_DC_def DISP_PIN_CS_def)
      also have "\<dots> = (if pn_rs q + 0 \<le> r \<and> r < pn_rs q + 0 + n \<and> 80 \<le> b \<and> b < 560
         then row_buf s (unat (dirty_min s) + (r - pn_rs q - 0)) ! (b - 80) else pn_mem q r b)"
        by (rule panel_rows) (use n in \<open>simp_all add: q row_buf_nth(2) [of 0 0]\<close>)
      finally show ?thesis .
    qed
    have row: "row_buf s y ! (2 * x) = expand565 (pixel s x y) ! 0" "row_buf s y ! Suc (2 * x) = expand565 (pixel s x y) ! 1"
      using row_buf_nth(1) [OF x, of 0] row_buf_nth(1) [OF x, of 1] by simp_all
    show ?thesis
    proof (cases "dirty s y")
      case True
      then have "unat (dirty_min s) \<le> y" "y < unat (dirty_min s) + n" using n by (auto simp: dirty_def)
      then have "shown ?f x y = [row_buf s y ! (2 * x), row_buf s y ! (Suc (2 * x))]"
        using x unfolding shown_def mem by (simp add: q algebra_simps)
      with True show ?thesis unfolding row by (simp only: if_True expand565_pair [symmetric])
    next
      case F: False
      then have "\<not> (unat (dirty_min s) \<le> y \<and> y < unat (dirty_min s) + n)" using n by (auto simp: dirty_def)
      with F show ?thesis unfolding shown_def mem by (auto simp: q p_def)
    qed
  qed
qed

text \<open>The invariant of an initialized display: the panel shows every row that is not dirty.\<close>

definition in_step :: "display \<Rightarrow> bool" where
  "in_step s \<longleftrightarrow> display_ok s \<and>
     (initialized s \<longrightarrow> (\<forall>x<240. \<forall>y<135. \<not> dirty s y \<longrightarrow> shown s x y = expand565 (pixel s x y)))"

lemma in_step_draws: "in_step s \<Longrightarrow> draws s s' \<Longrightarrow> in_step s'"
  unfolding in_step_def draws_def shown_def by metis

lemma in_step_flush: "in_step s \<Longrightarrow> in_step (display_flush_fb s)"
  by (auto simp: in_step_def flush_spec pixel_def)

lemma in_step_all_dirty: "display_ok s \<Longrightarrow> in_step (dirty_mark_all s)"
  by (auto simp: in_step_def display_ok_def dirty_mark_all_def dirty_def DISP_HEIGHT_def)

lemma in_step_fill:
  "in_step s \<Longrightarrow> in_step (dirty_mark_all (s\<lparr>framebuffer := replicate (length (framebuffer s)) c\<rparr>))"
  by (rule in_step_all_dirty) (simp add: in_step_def display_ok_def)

lemma fold_panel_backlight: "fold panel_op (backlight_set B b) p = p"
  by (simp add: backlight_set_def Let_def)

lemma in_step_backlight: "in_step s \<Longrightarrow> in_step (emit (backlight_set B b) s)"
proof -
  assume a: "in_step s"
  have e: "shown (emit (backlight_set B b) s) x y = shown s x y" for x y
    by (simp add: shown_def panel_of_def fold_panel_backlight)
  have "pixel (emit (backlight_set B b) s) = pixel s" "dirty (emit (backlight_set B b) s) = dirty s"
    "display_ok (emit (backlight_set B b) s) = display_ok s" "initialized (emit (backlight_set B b) s) = initialized s"
    by (simp_all add: emit_def pixel_def dirty_def display_ok_def fun_eq_iff)
  with a e show ?thesis by (simp add: in_step_def)
qed

lemma in_step_write:
  assumes "in_step s" "unat len \<le> length bs"
  shows "in_step (snd (display_write (Some bs) len s))"
proof (cases "len = 0")
  case True
  with assms(1) show ?thesis by (simp add: display_write_def)
next
  case False
  then have "0 < len" by (simp add: word_neq_0_conv)
  have ok: "display_ok s" using assms(1) by (simp add: in_step_def)
  have bs: "length (take (unat len) bs) = unat len" using assms(2) by simp
  have cut: "display_write (Some bs) len s = display_write (Some (take (unat len) bs)) len s"
    by (simp add: display_write_def)
  obtain s' where w: "display_write (Some (take (unat len) bs)) len s = (int (min (unat len) (32400 - unat (write_cursor s))), s')"
    "display_ok s'" "hw_log s' = hw_log s" "initialized s' = initialized s"
    "\<And>y. dirty s y \<Longrightarrow> dirty s' y"
    "\<And>x y. x < 240 \<Longrightarrow> y < 135 \<Longrightarrow> \<not> dirty s' y \<Longrightarrow> pixel s' x y = pixel s x y"
    by (rule display_write_spec [OF ok bs refl \<open>0 < len\<close>], rule that; (assumption | blast))
  have "shown s' = shown s" by (simp add: shown_def fun_eq_iff w(3))
  then have "in_step s'" using assms(1) w(2,4-6) unfolding in_step_def by metis
  with w(1) cut show ?thesis by simp
qed

lemma in_step_ioctl:
  assumes "in_step s" and "display_ioctl B cmd arg s = Some (rc, arg', s')"
  shows "in_step s'"
proof -
  have line: "draw_line_impl x0 y0 x1 y1 c s = Some s1 \<Longrightarrow> in_step s1" for x0 y0 x1 y1 c s1
    using draw_line_draws [of x0 y0 x1 y1 c s] in_step_draws [OF assms(1)] by auto
  have rect: "draw_rect_impl x y w h c f s = Some s1 \<Longrightarrow> in_step s1" for x y w h c f s1
    using draw_rect_draws [of x y w h c f s] in_step_draws [OF assms(1)] by auto
  have bg: "in_step (s\<lparr>bg_color := c\<rparr>)" for c
    using assms(1) by (simp add: in_step_def display_ok_def dirty_def shown_def pixel_def)
  have same: "s = s' \<Longrightarrow> in_step s'" using assms(1) by simp
  show ?thesis using assms(2)
    unfolding display_ioctl_def
    by (auto split: if_splits disp_arg.splits bind_splits
        intro: same assms(1) in_step_fill in_step_flush bg line rect in_step_backlight
          in_step_draws [OF assms(1) draw_pixel_draws] in_step_draws [OF assms(1) draw_text_draws])
qed

lemma in_step_boot: "in_step display_boot"
  by (simp add: in_step_def display_ok_def display_boot_def disp_consts)

lemma in_step_open: "in_step s \<Longrightarrow> in_step (snd (display_open B splash s)) \<and> initialized (snd (display_open B splash s))"
proof -
  assume a: "in_step s"
  have cur: "in_step t \<Longrightarrow> in_step (t\<lparr>write_cursor := 0\<rparr>)" for t
    by (simp add: in_step_def display_ok_def dirty_def shown_def pixel_def)
  show ?thesis
  proof (cases "initialized s")
    case True
    with a show ?thesis by (simp add: display_open_def cur)
  next
    case False
    define s1 where "s1 = (display_hw_init B s)\<lparr>initialized := True\<rparr>"
    have "display_ok s1" using a
      by (simp add: s1_def in_step_def display_ok_def display_hw_init_def emit_def disp_consts)
    then have 2: "in_step (dirty_mark_all (s1\<lparr>framebuffer := replicate (length (framebuffer s1)) COLOR_BLUE\<rparr>))"
      by (intro in_step_all_dirty) (simp add: display_ok_def)
    let ?t = "draw_text_impl (sint ((DISP_WIDTH - word_of_nat (length splash) * 8 * ucast (2 :: u8)) div 2))
      (sint ((DISP_HEIGHT - 8 * ucast (2 :: u8)) div 2)) (Some splash) COLOR_WHITE COLOR_BLUE 2
      (dirty_mark_all (s1\<lparr>framebuffer := replicate (length (framebuffer s1)) COLOR_BLUE\<rparr>))"
    have t: "in_step ?t" by (rule in_step_draws [OF 2 draw_text_draws])
    have i: "initialized ?t"
      using draw_text_draws [unfolded draws_def] by (simp add: dirty_mark_all_def s1_def)
    have "snd (display_open B splash s) = (display_flush_fb ?t)\<lparr>write_cursor := 0\<rparr>"
      using False by (simp add: display_open_def s1_def Let_def)
    with cur [OF in_step_flush [OF t]] i show ?thesis by simp
  qed
qed

text \<open>The calls of the driver, as a history; \<^const>\<open>None\<close> is a call with the wrong kind of argument.\<close>

datatype disp_call = DispOpen | DispWrite "u8 list" u32 | DispIoctl u32 disp_arg | DispClose

fun disp_step :: "board \<Rightarrow> string \<Rightarrow> disp_call \<Rightarrow> display \<Rightarrow> display option" where
  "disp_step B splash DispOpen s = Some (snd (display_open B splash s))"
| "disp_step B splash (DispWrite bs len) s =
     (if unat len \<le> length bs then Some (snd (display_write (Some bs) len s)) else None)"
| "disp_step B splash (DispIoctl cmd arg) s = map_option (snd \<circ> snd) (display_ioctl B cmd arg s)"
| "disp_step B splash DispClose s = Some (display_close s)"

fun disp_run :: "board \<Rightarrow> string \<Rightarrow> disp_call list \<Rightarrow> display \<Rightarrow> display option" where
  "disp_run B splash [] s = Some s"
| "disp_run B splash (c # cs) s = Option.bind (disp_step B splash c s) (disp_run B splash cs)"

lemma ioctl_initialized:
  assumes "display_ok s" "display_ioctl B cmd arg s = Some (rc, arg', s')"
  shows "initialized s' = initialized s"
proof -
  have line: "draw_line_impl x0 y0 x1 y1 c s = Some s1 \<Longrightarrow> initialized s1 = initialized s" for x0 y0 x1 y1 c s1
    using draw_line_draws [of x0 y0 x1 y1 c s] by (auto simp: draws_def)
  have rect: "draw_rect_impl x y w h c f s = Some s1 \<Longrightarrow> initialized s1 = initialized s" for x y w h c f s1
    using draw_rect_draws [of x y w h c f s] by (auto simp: draws_def)
  have "initialized (draw_pixel_impl i j c s) = initialized s" "initialized (draw_text_impl i j str fg bg sc s) = initialized s"
    for i j c str fg bg sc using draw_pixel_draws draw_text_draws by (auto simp: draws_def)
  with assms show ?thesis unfolding display_ioctl_def
    by (auto split: if_splits disp_arg.splits bind_splits simp: dirty_mark_all_def emit_def flush_spec line rect)
qed

lemma in_step_step:
  assumes "in_step s" "disp_step B splash c s = Some s'"
  shows "in_step s' \<and> (initialized s \<longrightarrow> initialized s')"
proof (cases c)
  case DispOpen
  with assms in_step_open show ?thesis by auto
next
  case (DispWrite bs len)
  have "initialized (snd (write_loop xs n t)) = initialized t" for xs n t
    by (induction xs n t rule: write_loop.induct) simp_all
  then have "initialized (snd (display_write (Some bs) len s)) = initialized s"
    by (simp add: display_write_def split_beta Let_def)
  with DispWrite assms in_step_write [OF assms(1)] show ?thesis by (auto split: if_splits)
next
  case (DispIoctl cmd arg)
  with assms(2) obtain rc arg' where "display_ioctl B cmd arg s = Some (rc, arg', s')" by auto
  with in_step_ioctl [OF assms(1) this] ioctl_initialized [OF _ this] assms(1) show ?thesis
    by (simp add: in_step_def)
next
  case DispClose
  with assms show ?thesis by (simp add: display_close_def)
qed

lemma in_step_run:
  "in_step s \<Longrightarrow> disp_run B splash cs s = Some s' \<Longrightarrow> in_step s' \<and> (initialized s \<longrightarrow> initialized s')"
proof (induction cs arbitrary: s)
  case (Cons c cs)
  from Cons.prems(2) obtain t where t: "disp_step B splash c s = Some t" "disp_run B splash cs t = Some s'"
    by (auto simp: bind_Some_iff)
  from in_step_step [OF Cons.prems(1) t(1)] Cons.IH [OF _ t(2)] show ?case by blast
qed simp

text \<open>
  C23. Dirty-row tracking loses nothing: after any history of opens, writes, drawing commands,
  flushes and closes that starts with an open, a flush leaves every pixel of the panel showing
  the framebuffer expanded to RGB565, though only the dirty rows are sent.
\<close>

theorem display_flush_shows:
  assumes "disp_run B splash (DispOpen # cs) display_boot = Some s"
  shows "\<exists>s'. display_ioctl B IOCTL_DISP_FLUSH DispNull s = Some (0, DispNull, s') \<and>
    (\<forall>x<240. \<forall>y<135. shown s' x y = expand565 (pixel s x y) \<and> pixel s' x y = pixel s x y)"
proof -
  from assms have r: "disp_run B splash cs (snd (display_open B splash display_boot)) = Some s" by simp
  from in_step_run [OF _ r] in_step_open [OF in_step_boot] have s: "in_step s" "initialized s" by blast+
  have "display_ioctl B IOCTL_DISP_FLUSH DispNull s = Some (0, DispNull, display_flush_fb s)"
    by (simp add: display_ioctl_def IOCTL_DISP_FLUSH_def IOCTL_DISP_CLEAR_def)
  moreover have "shown (display_flush_fb s) x y = expand565 (pixel s x y)" if "x < 240" "y < 135" for x y
    using s that by (cases "dirty s y") (simp_all add: in_step_def flush_spec(7))
  ultimately show ?thesis using s(1) by (auto simp: flush_spec(2) pixel_def in_step_def)
qed

theorem display_flush_shows_witness:
  "let B = \<lparr>slice_num = (\<lambda>p. p div 2), pwm_chan = (\<lambda>p. p mod 2), gpio_get = (\<lambda>_. True)\<rparr>
   in \<exists>s s'. disp_run B ''picoOS'' [DispOpen, DispIoctl IOCTL_DISP_DRAW_PIXEL (DispPixel 3 4 5)] display_boot = Some s \<and>
     display_ioctl B IOCTL_DISP_FLUSH DispNull s = Some (0, DispNull, s') \<and> shown s' 3 4 = expand565 5"
proof -
  define B where "B = \<lparr>slice_num = (\<lambda>p. p div 2), pwm_chan = (\<lambda>p. p mod 2), gpio_get = (\<lambda>_ :: nat. True)\<rparr>"
  define t where "t = snd (display_open B ''picoOS'' display_boot)"
  define s where "s = draw_pixel_impl 3 4 5 t"
  have r: "disp_run B ''picoOS'' [DispOpen, DispIoctl IOCTL_DISP_DRAW_PIXEL (DispPixel 3 4 5)] display_boot = Some s"
    by (simp add: t_def s_def display_ioctl_def IOCTL_DISP_DRAW_PIXEL_def IOCTL_DISP_FLUSH_def IOCTL_DISP_CLEAR_def
        IOCTL_DISP_SET_BG_def)
  have "display_ok t" using in_step_open [OF in_step_boot] by (simp add: t_def in_step_def)
  from draw_pixel_at [OF this, of 3 4 3 4 5] have "pixel s 3 4 = 5" by (simp add: s_def)
  with display_flush_shows [OF r] r show ?thesis unfolding Let_def B_def [symmetric] by fastforce
qed

section \<open>Shell command\<close>

definition crlf :: string where "crlf = [CHR 0x0D, CHR 0x0A]"

definition shell_print :: "string \<Rightarrow> display \<Rightarrow> display" where
  "shell_print msg s = emit [Printf msg] s"

definition shell_println :: "string \<Rightarrow> display \<Rightarrow> display" where
  "shell_println msg s = emit [Printf (msg @ crlf)] s"

definition parse_color :: "string option \<Rightarrow> u8" where
  "parse_color hex = (case hex of
       None \<Rightarrow> COLOR_WHITE
     | Some h \<Rightarrow>
         if cstr h = [] then COLOR_WHITE
         else (let (val, rest) = strtoul16 (cstr h)
           in if rest = cstr h then COLOR_WHITE
              else RGB332 (and (drop_bit 16 val) 0xFF) (and (drop_bit 8 val) 0xFF) (and val 0xFF)))"

text \<open>\<open>display_ioctl\<close> as the command calls it, for its effect.\<close>

definition call_ioctl :: "board \<Rightarrow> u32 \<Rightarrow> disp_arg \<Rightarrow> display \<Rightarrow> display option" where
  "call_ioctl B cmd arg s = map_option (snd \<circ> snd) (display_ioctl B cmd arg s)"

definition arg16 :: "string \<Rightarrow> u16" where
  "arg16 a = word_of_int (atoi (cstr a))"

definition button_names :: "u8 \<Rightarrow> string" where
  "button_names btns =
     (if and btns DISP_BTN_A \<noteq> 0 then ''A '' else []) @ (if and btns DISP_BTN_B \<noteq> 0 then ''B '' else []) @
     (if and btns DISP_BTN_X \<noteq> 0 then ''X '' else []) @ (if and btns DISP_BTN_Y \<noteq> 0 then ''Y '' else [])"

text \<open>\<open>argv\<close> as a list, the command's name included.\<close>

definition cmd_display :: "board \<Rightarrow> string \<Rightarrow> string list \<Rightarrow> display \<Rightarrow> (int \<times> display) option" where
  "cmd_display B splash argv s0 =
     (if length argv < 2 then
        Some (- 1, shell_println ''usage: display <clear|fill|text|line|rect|backlight|buttons|info>'' s0)
      else let sub = argv ! 1; s = (if initialized s0 then s0 else snd (display_open B splash s0))
      in if strcmp_eq sub ''clear'' then do {
           s1 \<leftarrow> call_ioctl B IOCTL_DISP_CLEAR DispNull s;
           s2 \<leftarrow> call_ioctl B IOCTL_DISP_FLUSH DispNull s1;
           Some (0, s2)
         }
      else if strcmp_eq sub ''fill'' then
        (if length argv < 3 then Some (- 1, shell_println ''usage: display fill RRGGBB'' s)
         else do {
           s1 \<leftarrow> call_ioctl B IOCTL_DISP_SET_BG (DispByte (parse_color (Some (argv ! 2)))) s;
           s2 \<leftarrow> call_ioctl B IOCTL_DISP_CLEAR DispNull s1;
           s3 \<leftarrow> call_ioctl B IOCTL_DISP_FLUSH DispNull s2;
           Some (0, s3)
         })
      else if strcmp_eq sub ''text'' then
        (if length argv < 5 then Some (- 1, shell_println ''usage: display text X Y STR'' s)
         else do {
           s1 \<leftarrow> call_ioctl B IOCTL_DISP_DRAW_TEXT
             (DispText (arg16 (argv ! 2)) (arg16 (argv ! 3)) COLOR_WHITE (bg_color s) 1 (Some (argv ! 4))) s;
           s2 \<leftarrow> call_ioctl B IOCTL_DISP_FLUSH DispNull s1;
           Some (0, s2)
         })
      else if strcmp_eq sub ''line'' then
        (if length argv < 7 then Some (- 1, shell_println ''usage: display line X0 Y0 X1 Y1 RRGGBB'' s)
         else do {
           s1 \<leftarrow> call_ioctl B IOCTL_DISP_DRAW_LINE (DispLine (arg16 (argv ! 2)) (arg16 (argv ! 3)) (arg16 (argv ! 4))
             (arg16 (argv ! 5)) (parse_color (Some (argv ! 6)))) s;
           s2 \<leftarrow> call_ioctl B IOCTL_DISP_FLUSH DispNull s1;
           Some (0, s2)
         })
      else if strcmp_eq sub ''rect'' then
        (if length argv < 7 then Some (- 1, shell_println ''usage: display rect X Y W H RRGGBB'' s)
         else do {
           s1 \<leftarrow> call_ioctl B IOCTL_DISP_DRAW_RECT (DispRect (arg16 (argv ! 2)) (arg16 (argv ! 3)) (arg16 (argv ! 4))
             (arg16 (argv ! 5)) (parse_color (Some (argv ! 6))) 0) s;
           s2 \<leftarrow> call_ioctl B IOCTL_DISP_FLUSH DispNull s1;
           Some (0, s2)
         })
      else if strcmp_eq sub ''backlight'' then
        (if length argv < 3 then Some (- 1, shell_println ''usage: display backlight N'' s)
         else do {
           s1 \<leftarrow> call_ioctl B IOCTL_DISP_SET_BL (DispByte (word_of_int (and (atoi (cstr (argv ! 2))) 0xFF))) s;
           Some (0, s1)
         })
      else if strcmp_eq sub ''buttons'' then do {
           (rc, arg, s1) \<leftarrow> display_ioctl B IOCTL_DISP_GET_BTNS (DispByte 0) s;
           let btns = (case arg of DispByte b \<Rightarrow> b | _ \<Rightarrow> 0);
           let s2 = shell_print (''buttons: '' @ button_names btns @ crlf) s1;
           Some (0, if btns = 0 then shell_println ''(none pressed)'' s2 else s2)
         }
      else if strcmp_eq sub ''info'' then
        Some (0, shell_print (''display: '' @ dec (unat DISP_WIDTH) @ ''x'' @ dec (unat DISP_HEIGHT) @
          ''  model=Display Pack  init='' @ (if initialized s then ''yes'' else ''no'') @ crlf) s)
      else Some (- 1, shell_print (''unknown sub-command: '' @ cstr sub @ crlf) s))"

lemmas ioctl_codes = IOCTL_DISP_CLEAR_def IOCTL_DISP_FLUSH_def IOCTL_DISP_SET_BG_def IOCTL_DISP_DRAW_PIXEL_def
  IOCTL_DISP_DRAW_LINE_def IOCTL_DISP_DRAW_RECT_def IOCTL_DISP_DRAW_TEXT_def IOCTL_DISP_SET_BL_def
  IOCTL_DISP_GET_BTNS_def IOCTL_DISP_GET_DIMS_def

text \<open>The ioctls the command makes, with the arguments they expect, return.\<close>

definition ioctl_returns :: "u32 \<Rightarrow> disp_arg \<Rightarrow> bool" where
  "ioctl_returns cmd arg \<longleftrightarrow> (\<forall>B s. \<exists>s'. call_ioctl B cmd arg s = Some s')"

lemma ioctls_return:
  "ioctl_returns IOCTL_DISP_CLEAR DispNull" "ioctl_returns IOCTL_DISP_FLUSH DispNull"
  "ioctl_returns IOCTL_DISP_SET_BG (DispByte c)" "ioctl_returns IOCTL_DISP_SET_BL (DispByte c)"
  "ioctl_returns IOCTL_DISP_DRAW_TEXT (DispText x y c bg sc str)"
  by (simp_all add: ioctl_returns_def call_ioctl_def display_ioctl_def ioctl_codes)

lemma line_ioctl_returns: "ioctl_returns IOCTL_DISP_DRAW_LINE (DispLine x0 y0 x1 y1 c)"
proof -
  have "\<exists>s'. draw_line_impl (uint x0) (uint y0) (uint x1) (uint y1) c s = Some s'" for s
    using draw_line_draws by blast
  then show ?thesis
    by (fastforce simp: ioctl_returns_def call_ioctl_def display_ioctl_def ioctl_codes split: bind_splits)
qed

lemma rect_ioctl_returns: "ioctl_returns IOCTL_DISP_DRAW_RECT (DispRect x y w h c f)"
proof -
  have "\<exists>s'. draw_rect_impl (uint x) (uint y) (uint w) (uint h) c (f \<noteq> 0) s = Some s'" for s
    using draw_rect_draws by blast
  then show ?thesis
    by (fastforce simp: ioctl_returns_def call_ioctl_def display_ioctl_def ioctl_codes split: bind_splits)
qed

lemma ioctl_then:
  assumes "ioctl_returns cmd arg" and "\<And>s'. \<exists>r. k s' = Some r"
  shows "\<exists>r. Option.bind (call_ioctl B cmd arg s) k = Some r"
proof -
  obtain s' where "call_ioctl B cmd arg s = Some s'" using assms(1) unfolding ioctl_returns_def by blast
  then show ?thesis using assms(2) by simp
qed

lemma buttons_return: "display_ioctl B IOCTL_DISP_GET_BTNS (DispByte 0) s = Some (0, DispByte (buttons B), s)"
  by (simp add: display_ioctl_def ioctl_codes)

text \<open>
  The \<open>display\<close> command always returns, whatever its arguments and whatever the state of the
  driver, with result 0 or -1.
\<close>

lemma cmd_display_returns:
  "\<exists>rc s'. cmd_display B splash argv s = Some (rc, s')"
proof -
  have branch: "(c \<Longrightarrow> \<exists>r. a = Some r) \<Longrightarrow> (\<not> c \<Longrightarrow> \<exists>r. b = Some r) \<Longrightarrow> \<exists>r. (if c then a else b) = Some r"
    for c and a b :: "(int \<times> display) option" by simp
  have leaf: "\<exists>r. Some x = Some r" for x :: "int \<times> display" by simp
  have "\<exists>r. cmd_display B splash argv s = Some r"
    unfolding cmd_display_def Let_def buttons_return bind.bind_lunit prod.case
    by (intro branch leaf ioctl_then ioctls_return line_ioctl_returns rect_ioctl_returns)
  then show ?thesis by auto
qed

end
