(* ===== verification/Env.thy ===== *)
theory Env
  imports Sync Board
begin

text \<open>
  What the file system, the VFS and the system calls run in: the core that executes the calling
  thread, and the parts outside \<open>src/\<close> as one record of parameters (\<open>env\<close>).

  A call that blocks gives up its core, other threads run, and it continues in whatever state
  they leave, on either core. \<open>resume\<close> is that: from the state in which the calling thread
  yields to the state in which it runs again. With it the \<open>while (1)\<close> of a blocking
  primitive is a loop (\<^const>\<open>None\<close> when the thread never gets what it waits for).
\<close>

record 'h exec_state = "'h sync_state" +
  core_num :: nat

record ('h, 's) env =
  e_sdk :: "'h sdk"
  e_board :: board
  e_splash :: string
  getchar_timeout_us :: "'h \<Rightarrow> int option \<times> 'h"
  tud_task_event_ready :: "'h \<Rightarrow> bool"
  unique_board_id :: "u8 list"
  xip :: "'h \<Rightarrow> nat \<Rightarrow> u8"
  flash_range_erase :: "nat \<Rightarrow> nat \<Rightarrow> 'h \<Rightarrow> 'h"
  flash_range_program :: "nat \<Rightarrow> u8 list \<Rightarrow> 'h \<Rightarrow> 'h"
  flash_safe_execute :: "nat \<Rightarrow> ('h \<Rightarrow> 'h) \<Rightarrow> 'h \<Rightarrow> int \<times> 'h"
  resume :: "'s \<Rightarrow> 's"

definition CURRENT_TCB :: "('h, 'a) exec_state_scheme \<Rightarrow> nat option" where
  "CURRENT_TCB s = current_tcb s (core_num s)"

text \<open>
  \<open>kmutex_lock\<close> and \<open>kmutex_unlock\<close> on a mutex of the state, with the wait loop closed.
\<close>

partial_function (option) mutex_lock ::
  "('h, ('h, 'a) exec_state_scheme) env \<Rightarrow> (('h, 'a) exec_state_scheme \<Rightarrow> kmutex_t) \<Rightarrow>
     (kmutex_t \<Rightarrow> ('h, 'a) exec_state_scheme \<Rightarrow> ('h, 'a) exec_state_scheme) \<Rightarrow>
     ('h, 'a) exec_state_scheme \<Rightarrow> ('h, 'a) exec_state_scheme option" where
  "mutex_lock E rd wr s = Option.bind (kmutex_lock (e_sdk E) (core_num s) (rd s) s)
     (\<lambda>(got, m, s1). if got then Some (wr m s1) else mutex_lock E rd wr (resume E (wr m s1)))"

definition mutex_unlock ::
  "('h, ('h, 'a) exec_state_scheme) env \<Rightarrow> (('h, 'a) exec_state_scheme \<Rightarrow> kmutex_t) \<Rightarrow>
     (kmutex_t \<Rightarrow> ('h, 'a) exec_state_scheme \<Rightarrow> ('h, 'a) exec_state_scheme) \<Rightarrow>
     ('h, 'a) exec_state_scheme \<Rightarrow> ('h, 'a) exec_state_scheme option" where
  "mutex_unlock E rd wr s = Option.bind (kmutex_unlock (e_sdk E) (core_num s) (rd s) s)
     (\<lambda>(m, s1). Some (wr m s1))"

section \<open>Little-endian memory\<close>

definition le_bytes :: "nat \<Rightarrow> 'a::len word \<Rightarrow> u8 list" where
  "le_bytes n w = map (\<lambda>i. ucast (drop_bit (8 * i) w)) [0..<n]"

fun le_word :: "u8 list \<Rightarrow> 'a::len word" where
  "le_word [] = 0"
| "le_word (b # bs) = or (ucast b) (push_bit 8 (le_word bs))"

lemma length_le_bytes [simp]: "length (le_bytes n w) = n"
  by (simp add: le_bytes_def)

lemma bit_le_word:
  "bit (le_word bs :: 'a::len word) k \<longleftrightarrow> k < LENGTH('a) \<and> k div 8 < length bs \<and> bit (bs ! (k div 8)) (k mod 8)"
proof (induction bs arbitrary: k)
  case (Cons b bs)
  show ?case
  proof (cases "k < 8")
    case True
    then show ?thesis by (auto simp: bit_or_iff bit_ucast_iff bit_push_bit_iff)
  next
    case False
    then obtain j where k: "k = j + 8" by (metis add.commute le_Suc_ex not_less)
    have "\<not> bit b (j + 8)" using bit_imp_le_length [of b "j + 8"] by auto
    have "(j + 8) div 8 = Suc (j div 8)" "(j + 8) mod 8 = j mod 8" by simp_all
    then show ?thesis using Cons [of j] \<open>\<not> bit b (j + 8)\<close>
      by (auto simp: k bit_or_iff bit_ucast_iff bit_push_bit_iff dest: bit_imp_le_length)
  qed
qed simp

lemma le_roundtrip:
  assumes "8 * n = LENGTH('a::len)"
  shows "le_word (le_bytes n w) = (w :: 'a word)"
proof (rule bit_eqI)
  fix k assume k: "possible_bit TYPE('a word) k"
  then have "k < LENGTH('a)" by (simp add: possible_bit_word)
  moreover from this have "k div 8 < n" using assms by (simp add: less_mult_imp_div_less mult.commute)
  moreover have "8 * (k div 8) + k mod 8 = k" by simp
  ultimately show "bit (le_word (le_bytes n w) :: 'a word) k \<longleftrightarrow> bit w k"
    by (simp add: bit_le_word le_bytes_def bit_ucast_iff bit_drop_bit_eq)
qed

end
