(* ===== verification/Dev.thy ===== *)
theory Dev
  imports Env Led Display
begin

text \<open>
  \<open>src/kernel/dev.c\<close>: the console, timer, flash and GPIO devices, and the table through which all
  six devices are reached. A device is a record of its operations, as \<open>device_t\<close> is a struct of
  function pointers.
\<close>

section \<open>State\<close>

record 'h dev_state = "'h exec_state" +
  dev_hw :: hw
  dev_display :: display
  dev_led :: led

definition dev_emit :: "hw_op list \<Rightarrow> ('h, 'a) dev_state_scheme \<Rightarrow> ('h, 'a) dev_state_scheme" where
  "dev_emit ops s = s\<lparr>dev_hw := emit ops (dev_hw s)\<rparr>"

datatype dev_id = DEV_CONSOLE | DEV_TIMER | DEV_FLASH | DEV_GPIO | DEV_DISPLAY | DEV_LED | DEV_COUNT

definition IOCTL_TIMER_GET_TICK :: u32 where "IOCTL_TIMER_GET_TICK = 0x0100"
definition IOCTL_TIMER_GET_US :: u32 where "IOCTL_TIMER_GET_US = 0x0101"
definition IOCTL_GPIO_SET_DIR :: u32 where "IOCTL_GPIO_SET_DIR = 0x0200"
definition IOCTL_GPIO_SET_VAL :: u32 where "IOCTL_GPIO_SET_VAL = 0x0201"
definition IOCTL_GPIO_GET_VAL :: u32 where "IOCTL_GPIO_GET_VAL = 0x0202"
definition IOCTL_FLASH_GET_UID :: u32 where "IOCTL_FLASH_GET_UID = 0x0500"
definition FLASH_UID_SIZE :: nat where "FLASH_UID_SIZE = 8"

text \<open>
  What an ioctl's \<open>arg\<close> points to; an access through it of another kind than the command
  expects, and through \<open>NULL\<close>, has no meaning (\<^const>\<open>None\<close>).
\<close>

datatype ioctl_arg = ArgNull | ArgU32 u32 | ArgU64 u64 | ArgBytes "u8 list" | ArgDisp disp_arg

type_synonym 's ioctl_result = "(int \<times> ioctl_arg \<times> 's) option"

section \<open>Console\<close>

definition console_open :: "('h, 'a) dev_state_scheme \<Rightarrow> int \<times> ('h, 'a) dev_state_scheme" where
  "console_open s = (0, s)"

text \<open>\<open>getchar_timeout_us(0)\<close> gives \<^const>\<open>None\<close> for \<open>PICO_ERROR_TIMEOUT\<close>.\<close>

fun console_loop :: "('h, 's) env \<Rightarrow> nat \<Rightarrow> u8 list \<Rightarrow> 'h \<Rightarrow> u8 list \<times> 'h" where
  "console_loop E 0 got h = (got, h)"
| "console_loop E (Suc n) got h = (case getchar_timeout_us E h of
       (None, h') \<Rightarrow> (got, h')
     | (Some ch, h') \<Rightarrow> console_loop E n (got @ [word_of_int ch]) h')"

text \<open>A read gives the result and the bytes stored at \<open>buf\<close>; \<open>buf\<close> is whether it is not \<open>NULL\<close>.\<close>

definition console_read ::
  "('h, 's) env \<Rightarrow> bool \<Rightarrow> u32 \<Rightarrow> ('h, 'a) dev_state_scheme \<Rightarrow> int \<times> u8 list \<times> ('h, 'a) dev_state_scheme" where
  "console_read E buf len s =
     (if \<not> buf \<or> len = 0 then (- 1, [], s)
      else let (got, h) = console_loop E (unat len) [] (sio s)
           in (sint (word_of_nat (length got) :: u32), got, s\<lparr>sio := h\<rparr>))"

definition console_write ::
  "u8 list option \<Rightarrow> u32 \<Rightarrow> ('h, 'a) dev_state_scheme \<Rightarrow> int \<times> ('h, 'a) dev_state_scheme" where
  "console_write buf len s = (case buf of
       None \<Rightarrow> (- 1, s)
     | Some bs \<Rightarrow> if len = 0 then (- 1, s)
         else (sint len, dev_emit (map PutcharRaw (take (unat len) bs)) s))"

definition console_ioctl :: "u32 \<Rightarrow> ioctl_arg \<Rightarrow> ('h, 'a) dev_state_scheme \<Rightarrow> (('h, 'a) dev_state_scheme) ioctl_result" where
  "console_ioctl cmd arg s = Some (- 1, arg, s)"

definition dev_console_poll :: "('h, 's) env \<Rightarrow> ('h, 'a) dev_state_scheme \<Rightarrow> ('h, 'a) dev_state_scheme" where
  "dev_console_poll E s = (if tud_task_event_ready E (sio s) then dev_emit [StdioFlush] s else s)"

definition console_close :: "('h, 'a) dev_state_scheme \<Rightarrow> ('h, 'a) dev_state_scheme" where
  "console_close s = s"

section \<open>Timer\<close>

definition timer_open :: "('h, 'a) dev_state_scheme \<Rightarrow> int \<times> ('h, 'a) dev_state_scheme" where
  "timer_open s = (0, s)"

definition timer_read :: "bool \<Rightarrow> u32 \<Rightarrow> ('h, 'a) dev_state_scheme \<Rightarrow> int \<times> u8 list \<times> ('h, 'a) dev_state_scheme" where
  "timer_read buf len s = (if \<not> buf \<or> len < 8 then (- 1, [], s) else (8, le_bytes 8 (time_us s), s))"

definition timer_write :: "u8 list option \<Rightarrow> u32 \<Rightarrow> ('h, 'a) dev_state_scheme \<Rightarrow> int \<times> ('h, 'a) dev_state_scheme" where
  "timer_write buf len s = (- 1, s)"

definition timer_ioctl :: "u32 \<Rightarrow> ioctl_arg \<Rightarrow> ('h, 'a) dev_state_scheme \<Rightarrow> (('h, 'a) dev_state_scheme) ioctl_result" where
  "timer_ioctl cmd arg s =
     (if cmd = IOCTL_TIMER_GET_TICK then
        (case arg of ArgNull \<Rightarrow> Some (- 1, arg, s) | ArgU32 _ \<Rightarrow> Some (0, ArgU32 (tick_count s), s) | _ \<Rightarrow> None)
      else if cmd = IOCTL_TIMER_GET_US then
        (case arg of ArgNull \<Rightarrow> Some (- 1, arg, s) | ArgU64 _ \<Rightarrow> Some (0, ArgU64 (time_us s), s) | _ \<Rightarrow> None)
      else Some (- 1, arg, s))"

definition timer_close :: "('h, 'a) dev_state_scheme \<Rightarrow> ('h, 'a) dev_state_scheme" where
  "timer_close s = s"

section \<open>Flash\<close>

definition flash_open :: "('h, 'a) dev_state_scheme \<Rightarrow> int \<times> ('h, 'a) dev_state_scheme" where
  "flash_open s = (0, s)"

definition flash_read :: "bool \<Rightarrow> u32 \<Rightarrow> ('h, 'a) dev_state_scheme \<Rightarrow> int \<times> u8 list \<times> ('h, 'a) dev_state_scheme" where
  "flash_read buf len s = (- 1, [], s)"

definition flash_write :: "u8 list option \<Rightarrow> u32 \<Rightarrow> ('h, 'a) dev_state_scheme \<Rightarrow> int \<times> ('h, 'a) dev_state_scheme" where
  "flash_write buf len s = (- 1, s)"

definition flash_ioctl ::
  "('h, 's) env \<Rightarrow> u32 \<Rightarrow> ioctl_arg \<Rightarrow> ('h, 'a) dev_state_scheme \<Rightarrow> (('h, 'a) dev_state_scheme) ioctl_result" where
  "flash_ioctl E cmd arg s =
     (if cmd = IOCTL_FLASH_GET_UID then
        (case arg of
           ArgNull \<Rightarrow> Some (- 1, arg, s)
         | ArgBytes bs \<Rightarrow> Some (0, ArgBytes (take FLASH_UID_SIZE (unique_board_id E) @ drop FLASH_UID_SIZE bs), s)
         | _ \<Rightarrow> None)
      else Some (- 1, arg, s))"

definition flash_close :: "('h, 'a) dev_state_scheme \<Rightarrow> ('h, 'a) dev_state_scheme" where
  "flash_close s = s"

section \<open>GPIO\<close>

definition gpio_open :: "('h, 'a) dev_state_scheme \<Rightarrow> int \<times> ('h, 'a) dev_state_scheme" where
  "gpio_open s = (0, s)"

definition gpio_read :: "bool \<Rightarrow> u32 \<Rightarrow> ('h, 'a) dev_state_scheme \<Rightarrow> int \<times> u8 list \<times> ('h, 'a) dev_state_scheme" where
  "gpio_read buf len s = (- 1, [], s)"

definition gpio_write :: "u8 list option \<Rightarrow> u32 \<Rightarrow> ('h, 'a) dev_state_scheme \<Rightarrow> int \<times> ('h, 'a) dev_state_scheme" where
  "gpio_write buf len s = (- 1, s)"

definition gpio_ioctl ::
  "('h, 's) env \<Rightarrow> u32 \<Rightarrow> ioctl_arg \<Rightarrow> ('h, 'a) dev_state_scheme \<Rightarrow> (('h, 'a) dev_state_scheme) ioctl_result" where
  "gpio_ioctl E cmd arg s =
     (if cmd = IOCTL_GPIO_SET_DIR then
        (case arg of
           ArgU32 val \<Rightarrow> (let pin = and val 0xFF; dir = and (drop_bit 16 val) 0x1
             in Some (0, arg, dev_emit [GpioSetDir (unat pin) (dir \<noteq> 0)] s))
         | _ \<Rightarrow> None)
      else if cmd = IOCTL_GPIO_SET_VAL then
        (case arg of
           ArgU32 val \<Rightarrow> (let pin = and val 0xFF; out = and (drop_bit 16 val) 0x1
             in Some (0, arg, dev_emit [GpioPut (unat pin) (out \<noteq> 0)] s))
         | _ \<Rightarrow> None)
      else if cmd = IOCTL_GPIO_GET_VAL then
        (case arg of
           ArgU32 word \<Rightarrow> (let pin = and word 0xFF
             in Some (0, ArgU32 (if gpio_get (e_board E) (unat pin) then 1 else 0), s))
         | _ \<Rightarrow> None)
      else Some (- 1, arg, s))"

definition gpio_close :: "('h, 'a) dev_state_scheme \<Rightarrow> ('h, 'a) dev_state_scheme" where
  "gpio_close s = s"

section \<open>The device table\<close>

record 's device_t =
  d_id :: dev_id
  d_name :: string
  d_open :: "'s \<Rightarrow> int \<times> 's"
  d_read :: "bool \<Rightarrow> u32 \<Rightarrow> 's \<Rightarrow> int \<times> u8 list \<times> 's"
  d_write :: "u8 list option \<Rightarrow> u32 \<Rightarrow> 's \<Rightarrow> int \<times> 's"
  d_ioctl :: "u32 \<Rightarrow> ioctl_arg \<Rightarrow> 's \<Rightarrow> 's ioctl_result"
  d_close :: "'s \<Rightarrow> 's"

text \<open>The drivers of \<open>src/drivers/\<close>, each on its own part of the state.\<close>

definition on_display :: "(display \<Rightarrow> int \<times> display) \<Rightarrow> ('h, 'a) dev_state_scheme \<Rightarrow> int \<times> ('h, 'a) dev_state_scheme" where
  "on_display f s = (case f (dev_display s) of (r, d) \<Rightarrow> (r, s\<lparr>dev_display := d\<rparr>))"

definition on_led :: "(led \<Rightarrow> int \<times> led) \<Rightarrow> ('h, 'a) dev_state_scheme \<Rightarrow> int \<times> ('h, 'a) dev_state_scheme" where
  "on_led f s = (case f (dev_led s) of (r, d) \<Rightarrow> (r, s\<lparr>dev_led := d\<rparr>))"

definition display_dev_ioctl ::
  "('h, 's) env \<Rightarrow> u32 \<Rightarrow> ioctl_arg \<Rightarrow> ('h, 'a) dev_state_scheme \<Rightarrow> (('h, 'a) dev_state_scheme) ioctl_result" where
  "display_dev_ioctl E cmd arg s =
     Option.bind (case arg of ArgNull \<Rightarrow> Some DispNull | ArgDisp a \<Rightarrow> Some a | _ \<Rightarrow> None) (\<lambda>a.
     Option.bind (display_ioctl (e_board E) cmd a (dev_display s)) (\<lambda>(rc, a', d).
       Some (rc, if a = DispNull then arg else ArgDisp a', s\<lparr>dev_display := d\<rparr>)))"

definition led_dev_ioctl ::
  "('h, 's) env \<Rightarrow> u32 \<Rightarrow> ioctl_arg \<Rightarrow> ('h, 'a) dev_state_scheme \<Rightarrow> (('h, 'a) dev_state_scheme) ioctl_result" where
  "led_dev_ioctl E cmd arg s =
     Option.bind (case arg of ArgU32 w \<Rightarrow> Some (Some w) | ArgNull \<Rightarrow> Some None
        | _ \<Rightarrow> if cmd = IOCTL_LED_SET_RGB then None else Some None) (\<lambda>a.
       case led_ioctl (e_board E) cmd a (dev_led s) of (rc, d) \<Rightarrow> Some (rc, arg, s\<lparr>dev_led := d\<rparr>))"

definition devices :: "('h, 's) env \<Rightarrow> dev_id \<Rightarrow> (('h, 'a) dev_state_scheme) device_t" where
  "devices E did = (case did of
       DEV_CONSOLE \<Rightarrow> \<lparr>d_id = DEV_CONSOLE, d_name = ''console'', d_open = console_open, d_read = console_read E,
         d_write = console_write, d_ioctl = console_ioctl, d_close = console_close\<rparr>
     | DEV_TIMER \<Rightarrow> \<lparr>d_id = DEV_TIMER, d_name = ''timer'', d_open = timer_open, d_read = timer_read,
         d_write = timer_write, d_ioctl = timer_ioctl, d_close = timer_close\<rparr>
     | DEV_FLASH \<Rightarrow> \<lparr>d_id = DEV_FLASH, d_name = ''flash'', d_open = flash_open, d_read = flash_read,
         d_write = flash_write, d_ioctl = flash_ioctl E, d_close = flash_close\<rparr>
     | DEV_GPIO \<Rightarrow> \<lparr>d_id = DEV_GPIO, d_name = ''gpio'', d_open = gpio_open, d_read = gpio_read,
         d_write = gpio_write, d_ioctl = gpio_ioctl E, d_close = gpio_close\<rparr>
     | DEV_DISPLAY \<Rightarrow> \<lparr>d_id = DEV_DISPLAY, d_name = ''display'',
         d_open = on_display (display_open (e_board E) (e_splash E)),
         d_read = (\<lambda>buf len s. case on_display (display_read len) s of (r, s') \<Rightarrow> (r, [], s')),
         d_write = (\<lambda>buf len. on_display (display_write buf len)), d_ioctl = display_dev_ioctl E,
         d_close = (\<lambda>s. s\<lparr>dev_display := display_close (dev_display s)\<rparr>)\<rparr>
     | _ \<Rightarrow> \<lparr>d_id = DEV_LED, d_name = ''led'', d_open = on_led (led_open (e_board E)),
         d_read = (\<lambda>buf len s. case on_led (led_read len) s of (r, s') \<Rightarrow> (r, [], s')),
         d_write = (\<lambda>buf len. on_led (led_write (e_board E) buf len)), d_ioctl = led_dev_ioctl E,
         d_close = (\<lambda>s. s\<lparr>dev_led := led_close (e_board E) (dev_led s)\<rparr>)\<rparr>)"

definition dev_get :: "('h, 's) env \<Rightarrow> dev_id \<Rightarrow> (('h, 'a) dev_state_scheme) device_t option" where
  "dev_get E did = (if did = DEV_COUNT then None else Some (devices E did))"

definition dev_open :: "('h, 's) env \<Rightarrow> dev_id \<Rightarrow> ('h, 'a) dev_state_scheme \<Rightarrow> int \<times> ('h, 'a) dev_state_scheme" where
  "dev_open E did s = (case dev_get E did of None \<Rightarrow> (- 1, s) | Some d \<Rightarrow> d_open d s)"

definition dev_read ::
  "('h, 's) env \<Rightarrow> dev_id \<Rightarrow> bool \<Rightarrow> u32 \<Rightarrow> ('h, 'a) dev_state_scheme \<Rightarrow> int \<times> u8 list \<times> ('h, 'a) dev_state_scheme" where
  "dev_read E did buf len s = (case dev_get E did of None \<Rightarrow> (- 1, [], s) | Some d \<Rightarrow> d_read d buf len s)"

definition dev_write ::
  "('h, 's) env \<Rightarrow> dev_id \<Rightarrow> u8 list option \<Rightarrow> u32 \<Rightarrow> ('h, 'a) dev_state_scheme \<Rightarrow> int \<times> ('h, 'a) dev_state_scheme" where
  "dev_write E did buf len s = (case dev_get E did of None \<Rightarrow> (- 1, s) | Some d \<Rightarrow> d_write d buf len s)"

definition dev_ioctl ::
  "('h, 's) env \<Rightarrow> dev_id \<Rightarrow> u32 \<Rightarrow> ioctl_arg \<Rightarrow> ('h, 'a) dev_state_scheme \<Rightarrow> (('h, 'a) dev_state_scheme) ioctl_result" where
  "dev_ioctl E did cmd arg s = (case dev_get E did of None \<Rightarrow> Some (- 1, arg, s) | Some d \<Rightarrow> d_ioctl d cmd arg s)"

definition dev_close :: "('h, 's) env \<Rightarrow> dev_id \<Rightarrow> ('h, 'a) dev_state_scheme \<Rightarrow> ('h, 'a) dev_state_scheme" where
  "dev_close E did s = (case dev_get E did of None \<Rightarrow> s | Some d \<Rightarrow> d_close d s)"

text \<open>The two shell commands registered here are in the shell's table.\<close>

definition dev_init :: "('h, 's) env \<Rightarrow> ('h, 'a) dev_state_scheme \<Rightarrow> ('h, 'a) dev_state_scheme" where
  "dev_init E s = snd (dev_open E DEV_DISPLAY s)"

section \<open>Properties\<close>

text \<open>
  The console input as the SDK documents it: \<open>getchar_timeout_us(0)\<close> takes the oldest pending
  character, or times out when there is none.
\<close>

definition console_input :: "('h, 's) env \<Rightarrow> ('h \<Rightarrow> u8 list) \<Rightarrow> bool" where
  "console_input E pending \<longleftrightarrow> (\<forall>h. case pending h of
       [] \<Rightarrow> fst (getchar_timeout_us E h) = None \<and> pending (snd (getchar_timeout_us E h)) = []
     | c # cs \<Rightarrow> fst (getchar_timeout_us E h) = Some (uint c) \<and> pending (snd (getchar_timeout_us E h)) = cs)"

lemma console_loop_spec:
  assumes "console_input E pending"
  shows "\<exists>h'. console_loop E n got h = (got @ take n (pending h), h') \<and> pending h' = drop n (pending h)"
proof (induction n arbitrary: got h)
  case (Suc n)
  obtain r h1 where g: "getchar_timeout_us E h = (r, h1)" by (cases "getchar_timeout_us E h")
  have i: "case pending h of [] \<Rightarrow> r = None \<and> pending h1 = [] | c # cs \<Rightarrow> r = Some (uint c) \<and> pending h1 = cs"
    using assms g unfolding console_input_def by (metis fst_conv snd_conv)
  show ?case
  proof (cases "pending h")
    case Nil
    with i g show ?thesis by simp
  next
    case (Cons c cs)
    from Suc.IH [of "got @ [c]" h1] Cons i g show ?thesis by simp
  qed
qed simp

text \<open>
  C26. A console read never waits: it returns the oldest \<open>min len\<close> of the pending characters, in
  order, and leaves exactly the rest pending, so consecutive reads deliver the input stream
  without loss or repetition.
\<close>

theorem console_read_stream:
  assumes "console_input E pending" and "0 < len" and "unat len < 2 ^ 31"
  shows "\<exists>s'. dev_read E DEV_CONSOLE True len s =
      (int (min (unat len) (length (pending (sio s)))), take (unat len) (pending (sio s)), s') \<and>
    pending (sio s') = drop (unat len) (pending (sio s)) \<and> s' = s\<lparr>sio := sio s'\<rparr>"
proof -
  obtain h' where h: "console_loop E (unat len) [] (sio s) = (take (unat len) (pending (sio s)), h')"
    "pending h' = drop (unat len) (pending (sio s))"
    using console_loop_spec [OF assms(1), of "unat len" "[]" "sio s"] by auto
  have "sint (word_of_nat n :: u32) = int n" if "n < 2 ^ 31" for n
    using that sint_sbintrunc' [of "int n", where 'a = 32] by (simp add: signed_take_bit_int_eq_self)
  from this [of "min (length (pending (sio s))) (unat len)"] h assms(2,3) show ?thesis
    by (intro exI [of _ "s\<lparr>sio := h'\<rparr>"])
      (auto simp: dev_read_def dev_get_def devices_def console_read_def min.commute)
qed

definition sim_env :: "(u8 list, 's) env" where
  "sim_env = \<lparr>e_sdk = \<lparr>spin_lock_claim_unused = (\<lambda>_. None), spin_lock_claim = (\<lambda>_ _. None),
       spin_lock_init = (\<lambda>n h. (n, h)), spin_lock_is_claimed = (\<lambda>_ _. True), spin_lock_blocking = (\<lambda>_ h. Some (0, h)),
       spin_unlock = (\<lambda>_ _ h. h), spin_unlock_unsafe = (\<lambda>_ h. h), sio_read = (\<lambda>_ h. (1, h)),
       save_and_disable_interrupts = (\<lambda>h. (0, h)), restore_interrupts = (\<lambda>_ h. h)\<rparr>,
     e_board = \<lparr>slice_num = (\<lambda>p. p div 2), pwm_chan = (\<lambda>p. p mod 2), gpio_get = (\<lambda>_. True)\<rparr>,
     e_splash = ''picoOS'',
     getchar_timeout_us = (\<lambda>h. case h of [] \<Rightarrow> (None, []) | c # cs \<Rightarrow> (Some (uint c), cs)),
     tud_task_event_ready = (\<lambda>_. False), unique_board_id = replicate 8 0,
     xip = (\<lambda>_ _. 255), flash_range_erase = (\<lambda>_ _ h. h), flash_range_program = (\<lambda>_ _ h. h),
     flash_safe_execute = (\<lambda>_ f h. (0, f h)), resume = (\<lambda>s. s)\<rparr>"

theorem console_read_stream_witness:
  "\<forall>s :: u8 list dev_state. \<exists>s'. dev_read (sim_env :: (u8 list, nat) env) DEV_CONSOLE True 2 (s\<lparr>sio := [104, 105, 33]\<rparr>) = (2, [104, 105], s') \<and>
     sio s' = [33]"
proof
  fix s :: "u8 list dev_state"
  have "console_input (sim_env :: (u8 list, nat) env) (\<lambda>h. h)"
    by (simp add: console_input_def sim_env_def split: list.split)
  then obtain s' where "dev_read (sim_env :: (u8 list, nat) env) DEV_CONSOLE True 2 (s\<lparr>sio := [104, 105, 33]\<rparr>) =
      (int (min (unat (2 :: u32)) (length [104, 105, 33 :: u8])), take (unat (2 :: u32)) [104, 105, 33], s')"
    "sio s' = drop (unat (2 :: u32)) [104, 105, 33]"
    using console_read_stream [of "sim_env :: (u8 list, nat) env" "\<lambda>h. h" 2 "s\<lparr>sio := [104, 105, 33]\<rparr>"] by auto
  then show "\<exists>s'. dev_read (sim_env :: (u8 list, nat) env) DEV_CONSOLE True 2 (s\<lparr>sio := [104, 105, 33]\<rparr>) =
      (2, [104, 105], s') \<and> sio s' = [33]" by simp
qed

text \<open>
  The timer device delivers the 64-bit microsecond clock: the eight bytes of a read decode,
  little-endian, to exactly the value that the ioctl stores, and a buffer that is \<open>NULL\<close> or
  shorter than eight bytes is refused with nothing written.
\<close>

lemma timer_read_roundtrip:
  "case dev_read E DEV_TIMER buf len s of (rc, bs, s') \<Rightarrow>
     s' = s \<and> (if buf \<and> 8 \<le> len then rc = 8 \<and> length bs = 8 \<and>
       dev_ioctl E DEV_TIMER IOCTL_TIMER_GET_US (ArgU64 x) s = Some (0, ArgU64 (le_word bs), s)
     else rc = - 1 \<and> bs = [])"
  by (auto simp: dev_read_def dev_ioctl_def dev_get_def devices_def timer_read_def timer_ioctl_def
      IOCTL_TIMER_GET_US_def IOCTL_TIMER_GET_TICK_def le_roundtrip)

text \<open>What an operation on another device leaves alone: the display, the LED, the kernel.\<close>

definition dev_frame :: "dev_id \<Rightarrow> ('h, 'a) dev_state_scheme \<Rightarrow> ('h, 'a) dev_state_scheme \<Rightarrow> bool" where
  "dev_frame d s s' \<longleftrightarrow>
     s' = s\<lparr>sio := sio s', dev_hw := dev_hw s', dev_display := dev_display s', dev_led := dev_led s'\<rparr> \<and>
     (d \<noteq> DEV_CONSOLE \<longrightarrow> sio s' = sio s) \<and> (d \<noteq> DEV_CONSOLE \<longrightarrow> d \<noteq> DEV_GPIO \<longrightarrow> dev_hw s' = dev_hw s) \<and>
     (d \<noteq> DEV_DISPLAY \<longrightarrow> dev_display s' = dev_display s) \<and> (d \<noteq> DEV_LED \<longrightarrow> dev_led s' = dev_led s)"

lemma dev_frame_refl: "dev_frame d s s"
  by (simp add: dev_frame_def)

lemma dev_frameI:
  "dev_frame DEV_DISPLAY s (s\<lparr>dev_display := disp\<rparr>)" "dev_frame DEV_LED s (s\<lparr>dev_led := ld\<rparr>)"
  "dev_frame DEV_CONSOLE s (s\<lparr>sio := h\<rparr>)" "dev_frame DEV_CONSOLE s (dev_emit ops s)" "dev_frame DEV_GPIO s (dev_emit ops s)"
  by (simp_all add: dev_frame_def dev_emit_def)

lemma dev_frame_ops:
  "dev_frame d s (snd (dev_open E d s))" "dev_frame d s (snd (snd (dev_read E d buf len s)))"
  "dev_frame d s (snd (dev_write E d bs len s))" "dev_frame d s (dev_close E d s)"
  "case dev_ioctl E d cmd arg s of Some (rc, arg', s') \<Rightarrow> dev_frame d s s' | None \<Rightarrow> True"
proof -
  note defs = dev_get_def devices_def
  show "dev_frame d s (snd (dev_open E d s))"
    by (cases d) (simp_all add: dev_open_def defs console_open_def timer_open_def flash_open_def gpio_open_def
        on_display_def on_led_def split_beta dev_frame_refl dev_frameI)
  show "dev_frame d s (snd (snd (dev_read E d buf len s)))"
    by (cases d) (simp_all add: dev_read_def defs console_read_def timer_read_def flash_read_def gpio_read_def
        on_display_def on_led_def split_beta dev_frame_refl dev_frameI)
  show "dev_frame d s (snd (dev_write E d bs len s))"
    by (cases d) (simp_all add: dev_write_def defs console_write_def timer_write_def flash_write_def gpio_write_def
        on_display_def on_led_def split_beta dev_frame_refl dev_frameI split: option.split)
  show "dev_frame d s (dev_close E d s)"
    by (cases d) (simp_all add: dev_close_def defs console_close_def timer_close_def flash_close_def gpio_close_def
        dev_frame_refl dev_frameI)
  show "case dev_ioctl E d cmd arg s of Some (rc, arg', s') \<Rightarrow> dev_frame d s s' | None \<Rightarrow> True"
    by (cases d) (auto simp: dev_ioctl_def defs console_ioctl_def timer_ioctl_def flash_ioctl_def gpio_ioctl_def
        display_dev_ioctl_def led_dev_ioctl_def dev_frame_refl dev_frameI Let_def
        split: option.split ioctl_arg.split prod.split bind_splits)
qed

text \<open>
  An operation on a device changes no other device and nothing of the kernel's state, and an
  unknown device is refused by every operation without effect.
\<close>

lemma dev_ops_isolated:
  "dev_frame d s (snd (dev_open E d s)) \<and> dev_frame d s (snd (snd (dev_read E d buf len s))) \<and>
   dev_frame d s (snd (dev_write E d bs len s)) \<and> dev_frame d s (dev_close E d s) \<and>
   (case dev_ioctl E d cmd arg s of Some (rc, arg', s') \<Rightarrow> dev_frame d s s' | None \<Rightarrow> True) \<and>
   dev_open E DEV_COUNT s = (- 1, s) \<and> dev_read E DEV_COUNT buf len s = (- 1, [], s) \<and>
   dev_write E DEV_COUNT bs len s = (- 1, s) \<and> dev_ioctl E DEV_COUNT cmd arg s = Some (- 1, arg, s) \<and>
   dev_close E DEV_COUNT s = s"
  by (intro conjI dev_frame_ops)
    (simp_all add: dev_open_def dev_read_def dev_write_def dev_ioctl_def dev_close_def dev_get_def)

end
