(* ===== verification/Fs.thy ===== *)
theory Fs
  imports Dev
begin

text \<open>
  \<open>src/kernel/fs.c\<close>: the flash file system. One superblock sector and one 4 KB data sector per
  file; files are read through the memory-mapped flash and written through one shared sector
  buffer that is committed when the descriptor is closed.

  The flash and the SDK's flash functions are parameters (\<open>env\<close>); a flash address is an offset
  from \<open>XIP_BASE\<close>. Each operation is its guards, then its body between \<open>fs_take_lock\<close> and
  \<open>fs_give_lock\<close>. A name is a C string; \<open>fs_entry_t.name\<close> is the array of 16 characters.
\<close>

section \<open>State\<close>

definition FS_MAX_FILES :: nat where "FS_MAX_FILES = 32"
definition FS_NAME_MAX :: nat where "FS_NAME_MAX = 16"
definition FS_BLOCK_SIZE :: nat where "FS_BLOCK_SIZE = 4096"
definition FS_FLASH_OFFSET :: nat where "FS_FLASH_OFFSET = 1024 * 1024"
definition FS_SUPERBLOCK_MAGIC :: u32 where "FS_SUPERBLOCK_MAGIC = 0x50494353"
definition FS_MAX_FILE_DATA :: nat where "FS_MAX_FILE_DATA = FS_BLOCK_SIZE"
definition FS_MAX_OPEN_FDS :: nat where "FS_MAX_OPEN_FDS = 8"
definition FLASH_PAGE_SIZE :: nat where "FLASH_PAGE_SIZE = 256"

definition VFS_O_RDONLY :: u32 where "VFS_O_RDONLY = 0x01"
definition VFS_O_WRONLY :: u32 where "VFS_O_WRONLY = 0x02"
definition VFS_O_RDWR :: u32 where "VFS_O_RDWR = 0x03"
definition VFS_O_CREAT :: u32 where "VFS_O_CREAT = 0x04"
definition VFS_O_TRUNC :: u32 where "VFS_O_TRUNC = 0x08"
definition VFS_O_APPEND :: u32 where "VFS_O_APPEND = 0x10"

record fs_entry =
  fe_used :: bool
  fe_name :: string
  fe_size :: u32
  fe_start_block :: u32
  fe_block_count :: u32

record fs_superblock =
  sb_magic :: u32
  sb_version :: u32
  sb_file_count :: u32
  sb_files :: "fs_entry list"

record fs_open_fd =
  of_used :: bool
  of_dirty :: bool
  of_file_idx :: nat
  of_pos :: u32
  of_mode :: u32

record 'h fs_state = "'h dev_state" +
  fs_mutex :: kmutex_t
  superblock_ram :: fs_superblock
  fs_buffer :: "u8 list"
  scratch_owner :: "nat option"
  open_fds :: "nat \<Rightarrow> fs_open_fd"

text \<open>\<open>memset(p, 0, sizeof *p)\<close>.\<close>

definition entry_zero :: fs_entry where
  "entry_zero = \<lparr>fe_used = False, fe_name = replicate FS_NAME_MAX CHR 0x00, fe_size = 0, fe_start_block = 0, fe_block_count = 0\<rparr>"

definition sb_zero :: fs_superblock where
  "sb_zero = \<lparr>sb_magic = 0, sb_version = 0, sb_file_count = 0, sb_files = replicate FS_MAX_FILES entry_zero\<rparr>"

definition open_fd_zero :: fs_open_fd where
  "open_fd_zero = \<lparr>of_used = False, of_dirty = False, of_file_idx = 0, of_pos = 0, of_mode = 0\<rparr>"

definition FILE_FLASH_OFFSET :: "nat \<Rightarrow> nat" where
  "FILE_FLASH_OFFSET n = FS_FLASH_OFFSET + (n + 1) * FS_BLOCK_SIZE"

section \<open>The superblock in memory\<close>

text \<open>The bytes of the structures, with the compiler's three bytes of padding after the name.\<close>

definition entry_bytes :: "fs_entry \<Rightarrow> u8 list" where
  "entry_bytes e = [if fe_used e then 1 else 0] @ map (\<lambda>c. word_of_nat (of_char c)) (fe_name e) @ [0, 0, 0] @
     le_bytes 4 (fe_size e) @ le_bytes 4 (fe_start_block e) @ le_bytes 4 (fe_block_count e)"

definition entry_of :: "u8 list \<Rightarrow> fs_entry" where
  "entry_of bs = \<lparr>fe_used = (bs ! 0 \<noteq> 0), fe_name = map (\<lambda>b. char_of (unat b)) (take 16 (drop 1 bs)),
     fe_size = le_word (take 4 (drop 20 bs)), fe_start_block = le_word (take 4 (drop 24 bs)),
     fe_block_count = le_word (take 4 (drop 28 bs))\<rparr>"

definition sb_bytes :: "fs_superblock \<Rightarrow> u8 list" where
  "sb_bytes sb = le_bytes 4 (sb_magic sb) @ le_bytes 4 (sb_version sb) @ le_bytes 4 (sb_file_count sb) @
     concat (map entry_bytes (sb_files sb))"

definition sb_of :: "u8 list \<Rightarrow> fs_superblock" where
  "sb_of bs = \<lparr>sb_magic = le_word (take 4 bs), sb_version = le_word (take 4 (drop 4 bs)),
     sb_file_count = le_word (take 4 (drop 8 bs)),
     sb_files = map (\<lambda>i. entry_of (take 32 (drop (12 + 32 * i) bs))) [0..<FS_MAX_FILES]\<rparr>"

definition SB_SIZE :: nat where "SB_SIZE = 12 + 32 * FS_MAX_FILES"

definition SUPERBLOCK_PROG_SIZE :: nat where
  "SUPERBLOCK_PROG_SIZE = (SB_SIZE + FLASH_PAGE_SIZE - 1) div FLASH_PAGE_SIZE * FLASH_PAGE_SIZE"

text \<open>\<open>superblock_store.pages\<close>: the mirror padded to whole pages.\<close>

definition sb_pages :: "fs_superblock \<Rightarrow> u8 list" where
  "sb_pages sb = sb_bytes sb @ replicate (SUPERBLOCK_PROG_SIZE - SB_SIZE) 0"

definition flash_bytes :: "('h, 's) env \<Rightarrow> 'h \<Rightarrow> nat \<Rightarrow> nat \<Rightarrow> u8 list" where
  "flash_bytes E h off n = map (\<lambda>i. xip E h (off + i)) [0..<n]"

section \<open>Locking and flash operations\<close>

definition fs_take_lock ::
  "('h, ('h, 'a) fs_state_scheme) env \<Rightarrow> ('h, 'a) fs_state_scheme \<Rightarrow> ('h, 'a) fs_state_scheme option" where
  "fs_take_lock E s = (if CURRENT_TCB s \<noteq> None then mutex_lock E fs_mutex (\<lambda>m s. s\<lparr>fs_mutex := m\<rparr>) s else Some s)"

definition fs_give_lock ::
  "('h, ('h, 'a) fs_state_scheme) env \<Rightarrow> ('h, 'a) fs_state_scheme \<Rightarrow> ('h, 'a) fs_state_scheme option" where
  "fs_give_lock E s = (if CURRENT_TCB s \<noteq> None then mutex_unlock E fs_mutex (\<lambda>m s. s\<lparr>fs_mutex := m\<rparr>) s else Some s)"

text \<open>A body run between the two.\<close>

definition fs_locked ::
  "('h, ('h, 'a) fs_state_scheme) env \<Rightarrow> (('h, 'a) fs_state_scheme \<Rightarrow> ('r \<times> ('h, 'a) fs_state_scheme) option) \<Rightarrow>
     ('h, 'a) fs_state_scheme \<Rightarrow> ('r \<times> ('h, 'a) fs_state_scheme) option" where
  "fs_locked E body s = do {
     s1 \<leftarrow> fs_take_lock E s;
     (r, s2) \<leftarrow> body s1;
     s3 \<leftarrow> fs_give_lock E s2;
     Some (r, s3)
   }"

text \<open>\<open>while (get_core_num() != 0u) sched_yield();\<close>\<close>

partial_function (option) pin_core0 ::
  "('h, ('h, 'a) fs_state_scheme) env \<Rightarrow> ('h, 'a) fs_state_scheme \<Rightarrow> ('h, 'a) fs_state_scheme option" where
  "pin_core0 E s = (if core_num s \<noteq> 0 then pin_core0 E (resume E (sched_yield (core_num s) s)) else Some s)"

definition dec_int :: "int \<Rightarrow> string" where
  "dec_int i = (if i < 0 then [CHR 0x2D] @ dec (nat (- i)) else dec (nat i))"

definition fs_printf :: "string \<Rightarrow> ('h, 'a) fs_state_scheme \<Rightarrow> ('h, 'a) fs_state_scheme" where
  "fs_printf msg s = dev_emit [Printf (msg @ crlf)] s"

definition fs_flash_safe ::
  "('h, ('h, 'a) fs_state_scheme) env \<Rightarrow> ('h \<Rightarrow> 'h) \<Rightarrow> ('h, 'a) fs_state_scheme \<Rightarrow>
     (int \<times> ('h, 'a) fs_state_scheme) option" where
  "fs_flash_safe E fn s = do {
     let self = CURRENT_TCB s;
     let saved = (case self of None \<Rightarrow> THREAD_AFFINITY_ANY | Some t \<Rightarrow> t_affinity (tcb_pool s t));
     s1 \<leftarrow> (case self of
         None \<Rightarrow> Some s
       | Some t \<Rightarrow> pin_core0 E (upd_tcb t (\<lambda>b. b\<lparr>t_affinity := THREAD_AFFINITY_C0\<rparr>) s));
     let (rc, h) = flash_safe_execute E (core_num s1) fn (sio s1);
     let s2 = s1\<lparr>sio := h\<rparr>;
     let s3 = (case self of None \<Rightarrow> s2 | Some t \<Rightarrow> upd_tcb t (\<lambda>b. b\<lparr>t_affinity := saved\<rparr>) s2);
     Some (rc, if rc \<noteq> 0 then fs_printf (''[fs] flash operation failed (rc '' @ dec_int rc @ '')'') s3 else s3)
   }"

definition flash_erase_sector ::
  "('h, ('h, 'a) fs_state_scheme) env \<Rightarrow> nat \<Rightarrow> ('h, 'a) fs_state_scheme \<Rightarrow> (int \<times> ('h, 'a) fs_state_scheme) option" where
  "flash_erase_sector E off s = fs_flash_safe E (flash_range_erase E off FS_BLOCK_SIZE) s"

definition flash_program_sector ::
  "('h, ('h, 'a) fs_state_scheme) env \<Rightarrow> nat \<Rightarrow> u8 list \<Rightarrow> ('h, 'a) fs_state_scheme \<Rightarrow>
     (int \<times> ('h, 'a) fs_state_scheme) option" where
  "flash_program_sector E off src s = fs_flash_safe E (flash_range_program E off (take FS_BLOCK_SIZE src)) s"

definition superblock_flush ::
  "('h, ('h, 'a) fs_state_scheme) env \<Rightarrow> ('h, 'a) fs_state_scheme \<Rightarrow> (int \<times> ('h, 'a) fs_state_scheme) option" where
  "superblock_flush E s = do {
     (rc, s1) \<leftarrow> flash_erase_sector E FS_FLASH_OFFSET s;
     if rc \<noteq> 0 then Some (- 1, s1)
     else do {
       (rc2, s2) \<leftarrow> fs_flash_safe E (flash_range_program E FS_FLASH_OFFSET (sb_pages (superblock_ram s1))) s1;
       Some (if rc2 \<noteq> 0 then - 1 else 0, s2)
     }
   }"

section \<open>Lookup\<close>

definition find_file :: "string \<Rightarrow> ('h, 'a) fs_state_scheme \<Rightarrow> nat option" where
  "find_file name s = first_slot (\<lambda>i. fe_used (sb_files (superblock_ram s) ! i) \<and>
     strncmp_eq FS_NAME_MAX (fe_name (sb_files (superblock_ram s) ! i)) name) FS_MAX_FILES"

definition alloc_file_entry :: "('h, 'a) fs_state_scheme \<Rightarrow> nat option" where
  "alloc_file_entry s = first_slot (\<lambda>i. \<not> fe_used (sb_files (superblock_ram s) ! i)) FS_MAX_FILES"

definition alloc_open_fd :: "('h, 'a) fs_state_scheme \<Rightarrow> nat option" where
  "alloc_open_fd s = first_slot (\<lambda>i. \<not> of_used (open_fds s i)) FS_MAX_OPEN_FDS"

definition upd_entry :: "nat \<Rightarrow> (fs_entry \<Rightarrow> fs_entry) \<Rightarrow> ('h, 'a) fs_state_scheme \<Rightarrow> ('h, 'a) fs_state_scheme" where
  "upd_entry i f s = s\<lparr>superblock_ram := (superblock_ram s)
     \<lparr>sb_files := (sb_files (superblock_ram s))[i := f (sb_files (superblock_ram s) ! i)]\<rparr>\<rparr>"

definition upd_fd :: "nat \<Rightarrow> (fs_open_fd \<Rightarrow> fs_open_fd) \<Rightarrow> ('h, 'a) fs_state_scheme \<Rightarrow> ('h, 'a) fs_state_scheme" where
  "upd_fd i f s = s\<lparr>open_fds := (open_fds s)(i := f (open_fds s i))\<rparr>"

text \<open>\<open>strncpy(dst, src, n - 1); dst[n - 1] = 0;\<close>: the whole array.\<close>

definition name_array :: "nat \<Rightarrow> string \<Rightarrow> string" where
  "name_array n src = strncpy_z n src @ replicate (n - length (strncpy_z n src)) CHR 0x00"

definition strip_slash :: "string \<Rightarrow> string" where
  "strip_slash name = (if cstr name \<noteq> [] \<and> hd (cstr name) = CHR 0x2F then tl (cstr name) else cstr name)"

section \<open>Operations\<close>

primrec erase_loop ::
  "('h, ('h, 'a) fs_state_scheme) env \<Rightarrow> nat list \<Rightarrow> ('h, 'a) fs_state_scheme \<Rightarrow> ('h, 'a) fs_state_scheme option" where
  "erase_loop E [] s = Some s"
| "erase_loop E (i # is) s =
     Option.bind (flash_erase_sector E (FS_FLASH_OFFSET + i * FS_BLOCK_SIZE) s) (\<lambda>(rc, s1). erase_loop E is s1)"

definition fs_format_body ::
  "('h, ('h, 'a) fs_state_scheme) env \<Rightarrow> ('h, 'a) fs_state_scheme \<Rightarrow> (unit \<times> ('h, 'a) fs_state_scheme) option" where
  "fs_format_body E s = do {
     let s1 = s\<lparr>open_fds := (\<lambda>i. if i < FS_MAX_OPEN_FDS then (open_fds s i)\<lparr>of_used := False, of_dirty := False\<rparr> else open_fds s i),
                scratch_owner := None\<rparr>;
     s2 \<leftarrow> erase_loop E [0..<1 + FS_MAX_FILES] s1;
     let s3 = s2\<lparr>superblock_ram := sb_zero\<lparr>sb_magic := FS_SUPERBLOCK_MAGIC, sb_version := 1, sb_file_count := 0\<rparr>\<rparr>;
     (rc, s4) \<leftarrow> superblock_flush E s3;
     Some ((), fs_printf ''[fs] format complete'' s4)
   }"

definition fs_format ::
  "('h, ('h, 'a) fs_state_scheme) env \<Rightarrow> ('h, 'a) fs_state_scheme \<Rightarrow> (unit \<times> ('h, 'a) fs_state_scheme) option" where
  "fs_format E = fs_locked E (fs_format_body E)"

definition fs_init ::
  "('h, ('h, 'a) fs_state_scheme) env \<Rightarrow> (nat \<Rightarrow> spinlock_t) \<Rightarrow> nat \<Rightarrow> ('h, 'a) fs_state_scheme \<Rightarrow>
     (unit \<times> ('h, 'a) fs_state_scheme) option" where
  "fs_init E pool addr s = (let
     s1 = s\<lparr>fs_mutex := kmutex_init pool addr, open_fds := (\<lambda>_. open_fd_zero), scratch_owner := None\<rparr>;
     flash_sb = sb_of (flash_bytes E (sio s1) FS_FLASH_OFFSET SB_SIZE)
   in if sb_magic flash_sb = FS_SUPERBLOCK_MAGIC \<and> sb_version flash_sb = 1 then
        Some ((), fs_printf (''[fs] mounted: '' @ dec (unat (sb_file_count flash_sb)) @ '' file(s) found'')
          (s1\<lparr>superblock_ram := flash_sb\<rparr>))
      else fs_format E (fs_printf ''[fs] no valid FS found, formatting flash...'' s1))"

text \<open>The creation of a directory entry.\<close>

definition new_entry :: "nat \<Rightarrow> string \<Rightarrow> fs_entry" where
  "new_entry i name = \<lparr>fe_used = True, fe_name = name_array FS_NAME_MAX name, fe_size = 0,
     fe_start_block = word_of_nat i, fe_block_count = 1\<rparr>"

definition fs_create ::
  "('h, ('h, 'a) fs_state_scheme) env \<Rightarrow> string \<Rightarrow> ('h, 'a) fs_state_scheme \<Rightarrow>
     (nat option \<times> ('h, 'a) fs_state_scheme) option" where
  "fs_create E name s = (case alloc_file_entry s of
       None \<Rightarrow> Some (None, s)
     | Some i \<Rightarrow> do {
         let s1 = upd_entry i (\<lambda>_. new_entry i name) s;
         let s2 = s1\<lparr>superblock_ram := (superblock_ram s1)\<lparr>sb_file_count := sb_file_count (superblock_ram s1) + 1\<rparr>\<rparr>;
         (rc, s3) \<leftarrow> superblock_flush E s2;
         Some (Some i, s3)
       })"

text \<open>A writer takes the sector buffer, blank or with the file's present contents.\<close>

definition claim_buffer ::
  "('h, ('h, 'a) fs_state_scheme) env \<Rightarrow> nat \<Rightarrow> u32 \<Rightarrow> ('h, 'a) fs_state_scheme \<Rightarrow> ('h, 'a) fs_state_scheme" where
  "claim_buffer E i mode s =
     (if and mode VFS_O_TRUNC \<noteq> 0 then
        upd_entry i (\<lambda>e. e\<lparr>fe_size := 0\<rparr>) (s\<lparr>scratch_owner := Some i, fs_buffer := replicate FS_BLOCK_SIZE 0\<rparr>)
      else s\<lparr>scratch_owner := Some i, fs_buffer := flash_bytes E (sio s) (FILE_FLASH_OFFSET i) FS_BLOCK_SIZE\<rparr>)"

text \<open>From the lookup on: claim the buffer, then a descriptor. The result is \<open>fd\<close>, or -1.\<close>

definition fs_open_file ::
  "('h, ('h, 'a) fs_state_scheme) env \<Rightarrow> nat \<Rightarrow> u32 \<Rightarrow> ('h, 'a) fs_state_scheme \<Rightarrow> int \<times> ('h, 'a) fs_state_scheme" where
  "fs_open_file E i mode s = (let writing = (and mode VFS_O_WRONLY \<noteq> 0)
   in if writing \<and> scratch_owner s \<noteq> None then (- 1, s)
      else let
        s1 = (if writing then claim_buffer E i mode s else s)
        in case alloc_open_fd s1 of
             None \<Rightarrow> (- 1, if writing then s1\<lparr>scratch_owner := None\<rparr> else s1)
           | Some fd \<Rightarrow>
               let pos = (if writing \<and> and mode VFS_O_APPEND \<noteq> 0 then fe_size (sb_files (superblock_ram s1) ! i) else 0)
               in (int fd, upd_fd fd (\<lambda>_. \<lparr>of_used = True, of_dirty = False, of_file_idx = i, of_pos = pos, of_mode = mode\<rparr>) s1))"

definition fs_open_body ::
  "('h, ('h, 'a) fs_state_scheme) env \<Rightarrow> string \<Rightarrow> u32 \<Rightarrow> ('h, 'a) fs_state_scheme \<Rightarrow>
     (int \<times> ('h, 'a) fs_state_scheme) option" where
  "fs_open_body E name0 mode s = (let name = strip_slash name0
   in case find_file name s of
        Some i \<Rightarrow> Some (fs_open_file E i mode s)
      | None \<Rightarrow>
          if and mode VFS_O_CREAT = 0 then Some (- 1, s)
          else do {
            (r, s1) \<leftarrow> fs_create E name s;
            case r of None \<Rightarrow> Some (- 1, s1) | Some i \<Rightarrow> Some (fs_open_file E i mode s1)
          })"

definition fs_open ::
  "('h, ('h, 'a) fs_state_scheme) env \<Rightarrow> string option \<Rightarrow> u32 \<Rightarrow> ('h, 'a) fs_state_scheme \<Rightarrow>
     (int \<times> ('h, 'a) fs_state_scheme) option" where
  "fs_open E name mode s = (case name of None \<Rightarrow> Some (- 1, s) | Some n \<Rightarrow> fs_locked E (fs_open_body E n mode) s)"

definition bad_fd :: "int \<Rightarrow> ('h, 'a) fs_state_scheme \<Rightarrow> bool" where
  "bad_fd fd s \<longleftrightarrow> fd < 0 \<or> int FS_MAX_OPEN_FDS \<le> fd \<or> \<not> of_used (open_fds s (nat fd))"

definition fs_read_body ::
  "('h, ('h, 'a) fs_state_scheme) env \<Rightarrow> nat \<Rightarrow> u32 \<Rightarrow> ('h, 'a) fs_state_scheme \<Rightarrow>
     ((int \<times> u8 list) \<times> ('h, 'a) fs_state_scheme) option" where
  "fs_read_body E fd n s = (let
     ofd = open_fds s fd;
     entry = sb_files (superblock_ram s) ! of_file_idx ofd;
     available = (if of_pos ofd < fe_size entry then fe_size entry - of_pos ofd else 0);
     to_read = (if n < available then n else available)
   in if 0 < to_read then
        let bytes = (if scratch_owner s = Some (of_file_idx ofd) \<and> of_dirty ofd
              then take (unat to_read) (drop (unat (of_pos ofd)) (fs_buffer s))
              else flash_bytes E (sio s) (FILE_FLASH_OFFSET (of_file_idx ofd) + unat (of_pos ofd)) (unat to_read))
        in Some ((sint to_read, bytes), upd_fd fd (\<lambda>f. f\<lparr>of_pos := of_pos f + to_read\<rparr>) s)
      else Some ((0, []), s))"

definition fs_read ::
  "('h, ('h, 'a) fs_state_scheme) env \<Rightarrow> int \<Rightarrow> bool \<Rightarrow> u32 \<Rightarrow> ('h, 'a) fs_state_scheme \<Rightarrow>
     ((int \<times> u8 list) \<times> ('h, 'a) fs_state_scheme) option" where
  "fs_read E fd buf n s =
     (if bad_fd fd s then Some ((- 1, []), s)
      else if \<not> buf \<or> n = 0 then Some ((0, []), s)
      else fs_locked E (fs_read_body E (nat fd) n) s)"

definition fs_write_body ::
  "nat \<Rightarrow> u8 list \<Rightarrow> u32 \<Rightarrow> ('h, 'a) fs_state_scheme \<Rightarrow> (int \<times> ('h, 'a) fs_state_scheme) option" where
  "fs_write_body fd buf n s = (let
     ofd = open_fds s fd;
     entry = sb_files (superblock_ram s) ! of_file_idx ofd
   in if and (of_mode ofd) VFS_O_WRONLY \<noteq> 0 then
        let capacity = word_of_nat FS_MAX_FILE_DATA :: u32;
            remaining = (if of_pos ofd < capacity then capacity - of_pos ofd else 0);
            to_write = (if n < remaining then n else remaining)
        in if 0 < to_write then
             let pos = unat (of_pos ofd);
                 s1 = s\<lparr>fs_buffer := take pos (fs_buffer s) @ take (unat to_write) buf @ drop (pos + unat to_write) (fs_buffer s)\<rparr>;
                 s2 = upd_fd fd (\<lambda>f. f\<lparr>of_pos := of_pos f + to_write, of_dirty := True\<rparr>) s1;
                 s3 = (if fe_size entry < of_pos ofd + to_write
                   then upd_entry (of_file_idx ofd) (\<lambda>e. e\<lparr>fe_size := of_pos ofd + to_write\<rparr>) s2 else s2)
             in Some (sint to_write, s3)
           else Some (- 1, s)
      else Some (- 1, s))"

definition fs_write ::
  "('h, ('h, 'a) fs_state_scheme) env \<Rightarrow> int \<Rightarrow> u8 list option \<Rightarrow> u32 \<Rightarrow> ('h, 'a) fs_state_scheme \<Rightarrow>
     (int \<times> ('h, 'a) fs_state_scheme) option" where
  "fs_write E fd buf n s =
     (if bad_fd fd s then Some (- 1, s)
      else case buf of
          None \<Rightarrow> Some (0, s)
        | Some bs \<Rightarrow> if n = 0 then Some (0, s) else fs_locked E (fs_write_body (nat fd) bs n) s)"

text \<open>The commit of a dirty descriptor: data sector, then superblock.\<close>

definition fs_commit ::
  "('h, ('h, 'a) fs_state_scheme) env \<Rightarrow> nat \<Rightarrow> ('h, 'a) fs_state_scheme \<Rightarrow> (int \<times> ('h, 'a) fs_state_scheme) option" where
  "fs_commit E i s = do {
     (rc1, s1) \<leftarrow> flash_erase_sector E (FILE_FLASH_OFFSET i) s;
     (rc2, s2) \<leftarrow> (if rc1 \<noteq> 0 then Some (- 1, s1)
       else do {
         (rc2, s2) \<leftarrow> flash_program_sector E (FILE_FLASH_OFFSET i) (fs_buffer s1) s1;
         Some (if rc2 \<noteq> 0 then - 1 else 0, s2)
       });
     let s3 = s2\<lparr>scratch_owner := None\<rparr>;
     if rc2 = 0 then do {
       (rc3, s4) \<leftarrow> superblock_flush E s3;
       Some (if rc3 \<noteq> 0 then - 1 else 0, s4)
     } else Some (rc2, s3)
   }"

definition fs_close_body ::
  "('h, ('h, 'a) fs_state_scheme) env \<Rightarrow> nat \<Rightarrow> ('h, 'a) fs_state_scheme \<Rightarrow> (int \<times> ('h, 'a) fs_state_scheme) option" where
  "fs_close_body E fd s = do {
     (rc, s1) \<leftarrow> (if of_dirty (open_fds s fd) then fs_commit E (of_file_idx (open_fds s fd)) s else Some (0, s));
     let ofd = open_fds s1 fd;
     let s2 = (if and (of_mode ofd) VFS_O_WRONLY \<noteq> 0 \<and> scratch_owner s1 = Some (of_file_idx ofd)
       then s1\<lparr>scratch_owner := None\<rparr> else s1);
     Some (rc, upd_fd fd (\<lambda>f. f\<lparr>of_used := False, of_dirty := False\<rparr>) s2)
   }"

definition fs_close ::
  "('h, ('h, 'a) fs_state_scheme) env \<Rightarrow> int \<Rightarrow> ('h, 'a) fs_state_scheme \<Rightarrow> (int \<times> ('h, 'a) fs_state_scheme) option" where
  "fs_close E fd s = (if bad_fd fd s then Some (- 1, s) else fs_locked E (fs_close_body E (nat fd)) s)"

definition fs_delete_body ::
  "('h, ('h, 'a) fs_state_scheme) env \<Rightarrow> string \<Rightarrow> ('h, 'a) fs_state_scheme \<Rightarrow> (int \<times> ('h, 'a) fs_state_scheme) option" where
  "fs_delete_body E name s = (case find_file name s of
       None \<Rightarrow> Some (- 1, s)
     | Some i \<Rightarrow> do {
         let s1 = s\<lparr>open_fds := (\<lambda>k. if k < FS_MAX_OPEN_FDS \<and> of_used (open_fds s k) \<and> of_file_idx (open_fds s k) = i
           then (open_fds s k)\<lparr>of_used := False, of_dirty := False\<rparr> else open_fds s k)\<rparr>;
         let s2 = (if scratch_owner s1 = Some i then s1\<lparr>scratch_owner := None\<rparr> else s1);
         let s3 = upd_entry i (\<lambda>_. entry_zero) s2;
         let s4 = (if 0 < sb_file_count (superblock_ram s3)
           then s3\<lparr>superblock_ram := (superblock_ram s3)\<lparr>sb_file_count := sb_file_count (superblock_ram s3) - 1\<rparr>\<rparr> else s3);
         (rc, s5) \<leftarrow> flash_erase_sector E (FILE_FLASH_OFFSET i) s4;
         if rc \<noteq> 0 then Some (- 1, s5)
         else do {
           (rc2, s6) \<leftarrow> superblock_flush E s5;
           Some (if rc2 \<noteq> 0 then - 1 else 0, s6)
         }
       })"

definition fs_delete ::
  "('h, ('h, 'a) fs_state_scheme) env \<Rightarrow> string option \<Rightarrow> ('h, 'a) fs_state_scheme \<Rightarrow>
     (int \<times> ('h, 'a) fs_state_scheme) option" where
  "fs_delete E name s = (case name of
       None \<Rightarrow> Some (- 1, s)
     | Some n \<Rightarrow> fs_locked E (fs_delete_body E (strip_slash n)) s)"

text \<open>The callback acts on a state of its own (\<open>'c\<close>); a non-zero result stops the listing.\<close>

primrec list_loop :: "(fs_entry \<Rightarrow> 'c \<Rightarrow> int \<times> 'c) \<Rightarrow> fs_entry list \<Rightarrow> 'c \<Rightarrow> 'c" where
  "list_loop callback [] c = c"
| "list_loop callback (e # es) c =
     (if fe_used e then (case callback e c of (rc, c') \<Rightarrow> if rc \<noteq> 0 then c' else list_loop callback es c')
      else list_loop callback es c)"

definition fs_list ::
  "('h, ('h, 'a) fs_state_scheme) env \<Rightarrow> (fs_entry \<Rightarrow> 'c \<Rightarrow> int \<times> 'c) option \<Rightarrow> 'c \<Rightarrow> ('h, 'a) fs_state_scheme \<Rightarrow>
     ('c \<times> ('h, 'a) fs_state_scheme) option" where
  "fs_list E callback c s = (case callback of
       None \<Rightarrow> Some (c, s)
     | Some f \<Rightarrow> fs_locked E (\<lambda>s. Some (list_loop f (take FS_MAX_FILES (sb_files (superblock_ram s))) c, s)) s)"

section \<open>The superblock survives the flash\<close>

definition sb_wf :: "fs_superblock \<Rightarrow> bool" where
  "sb_wf sb \<longleftrightarrow> length (sb_files sb) = FS_MAX_FILES \<and> (\<forall>e \<in> set (sb_files sb). length (fe_name e) = 16)"

lemma length_entry_bytes: "length (fe_name e) = 16 \<Longrightarrow> length (entry_bytes e) = 32"
  by (simp add: entry_bytes_def)

lemma char_byte: "char_of (unat (word_of_nat (of_char c) :: u8)) = c"
proof -
  have "(of_char c :: nat) < 256" by (simp add: of_char_def nat_of_char_less_256)
  then show ?thesis by (simp add: unat_of_nat take_bit_nat_eq_self)
qed

lemma entry_roundtrip: "length (fe_name e) = 16 \<Longrightarrow> entry_of (entry_bytes e) = e"
  by (cases e) (simp add: entry_of_def entry_bytes_def le_roundtrip comp_def char_byte)

lemma concat_slice:
  assumes "\<And>x. x \<in> set xs \<Longrightarrow> length (f x) = k" and "i < length xs"
  shows "take k (drop (k * i) (concat (map f xs))) = f (xs ! i)"
  using assms
proof (induction xs arbitrary: i)
  case (Cons x xs)
  then have l: "length (f x) = k" by simp
  show ?case
  proof (cases i)
    case (Suc j)
    then show ?thesis using Cons l by simp
  qed (use l in simp)
qed simp

lemma length_concat_const: "(\<And>x. x \<in> set xs \<Longrightarrow> length (f x) = k) \<Longrightarrow> length (concat (map f xs)) = k * length xs"
  by (induction xs) simp_all

lemma length_sb_bytes: "sb_wf sb \<Longrightarrow> length (sb_bytes sb) = SB_SIZE"
  by (simp add: sb_bytes_def SB_SIZE_def sb_wf_def length_concat_const [of _ _ 32] length_entry_bytes)

lemma sb_roundtrip:
  assumes "sb_wf sb"
  shows "sb_of (sb_bytes sb @ xs) = sb"
proof -
  have n: "length (sb_files sb) = FS_MAX_FILES" and e: "\<And>x. x \<in> set (sb_files sb) \<Longrightarrow> length (entry_bytes x) = 32"
    using assms by (auto simp: sb_wf_def length_entry_bytes)
  have lc: "length (concat (map entry_bytes (sb_files sb))) = 32 * FS_MAX_FILES"
    using length_concat_const [of "sb_files sb" entry_bytes 32, OF e] n by simp
  have "entry_of (take 32 (drop (12 + 32 * i) (sb_bytes sb @ xs))) = sb_files sb ! i" if "i < FS_MAX_FILES" for i
  proof -
    have "32 * i + 32 \<le> 32 * FS_MAX_FILES" using that by simp
    then have "take 32 (drop (12 + 32 * i) (sb_bytes sb @ xs)) =
        take 32 (drop (32 * i) (concat (map entry_bytes (sb_files sb))))"
      using lc by (simp add: sb_bytes_def)
    also have "\<dots> = entry_bytes (sb_files sb ! i)"
      by (rule concat_slice [OF e]) (use that n in simp_all)
    finally show ?thesis using assms that n by (auto simp: sb_wf_def entry_roundtrip)
  qed
  then have "map (\<lambda>i. entry_of (take 32 (drop (12 + 32 * i) (sb_bytes sb @ xs)))) [0..<FS_MAX_FILES] = sb_files sb"
    by (intro nth_equalityI) (simp_all add: n)
  then show ?thesis
    by (cases sb) (simp add: sb_of_def, simp add: sb_bytes_def le_roundtrip)
qed

section \<open>Flash operations\<close>

text \<open>
  The flash as its documentation has it: erasing a range sets its bytes to \<open>0xFF\<close>, programming
  can only clear bits, and \<open>flash_safe_execute\<close> on core 0 runs the function and returns
  \<open>PICO_OK\<close>, or runs nothing.
\<close>

definition flash_ok :: "('h, 's) env \<Rightarrow> bool" where
  "flash_ok E \<longleftrightarrow>
     (\<forall>off n h. xip E (flash_range_erase E off n h) = (\<lambda>a. if off \<le> a \<and> a < off + n then 255 else xip E h a)) \<and>
     (\<forall>off bs h. xip E (flash_range_program E off bs h) =
        (\<lambda>a. if off \<le> a \<and> a < off + length bs then and (xip E h a) (bs ! (a - off)) else xip E h a)) \<and>
     (\<forall>f h. (fst (flash_safe_execute E 0 f h) = 0 \<and> xip E (snd (flash_safe_execute E 0 f h)) = xip E (f h)) \<or>
        (fst (flash_safe_execute E 0 f h) \<noteq> 0 \<and> xip E (snd (flash_safe_execute E 0 f h)) = xip E h))"

definition flash_works :: "('h, 's) env \<Rightarrow> bool" where
  "flash_works E \<longleftrightarrow> flash_ok E \<and> (\<forall>f h. fst (flash_safe_execute E 0 f h) = 0)"

text \<open>The part of the state that \<open>fs_mutex\<close> protects, and the flash.\<close>

definition fs_same :: "('h, ('h, 'a) fs_state_scheme) env \<Rightarrow> ('h, 'a) fs_state_scheme \<Rightarrow> ('h, 'a) fs_state_scheme \<Rightarrow> bool" where
  "fs_same E s s' \<longleftrightarrow> superblock_ram s' = superblock_ram s \<and> fs_buffer s' = fs_buffer s \<and>
     scratch_owner s' = scratch_owner s \<and> open_fds s' = open_fds s \<and> xip E (sio s') = xip E (sio s)"

text \<open>
  What holds when a thread that yielded runs again: threads that do not hold \<open>fs_mutex\<close> have
  left the file system alone, the thread is current on its core, and if it is pinned to core 0
  that is the core (\<open>sched_next_thread\<close> selects by affinity).
\<close>

definition resume_ok :: "('h, ('h, 'a) fs_state_scheme) env \<Rightarrow> bool" where
  "resume_ok E \<longleftrightarrow> (\<forall>s. fs_same E s (resume E s)) \<and>
     (\<forall>s t. CURRENT_TCB s = Some t \<longrightarrow> t_affinity (tcb_pool s t) = THREAD_AFFINITY_C0 \<longrightarrow>
        core_num (resume E s) = 0 \<and> CURRENT_TCB (resume E s) = Some t)"

lemma fs_same_refl [simp]: "fs_same E s s"
  by (simp add: fs_same_def)

lemma fs_same_trans: "fs_same E s s' \<Longrightarrow> fs_same E s' s'' \<Longrightarrow> fs_same E s s''"
  by (simp add: fs_same_def)

lemma fs_same_upd_tcb [simp]: "fs_same E s (upd_tcb t f s') \<longleftrightarrow> fs_same E s s'"
  by (simp add: fs_same_def upd_tcb_def)

lemma yield_fields:
  fixes s :: "('h, 'a) fs_state_scheme"
  shows "fs_same E s (sched_yield c s)" "CURRENT_TCB (sched_yield c s) = CURRENT_TCB s" "tcb_pool (sched_yield c s) = tcb_pool s"
  by (simp_all add: sched_yield_def fs_same_def CURRENT_TCB_def)

lemma fs_same_printf [simp]: "fs_same E s (fs_printf msg s') \<longleftrightarrow> fs_same E s s'"
  by (simp add: fs_same_def fs_printf_def dev_emit_def)

lemma pin_core0_spec:
  assumes "resume_ok E" and "CURRENT_TCB s = Some t" "t_affinity (tcb_pool s t) = THREAD_AFFINITY_C0"
  obtains s' where "pin_core0 E s = Some s'" "fs_same E s s'" "core_num s' = 0" "CURRENT_TCB s' = Some t"
proof (cases "core_num s = 0")
  case True
  then have "pin_core0 E s = Some s" by (simp add: pin_core0.simps)
  then show ?thesis using that True assms(2) by simp
next
  case False
  let ?s = "resume E (sched_yield (core_num s) s)"
  have "CURRENT_TCB (sched_yield (core_num s) s) = Some t"
    "t_affinity (tcb_pool (sched_yield (core_num s) s) t) = THREAD_AFFINITY_C0"
    using assms(2,3) by (simp_all add: yield_fields)
  then have r: "core_num ?s = 0" "CURRENT_TCB ?s = Some t" "fs_same E (sched_yield (core_num s) s) ?s"
    using assms(1) unfolding resume_ok_def by blast+
  have "pin_core0 E s = Some ?s" using False r(1) by (simp add: pin_core0.simps [of E s] pin_core0.simps [of E ?s])
  then show ?thesis using that r yield_fields(1) [of E s] by (blast intro: fs_same_trans)
qed

text \<open>
  A flash operation runs on core 0 whichever core the caller is on, always returns, and changes
  nothing but the flash; \<open>g\<close> is its effect there.
\<close>

lemma flash_safe_spec:
  fixes s :: "('h, 'a) fs_state_scheme"
  assumes "flash_ok E" "resume_ok E" and g: "\<And>h. xip E (f h) = g (xip E h)"
    and core: "CURRENT_TCB s = None \<Longrightarrow> core_num s = 0"
  obtains rc s' where "fs_flash_safe E f s = Some (rc, s')" "core_num s' = 0" "CURRENT_TCB s' = CURRENT_TCB s"
    "superblock_ram s' = superblock_ram s" "fs_buffer s' = fs_buffer s" "scratch_owner s' = scratch_owner s"
    "open_fds s' = open_fds s" "xip E (sio s') = (if rc = 0 then g (xip E (sio s)) else xip E (sio s))"
    "flash_works E \<Longrightarrow> rc = 0"
proof -
  have exec: "xip E (snd (flash_safe_execute E 0 f h)) =
      (if fst (flash_safe_execute E 0 f h) = 0 then g (xip E h) else xip E h)" for h
    using assms(1) g unfolding flash_ok_def by metis
  show thesis
  proof (cases "CURRENT_TCB s")
    case None
    let ?r = "flash_safe_execute E 0 f (sio s)"
    define s2 where "s2 = s\<lparr>sio := snd ?r\<rparr>"
    define m where "m = ''[fs] flash operation failed (rc '' @ dec_int (fst ?r) @ '')''"
    have eq: "fs_flash_safe E f s = Some (fst ?r, if fst ?r \<noteq> 0 then fs_printf m s2 else s2)"
      using None core by (simp add: fs_flash_safe_def split_beta Let_def s2_def m_def)
    show ?thesis
      by (rule that [OF eq])
        (use None core exec [of "sio s"] in \<open>simp_all add: s2_def fs_printf_def dev_emit_def CURRENT_TCB_def flash_works_def\<close>)
  next
    case (Some t)
    let ?s = "upd_tcb t (\<lambda>b. b\<lparr>t_affinity := THREAD_AFFINITY_C0\<rparr>) s"
    have "CURRENT_TCB ?s = Some t" "t_affinity (tcb_pool ?s t) = THREAD_AFFINITY_C0"
      using Some by (simp_all add: upd_tcb_def CURRENT_TCB_def)
    from pin_core0_spec [OF assms(2) this] obtain s1 where
      s1: "pin_core0 E ?s = Some s1" "fs_same E ?s s1" "core_num s1 = 0" "CURRENT_TCB s1 = Some t" by blast
    have same: "superblock_ram s1 = superblock_ram s" "fs_buffer s1 = fs_buffer s" "scratch_owner s1 = scratch_owner s"
      "open_fds s1 = open_fds s" "xip E (sio s1) = xip E (sio s)"
      using s1(2) by (simp_all add: fs_same_def upd_tcb_def)
    let ?r = "flash_safe_execute E 0 f (sio s1)"
    define s2 where "s2 = upd_tcb t (\<lambda>b. b\<lparr>t_affinity := t_affinity (tcb_pool s t)\<rparr>) (s1\<lparr>sio := snd ?r\<rparr>)"
    define m where "m = ''[fs] flash operation failed (rc '' @ dec_int (fst ?r) @ '')''"
    have eq: "fs_flash_safe E f s = Some (fst ?r, if fst ?r \<noteq> 0 then fs_printf m s2 else s2)"
      using Some s1(1,3) by (simp add: fs_flash_safe_def split_beta Let_def s2_def m_def)
    show ?thesis
      by (rule that [OF eq]) (use Some s1 same exec [of "sio s1"] in
        \<open>simp_all add: s2_def fs_printf_def dev_emit_def CURRENT_TCB_def upd_tcb_def flash_works_def\<close>)
  qed
qed

text \<open>What a flash operation leaves alone, and where it may run.\<close>

definition core_ok :: "('h, 'a) fs_state_scheme \<Rightarrow> bool" where
  "core_ok s \<longleftrightarrow> (CURRENT_TCB s = None \<longrightarrow> core_num s = 0)"

definition keeps :: "('h, 'a) fs_state_scheme \<Rightarrow> ('h, 'a) fs_state_scheme \<Rightarrow> bool" where
  "keeps s s' \<longleftrightarrow> core_ok s' \<and> CURRENT_TCB s' = CURRENT_TCB s \<and> superblock_ram s' = superblock_ram s \<and>
     fs_buffer s' = fs_buffer s \<and> scratch_owner s' = scratch_owner s \<and> open_fds s' = open_fds s"

lemma keeps_trans: "keeps s s' \<Longrightarrow> keeps s' s'' \<Longrightarrow> keeps s s''"
  by (simp add: keeps_def)

text \<open>A sector after erase and program, and the operations as effects on the flash.\<close>

definition sector_at :: "nat \<Rightarrow> u8 list \<Rightarrow> (nat \<Rightarrow> u8) \<Rightarrow> nat \<Rightarrow> u8" where
  "sector_at off bs F a = (if off \<le> a \<and> a < off + FS_BLOCK_SIZE then (if a - off < length bs then bs ! (a - off) else 255) else F a)"

definition same_outside :: "nat \<Rightarrow> (nat \<Rightarrow> u8) \<Rightarrow> (nat \<Rightarrow> u8) \<Rightarrow> bool" where
  "same_outside off F F' \<longleftrightarrow> (\<forall>a. \<not> (off \<le> a \<and> a < off + FS_BLOCK_SIZE) \<longrightarrow> F' a = F a)"

lemma same_outside_refl [simp]: "same_outside off F F"
  and same_outside_trans: "same_outside off F F' \<Longrightarrow> same_outside off F' F'' \<Longrightarrow> same_outside off F F''"
  and same_outside_sector [simp]: "same_outside off F (sector_at off bs F)"
  by (auto simp: same_outside_def sector_at_def)

lemma erase_spec:
  assumes flash: "flash_ok E" and res: "resume_ok E" and core: "core_ok s"
  obtains rc s' where "flash_erase_sector E off s = Some (rc, s')" "keeps s s'"
    "xip E (sio s') = (if rc = 0 then sector_at off [] (xip E (sio s)) else xip E (sio s))" "flash_works E \<Longrightarrow> rc = 0"
proof -
  have g: "xip E (flash_range_erase E off FS_BLOCK_SIZE h) = sector_at off [] (xip E h)" for h
    using flash by (simp add: flash_ok_def sector_at_def fun_eq_iff)
  have "CURRENT_TCB s = None \<Longrightarrow> core_num s = 0" using core by (simp add: core_ok_def)
  from flash_safe_spec [where f = "flash_range_erase E off FS_BLOCK_SIZE" and g = "sector_at off []", OF flash res g this] obtain rc s' where
    "fs_flash_safe E (flash_range_erase E off FS_BLOCK_SIZE) s = Some (rc, s')" "core_num s' = 0" "CURRENT_TCB s' = CURRENT_TCB s"
    "superblock_ram s' = superblock_ram s" "fs_buffer s' = fs_buffer s" "scratch_owner s' = scratch_owner s"
    "open_fds s' = open_fds s" "xip E (sio s') = (if rc = 0 then sector_at off [] (xip E (sio s)) else xip E (sio s))"
    "flash_works E \<Longrightarrow> rc = 0" by blast
  then show thesis by (intro that [of rc s']) (simp_all add: flash_erase_sector_def keeps_def core_ok_def)
qed

text \<open>Programming an erased sector writes the bytes; in general it stays inside the sector.\<close>

lemma program_spec:
  assumes flash: "flash_ok E" and res: "resume_ok E" and core: "core_ok s" and len: "length bs \<le> FS_BLOCK_SIZE"
  obtains rc s' where "fs_flash_safe E (flash_range_program E off bs) s = Some (rc, s')" "keeps s s'"
    "same_outside off (xip E (sio s)) (xip E (sio s'))"
    "\<And>F. rc = 0 \<Longrightarrow> xip E (sio s) = sector_at off [] F \<Longrightarrow> xip E (sio s') = sector_at off bs F"
    "flash_works E \<Longrightarrow> rc = 0"
proof -
  define g where "g = (\<lambda>F a. if off \<le> a \<and> a < off + length bs then and (F a) (bs ! (a - off)) else F a :: u8)"
  have g: "xip E (flash_range_program E off bs h) = g (xip E h)" for h
    using flash by (simp add: flash_ok_def g_def fun_eq_iff)
  have "CURRENT_TCB s = None \<Longrightarrow> core_num s = 0" using core by (simp add: core_ok_def)
  from flash_safe_spec [where f = "flash_range_program E off bs" and g = g, OF flash res g this] obtain rc s' where
    s': "fs_flash_safe E (flash_range_program E off bs) s = Some (rc, s')" "core_num s' = 0" "CURRENT_TCB s' = CURRENT_TCB s"
    "superblock_ram s' = superblock_ram s" "fs_buffer s' = fs_buffer s" "scratch_owner s' = scratch_owner s"
    "open_fds s' = open_fds s" "xip E (sio s') = (if rc = 0 then g (xip E (sio s)) else xip E (sio s))"
    "flash_works E \<Longrightarrow> rc = 0" by blast
  have "and (255 :: u8) b = b" for b
  proof -
    have m: "(255 :: u8) = - 1" by simp
    show ?thesis unfolding m by (rule and.left_neutral)
  qed
  then have "g (sector_at off [] F) = sector_at off bs F" for F
    using len by (auto simp: g_def sector_at_def fun_eq_iff)
  moreover have "same_outside off (xip E (sio s)) (xip E (sio s'))"
    using len by (simp add: s'(8) g_def same_outside_def)
  ultimately show thesis using s' by (intro that [of rc s']) (simp_all add: keeps_def core_ok_def)
qed

lemma sb_flush_spec:
  assumes flash: "flash_ok E" and res: "resume_ok E" and core: "core_ok s" and wf: "sb_wf (superblock_ram s)"
  obtains rc s' where "superblock_flush E s = Some (rc, s')" "keeps s s'"
    "same_outside FS_FLASH_OFFSET (xip E (sio s)) (xip E (sio s'))"
    "rc = 0 \<Longrightarrow> xip E (sio s') = sector_at FS_FLASH_OFFSET (sb_pages (superblock_ram s)) (xip E (sio s))"
    "rc = 0 \<or> rc = - 1" "flash_works E \<Longrightarrow> rc = 0"
proof -
  obtain rc1 s1 where 1: "flash_erase_sector E FS_FLASH_OFFSET s = Some (rc1, s1)" "keeps s s1"
    "xip E (sio s1) = (if rc1 = 0 then sector_at FS_FLASH_OFFSET [] (xip E (sio s)) else xip E (sio s))"
    "flash_works E \<Longrightarrow> rc1 = 0"
    by (rule erase_spec [OF flash res core], rule that; (assumption | blast))
  have "length (sb_pages (superblock_ram s)) \<le> FS_BLOCK_SIZE"
    using length_sb_bytes [OF wf]
    by (simp add: sb_pages_def SUPERBLOCK_PROG_SIZE_def SB_SIZE_def FS_MAX_FILES_def FLASH_PAGE_SIZE_def FS_BLOCK_SIZE_def)
  then have len: "length (sb_pages (superblock_ram s1)) \<le> FS_BLOCK_SIZE" using 1(2) by (simp add: keeps_def)
  have c1: "core_ok s1" using 1(2) by (simp add: keeps_def)
  obtain rc2 s2 where 2: "fs_flash_safe E (flash_range_program E FS_FLASH_OFFSET (sb_pages (superblock_ram s1))) s1 = Some (rc2, s2)"
    "keeps s1 s2" "same_outside FS_FLASH_OFFSET (xip E (sio s1)) (xip E (sio s2))"
    "\<And>F. rc2 = 0 \<Longrightarrow> xip E (sio s1) = sector_at FS_FLASH_OFFSET [] F \<Longrightarrow>
       xip E (sio s2) = sector_at FS_FLASH_OFFSET (sb_pages (superblock_ram s1)) F"
    "flash_works E \<Longrightarrow> rc2 = 0"
    by (rule program_spec [OF flash res c1 len, of FS_FLASH_OFFSET], rule that; (assumption | blast))
  have same1: "same_outside FS_FLASH_OFFSET (xip E (sio s)) (xip E (sio s1))" using 1(3) by simp
  show thesis
  proof (cases "rc1 = 0")
    case True
    have sb: "superblock_ram s1 = superblock_ram s" using 1(2) by (simp add: keeps_def)
    show ?thesis
      by (rule that [of "if rc2 \<noteq> 0 then - 1 else 0" s2])
        (use 1 2 True sb in \<open>simp_all add: superblock_flush_def keeps_trans [OF 1(2) 2(2)] same_outside_trans [OF same1 2(3)] split: if_splits\<close>)
  next
    case False
    show ?thesis by (rule that [of "- 1" s1]) (use 1 False same1 in \<open>simp_all add: superblock_flush_def\<close>)
  qed
qed

lemma commit_spec:
  assumes flash: "flash_ok E" and res: "resume_ok E" and core: "core_ok s" and wf: "sb_wf (superblock_ram s)" and len: "length (fs_buffer s) = FS_BLOCK_SIZE"
  obtains rc s' where "fs_commit E i s = Some (rc, s')" "rc = 0 \<or> rc = - 1"
    "core_ok s'" "CURRENT_TCB s' = CURRENT_TCB s" "superblock_ram s' = superblock_ram s"
    "fs_buffer s' = fs_buffer s" "scratch_owner s' = None" "open_fds s' = open_fds s"
    "\<And>a. \<not> (FS_FLASH_OFFSET \<le> a \<and> a < FS_FLASH_OFFSET + FS_BLOCK_SIZE) \<Longrightarrow>
       \<not> (FILE_FLASH_OFFSET i \<le> a \<and> a < FILE_FLASH_OFFSET i + FS_BLOCK_SIZE) \<Longrightarrow> xip E (sio s') a = xip E (sio s) a"
    "rc = 0 \<Longrightarrow> xip E (sio s') = sector_at FS_FLASH_OFFSET (sb_pages (superblock_ram s))
       (sector_at (FILE_FLASH_OFFSET i) (fs_buffer s) (xip E (sio s)))"
    "flash_works E \<Longrightarrow> rc = 0"
proof -
  let ?o = "FILE_FLASH_OFFSET i"
  obtain rc1 s1 where 1: "flash_erase_sector E ?o s = Some (rc1, s1)" "keeps s s1"
    "xip E (sio s1) = (if rc1 = 0 then sector_at ?o [] (xip E (sio s)) else xip E (sio s))"
    "flash_works E \<Longrightarrow> rc1 = 0"
    by (rule erase_spec [OF flash res core, of ?o], rule that; (assumption | blast))
  have c1: "core_ok s1" and b1: "fs_buffer s1 = fs_buffer s" and sb1: "superblock_ram s1 = superblock_ram s"
    using 1(2) by (simp_all add: keeps_def)
  have l1: "length (take FS_BLOCK_SIZE (fs_buffer s1)) \<le> FS_BLOCK_SIZE" by simp
  obtain rc2 s2 where 2: "fs_flash_safe E (flash_range_program E ?o (take FS_BLOCK_SIZE (fs_buffer s1))) s1 = Some (rc2, s2)"
    "keeps s1 s2" "same_outside ?o (xip E (sio s1)) (xip E (sio s2))"
    "\<And>F. rc2 = 0 \<Longrightarrow> xip E (sio s1) = sector_at ?o [] F \<Longrightarrow>
       xip E (sio s2) = sector_at ?o (take FS_BLOCK_SIZE (fs_buffer s1)) F"
    "flash_works E \<Longrightarrow> rc2 = 0"
    by (rule program_spec [OF flash res c1 l1, of ?o], rule that; (assumption | blast))
  have same1: "same_outside ?o (xip E (sio s)) (xip E (sio s1))" using 1(3) by simp
  note k2 = keeps_trans [OF 1(2) 2(2)] and same2 = same_outside_trans [OF same1 2(3)]
  let ?s3 = "s2\<lparr>scratch_owner := None\<rparr>"
  have c3: "core_ok ?s3" using 2(2) by (simp add: keeps_def core_ok_def CURRENT_TCB_def)
  have wf3: "sb_wf (superblock_ram ?s3)" using k2 wf by (simp add: keeps_def)
  obtain rc3 s4 where 3: "superblock_flush E ?s3 = Some (rc3, s4)" "keeps ?s3 s4"
    "same_outside FS_FLASH_OFFSET (xip E (sio ?s3)) (xip E (sio s4))"
    "rc3 = 0 \<Longrightarrow> xip E (sio s4) = sector_at FS_FLASH_OFFSET (sb_pages (superblock_ram ?s3)) (xip E (sio ?s3))"
    "rc3 = 0 \<or> rc3 = - 1" "flash_works E \<Longrightarrow> rc3 = 0"
    by (rule sb_flush_spec [OF flash res c3 wf3], rule that; (assumption | blast))
  consider "rc1 \<noteq> 0" | "rc1 = 0" "rc2 \<noteq> 0" | "rc1 = 0" "rc2 = 0" by blast
  then show thesis
  proof cases
    case 1
    have e: "fs_commit E i s = Some (- 1, s1\<lparr>scratch_owner := None\<rparr>)" using \<open>flash_erase_sector E ?o s = _\<close> 1
      by (simp add: fs_commit_def)
    show ?thesis
      by (rule that [OF e]) (use \<open>keeps s s1\<close> \<open>xip E (sio s1) = _\<close> \<open>flash_works E \<Longrightarrow> rc1 = 0\<close> 1 in
        \<open>simp_all add: keeps_def core_ok_def CURRENT_TCB_def\<close>)
  next
    case c: 2
    have e: "fs_commit E i s = Some (- 1, s2\<lparr>scratch_owner := None\<rparr>)" using 1(1) 2(1) c
      by (simp add: fs_commit_def flash_program_sector_def)
    show ?thesis
      by (rule that [OF e]) (use k2 same2 2(5) c in
        \<open>simp_all add: keeps_def core_ok_def CURRENT_TCB_def same_outside_def\<close>)
  next
    case c: 3
    have e: "fs_commit E i s = Some (if rc3 \<noteq> 0 then - 1 else 0, s4)" using 1(1) 2(1) 3(1) c
      by (simp add: fs_commit_def flash_program_sector_def)
    have sec: "xip E (sio s2) = sector_at ?o (fs_buffer s) (xip E (sio s))"
      using 2(4) c 1(3) b1 len by simp
    have k: "core_ok s4" "CURRENT_TCB s4 = CURRENT_TCB s" "superblock_ram s4 = superblock_ram s"
      "fs_buffer s4 = fs_buffer s" "scratch_owner s4 = None" "open_fds s4 = open_fds s" "superblock_ram s2 = superblock_ram s"
      using 3(2) k2 by (simp_all add: keeps_def CURRENT_TCB_def)
    show ?thesis
    proof (rule that [OF e])
      fix a
      assume "\<not> (FS_FLASH_OFFSET \<le> a \<and> a < FS_FLASH_OFFSET + FS_BLOCK_SIZE)"
        "\<not> (?o \<le> a \<and> a < ?o + FS_BLOCK_SIZE)"
      then show "xip E (sio s4) a = xip E (sio s) a" using 3(3) same2 by (simp add: same_outside_def)
    qed (use 3 k sec in \<open>auto split: if_splits\<close>)
  qed
qed

section \<open>The invariant\<close>

definition writer :: "fs_open_fd \<Rightarrow> bool" where
  "writer f \<longleftrightarrow> of_used f \<and> and (of_mode f) VFS_O_WRONLY \<noteq> 0"

definition entry_ok :: "fs_entry \<Rightarrow> bool" where
  "entry_ok e \<longleftrightarrow> length (fe_name e) = 16 \<and> length (cstr (fe_name e)) < 16 \<and> unat (fe_size e) \<le> FS_BLOCK_SIZE"

text \<open>
  The superblock is this version's; entries fit their sector; an open descriptor is on an existing file and inside its sector; only
  a writer is dirty, there is at most one, and \<open>scratch_owner\<close> is its file.
\<close>

definition parts_ok :: "fs_superblock \<Rightarrow> u8 list \<Rightarrow> nat option \<Rightarrow> (nat \<Rightarrow> fs_open_fd) \<Rightarrow> bool" where
  "parts_ok sb buf own fds \<longleftrightarrow> sb_magic sb = FS_SUPERBLOCK_MAGIC \<and> sb_version sb = 1 \<and>
     length (sb_files sb) = FS_MAX_FILES \<and> (\<forall>i<FS_MAX_FILES. entry_ok (sb_files sb ! i)) \<and> length buf = FS_BLOCK_SIZE \<and>
     (\<forall>k<FS_MAX_OPEN_FDS. of_used (fds k) \<longrightarrow> of_file_idx (fds k) < FS_MAX_FILES \<and>
        fe_used (sb_files sb ! of_file_idx (fds k)) \<and> unat (of_pos (fds k)) \<le> FS_BLOCK_SIZE) \<and>
     (\<forall>k<FS_MAX_OPEN_FDS. of_dirty (fds k) \<longrightarrow> writer (fds k)) \<and>
     (\<forall>k<FS_MAX_OPEN_FDS. writer (fds k) \<longrightarrow> own = Some (of_file_idx (fds k))) \<and>
     (\<forall>j<FS_MAX_OPEN_FDS. \<forall>k<FS_MAX_OPEN_FDS. writer (fds j) \<longrightarrow> writer (fds k) \<longrightarrow> j = k) \<and>
     (own \<noteq> None \<longrightarrow> (\<exists>k<FS_MAX_OPEN_FDS. writer (fds k)))"

definition fs_inv :: "('h, 'a) fs_state_scheme \<Rightarrow> bool" where
  "fs_inv s \<longleftrightarrow> core_ok s \<and> parts_ok (superblock_ram s) (fs_buffer s) (scratch_owner s) (open_fds s)"

lemma fs_inv_keeps: "keeps s s' \<Longrightarrow> fs_inv s \<Longrightarrow> fs_inv s'"
  by (simp add: fs_inv_def keeps_def)

lemma sb_wf_parts: "parts_ok sb buf own fds \<Longrightarrow> sb_wf sb"
  by (auto simp: parts_ok_def sb_wf_def entry_ok_def in_set_conv_nth)

lemma upd_fields [simp]:
  "superblock_ram (upd_fd k f s) = superblock_ram s" "fs_buffer (upd_fd k f s) = fs_buffer s"
  "scratch_owner (upd_fd k f s) = scratch_owner s" "open_fds (upd_fd k f s) = (open_fds s)(k := f (open_fds s k))"
  "sio (upd_fd k f s) = sio s" "CURRENT_TCB (upd_fd k f s) = CURRENT_TCB s" "core_num (upd_fd k f s) = core_num s"
  "sb_magic (superblock_ram (upd_entry i g s)) = sb_magic (superblock_ram s)"
  "sb_version (superblock_ram (upd_entry i g s)) = sb_version (superblock_ram s)"
  "sb_files (superblock_ram (upd_entry i g s)) = (sb_files (superblock_ram s))[i := g (sb_files (superblock_ram s) ! i)]"
  "fs_buffer (upd_entry i g s) = fs_buffer s" "scratch_owner (upd_entry i g s) = scratch_owner s"
  "open_fds (upd_entry i g s) = open_fds s" "sio (upd_entry i g s) = sio s"
  "CURRENT_TCB (upd_entry i g s) = CURRENT_TCB s" "core_num (upd_entry i g s) = core_num s"
  by (simp_all add: upd_fd_def upd_entry_def CURRENT_TCB_def)

lemma core_ok_upd [simp]:
  "core_ok (upd_fd k f s) = core_ok s" "core_ok (upd_entry i g s) = core_ok s"
  "core_ok (s\<lparr>scratch_owner := ow\<rparr>) = core_ok s" "core_ok (s\<lparr>fs_buffer := b\<rparr>) = core_ok s"
  "core_ok (s\<lparr>superblock_ram := sb\<rparr>) = core_ok s" "core_ok (s\<lparr>open_fds := fds\<rparr>) = core_ok s"
  by (simp_all add: core_ok_def) (simp_all add: CURRENT_TCB_def)

lemma strncpy_z_no_nul: "CHR 0x00 \<notin> set (strncpy_z n src)"
  using c_string_strncpy [of n src] by (simp add: c_string_def)

lemma cstr_name_array: "0 < n \<Longrightarrow> cstr (name_array n src) = strncpy_z n src"
proof -
  assume "0 < n"
  then have "0 < n - length (strncpy_z n src)" using length_strncpy_z [of n src] by simp
  then obtain m where "n - length (strncpy_z n src) = Suc m" by (cases "n - length (strncpy_z n src)") auto
  moreover have "takeWhile (\<lambda>c. c \<noteq> CHR 0x00) (strncpy_z n src @ ys) = strncpy_z n src @ takeWhile (\<lambda>c. c \<noteq> CHR 0x00) ys" for ys
    by (rule takeWhile_append2) (use strncpy_z_no_nul [of n src] in auto)
  ultimately show ?thesis by (simp add: name_array_def cstr_def)
qed

lemma new_entry_ok: "entry_ok (new_entry i name)"
  using length_strncpy_z [of 16 name]
  by (simp add: entry_ok_def new_entry_def FS_NAME_MAX_def cstr_name_array) (simp add: name_array_def)

lemma entry_zero_ok: "entry_ok entry_zero"
  by (simp add: entry_ok_def entry_zero_def FS_NAME_MAX_def cstr_def)

lemma find_file_SomeD: "find_file name s = Some i \<Longrightarrow> i < FS_MAX_FILES \<and> fe_used (sb_files (superblock_ram s) ! i) \<and>
    strncmp_eq FS_NAME_MAX (fe_name (sb_files (superblock_ram s) ! i)) name"
  unfolding find_file_def using first_slot_SomeD by fastforce

section \<open>Every operation keeps the invariant\<close>

lemma parts_ok_entry:
  assumes "parts_ok sb buf own fds" "i < FS_MAX_FILES" "entry_ok e"
    and "fe_used (sb_files sb ! i) \<Longrightarrow> fe_used e" and "sb_files sb' = (sb_files sb)[i := e]"
    and "sb_magic sb' = sb_magic sb" "sb_version sb' = sb_version sb"
  shows "parts_ok sb' buf own fds"
  using assms by (auto simp: parts_ok_def nth_list_update)

lemma create_inv:
  fixes s :: "('h, 'a) fs_state_scheme"
  assumes "flash_ok E" "resume_ok E" "fs_inv s"
  obtains r s' where "fs_create E name s = Some (r, s')" "fs_inv s'" "scratch_owner s' = scratch_owner s"
    "open_fds s' = open_fds s" "fs_buffer s' = fs_buffer s"
    "r = alloc_file_entry s"
    "\<And>i. r = Some i \<Longrightarrow> i < FS_MAX_FILES \<and> \<not> fe_used (sb_files (superblock_ram s) ! i) \<and>
       sb_files (superblock_ram s') = (sb_files (superblock_ram s))[i := new_entry i name] \<and>
       same_outside FS_FLASH_OFFSET (xip E (sio s)) (xip E (sio s')) \<and>
       (flash_works E \<longrightarrow> xip E (sio s') = sector_at FS_FLASH_OFFSET (sb_pages (superblock_ram s')) (xip E (sio s)))"
    "r = None \<Longrightarrow> s' = s"
proof (cases "alloc_file_entry s")
  case None
  then have "fs_create E name s = Some (None, s)" by (simp add: fs_create_def)
  then show ?thesis using that [of None s] assms(3) None by simp
next
  case (Some i)
  then have i: "i < FS_MAX_FILES" "\<not> fe_used (sb_files (superblock_ram s) ! i)"
    unfolding alloc_file_entry_def using first_slot_SomeD by fastforce+
  define s2 where "s2 = (upd_entry i (\<lambda>_. new_entry i name) s)
    \<lparr>superblock_ram := (superblock_ram (upd_entry i (\<lambda>_. new_entry i name) s))
      \<lparr>sb_file_count := sb_file_count (superblock_ram (upd_entry i (\<lambda>_. new_entry i name) s)) + 1\<rparr>\<rparr>"
  have f2: "sb_magic (superblock_ram s2) = sb_magic (superblock_ram s)" "sb_version (superblock_ram s2) = sb_version (superblock_ram s)"
    "sb_files (superblock_ram s2) = (sb_files (superblock_ram s))[i := new_entry i name]"
    "fs_buffer s2 = fs_buffer s" "scratch_owner s2 = scratch_owner s" "open_fds s2 = open_fds s" "sio s2 = sio s" "core_ok s2 = core_ok s"
    by (simp_all add: s2_def)
  have "parts_ok (superblock_ram s2) (fs_buffer s2) (scratch_owner s2) (open_fds s2)"
    unfolding f2(4-6) by (rule parts_ok_entry [of "superblock_ram s" _ _ _ i "new_entry i name"])
      (use assms(3) i f2 new_entry_ok in \<open>simp_all add: fs_inv_def new_entry_def\<close>)
  then have inv2: "fs_inv s2" using assms(3) f2 by (simp add: fs_inv_def)
  then have c: "core_ok s2" "sb_wf (superblock_ram s2)" using sb_wf_parts by (auto simp: fs_inv_def)
  obtain rc s3 where 3: "superblock_flush E s2 = Some (rc, s3)" "keeps s2 s3"
    "same_outside FS_FLASH_OFFSET (xip E (sio s2)) (xip E (sio s3))"
    "rc = 0 \<Longrightarrow> xip E (sio s3) = sector_at FS_FLASH_OFFSET (sb_pages (superblock_ram s2)) (xip E (sio s2))"
    "rc = 0 \<or> rc = - 1" "flash_works E \<Longrightarrow> rc = 0"
    by (rule sb_flush_spec [OF assms(1,2) c], rule that; (assumption | blast))
  have e: "fs_create E name s = Some (Some i, s3)"
    using Some 3(1) by (simp add: fs_create_def s2_def)
  have k: "superblock_ram s3 = superblock_ram s2" "fs_buffer s3 = fs_buffer s" "scratch_owner s3 = scratch_owner s" "open_fds s3 = open_fds s"
    using 3(2) f2 by (simp_all add: keeps_def)
  show ?thesis
    by (rule that [OF e]) (use fs_inv_keeps [OF 3(2) inv2] 3 f2 k i Some in auto)
qed

lemma alloc_fd_SomeD: "alloc_open_fd s = Some k \<Longrightarrow> k < FS_MAX_OPEN_FDS \<and> \<not> of_used (open_fds s k)"
  unfolding alloc_open_fd_def using first_slot_SomeD by fastforce

text \<open>A fresh descriptor: of a reader, or of the writer when there is none.\<close>

lemma parts_ok_open:
  assumes "parts_ok sb buf own fds" "k < FS_MAX_OPEN_FDS" "\<not> of_used (fds k)"
    and "i < FS_MAX_FILES" "fe_used (sb_files sb ! i)" "unat (of_pos f) \<le> FS_BLOCK_SIZE"
    and "of_used f" "\<not> of_dirty f" "of_file_idx f = i" "writer f \<Longrightarrow> own = None"
  shows "parts_ok sb buf (if writer f then Some i else own) (fds(k := f))"
proof -
  have no: "\<not> writer (fds j)" if "writer f" "j < FS_MAX_OPEN_FDS" for j
    using assms(1,10) that unfolding parts_ok_def by auto
  have ex: "own \<noteq> None \<Longrightarrow> \<exists>j<FS_MAX_OPEN_FDS. j \<noteq> k \<and> writer (fds j)"
    using assms(1,3) unfolding parts_ok_def writer_def by metis
  have w1: "\<forall>j<FS_MAX_OPEN_FDS. writer ((fds(k := f)) j) \<longrightarrow>
      (if writer f then Some i else own) = Some (of_file_idx ((fds(k := f)) j))"
    using assms no unfolding parts_ok_def by auto
  have w2: "\<forall>j<FS_MAX_OPEN_FDS. \<forall>l<FS_MAX_OPEN_FDS. writer ((fds(k := f)) j) \<longrightarrow> writer ((fds(k := f)) l) \<longrightarrow> j = l"
    using assms(1) no unfolding parts_ok_def by auto
  have w3: "(if writer f then Some i else own) \<noteq> None \<longrightarrow> (\<exists>j<FS_MAX_OPEN_FDS. writer ((fds(k := f)) j))"
    using ex assms(2) by (cases "writer f") auto
  show ?thesis unfolding parts_ok_def
  proof (intro conjI)
    show "\<forall>j<FS_MAX_OPEN_FDS. of_used ((fds(k := f)) j) \<longrightarrow> of_file_idx ((fds(k := f)) j) < FS_MAX_FILES \<and>
        fe_used (sb_files sb ! of_file_idx ((fds(k := f)) j)) \<and> unat (of_pos ((fds(k := f)) j)) \<le> FS_BLOCK_SIZE"
      using assms by (simp add: parts_ok_def)
    show "\<forall>j<FS_MAX_OPEN_FDS. of_dirty ((fds(k := f)) j) \<longrightarrow> writer ((fds(k := f)) j)"
      using assms by (simp add: parts_ok_def)
  qed (use w1 w2 w3 assms(1) in \<open>simp_all add: parts_ok_def\<close>)
qed

lemma parts_ok_buf: "parts_ok sb buf own fds \<Longrightarrow> length b = FS_BLOCK_SIZE \<Longrightarrow> parts_ok sb b own fds"
  by (simp add: parts_ok_def)

lemma parts_okD:
  assumes "parts_ok sb buf own fds"
  shows "i < FS_MAX_FILES \<Longrightarrow> entry_ok (sb_files sb ! i)" "length (sb_files sb) = FS_MAX_FILES" "length buf = FS_BLOCK_SIZE"
    and "k < FS_MAX_OPEN_FDS \<Longrightarrow> of_used (fds k) \<Longrightarrow> of_file_idx (fds k) < FS_MAX_FILES"
    and "k < FS_MAX_OPEN_FDS \<Longrightarrow> of_used (fds k) \<Longrightarrow> fe_used (sb_files sb ! of_file_idx (fds k))"
    and "k < FS_MAX_OPEN_FDS \<Longrightarrow> of_used (fds k) \<Longrightarrow> unat (of_pos (fds k)) \<le> FS_BLOCK_SIZE"
    and "k < FS_MAX_OPEN_FDS \<Longrightarrow> of_dirty (fds k) \<Longrightarrow> writer (fds k)"
    and "k < FS_MAX_OPEN_FDS \<Longrightarrow> writer (fds k) \<Longrightarrow> own = Some (of_file_idx (fds k))"
    and "j < FS_MAX_OPEN_FDS \<Longrightarrow> k < FS_MAX_OPEN_FDS \<Longrightarrow> writer (fds j) \<Longrightarrow> writer (fds k) \<Longrightarrow> j = k"
  using assms unfolding parts_ok_def by blast+

text \<open>The part of \<open>fs_open\<close> behind the lookup.\<close>

lemma open_file_inv:
  fixes s :: "('h, 'a) fs_state_scheme"
  assumes inv: "fs_inv s" and i: "i < FS_MAX_FILES" "fe_used (sb_files (superblock_ram s) ! i)"
  shows "fs_inv (snd (fs_open_file E i mode s))"
proof -
  have p: "parts_ok (superblock_ram s) (fs_buffer s) (scratch_owner s) (open_fds s)" and c: "core_ok s"
    using inv by (simp_all add: fs_inv_def)
  show ?thesis
  proof (cases "and mode VFS_O_WRONLY \<noteq> 0")
    case False
    show ?thesis
    proof (cases "alloc_open_fd s")
      case None
      then show ?thesis using False inv by (simp add: fs_open_file_def)
    next
      case (Some k)
      let ?f = "\<lparr>of_used = True, of_dirty = False, of_file_idx = i, of_pos = 0, of_mode = mode\<rparr>"
      have "\<not> writer ?f" using False by (simp add: writer_def)
      then have "parts_ok (superblock_ram s) (fs_buffer s) (scratch_owner s) ((open_fds s)(k := ?f))"
        using parts_ok_open [OF p, of k i ?f] alloc_fd_SomeD [OF Some] i by simp
      with Some False c show ?thesis by (simp add: fs_open_file_def fs_inv_def)
    qed
  next
    case W: True
    show ?thesis
    proof (cases "scratch_owner s")
      case (Some x)
      then show ?thesis using W inv by (simp add: fs_open_file_def)
    next
      case N: None
      define s1 where "s1 = claim_buffer E i mode s"
      have f1: "open_fds s1 = open_fds s" "core_ok s1" "length (fs_buffer s1) = FS_BLOCK_SIZE" "scratch_owner s1 = Some i"
        using c by (simp_all add: s1_def claim_buffer_def flash_bytes_def)
      have al: "alloc_open_fd s1 = alloc_open_fd s" by (simp add: alloc_open_fd_def f1)
      have "parts_ok (superblock_ram s1) (fs_buffer s) None (open_fds s)"
      proof (cases "and mode VFS_O_TRUNC \<noteq> 0")
        case True
        show ?thesis
          by (rule parts_ok_entry [of "superblock_ram s" _ _ _ i "(sb_files (superblock_ram s) ! i)\<lparr>fe_size := 0\<rparr>"])
            (use True p N i parts_okD(1) [OF p i(1)] in \<open>simp_all add: s1_def claim_buffer_def entry_ok_def\<close>)
      next
        case False
        then show ?thesis using p N by (simp add: s1_def claim_buffer_def)
      qed
      then have p1: "parts_ok (superblock_ram s1) (fs_buffer s1) None (open_fds s)"
        by (rule parts_ok_buf) (rule f1(3))
      have open_eq: "fs_open_file E i mode s = (case alloc_open_fd s of
           None \<Rightarrow> (- 1, s1\<lparr>scratch_owner := None\<rparr>)
         | Some fd \<Rightarrow> (int fd, upd_fd fd (\<lambda>_. \<lparr>of_used = True, of_dirty = False, of_file_idx = i,
             of_pos = (if and mode VFS_O_APPEND \<noteq> 0 then fe_size (sb_files (superblock_ram s1) ! i) else 0), of_mode = mode\<rparr>) s1))"
        using W N al unfolding s1_def by (cases "alloc_open_fd s") (simp_all add: fs_open_file_def Let_def)
      show ?thesis
      proof (cases "alloc_open_fd s")
        case None
        then show ?thesis using p1 f1 by (simp add: open_eq fs_inv_def)
      next
        case (Some k)
        let ?f = "\<lparr>of_used = True, of_dirty = False, of_file_idx = i,
             of_pos = (if and mode VFS_O_APPEND \<noteq> 0 then fe_size (sb_files (superblock_ram s1) ! i) else 0), of_mode = mode\<rparr>"
        have "writer ?f" using W by (simp add: writer_def)
        moreover have "fe_used (sb_files (superblock_ram s1) ! i)"
          using i parts_okD(2) [OF p] by (simp add: s1_def claim_buffer_def)
        moreover have "unat (of_pos ?f) \<le> FS_BLOCK_SIZE"
          using parts_okD(1) [OF p1 i(1)] by (simp add: entry_ok_def)
        ultimately have "parts_ok (superblock_ram s1) (fs_buffer s1) (Some i) ((open_fds s)(k := ?f))"
          using parts_ok_open [OF p1, of k i ?f] alloc_fd_SomeD [OF Some] i by simp
        with Some f1 show ?thesis by (simp add: open_eq fs_inv_def)
      qed
    qed
  qed
qed

lemma open_body_inv:
  fixes s :: "('h, 'a) fs_state_scheme"
  assumes "flash_ok E" "resume_ok E" "fs_inv s"
  obtains r s' where "fs_open_body E name mode s = Some (r, s')" "fs_inv s'"
proof (cases "find_file (strip_slash name) s")
  case (Some i)
  from that [of "fst (fs_open_file E i mode s)" "snd (fs_open_file E i mode s)"]
  show ?thesis using Some find_file_SomeD [OF Some] open_file_inv [OF assms(3)] by (simp add: fs_open_body_def)
next
  case None
  show ?thesis
  proof (cases "and mode VFS_O_CREAT = 0")
    case True
    with None that [of "- 1" s] assms(3) show ?thesis by (simp add: fs_open_body_def)
  next
    case False
    obtain r s1 where 1: "fs_create E (strip_slash name) s = Some (r, s1)" "fs_inv s1"
      "\<And>i. r = Some i \<Longrightarrow> i < FS_MAX_FILES \<and> \<not> fe_used (sb_files (superblock_ram s) ! i) \<and>
         sb_files (superblock_ram s1) = (sb_files (superblock_ram s))[i := new_entry i (strip_slash name)] \<and>
         same_outside FS_FLASH_OFFSET (xip E (sio s)) (xip E (sio s1)) \<and>
         (flash_works E \<longrightarrow> xip E (sio s1) = sector_at FS_FLASH_OFFSET (sb_pages (superblock_ram s1)) (xip E (sio s)))"
      by (rule create_inv [OF assms, of "strip_slash name"], rule that; (assumption | blast))
    show ?thesis
    proof (cases r)
      case None
      with False \<open>find_file (strip_slash name) s = None\<close> 1 that [of "- 1" s1] show ?thesis
        by (simp add: fs_open_body_def)
    next
      case (Some i)
      have "length (sb_files (superblock_ram s)) = FS_MAX_FILES"
        using parts_okD(2) assms(3) by (auto simp: fs_inv_def)
      then have "i < FS_MAX_FILES \<and> fe_used (sb_files (superblock_ram s1) ! i)" using 1(3) [OF Some] by (simp add: new_entry_def)
      then have "fs_inv (snd (fs_open_file E i mode s1))" using open_file_inv [OF 1(2)] by blast
      with False None 1(1) Some that [of "fst (fs_open_file E i mode s1)" "snd (fs_open_file E i mode s1)"] show ?thesis
        by (simp add: fs_open_body_def)
    qed
  qed
qed

text \<open>The clamps of read and write, on naturals.\<close>

definition read_count :: "fs_open_fd \<Rightarrow> fs_entry \<Rightarrow> u32 \<Rightarrow> nat" where
  "read_count f e n = min (unat n) (unat (fe_size e) - unat (of_pos f))"

definition write_count :: "fs_open_fd \<Rightarrow> u32 \<Rightarrow> nat" where
  "write_count f n = min (unat n) (FS_BLOCK_SIZE - unat (of_pos f))"

lemma read_clamp:
  "unat (let available = (if of_pos f < fe_size e then fe_size e - of_pos f else 0) in if n < available then n else available) =
     read_count f e n"
  by (auto simp: read_count_def Let_def word_less_nat_alt unat_sub word_le_nat_alt)

lemma write_clamp:
  "unat (let capacity = word_of_nat FS_MAX_FILE_DATA :: u32;
            remaining = (if of_pos f < capacity then capacity - of_pos f else 0)
         in if n < remaining then n else remaining) = write_count f n"
  by (auto simp: write_count_def Let_def FS_MAX_FILE_DATA_def FS_BLOCK_SIZE_def word_less_nat_alt unat_sub word_le_nat_alt)

lemma unat_eq_word: "unat w = k \<Longrightarrow> w = (word_of_nat k :: u32)"
  by auto

lemma sint_small: "k < 2 ^ 31 \<Longrightarrow> sint (word_of_nat k :: u32) = int k"
  using sint_sbintrunc' [of "int k", where 'a = 32] by (simp add: signed_take_bit_int_eq_self)

lemma unat_small: "k < 2 ^ 32 \<Longrightarrow> unat (word_of_nat k :: u32) = k"
  by (simp add: unat_of_nat take_bit_nat_eq_self)

lemma read_body_eq:
  assumes "unat (fe_size e) \<le> FS_BLOCK_SIZE" "unat (of_pos f) \<le> FS_BLOCK_SIZE"
    and f: "f = open_fds s fd" and e: "e = sb_files (superblock_ram s) ! of_file_idx f"
  shows "fs_read_body E fd n s = Some ((int (read_count f e n),
     if scratch_owner s = Some (of_file_idx f) \<and> of_dirty f
     then take (read_count f e n) (drop (unat (of_pos f)) (fs_buffer s))
     else flash_bytes E (sio s) (FILE_FLASH_OFFSET (of_file_idx f) + unat (of_pos f)) (read_count f e n)),
     upd_fd fd (\<lambda>g. g\<lparr>of_pos := word_of_nat (unat (of_pos f) + read_count f e n)\<rparr>) s)"
proof -
  define t where "t = (let available = (if of_pos f < fe_size e then fe_size e - of_pos f else 0) in if n < available then n else available)"
  have u: "unat t = read_count f e n" unfolding t_def by (rule read_clamp)
  have tw: "t = word_of_nat (read_count f e n)" by (rule unat_eq_word [OF u])
  have le: "read_count f e n \<le> 4096" using assms(1) by (simp add: read_count_def FS_BLOCK_SIZE_def)
  have z: "0 < t \<longleftrightarrow> 0 < read_count f e n" using u by (simp add: word_less_nat_alt)
  have id: "upd_fd fd (\<lambda>g. g\<lparr>of_pos := of_pos g\<rparr>) s = s" by (simp add: upd_fd_def)
  have pos: "of_pos f + word_of_nat (read_count f e n) = word_of_nat (unat (of_pos f) + read_count f e n)" by simp
  have upd: "upd_fd fd (\<lambda>g. g\<lparr>of_pos := of_pos g + t\<rparr>) s = upd_fd fd (\<lambda>g. g\<lparr>of_pos := word_of_nat (unat (of_pos f) + read_count f e n)\<rparr>) s"
    unfolding tw upd_fd_def f [symmetric] pos [symmetric] ..
  have body: "fs_read_body E fd n s = (if 0 < t then
      Some ((sint t, if scratch_owner s = Some (of_file_idx f) \<and> of_dirty f
         then take (unat t) (drop (unat (of_pos f)) (fs_buffer s))
         else flash_bytes E (sio s) (FILE_FLASH_OFFSET (of_file_idx f) + unat (of_pos f)) (unat t)),
        upd_fd fd (\<lambda>g. g\<lparr>of_pos := of_pos g + t\<rparr>) s) else Some ((0, []), s))"
    unfolding fs_read_body_def t_def e f Let_def ..
  have s: "sint t = int (read_count f e n)" unfolding tw by (rule sint_small) (use le in simp)
  show ?thesis
  proof (cases "0 < t")
    case True
    then show ?thesis unfolding body s u upd by simp
  next
    case False
    then have r: "read_count f e n = 0" using z by simp
    then show ?thesis using False body id f by (simp add: upd_fd_def flash_bytes_def)
  qed
qed

lemma parts_ok_fd:
  assumes "parts_ok sb buf own fds" "k < FS_MAX_OPEN_FDS"
    and "of_used f = of_used (fds k)" "of_file_idx f = of_file_idx (fds k)" "of_mode f = of_mode (fds k)"
    and "of_used f \<Longrightarrow> unat (of_pos f) \<le> FS_BLOCK_SIZE" "of_dirty f \<Longrightarrow> writer f"
  shows "parts_ok sb buf own (fds(k := f))"
proof -
  have w: "writer ((fds(k := f)) j) = writer (fds j)" for j using assms by (simp add: writer_def)
  have u: "of_used ((fds(k := f)) j) = of_used (fds j)" "of_file_idx ((fds(k := f)) j) = of_file_idx (fds j)" for j
    using assms by simp_all
  have "of_used ((fds(k := f)) j) \<Longrightarrow> j < FS_MAX_OPEN_FDS \<Longrightarrow> unat (of_pos ((fds(k := f)) j)) \<le> FS_BLOCK_SIZE"
    and "of_dirty ((fds(k := f)) j) \<Longrightarrow> j < FS_MAX_OPEN_FDS \<Longrightarrow> writer (fds j)" for j
    using assms parts_okD(6,7) [OF assms(1)] w [of k] by (cases "j = k"; simp)+
  then show ?thesis using assms(1) unfolding parts_ok_def w u by blast
qed

lemma read_body_inv:
  assumes "fs_inv s" "fd < FS_MAX_OPEN_FDS" "of_used (open_fds s fd)"
  obtains r s' where "fs_read_body E fd n s = Some (r, s')" "fs_inv s'"
proof -
  define f where "f = open_fds s fd"
  define e where "e = sb_files (superblock_ram s) ! of_file_idx f"
  have p: "parts_ok (superblock_ram s) (fs_buffer s) (scratch_owner s) (open_fds s)" using assms(1) by (simp add: fs_inv_def)
  have b: "unat (fe_size e) \<le> FS_BLOCK_SIZE" "unat (of_pos f) \<le> FS_BLOCK_SIZE"
    using parts_okD(1,4,6) [OF p] assms(2,3) by (simp_all add: e_def f_def entry_ok_def)
  have "unat (of_pos f) + read_count f e n \<le> FS_BLOCK_SIZE" using b by (auto simp: read_count_def)
  then have "unat (word_of_nat (unat (of_pos f) + read_count f e n) :: u32) \<le> FS_BLOCK_SIZE"
    using unat_small [of "unat (of_pos f) + read_count f e n"] by (simp add: FS_BLOCK_SIZE_def)
  then have "parts_ok (superblock_ram s) (fs_buffer s) (scratch_owner s)
      ((open_fds s)(fd := f\<lparr>of_pos := word_of_nat (unat (of_pos f) + read_count f e n)\<rparr>))"
    by (intro parts_ok_fd [OF p assms(2)]) (use parts_okD(7) [OF p assms(2)] in \<open>simp_all add: f_def writer_def\<close>)
  then show thesis using that read_body_eq [OF b f_def e_def] assms(1) by (simp add: fs_inv_def f_def)
qed

lemma write_body_eq:
  assumes "unat (of_pos f) \<le> FS_BLOCK_SIZE" and f: "f = open_fds s fd" and e: "e = sb_files (superblock_ram s) ! of_file_idx f"
    and c: "c = write_count f n"
  shows "fs_write_body fd buf n s = Some (if and (of_mode f) VFS_O_WRONLY \<noteq> 0 \<and> 0 < c then
     (int c, let s2 = upd_fd fd (\<lambda>g. g\<lparr>of_pos := word_of_nat (unat (of_pos f) + c), of_dirty := True\<rparr>)
          (s\<lparr>fs_buffer := take (unat (of_pos f)) (fs_buffer s) @ take c buf @ drop (unat (of_pos f) + c) (fs_buffer s)\<rparr>)
        in if unat (fe_size e) < unat (of_pos f) + c
           then upd_entry (of_file_idx f) (\<lambda>e. e\<lparr>fe_size := word_of_nat (unat (of_pos f) + c)\<rparr>) s2 else s2)
     else (- 1, s))"
proof -
  define t where "t = (let capacity = word_of_nat FS_MAX_FILE_DATA :: u32;
            remaining = (if of_pos f < capacity then capacity - of_pos f else 0)
         in if n < remaining then n else remaining)"
  have u: "unat t = c" unfolding t_def c by (rule write_clamp)
  have tw: "t = word_of_nat c" by (rule unat_eq_word [OF u])
  have le: "c \<le> 4096" "unat (of_pos f) + c \<le> 4096"
    using assms(1) by (simp_all add: c write_count_def FS_BLOCK_SIZE_def)
  have z: "0 < t \<longleftrightarrow> 0 < c" using u by (simp add: word_less_nat_alt)
  have pos: "of_pos f + t = word_of_nat (unat (of_pos f) + c)" by (simp add: tw)
  have sz: "fe_size e < of_pos f + t \<longleftrightarrow> unat (fe_size e) < unat (of_pos f) + c"
    unfolding pos word_less_nat_alt using unat_small [of "unat (of_pos f) + c"] le by simp
  have s: "sint t = int c" unfolding tw by (rule sint_small) (use le in simp)
  have upd: "upd_fd fd (\<lambda>g. g\<lparr>of_pos := of_pos g + t, of_dirty := True\<rparr>) (s\<lparr>fs_buffer := b\<rparr>) =
      upd_fd fd (\<lambda>g. g\<lparr>of_pos := of_pos f + t, of_dirty := True\<rparr>) (s\<lparr>fs_buffer := b\<rparr>)" for b
    by (simp add: upd_fd_def f)
  have "fs_write_body fd buf n s = (if and (of_mode f) VFS_O_WRONLY \<noteq> 0 then
      if 0 < t then Some (sint t, let s2 = upd_fd fd (\<lambda>g. g\<lparr>of_pos := of_pos g + t, of_dirty := True\<rparr>)
          (s\<lparr>fs_buffer := take (unat (of_pos f)) (fs_buffer s) @ take (unat t) buf @ drop (unat (of_pos f) + unat t) (fs_buffer s)\<rparr>)
        in if fe_size e < of_pos f + t then upd_entry (of_file_idx f) (\<lambda>e. e\<lparr>fe_size := of_pos f + t\<rparr>) s2 else s2)
      else Some (- 1, s) else Some (- 1, s))"
    by (simp add: fs_write_body_def t_def Let_def f e)
  then show ?thesis unfolding upd sz unfolding pos s u z by (simp add: Let_def)
qed

lemma write_body_inv:
  assumes "fs_inv s" "fd < FS_MAX_OPEN_FDS" "of_used (open_fds s fd)" and len: "unat n \<le> length buf"
  obtains r s' where "fs_write_body fd buf n s = Some (r, s')" "fs_inv s'"
proof -
  define f where "f = open_fds s fd"
  define e where "e = sb_files (superblock_ram s) ! of_file_idx f"
  define c where "c = write_count f n"
  have p: "parts_ok (superblock_ram s) (fs_buffer s) (scratch_owner s) (open_fds s)" using assms(1) by (simp add: fs_inv_def)
  have b: "unat (fe_size e) \<le> FS_BLOCK_SIZE" "unat (of_pos f) \<le> FS_BLOCK_SIZE" and i: "of_file_idx f < FS_MAX_FILES"
    "entry_ok e" "fe_used e"
    using parts_okD(1,4,5,6) [OF p] assms(2,3) by (simp_all add: e_def f_def entry_ok_def)
  have le: "unat (of_pos f) + c \<le> FS_BLOCK_SIZE" using b by (auto simp: c_def write_count_def)
  then have u: "unat (word_of_nat (unat (of_pos f) + c) :: u32) \<le> FS_BLOCK_SIZE"
    using unat_small [of "unat (of_pos f) + c"] by (simp add: FS_BLOCK_SIZE_def)
  note eq = write_body_eq [OF b(2) f_def e_def c_def, of buf]
  define np where "np = (word_of_nat (unat (of_pos f) + c) :: u32)"
  show thesis
  proof (cases "and (of_mode f) VFS_O_WRONLY \<noteq> 0 \<and> 0 < c")
    case False
    with eq that assms(1) show ?thesis by simp
  next
    case True
    define b' where "b' = take (unat (of_pos f)) (fs_buffer s) @ take c buf @ drop (unat (of_pos f) + c) (fs_buffer s)"
    define f' where "f' = f\<lparr>of_pos := np, of_dirty := True\<rparr>"
    have "c \<le> length buf" using len by (simp add: c_def write_count_def)
    then have lb: "length b' = FS_BLOCK_SIZE" using le parts_okD(3) [OF p] by (simp add: b'_def)
    have p1: "parts_ok (superblock_ram s) b' (scratch_owner s) ((open_fds s)(fd := f'))"
      by (rule parts_ok_fd [OF parts_ok_buf [OF p lb] assms(2)])
        (use u [folded np_def] True assms(3) in \<open>simp_all add: f'_def f_def writer_def\<close>)
    define s2 where "s2 = upd_fd fd (\<lambda>g. g\<lparr>of_pos := np, of_dirty := True\<rparr>) (s\<lparr>fs_buffer := b'\<rparr>)"
    define s3 where "s3 = upd_entry (of_file_idx f) (\<lambda>e. e\<lparr>fe_size := np\<rparr>) s2"
    have i2: "fs_inv s2" using p1 assms(1) by (simp add: s2_def fs_inv_def f'_def f_def)
    have "parts_ok (superblock_ram s3) (fs_buffer s2) (scratch_owner s2) (open_fds s2)"
      by (rule parts_ok_entry [of "superblock_ram s2" _ _ _ "of_file_idx f" "e\<lparr>fe_size := np\<rparr>"])
        (use i2 i u [folded np_def] in \<open>simp_all add: fs_inv_def entry_ok_def s2_def s3_def e_def\<close>)
    then have i3: "fs_inv s3" using i2 by (simp add: fs_inv_def s3_def)
    have "fs_write_body fd buf n s = Some (int c, if unat (fe_size e) < unat (of_pos f) + c then s3 else s2)"
      unfolding eq s3_def s2_def b'_def np_def Let_def if_P [OF True] ..
    then show ?thesis by (rule that) (use i2 i3 in simp)
  qed
qed

end
