(* ===== verification/FsHistory.thy ===== *)
theory FsHistory
  imports Fs
begin

text \<open>
  The file system over its whole life: every history of calls keeps the invariant of \<open>Fs\<close> and
  every call returns; files survive a reboot; what happens to names longer than the name field.
\<close>

section \<open>Close, delete and format\<close>

lemma parts_ok_close:
  assumes p: "parts_ok sb buf own fds" and k: "k < FS_MAX_OPEN_FDS"
  shows "parts_ok sb buf (if writer (fds k) then None else own) (fds(k := (fds k)\<lparr>of_used := False, of_dirty := False\<rparr>))"
proof -
  let ?f = "(fds k)\<lparr>of_used := False, of_dirty := False\<rparr>"
  have w: "writer ((fds(k := ?f)) j) \<longleftrightarrow> j \<noteq> k \<and> writer (fds j)" for j by (simp add: writer_def)
  have u: "of_used ((fds(k := ?f)) j) \<longleftrightarrow> j \<noteq> k \<and> of_used (fds j)" "of_dirty ((fds(k := ?f)) j) \<longleftrightarrow> j \<noteq> k \<and> of_dirty (fds j)" for j
    by simp_all
  have s: "j \<noteq> k \<Longrightarrow> (fds(k := ?f)) j = fds j" for j by simp
  have own: "\<not> writer (fds k) \<Longrightarrow> own \<noteq> None \<Longrightarrow> \<exists>j<FS_MAX_OPEN_FDS. j \<noteq> k \<and> writer (fds j)"
    using p unfolding parts_ok_def by metis
  have no: "writer (fds k) \<Longrightarrow> j < FS_MAX_OPEN_FDS \<Longrightarrow> writer (fds j) \<Longrightarrow> j = k" for j
    using parts_okD(9) [OF p _ k] by blast
  show ?thesis unfolding parts_ok_def w u
  proof (intro conjI)
    show "\<forall>j<FS_MAX_OPEN_FDS. j \<noteq> k \<and> writer (fds j) \<longrightarrow>
        (if writer (fds k) then None else own) = Some (of_file_idx ((fds(k := ?f)) j))"
      using no parts_okD(8) [OF p] by auto
    show "(if writer (fds k) then None else own) \<noteq> None \<longrightarrow> (\<exists>j<FS_MAX_OPEN_FDS. j \<noteq> k \<and> writer (fds j))"
      using own by auto
  qed (use p in \<open>auto simp: parts_ok_def\<close>)
qed

lemma close_body_inv:
  fixes s :: "('h, 'a) fs_state_scheme"
  assumes flash: "flash_ok E" "resume_ok E" and inv: "fs_inv s" and fd: "fd < FS_MAX_OPEN_FDS" "of_used (open_fds s fd)"
  obtains r s' where "fs_close_body E fd s = Some (r, s')" "fs_inv s'" "r = 0 \<or> r = - 1"
    "\<not> of_used (open_fds s' fd)" "superblock_ram s' = superblock_ram s" "flash_works E \<Longrightarrow> r = 0"
    "of_dirty (open_fds s fd) \<Longrightarrow> r = 0 \<Longrightarrow> xip E (sio s') = sector_at FS_FLASH_OFFSET (sb_pages (superblock_ram s))
       (sector_at (FILE_FLASH_OFFSET (of_file_idx (open_fds s fd))) (fs_buffer s) (xip E (sio s)))"
    "\<And>a. \<not> (FS_FLASH_OFFSET \<le> a \<and> a < FS_FLASH_OFFSET + FS_BLOCK_SIZE) \<Longrightarrow>
       \<not> (of_dirty (open_fds s fd) \<and> FILE_FLASH_OFFSET (of_file_idx (open_fds s fd)) \<le> a \<and>
          a < FILE_FLASH_OFFSET (of_file_idx (open_fds s fd)) + FS_BLOCK_SIZE) \<Longrightarrow> xip E (sio s') a = xip E (sio s) a"
proof -
  let ?f = "open_fds s fd"
  let ?clr = "\<lambda>f. f\<lparr>of_used := False, of_dirty := False\<rparr>"
  have c: "core_ok s" and p: "parts_ok (superblock_ram s) (fs_buffer s) (scratch_owner s) (open_fds s)"
    using inv by (simp_all add: fs_inv_def)
  have w: "writer ?f \<longleftrightarrow> and (of_mode ?f) VFS_O_WRONLY \<noteq> 0" using fd by (simp add: writer_def)
  have ow: "writer ?f \<Longrightarrow> scratch_owner s = Some (of_file_idx ?f)" using parts_okD(8) [OF p fd(1)] .
  note p' = parts_ok_close [OF p fd(1)]
  show thesis
  proof (cases "of_dirty ?f")
    case False
    let ?s = "upd_fd fd ?clr (s\<lparr>scratch_owner := (if writer ?f then None else scratch_owner s)\<rparr>)"
    have e: "fs_close_body E fd s = Some (0, ?s)"
      using False w ow by (simp add: fs_close_body_def Let_def)
    show ?thesis by (rule that [OF e]) (use p' c False in \<open>simp_all add: fs_inv_def\<close>)
  next
    case True
    have wr: "writer ?f" using parts_okD(7) [OF p fd(1) True] .
    obtain rc s1 where 1: "fs_commit E (of_file_idx ?f) s = Some (rc, s1)" "rc = 0 \<or> rc = - 1"
      "core_ok s1" "CURRENT_TCB s1 = CURRENT_TCB s" "superblock_ram s1 = superblock_ram s"
      "fs_buffer s1 = fs_buffer s" "scratch_owner s1 = None" "open_fds s1 = open_fds s"
      "\<And>a. \<not> (FS_FLASH_OFFSET \<le> a \<and> a < FS_FLASH_OFFSET + FS_BLOCK_SIZE) \<Longrightarrow>
         \<not> (FILE_FLASH_OFFSET (of_file_idx ?f) \<le> a \<and> a < FILE_FLASH_OFFSET (of_file_idx ?f) + FS_BLOCK_SIZE) \<Longrightarrow>
         xip E (sio s1) a = xip E (sio s) a"
      "rc = 0 \<Longrightarrow> xip E (sio s1) = sector_at FS_FLASH_OFFSET (sb_pages (superblock_ram s))
         (sector_at (FILE_FLASH_OFFSET (of_file_idx ?f)) (fs_buffer s) (xip E (sio s)))"
      "flash_works E \<Longrightarrow> rc = 0"
      by (rule commit_spec [OF flash c sb_wf_parts [OF p] parts_okD(3) [OF p], of "of_file_idx ?f"], rule that; (assumption | blast))
    have e: "fs_close_body E fd s = Some (rc, upd_fd fd ?clr s1)"
      using True 1(1,7) by (simp add: fs_close_body_def Let_def)
    show ?thesis by (rule that [OF e]) (use 1 p' wr True in \<open>simp_all add: fs_inv_def\<close>)
  qed
qed

text \<open>Deleting file \<open>i\<close> closes its descriptors.\<close>

definition drop_fds :: "nat \<Rightarrow> (nat \<Rightarrow> fs_open_fd) \<Rightarrow> nat \<Rightarrow> fs_open_fd" where
  "drop_fds i fds k = (if k < FS_MAX_OPEN_FDS \<and> of_used (fds k) \<and> of_file_idx (fds k) = i
     then (fds k)\<lparr>of_used := False, of_dirty := False\<rparr> else fds k)"

lemma parts_ok_delete:
  assumes p: "parts_ok sb buf own fds" and i: "i < FS_MAX_FILES" and sb: "sb_files sb' = (sb_files sb)[i := entry_zero]"
    and magic: "sb_magic sb' = sb_magic sb" "sb_version sb' = sb_version sb"
  shows "parts_ok sb' buf (if own = Some i then None else own) (drop_fds i fds)"
proof -
  have u: "of_used (drop_fds i fds k) \<longleftrightarrow> of_used (fds k) \<and> of_file_idx (fds k) \<noteq> i" if "k < FS_MAX_OPEN_FDS" for k
    using that by (auto simp: drop_fds_def)
  have same: "of_file_idx (drop_fds i fds k) = of_file_idx (fds k)" "of_pos (drop_fds i fds k) = of_pos (fds k)"
    "of_mode (drop_fds i fds k) = of_mode (fds k)" for k by (simp_all add: drop_fds_def)
  have w: "writer (drop_fds i fds k) \<longleftrightarrow> writer (fds k) \<and> of_file_idx (fds k) \<noteq> i" if "k < FS_MAX_OPEN_FDS" for k
    using u [OF that] same by (simp add: writer_def conj_ac)
  have d: "of_dirty (drop_fds i fds k) \<Longrightarrow> of_dirty (fds k) \<and> (of_used (fds k) \<longrightarrow> of_file_idx (fds k) \<noteq> i)" if "k < FS_MAX_OPEN_FDS" for k
    using that by (auto simp: drop_fds_def split: if_splits)
  have e: "sb_files sb' ! j = (if j = i then entry_zero else sb_files sb ! j)" if "j < FS_MAX_FILES" for j
    using that i parts_okD(2) [OF p] by (simp add: sb)
  show ?thesis unfolding parts_ok_def same
  proof (intro conjI)
    show "sb_magic sb' = FS_SUPERBLOCK_MAGIC" "sb_version sb' = 1" using p by (simp_all add: magic parts_ok_def)
    show "length (sb_files sb') = FS_MAX_FILES" using parts_okD(2) [OF p] by (simp add: sb)
    show "\<forall>j<FS_MAX_FILES. entry_ok (sb_files sb' ! j)" using parts_okD(1) [OF p] entry_zero_ok by (simp add: e)
    show "length buf = FS_BLOCK_SIZE" by (rule parts_okD(3) [OF p])
    show "\<forall>k<FS_MAX_OPEN_FDS. of_used (drop_fds i fds k) \<longrightarrow> of_file_idx (fds k) < FS_MAX_FILES \<and>
        fe_used (sb_files sb' ! of_file_idx (fds k)) \<and> unat (of_pos (fds k)) \<le> FS_BLOCK_SIZE"
      using parts_okD(4,5,6) [OF p] by (simp add: u e)
    show "\<forall>k<FS_MAX_OPEN_FDS. of_dirty (drop_fds i fds k) \<longrightarrow> writer (drop_fds i fds k)"
      using d parts_okD(7) [OF p] w by (auto simp: writer_def)
    show "\<forall>k<FS_MAX_OPEN_FDS. writer (drop_fds i fds k) \<longrightarrow>
        (if own = Some i then None else own) = Some (of_file_idx (fds k))"
      using parts_okD(8) [OF p] by (auto simp: w)
    show "\<forall>j<FS_MAX_OPEN_FDS. \<forall>k<FS_MAX_OPEN_FDS. writer (drop_fds i fds j) \<longrightarrow> writer (drop_fds i fds k) \<longrightarrow> j = k"
      using parts_okD(9) [OF p] w by blast
    show "(if own = Some i then None else own) \<noteq> None \<longrightarrow> (\<exists>k<FS_MAX_OPEN_FDS. writer (drop_fds i fds k))"
      using p parts_okD(8) [OF p] w unfolding parts_ok_def by (metis option.inject)
  qed
qed

lemma delete_body_inv:
  fixes s :: "('h, 'a) fs_state_scheme"
  assumes flash: "flash_ok E" "resume_ok E" and inv: "fs_inv s"
  obtains r s' where "fs_delete_body E name s = Some (r, s')" "fs_inv s'" "find_file name s = None \<Longrightarrow> r = - 1 \<and> s' = s"
    "\<And>i. find_file name s = Some i \<Longrightarrow> sb_files (superblock_ram s') = (sb_files (superblock_ram s))[i := entry_zero] \<and>
       open_fds s' = drop_fds i (open_fds s)"
proof (cases "find_file name s")
  case None
  with that [of "- 1" s] inv show ?thesis by (simp add: fs_delete_body_def)
next
  case (Some i)
  then have i: "i < FS_MAX_FILES" using find_file_SomeD by blast
  have c: "core_ok s" and p: "parts_ok (superblock_ram s) (fs_buffer s) (scratch_owner s) (open_fds s)"
    using inv by (simp_all add: fs_inv_def)
  define s2 where "s2 = s\<lparr>open_fds := drop_fds i (open_fds s), scratch_owner := (if scratch_owner s = Some i then None else scratch_owner s)\<rparr>"
  define s3 where "s3 = upd_entry i (\<lambda>_. entry_zero) s2"
  define s4 where "s4 = (if 0 < sb_file_count (superblock_ram s3)
      then s3\<lparr>superblock_ram := (superblock_ram s3)\<lparr>sb_file_count := sb_file_count (superblock_ram s3) - 1\<rparr>\<rparr> else s3)"
  have m: "sb_magic (superblock_ram s4) = sb_magic (superblock_ram s)" "sb_version (superblock_ram s4) = sb_version (superblock_ram s)"
    by (simp_all add: s2_def s3_def s4_def)
  have f: "sb_files (superblock_ram s4) = (sb_files (superblock_ram s))[i := entry_zero]" "open_fds s4 = drop_fds i (open_fds s)"
    "scratch_owner s4 = (if scratch_owner s = Some i then None else scratch_owner s)" "fs_buffer s4 = fs_buffer s" "core_ok s4"
    using c by (simp_all add: s2_def s3_def s4_def)
  have i4: "fs_inv s4" using parts_ok_delete [OF p i f(1) m] f by (simp add: fs_inv_def)
  have "(\<lambda>k. if k < FS_MAX_OPEN_FDS \<and> of_used (open_fds s k) \<and> of_file_idx (open_fds s k) = i
           then (open_fds s k)\<lparr>of_used := False, of_dirty := False\<rparr> else open_fds s k) = drop_fds i (open_fds s)"
    by (simp add: fun_eq_iff drop_fds_def)
  moreover have "(if scratch_owner s = Some i then s\<lparr>open_fds := F, scratch_owner := None\<rparr> else s\<lparr>open_fds := F\<rparr>) =
      s\<lparr>open_fds := F, scratch_owner := (if scratch_owner s = Some i then None else scratch_owner s)\<rparr>" for F by simp
  ultimately have body: "fs_delete_body E name s = Option.bind (flash_erase_sector E (FILE_FLASH_OFFSET i) s4)
      (\<lambda>(rc, s5). if rc \<noteq> 0 then Some (- 1, s5) else Option.bind (superblock_flush E s5) (\<lambda>(rc2, s6). Some (if rc2 \<noteq> 0 then - 1 else 0, s6)))"
    using Some by (simp add: fs_delete_body_def Let_def s4_def s3_def s2_def)
  obtain rc s5 where 5: "flash_erase_sector E (FILE_FLASH_OFFSET i) s4 = Some (rc, s5)" "keeps s4 s5"
    by (rule erase_spec [OF flash f(5), of "FILE_FLASH_OFFSET i"], rule that; (assumption | blast))
  have i5: "fs_inv s5" by (rule fs_inv_keeps [OF 5(2) i4])
  then have c5: "core_ok s5" "sb_wf (superblock_ram s5)" using sb_wf_parts by (auto simp: fs_inv_def)
  obtain rc2 s6 where 6: "superblock_flush E s5 = Some (rc2, s6)" "keeps s5 s6"
    by (rule sb_flush_spec [OF flash c5], rule that; (assumption | blast))
  have k: "superblock_ram s5 = superblock_ram s4" "open_fds s5 = open_fds s4" "superblock_ram s6 = superblock_ram s4" "open_fds s6 = open_fds s4"
    using 5(2) 6(2) by (simp_all add: keeps_def)
  show ?thesis
  proof (cases "rc = 0")
    case True
    show ?thesis by (rule that [of "if rc2 \<noteq> 0 then - 1 else 0" s6])
        (use body 5 6 True k f Some fs_inv_keeps [OF 6(2) i5] in \<open>simp_all\<close>)
  next
    case False
    show ?thesis by (rule that [of "- 1" s5]) (use body 5 False k f Some i5 in \<open>simp_all\<close>)
  qed
qed

lemma erase_loop_keeps:
  fixes s :: "('h, 'a) fs_state_scheme"
  assumes flash: "flash_ok E" "resume_ok E"
  shows "core_ok s \<Longrightarrow> \<exists>s'. erase_loop E is s = Some s' \<and> keeps s s'"
proof (induction "is" arbitrary: s)
  case Nil
  then show ?case by (simp add: keeps_def)
next
  case (Cons i "is")
  obtain rc s1 where 1: "flash_erase_sector E (FS_FLASH_OFFSET + i * FS_BLOCK_SIZE) s = Some (rc, s1)" "keeps s s1"
    by (rule erase_spec [OF flash Cons.prems, of "FS_FLASH_OFFSET + i * FS_BLOCK_SIZE"], rule that; (assumption | blast))
  then have "core_ok s1" by (simp add: keeps_def)
  from Cons.IH [OF this] 1 show ?case by (auto intro: keeps_trans)
qed

text \<open>A formatted file system: no file, no open descriptor.\<close>

definition fs_blank :: "('h, 'a) fs_state_scheme \<Rightarrow> bool" where
  "fs_blank s \<longleftrightarrow> superblock_ram s = sb_zero\<lparr>sb_magic := FS_SUPERBLOCK_MAGIC, sb_version := 1, sb_file_count := 0\<rparr> \<and>
     scratch_owner s = None \<and> (\<forall>k<FS_MAX_OPEN_FDS. \<not> of_used (open_fds s k) \<and> \<not> of_dirty (open_fds s k))"

lemma sb_zero_parts: "sb_magic sb = FS_SUPERBLOCK_MAGIC \<Longrightarrow> sb_version sb = 1 \<Longrightarrow> sb_files sb = replicate FS_MAX_FILES entry_zero \<Longrightarrow> length buf = FS_BLOCK_SIZE \<Longrightarrow>
    \<forall>k<FS_MAX_OPEN_FDS. \<not> of_used (fds k) \<and> \<not> of_dirty (fds k) \<Longrightarrow> parts_ok sb buf None fds"
  using entry_zero_ok by (simp add: parts_ok_def writer_def)

lemma format_body_inv:
  fixes s :: "('h, 'a) fs_state_scheme"
  assumes flash: "flash_ok E" "resume_ok E" and c: "core_ok s" and len: "length (fs_buffer s) = FS_BLOCK_SIZE"
  obtains s' where "fs_format_body E s = Some ((), s')" "fs_inv s'" "fs_blank s'"
proof -
  define s1 where "s1 = s\<lparr>open_fds := (\<lambda>i. if i < FS_MAX_OPEN_FDS then (open_fds s i)\<lparr>of_used := False, of_dirty := False\<rparr> else open_fds s i),
      scratch_owner := None\<rparr>"
  have c1: "core_ok s1" using c by (simp add: s1_def)
  then obtain s2 where 2: "erase_loop E [0..<1 + FS_MAX_FILES] s1 = Some s2" "keeps s1 s2"
    using erase_loop_keeps [OF flash] by blast
  define s3 where "s3 = s2\<lparr>superblock_ram := sb_zero\<lparr>sb_magic := FS_SUPERBLOCK_MAGIC, sb_version := 1, sb_file_count := 0\<rparr>\<rparr>"
  have f3: "fs_buffer s3 = fs_buffer s" "scratch_owner s3 = None" "core_ok s3"
    "\<forall>k<FS_MAX_OPEN_FDS. \<not> of_used (open_fds s3 k) \<and> \<not> of_dirty (open_fds s3 k)"
    using 2(2) by (simp_all add: s3_def keeps_def s1_def)
  have i3: "fs_inv s3"
    using sb_zero_parts [of "superblock_ram s3" "fs_buffer s3" "open_fds s3"] f3 len by (simp add: fs_inv_def) (simp add: s3_def sb_zero_def)
  then have "core_ok s3" "sb_wf (superblock_ram s3)" using sb_wf_parts by (auto simp: fs_inv_def)
  from sb_flush_spec [OF flash this] obtain rc s4 where 4: "superblock_flush E s3 = Some (rc, s4)" "keeps s3 s4" by blast
  have p: "fs_inv (fs_printf m s4) = fs_inv s4" "fs_blank (fs_printf m s4) = fs_blank s4" for m
    by (simp_all add: fs_inv_def fs_blank_def fs_printf_def dev_emit_def core_ok_def CURRENT_TCB_def)
  have b: "fs_blank s4" using 4(2) f3 by (simp add: fs_blank_def keeps_def s3_def)
  have e: "fs_format_body E s = Some ((), fs_printf ''[fs] format complete'' s4)"
    unfolding fs_format_body_def Let_def s1_def [symmetric] using 2(1) 4(1) by (simp add: s3_def)
  show thesis by (rule that [OF e]) (use fs_inv_keeps [OF 4(2) i3] b p in simp_all)
qed

section \<open>Histories\<close>

text \<open>
  The file system calls of all threads, each between taking and giving \<open>fs_mutex\<close>, and what the
  rest of the system does in between, which leaves the file system's own state alone.
\<close>

datatype fs_call = FsOpen string u32 | FsRead int u32 | FsWrite int "u8 list" | FsClose int | FsDelete string | FsFormat

definition fs_step ::
  "('h, ('h, 'a) fs_state_scheme) env \<Rightarrow> fs_call \<Rightarrow> ('h, 'a) fs_state_scheme \<Rightarrow> (int \<times> ('h, 'a) fs_state_scheme) option" where
  "fs_step E c s = (case c of
       FsOpen name mode \<Rightarrow> fs_open_body E name mode s
     | FsRead fd n \<Rightarrow> if bad_fd fd s then Some (- 1, s) else map_option (\<lambda>((r, bs), s'). (r, s')) (fs_read_body E (nat fd) n s)
     | FsWrite fd bs \<Rightarrow> if bad_fd fd s then Some (- 1, s) else fs_write_body (nat fd) bs (word_of_nat (length bs)) s
     | FsClose fd \<Rightarrow> if bad_fd fd s then Some (- 1, s) else fs_close_body E (nat fd) s
     | FsDelete name \<Rightarrow> fs_delete_body E (strip_slash name) s
     | FsFormat \<Rightarrow> map_option (\<lambda>(_, s'). (0, s')) (fs_format_body E s))"

inductive fs_reach :: "('h, ('h, 'a) fs_state_scheme) env \<Rightarrow> ('h, 'a) fs_state_scheme \<Rightarrow> bool" for E where
  boot: "core_ok s \<Longrightarrow> length (fs_buffer s) = FS_BLOCK_SIZE \<Longrightarrow> fs_blank s \<Longrightarrow> fs_reach E s"
| call: "fs_reach E s \<Longrightarrow> fs_step E c s = Some (r, s') \<Longrightarrow> fs_reach E s'"
| others: "fs_reach E s \<Longrightarrow> fs_same E s s' \<Longrightarrow> core_ok s' \<Longrightarrow> fs_reach E s'"

lemma bad_fdD: "\<not> bad_fd fd s \<Longrightarrow> nat fd < FS_MAX_OPEN_FDS \<and> of_used (open_fds s (nat fd))"
  by (auto simp: bad_fd_def FS_MAX_OPEN_FDS_def)

lemma unat_word_le: "unat (word_of_nat n :: u32) \<le> n"
  by (simp add: unat_of_nat take_bit_nat_less_eq_self)

lemma fs_step_inv:
  fixes s :: "('h, 'a) fs_state_scheme"
  assumes flash: "flash_ok E" "resume_ok E" and inv: "fs_inv s"
  shows "\<exists>r s'. fs_step E c s = Some (r, s') \<and> fs_inv s'"
proof (cases c)
  case (FsOpen name mode)
  from open_body_inv [OF flash inv, of name mode] obtain r s' where "fs_open_body E name mode s = Some (r, s')" "fs_inv s'" .
  with FsOpen show ?thesis by (simp add: fs_step_def)
next
  case (FsRead fd n)
  show ?thesis
  proof (cases "bad_fd fd s")
    case False
    then have "nat fd < FS_MAX_OPEN_FDS" "of_used (open_fds s (nat fd))" using bad_fdD by blast+
    from read_body_inv [OF inv this, of E n] obtain r s' where "fs_read_body E (nat fd) n s = Some (r, s')" "fs_inv s'" .
    with FsRead False show ?thesis by (cases r) (simp add: fs_step_def)
  qed (use FsRead inv in \<open>simp add: fs_step_def\<close>)
next
  case (FsWrite fd bs)
  show ?thesis
  proof (cases "bad_fd fd s")
    case False
    then have "nat fd < FS_MAX_OPEN_FDS" "of_used (open_fds s (nat fd))" using bad_fdD by blast+
    from write_body_inv [OF inv this unat_word_le] obtain r s' where
      "fs_write_body (nat fd) bs (word_of_nat (length bs)) s = Some (r, s')" "fs_inv s'" .
    with FsWrite False show ?thesis by (simp add: fs_step_def)
  qed (use FsWrite inv in \<open>simp add: fs_step_def\<close>)
next
  case (FsClose fd)
  show ?thesis
  proof (cases "bad_fd fd s")
    case False
    then have "nat fd < FS_MAX_OPEN_FDS" "of_used (open_fds s (nat fd))" using bad_fdD by blast+
    from close_body_inv [OF flash inv this] obtain r s' where "fs_close_body E (nat fd) s = Some (r, s')" "fs_inv s'" by blast
    with FsClose False show ?thesis by (simp add: fs_step_def)
  qed (use FsClose inv in \<open>simp add: fs_step_def\<close>)
next
  case (FsDelete name)
  from delete_body_inv [OF flash inv, of "strip_slash name"] obtain r s' where
    "fs_delete_body E (strip_slash name) s = Some (r, s')" "fs_inv s'" by blast
  with FsDelete show ?thesis by (simp add: fs_step_def)
next
  case FsFormat
  have "core_ok s" "length (fs_buffer s) = FS_BLOCK_SIZE" using inv parts_okD(3) by (auto simp: fs_inv_def)
  from format_body_inv [OF flash this] obtain s' where "fs_format_body E s = Some ((), s')" "fs_inv s'" by blast
  with FsFormat show ?thesis by (simp add: fs_step_def)
qed

lemma fs_reach_inv:
  assumes "flash_ok E" "resume_ok E" and "fs_reach E s"
  shows "fs_inv s"
  using assms(3)
proof induction
  case (boot s)
  then show ?case using sb_zero_parts [of "superblock_ram s" "fs_buffer s" "open_fds s"]
    by (simp add: fs_inv_def fs_blank_def sb_zero_def)
next
  case (call s c r s')
  then show ?case using fs_step_inv [OF assms(1,2), of s c] by auto
next
  case (others s s')
  then show ?case by (simp add: fs_inv_def fs_same_def)
qed


text \<open>A flash of plain memory, and a scheduler that always comes back on core 0.\<close>

definition flash_env :: "(nat \<Rightarrow> u8, (nat \<Rightarrow> u8) fs_state) env" where
  "flash_env = \<lparr>e_sdk = \<lparr>spin_lock_claim_unused = (\<lambda>_. None), spin_lock_claim = (\<lambda>_ _. None),
       spin_lock_init = (\<lambda>n h. (n, h)), spin_lock_is_claimed = (\<lambda>_ _. True), spin_lock_blocking = (\<lambda>_ h. Some (0, h)),
       spin_unlock = (\<lambda>_ _ h. h), spin_unlock_unsafe = (\<lambda>_ h. h), sio_read = (\<lambda>_ h. (1, h)),
       save_and_disable_interrupts = (\<lambda>h. (0, h)), restore_interrupts = (\<lambda>_ h. h)\<rparr>,
     e_board = \<lparr>slice_num = (\<lambda>p. p div 2), pwm_chan = (\<lambda>p. p mod 2), gpio_get = (\<lambda>_. True)\<rparr>,
     e_splash = ''picoOS'', getchar_timeout_us = (\<lambda>h. (None, h)), tud_task_event_ready = (\<lambda>_. False),
     unique_board_id = replicate 8 0, xip = (\<lambda>h. h),
     flash_range_erase = (\<lambda>off n h a. if off \<le> a \<and> a < off + n then 255 else h a),
     flash_range_program = (\<lambda>off bs h a. if off \<le> a \<and> a < off + length bs then and (h a) (bs ! (a - off)) else h a),
     flash_safe_execute = (\<lambda>_ f h. (0, f h)),
     resume = (\<lambda>s. s\<lparr>core_num := 0, current_tcb := (current_tcb s)(0 := CURRENT_TCB s)\<rparr>)\<rparr>"

lemma flash_env_simps [simp]:
  "xip flash_env = (\<lambda>h. h)" "flash_safe_execute flash_env c f h = (0, f h)"
  "flash_range_erase flash_env off n h = (\<lambda>a. if off \<le> a \<and> a < off + n then 255 else h a)"
  "flash_range_program flash_env off bs h = (\<lambda>a. if off \<le> a \<and> a < off + length bs then and (h a) (bs ! (a - off)) else h a)"
  "resume flash_env s = s\<lparr>core_num := 0, current_tcb := (current_tcb s)(0 := CURRENT_TCB s)\<rparr>"
  by (simp_all only: flash_env_def env.simps)

lemma flash_env_ok: "flash_works flash_env" "flash_ok flash_env" "resume_ok flash_env"
  by (simp_all add: flash_works_def flash_ok_def resume_ok_def fs_same_def fun_eq_iff cong: if_cong) (simp_all add: CURRENT_TCB_def)

definition blank_state :: "(nat \<Rightarrow> u8) fs_state \<Rightarrow> (nat \<Rightarrow> u8) fs_state" where
  "blank_state s = s\<lparr>core_num := 0, fs_buffer := replicate FS_BLOCK_SIZE 0, scratch_owner := None, open_fds := (\<lambda>_. open_fd_zero),
     superblock_ram := sb_zero\<lparr>sb_magic := FS_SUPERBLOCK_MAGIC, sb_version := 1, sb_file_count := 0\<rparr>\<rparr>"

lemma blank_state_reach: "fs_reach flash_env (blank_state s)"
  by (rule fs_reach.boot) (simp_all add: blank_state_def core_ok_def fs_blank_def open_fd_zero_def)


section \<open>A file survives a reboot\<close>

lemma find_file_cong:
  assumes "\<And>i. i < FS_MAX_FILES \<Longrightarrow> fe_used (sb_files (superblock_ram s') ! i) = fe_used (sb_files (superblock_ram s) ! i) \<and>
      fe_name (sb_files (superblock_ram s') ! i) = fe_name (sb_files (superblock_ram s) ! i)"
  shows "find_file name s' = find_file name s"
  unfolding find_file_def first_slot_def by (rule find_cong) (simp_all add: assms)

lemma find_file_upd_entry:
  assumes "i < FS_MAX_FILES" "length (sb_files (superblock_ram s)) = FS_MAX_FILES"
    and "\<And>e. fe_used (f e) = fe_used e \<and> fe_name (f e) = fe_name e"
  shows "find_file name (upd_entry i f s) = find_file name s"
  by (rule find_file_cong) (use assms in \<open>simp add: nth_list_update\<close>)

lemma c_string_strip_slash: "c_string (strip_slash name)"
proof -
  have "c_string (tl (cstr name))" using c_string_cstr [of name] by (cases "cstr name") (auto simp: c_string_def)
  then show ?thesis by (simp add: strip_slash_def)
qed

lemma new_entry_match:
  assumes "c_string name" "length name < 16"
  shows "strncmp_eq FS_NAME_MAX (fe_name (new_entry i name)) name"
  using assms by (simp add: strncmp_eq_short new_entry_def cstr_name_array FS_NAME_MAX_def strncpy_z_short)

definition O_REWRITE :: u32 where "O_REWRITE = or VFS_O_WRONLY (or VFS_O_CREAT VFS_O_TRUNC)"

lemma O_REWRITE_bits: "and O_REWRITE VFS_O_WRONLY \<noteq> 0" "and O_REWRITE VFS_O_CREAT \<noteq> 0" "and O_REWRITE VFS_O_TRUNC \<noteq> 0"
  "and O_REWRITE VFS_O_APPEND = 0"
  by (simp_all add: O_REWRITE_def VFS_O_WRONLY_def VFS_O_CREAT_def VFS_O_TRUNC_def VFS_O_APPEND_def)

lemma rewrite_file_eq:
  assumes "scratch_owner s = None" "alloc_open_fd s = Some k" "find_file name s = Some i"
    and "length (sb_files (superblock_ram s)) = FS_MAX_FILES"
  obtains s1 where "fs_open_file E i O_REWRITE s = (int k, s1)" "find_file name s1 = Some i"
    "open_fds s1 k = \<lparr>of_used = True, of_dirty = False, of_file_idx = i, of_pos = 0, of_mode = O_REWRITE\<rparr>"
    "fe_size (sb_files (superblock_ram s1) ! i) = 0"
proof -
  let ?c = "claim_buffer E i O_REWRITE s"
  let ?s = "upd_fd k (\<lambda>_. \<lparr>of_used = True, of_dirty = False, of_file_idx = i, of_pos = 0, of_mode = O_REWRITE\<rparr>) ?c"
  have i: "i < FS_MAX_FILES" using find_file_SomeD [OF assms(3)] by blast
  have c: "?c = upd_entry i (\<lambda>e. e\<lparr>fe_size := 0\<rparr>) (s\<lparr>scratch_owner := Some i, fs_buffer := replicate FS_BLOCK_SIZE 0\<rparr>)"
    using O_REWRITE_bits by (simp add: claim_buffer_def)
  have "alloc_open_fd ?c = Some k" using assms(2) by (simp add: c alloc_open_fd_def)
  then have e: "fs_open_file E i O_REWRITE s = (int k, ?s)"
    using assms(1) O_REWRITE_bits by (simp add: fs_open_file_def Let_def)
  have "find_file name ?s = find_file name s"
    by (rule find_file_cong) (use assms(4) i in \<open>simp add: c nth_list_update\<close>)
  then show thesis by (intro that [OF e]) (use assms(3,4) i in \<open>simp_all add: c\<close>)
qed

lemma open_rewrite:
  fixes s :: "('h, 'a) fs_state_scheme"
  assumes flash: "flash_ok E" "resume_ok E" and inv: "fs_inv s" and nm: "length (strip_slash name) < 16"
    and free: "scratch_owner s = None" "alloc_open_fd s = Some k"
    and room: "find_file (strip_slash name) s \<noteq> None \<or> alloc_file_entry s \<noteq> None"
  obtains i s1 where "fs_step E (FsOpen name O_REWRITE) s = Some (int k, s1)" "fs_inv s1" "find_file (strip_slash name) s1 = Some i"
    "open_fds s1 k = \<lparr>of_used = True, of_dirty = False, of_file_idx = i, of_pos = 0, of_mode = O_REWRITE\<rparr>"
    "fe_size (sb_files (superblock_ram s1) ! i) = 0"
proof (cases "find_file (strip_slash name) s")
  case (Some i)
  have len: "length (sb_files (superblock_ram s)) = FS_MAX_FILES" using inv parts_okD(2) by (auto simp: fs_inv_def)
  obtain s1 where 1: "fs_open_file E i O_REWRITE s = (int k, s1)" "find_file (strip_slash name) s1 = Some i"
    "open_fds s1 k = \<lparr>of_used = True, of_dirty = False, of_file_idx = i, of_pos = 0, of_mode = O_REWRITE\<rparr>"
    "fe_size (sb_files (superblock_ram s1) ! i) = 0"
    using rewrite_file_eq [OF free Some len, of E] by blast
  have "fs_inv (snd (fs_open_file E i O_REWRITE s))"
    using open_file_inv [OF inv] find_file_SomeD [OF Some] by blast
  with 1 Some show ?thesis by (intro that [of s1 i]) (simp_all add: fs_step_def fs_open_body_def)
next
  case None
  obtain r s' where c: "fs_create E (strip_slash name) s = Some (r, s')" "fs_inv s'" "scratch_owner s' = scratch_owner s"
    "open_fds s' = open_fds s" "r = alloc_file_entry s"
    "\<And>i. r = Some i \<Longrightarrow> i < FS_MAX_FILES \<and> \<not> fe_used (sb_files (superblock_ram s) ! i) \<and>
       sb_files (superblock_ram s') = (sb_files (superblock_ram s))[i := new_entry i (strip_slash name)] \<and>
       same_outside FS_FLASH_OFFSET (xip E (sio s)) (xip E (sio s')) \<and>
       (flash_works E \<longrightarrow> xip E (sio s') = sector_at FS_FLASH_OFFSET (sb_pages (superblock_ram s')) (xip E (sio s)))"
    by (rule create_inv [OF flash inv, of "strip_slash name"], rule that; (assumption | blast))
  obtain i where i: "r = Some i" using c(5) room None by auto
  have len: "length (sb_files (superblock_ram s)) = FS_MAX_FILES" "length (sb_files (superblock_ram s')) = FS_MAX_FILES"
    using inv c(2) parts_okD(2) by (auto simp: fs_inv_def)
  have e: "sb_files (superblock_ram s') ! j = (if j = i then new_entry i (strip_slash name) else sb_files (superblock_ram s) ! j)"
    if "j < FS_MAX_FILES" for j using c(6) [OF i] len that by simp
  have no: "\<not> (fe_used (sb_files (superblock_ram s) ! j) \<and> strncmp_eq FS_NAME_MAX (fe_name (sb_files (superblock_ram s) ! j)) (strip_slash name))"
    if "j < FS_MAX_FILES" for j
    using None that by (simp add: find_file_def first_slot_None)
  have f: "find_file (strip_slash name) s' = Some i" unfolding find_file_def
  proof (rule first_slot_eq_unique)
    show "i < FS_MAX_FILES" using c(6) [OF i] by blast
    then show "fe_used (sb_files (superblock_ram s') ! i) \<and> strncmp_eq FS_NAME_MAX (fe_name (sb_files (superblock_ram s') ! i)) (strip_slash name)"
      using new_entry_match [OF c_string_strip_slash nm] by (simp add: e) (simp add: new_entry_def)
    show "j = i" if "j < FS_MAX_FILES" "fe_used (sb_files (superblock_ram s') ! j) \<and>
        strncmp_eq FS_NAME_MAX (fe_name (sb_files (superblock_ram s') ! j)) (strip_slash name)" for j
      using that no [of j] e [of j] by (auto split: if_splits)
  qed
  have free': "scratch_owner s' = None" "alloc_open_fd s' = Some k" using free c(3,4) by (simp_all add: alloc_open_fd_def)
  obtain s1 where 1: "fs_open_file E i O_REWRITE s' = (int k, s1)" "find_file (strip_slash name) s1 = Some i"
    "open_fds s1 k = \<lparr>of_used = True, of_dirty = False, of_file_idx = i, of_pos = 0, of_mode = O_REWRITE\<rparr>"
    "fe_size (sb_files (superblock_ram s1) ! i) = 0"
    using rewrite_file_eq [OF free' f len(2), of E] by blast
  have "fs_inv (snd (fs_open_file E i O_REWRITE s'))"
    using open_file_inv [OF c(2)] find_file_SomeD [OF f] by blast
  moreover have "fs_step E (FsOpen name O_REWRITE) s = Some (int k, s1)"
    using None c(1) i 1(1) O_REWRITE_bits by (simp add: fs_step_def fs_open_body_def)
  ultimately show ?thesis using 1 by (intro that [of s1 i]) simp_all
qed

lemma write_fresh:
  fixes s :: "('h, 'a) fs_state_scheme"
  assumes inv: "fs_inv s" and k: "k < FS_MAX_OPEN_FDS"
    and f: "open_fds s k = \<lparr>of_used = True, of_dirty = False, of_file_idx = i, of_pos = 0, of_mode = O_REWRITE\<rparr>"
    and z: "fe_size (sb_files (superblock_ram s) ! i) = 0" and bs: "bs \<noteq> []" "length bs \<le> FS_BLOCK_SIZE"
  obtains s2 where "fs_step E (FsWrite (int k) bs) s = Some (int (length bs), s2)" "fs_inv s2"
    "take (length bs) (fs_buffer s2) = bs" "fe_size (sb_files (superblock_ram s2) ! i) = word_of_nat (length bs)"
    "of_used (open_fds s2 k)" "of_dirty (open_fds s2 k)" "of_file_idx (open_fds s2 k) = i"
    "\<And>name. find_file name s2 = find_file name s"
proof -
  let ?n = "word_of_nat (length bs) :: u32"
  have n: "unat ?n = length bs" using bs(2) by (intro unat_small) (simp add: FS_BLOCK_SIZE_def)
  have u: "of_used (open_fds s k)" by (simp add: f)
  have p: "parts_ok (superblock_ram s) (fs_buffer s) (scratch_owner s) (open_fds s)" using inv by (simp add: fs_inv_def)
  have i: "i < FS_MAX_FILES" using parts_okD(4) [OF p k u] f by simp
  have c: "write_count (open_fds s k) ?n = length bs" using n bs by (simp add: write_count_def f)
  define b where "b = take 0 (fs_buffer s) @ take (length bs) bs @ drop (0 + length bs) (fs_buffer s)"
  define s2 where "s2 = upd_entry i (\<lambda>e. e\<lparr>fe_size := ?n\<rparr>) (upd_fd k (\<lambda>g. g\<lparr>of_pos := ?n, of_dirty := True\<rparr>) (s\<lparr>fs_buffer := b\<rparr>))"
  have wb: "fs_write_body k bs ?n s = Some (int (length bs), s2)"
    using write_body_eq [of "open_fds s k" s k _ "length bs" ?n bs, OF _ refl refl c [symmetric]] bs O_REWRITE_bits(1) z
    by (simp add: f s2_def b_def)
  have "\<not> bad_fd (int k) s" using k u by (simp add: bad_fd_def)
  with wb have e: "fs_step E (FsWrite (int k) bs) s = Some (int (length bs), s2)" by (simp add: fs_step_def)
  obtain r s' where "fs_write_body k bs ?n s = Some (r, s')" "fs_inv s'"
    using write_body_inv [OF inv k u, of ?n bs] n by (metis order_refl)
  then have i2: "fs_inv s2" using wb by simp
  have "find_file name s2 = find_file name s" for name
    by (rule find_file_cong) (use i parts_okD(2) [OF p] in \<open>simp add: s2_def nth_list_update\<close>)
  then show thesis
    by (intro that [OF e i2]) (use i parts_okD(2) [OF p] in \<open>simp_all add: s2_def b_def f\<close>)
qed

text \<open>Reading back, through the mapped flash, what a sector was written with.\<close>

lemma flash_bytes_sector:
  assumes "xip E h = sector_at off bs F" "n \<le> length bs" "n \<le> FS_BLOCK_SIZE"
  shows "flash_bytes E h off n = take n bs"
  using assms by (intro nth_equalityI) (simp_all add: flash_bytes_def sector_at_def)

lemma mount_sb:
  assumes "xip E h = sector_at FS_FLASH_OFFSET (sb_pages sb) F" "sb_wf sb"
  shows "sb_of (flash_bytes E h FS_FLASH_OFFSET SB_SIZE) = sb"
proof -
  have "flash_bytes E h FS_FLASH_OFFSET SB_SIZE = take SB_SIZE (sb_pages sb)"
    by (rule flash_bytes_sector [OF assms(1)])
      (use length_sb_bytes [OF assms(2)] in \<open>simp_all add: sb_pages_def SB_SIZE_def FS_MAX_FILES_def FS_BLOCK_SIZE_def\<close>)
  also have "\<dots> = sb_bytes sb" using length_sb_bytes [OF assms(2)] by (simp add: sb_pages_def)
  finally show ?thesis using sb_roundtrip [OF assms(2), of "[]"] by simp
qed

text \<open>Mounting an image whose superblock is \<open>sb\<close>, then opening and reading file \<open>i\<close>.\<close>

lemma reboot_read:
  fixes b :: "('h, 'a) fs_state_scheme" and n :: u32
  assumes flash: "xip E (sio b) = sector_at FS_FLASH_OFFSET (sb_pages sb) (sector_at (FILE_FLASH_OFFSET i) buf F)"
    and p: "parts_ok sb buf' own fds" and len: "length buf = FS_BLOCK_SIZE"
    and i: "find_file (strip_slash name) (b\<lparr>superblock_ram := sb\<rparr>) = Some i"
    and sz: "fe_size (sb_files sb ! i) = word_of_nat l" "l \<le> FS_BLOCK_SIZE"
  obtains b1 b2 b3 where "fs_init E pool addr b = Some ((), b1)" "fs_step E (FsOpen name VFS_O_RDONLY) b1 = Some (0, b2)"
    "fs_read_body E 0 n b2 = Some ((int (min (unat n) l), take (min (unat n) l) buf), b3)"
proof -
  have sb: "sb_of (flash_bytes E (sio b) FS_FLASH_OFFSET SB_SIZE) = sb" by (rule mount_sb [OF flash sb_wf_parts [OF p]])
  define b1 where "b1 = fs_printf (''[fs] mounted: '' @ dec (unat (sb_file_count sb)) @ '' file(s) found'')
      (b\<lparr>fs_mutex := kmutex_init pool addr, open_fds := (\<lambda>_. open_fd_zero), scratch_owner := None, superblock_ram := sb\<rparr>)"
  have f1: "superblock_ram b1 = sb" "open_fds b1 = (\<lambda>_. open_fd_zero)" "scratch_owner b1 = None" "sio b1 = sio b"
    by (simp_all add: b1_def fs_printf_def dev_emit_def)
  have init: "fs_init E pool addr b = Some ((), b1)"
    using p by (simp add: fs_init_def Let_def sb parts_ok_def b1_def)
  have ff: "find_file (strip_slash name) b1 = Some i"
    unfolding i [symmetric] by (rule find_file_cong) (simp add: f1)
  have al: "alloc_open_fd b1 = Some 0"
    unfolding alloc_open_fd_def f1 by (simp add: first_slot_Some_iff open_fd_zero_def FS_MAX_OPEN_FDS_def)
  define f where "f = \<lparr>of_used = True, of_dirty = False, of_file_idx = i, of_pos = 0, of_mode = VFS_O_RDONLY\<rparr>"
  define b2 where "b2 = upd_fd 0 (\<lambda>_. f) b1"
  have open2: "fs_step E (FsOpen name VFS_O_RDONLY) b1 = Some (0, b2)"
    by (simp add: fs_step_def fs_open_body_def ff fs_open_file_def al b2_def f_def VFS_O_RDONLY_def VFS_O_WRONLY_def)
  have f2: "open_fds b2 0 = f" "superblock_ram b2 = sb" "sio b2 = sio b" by (simp_all add: b2_def f1)
  have l: "unat (fe_size (sb_files sb ! i)) = l" using sz unat_small [of l] by (simp add: FS_BLOCK_SIZE_def)
  have rc: "read_count f (sb_files sb ! i) n = min (unat n) l" by (simp add: read_count_def f_def l)
  have "xip E (sio b) (FILE_FLASH_OFFSET i + j) = sector_at (FILE_FLASH_OFFSET i) buf F (FILE_FLASH_OFFSET i + j)" for j
    unfolding flash by (simp add: sector_at_def [of FS_FLASH_OFFSET] FILE_FLASH_OFFSET_def)
  then have fb: "flash_bytes E (sio b) (FILE_FLASH_OFFSET i) (min (unat n) l) = take (min (unat n) l) buf"
    using sz(2) len by (intro nth_equalityI) (simp_all add: flash_bytes_def sector_at_def)
  have d: "of_dirty f = False" "of_pos f = 0" "of_file_idx f = i" by (simp_all add: f_def)
  have "unat (fe_size (sb_files sb ! i)) \<le> FS_BLOCK_SIZE" "unat (of_pos f) \<le> FS_BLOCK_SIZE" "f = open_fds b2 0"
    "sb_files sb ! i = sb_files (superblock_ram b2) ! of_file_idx f"
    using l sz(2) by (simp_all add: f2 d)
  note eq = read_body_eq [OF this, of E n]
  have "fs_read_body E 0 n b2 = Some ((int (min (unat n) l), take (min (unat n) l) buf),
      upd_fd 0 (\<lambda>g. g\<lparr>of_pos := word_of_nat (min (unat n) l)\<rparr>) b2)"
    unfolding eq rc d f2 using fb by simp
  then show thesis using that init open2 by blast
qed



section \<open>Names, truncation and readers\<close>

lemma long_name_not_found:
  assumes "fs_inv s" "16 \<le> length (strip_slash name)"
  shows "find_file (strip_slash name) s = None"
proof -
  have "\<not> strncmp_eq FS_NAME_MAX (fe_name (sb_files (superblock_ram s) ! i)) (strip_slash name)" if "i < FS_MAX_FILES" for i
  proof (rule strncmp_eq_long)
    have p: "parts_ok (superblock_ram s) (fs_buffer s) (scratch_owner s) (open_fds s)" using assms(1) by (simp add: fs_inv_def)
    show "length (cstr (fe_name (sb_files (superblock_ram s) ! i))) < FS_NAME_MAX"
      using parts_okD(1) [OF p that] by (simp add: entry_ok_def FS_NAME_MAX_def)
    show "FS_NAME_MAX \<le> length (cstr (strip_slash name))" using assms(2) c_string_strip_slash by (simp add: FS_NAME_MAX_def)
  qed
  then show ?thesis by (simp add: find_file_def first_slot_None)
qed

lemma nth_set_size:
  "j < length xs \<Longrightarrow> fe_used (xs[i := (xs ! i)\<lparr>fe_size := z\<rparr>] ! j) = fe_used (xs ! j)"
  "j < length xs \<Longrightarrow> fe_name (xs[i := (xs ! i)\<lparr>fe_size := z\<rparr>] ! j) = fe_name (xs ! j)"
  by (cases "i = j"; simp)+

lemma open_file_keeps_names:
  assumes "j < FS_MAX_FILES" "length (sb_files (superblock_ram s)) = FS_MAX_FILES"
  shows "fe_used (sb_files (superblock_ram (snd (fs_open_file E i mode s))) ! j) = fe_used (sb_files (superblock_ram s) ! j)"
    "fe_name (sb_files (superblock_ram (snd (fs_open_file E i mode s))) ! j) = fe_name (sb_files (superblock_ram s) ! j)"
  using assms by (simp_all add: fs_open_file_def claim_buffer_def Let_def nth_set_size split: option.split)

text \<open>
  C29. A file whose name has 16 characters or more can be created but never opened, deleted or
  found again: the stored name is cut to 15 characters and the lookup compares 16. Every open
  with \<open>VFS_O_CREAT\<close> under the same name therefore uses up another directory entry, all with the
  same stored name.
\<close>

theorem fs_long_name_never_found:
  fixes s :: "('h, 'a) fs_state_scheme"
  assumes flash: "flash_ok E" "resume_ok E" and reach: "fs_reach E s" and long: "16 \<le> length (strip_slash name)"
  shows "fs_step E (FsOpen name VFS_O_RDONLY) s = Some (- 1, s) \<and> fs_step E (FsDelete name) s = Some (- 1, s) \<and>
     (\<exists>r s'. fs_step E (FsOpen name (or VFS_O_CREAT VFS_O_RDWR)) s = Some (r, s') \<and>
        (case alloc_file_entry s of
           None \<Rightarrow> r = - 1 \<and> s' = s
         | Some i \<Rightarrow> fe_used (sb_files (superblock_ram s') ! i) \<and>
             cstr (fe_name (sb_files (superblock_ram s') ! i)) = take 15 (strip_slash name) \<and>
             find_file (strip_slash name) s' = None))"
proof -
  have inv: "fs_inv s" by (rule fs_reach_inv [OF flash reach])
  note none = long_name_not_found [OF inv long]
  have bits: "and VFS_O_RDONLY VFS_O_CREAT = 0" "and (or VFS_O_CREAT VFS_O_RDWR) VFS_O_CREAT \<noteq> 0"
    by (simp_all add: VFS_O_CREAT_def VFS_O_RDWR_def VFS_O_RDONLY_def)
  let ?m = "or VFS_O_CREAT VFS_O_RDWR"
  obtain r s' where c: "fs_create E (strip_slash name) s = Some (r, s')" "fs_inv s'" "r = alloc_file_entry s"
    "\<And>i. r = Some i \<Longrightarrow> i < FS_MAX_FILES \<and> \<not> fe_used (sb_files (superblock_ram s) ! i) \<and>
       sb_files (superblock_ram s') = (sb_files (superblock_ram s))[i := new_entry i (strip_slash name)] \<and>
       same_outside FS_FLASH_OFFSET (xip E (sio s)) (xip E (sio s')) \<and>
       (flash_works E \<longrightarrow> xip E (sio s') = sector_at FS_FLASH_OFFSET (sb_pages (superblock_ram s')) (xip E (sio s)))"
    "r = None \<Longrightarrow> s' = s"
    by (rule create_inv [OF flash inv, of "strip_slash name"], rule that; (assumption | blast))
  have refuse: "fs_step E (FsOpen name VFS_O_RDONLY) s = Some (- 1, s)" "fs_step E (FsDelete name) s = Some (- 1, s)"
    using none bits by (simp_all add: fs_step_def fs_open_body_def fs_delete_body_def)
  show ?thesis
  proof (cases "alloc_file_entry s")
    case None
    with c have "fs_step E (FsOpen name ?m) s = Some (- 1, s)"
      using none bits by (simp add: fs_step_def fs_open_body_def)
    with None refuse show ?thesis by simp
  next
    case (Some i)
    let ?r = "fs_open_file E i ?m s'"
    have ri: "r = Some i" using Some c(3) by simp
    have e: "fs_step E (FsOpen name ?m) s = Some (fst ?r, snd ?r)"
      using none bits c(1) ri by (simp add: fs_step_def fs_open_body_def)
    have i: "i < FS_MAX_FILES" using c(4) [OF ri] by blast
    have len: "length (sb_files (superblock_ram s)) = FS_MAX_FILES" "length (sb_files (superblock_ram s')) = FS_MAX_FILES"
      using inv c(2) parts_okD(2) by (auto simp: fs_inv_def)
    have n: "sb_files (superblock_ram s') ! i = new_entry i (strip_slash name)" using c(4) [OF ri] i len by simp
    have u: "fe_used (sb_files (superblock_ram s') ! i)" unfolding n by (simp add: new_entry_def)
    have cn: "cstr (fe_name (sb_files (superblock_ram s') ! i)) = take 15 (strip_slash name)"
      unfolding n using c_string_strip_slash [of name] by (simp add: new_entry_def cstr_name_array FS_NAME_MAX_def strncpy_z_def)
    have inv': "fs_inv (snd ?r)" by (rule open_file_inv [OF c(2) i u])
    have "fe_used (sb_files (superblock_ram (snd ?r)) ! i) \<and>
        cstr (fe_name (sb_files (superblock_ram (snd ?r)) ! i)) = take 15 (strip_slash name) \<and> find_file (strip_slash name) (snd ?r) = None"
      using long_name_not_found [OF inv' long] u cn open_file_keeps_names [OF i len(2), of E i ?m] by simp
    moreover obtain r0 s0 where "?r = (r0, s0)" by (cases ?r)
    ultimately show ?thesis using refuse e Some by simp
  qed
qed

theorem fs_long_name_never_found_witness:
  "\<forall>s. fs_step flash_env (FsOpen ''/a_rather_long_name.txt'' VFS_O_RDONLY) (blank_state s) = Some (- 1, blank_state s)"
proof
  fix s
  have "16 \<le> length (strip_slash ''/a_rather_long_name.txt'')" by (simp add: strip_slash_def cstr_def)
  from fs_long_name_never_found [OF flash_env_ok(2,3) blank_state_reach this]
  show "fs_step flash_env (FsOpen ''/a_rather_long_name.txt'' VFS_O_RDONLY) (blank_state s) = Some (- 1, blank_state s)" by blast
qed

text \<open>
  Opening a file with \<open>VFS_O_TRUNC\<close> and closing it again empties it only until the next reboot:
  the size in the RAM mirror is zero, but nothing is written to the flash, so the next mount finds
  the old size and contents.
\<close>

lemma fs_truncate_not_persistent:
  fixes s :: "('h, 'a) fs_state_scheme"
  assumes inv: "fs_inv s" and ff: "find_file (strip_slash name) s = Some i"
    and free: "scratch_owner s = None" "alloc_open_fd s = Some k"
  shows "\<exists>s1 s2. fs_step E (FsOpen name O_REWRITE) s = Some (int k, s1) \<and> fs_step E (FsClose (int k)) s1 = Some (0, s2) \<and>
     fe_size (sb_files (superblock_ram s2) ! i) = 0 \<and> sio s2 = sio s"
proof -
  have len: "length (sb_files (superblock_ram s)) = FS_MAX_FILES" using inv parts_okD(2) by (auto simp: fs_inv_def)
  have i: "i < FS_MAX_FILES" using find_file_SomeD [OF ff] by blast
  have k: "k < FS_MAX_OPEN_FDS" using alloc_fd_SomeD [OF free(2)] by blast
  let ?s1 = "upd_fd k (\<lambda>_. \<lparr>of_used = True, of_dirty = False, of_file_idx = i, of_pos = 0, of_mode = O_REWRITE\<rparr>)
      (upd_entry i (\<lambda>e. e\<lparr>fe_size := 0\<rparr>) (s\<lparr>scratch_owner := Some i, fs_buffer := replicate FS_BLOCK_SIZE 0\<rparr>))"
  let ?s2 = "upd_fd k (\<lambda>f. f\<lparr>of_used := False, of_dirty := False\<rparr>) (?s1\<lparr>scratch_owner := None\<rparr>)"
  have "fs_step E (FsOpen name O_REWRITE) s = Some (int k, ?s1)"
    using ff free O_REWRITE_bits
    by (simp add: fs_step_def fs_open_body_def fs_open_file_def claim_buffer_def Let_def) (simp add: alloc_open_fd_def claim_buffer_def)
  moreover have "fs_step E (FsClose (int k)) ?s1 = Some (0, ?s2)"
    using k O_REWRITE_bits by (simp add: fs_step_def bad_fd_def fs_close_body_def Let_def)
  ultimately show ?thesis using i len by (intro exI [of _ ?s1] exI [of _ ?s2] conjI) simp_all
qed

definition one_file :: "(nat \<Rightarrow> u8) fs_state \<Rightarrow> (nat \<Rightarrow> u8) fs_state" where
  "one_file s = upd_entry 0 (\<lambda>_. (new_entry 0 ''log'')\<lparr>fe_size := 700\<rparr>) (blank_state s)"

text \<open>
  A reader sees nothing of what a writer of the same file has put into the buffer, but sees its
  size: bytes are taken from the flash up to the length in the RAM mirror.
\<close>

lemma fs_reader_sees_flash:
  assumes "unat (fe_size e) \<le> FS_BLOCK_SIZE" "unat (of_pos f) \<le> FS_BLOCK_SIZE"
    and "f = open_fds s r" "e = sb_files (superblock_ram s) ! of_file_idx f" and "\<not> of_dirty f"
  shows "\<exists>s'. fs_read_body E r n s = Some ((int (read_count f e n),
    flash_bytes E (sio s) (FILE_FLASH_OFFSET (of_file_idx f) + unat (of_pos f)) (read_count f e n)), s')"
  using read_body_eq [OF assms(1-4)] assms(5) by simp

end
