(* ===== verification/Vfs.thy ===== *)
theory Vfs
  imports Fs
begin

text \<open>
  \<open>src/kernel/vfs.c\<close>: file descriptors over devices and files. A path in the mount table is a
  device; every other path goes to the file system of \<open>Fs\<close>. Each operation is a body between
  \<open>kmutex_lock(&vfs_lock)\<close> and \<open>kmutex_unlock(&vfs_lock)\<close>; the build has the display and LED devices.
\<close>

section \<open>State\<close>

definition VFS_MAX_OPEN :: nat where "VFS_MAX_OPEN = 16"
definition VFS_PATH_MAX :: nat where "VFS_PATH_MAX = 64"
definition VFS_MAX_DEV_MOUNTS :: nat where "VFS_MAX_DEV_MOUNTS = 8"

datatype vfs_type_t = VFS_TYPE_FILE | VFS_TYPE_DEV

record vfs_fd_t =
  vf_used :: bool
  vf_type :: vfs_type_t
  vf_path :: string
  vf_pos :: u32
  vf_dev_id :: dev_id
  vf_fs_file_id :: u32
  vf_mode :: u32

record dev_mount_t =
  dm_used :: bool
  dm_path :: string
  dm_id :: dev_id

record 'h vfs_state = "'h fs_state" +
  fd_table :: "nat \<Rightarrow> vfs_fd_t"
  dev_mounts :: "nat \<Rightarrow> dev_mount_t"
  vfs_lock :: kmutex_t

text \<open>\<open>memset(\<dots>, 0, \<dots>)\<close>; the enumerations start with \<open>VFS_TYPE_FILE\<close> and \<open>DEV_CONSOLE\<close>.\<close>

definition vfs_fd_zero :: vfs_fd_t where
  "vfs_fd_zero = \<lparr>vf_used = False, vf_type = VFS_TYPE_FILE, vf_path = replicate VFS_PATH_MAX CHR 0x00, vf_pos = 0,
     vf_dev_id = DEV_CONSOLE, vf_fs_file_id = 0, vf_mode = 0\<rparr>"

definition dev_mount_zero :: dev_mount_t where
  "dev_mount_zero = \<lparr>dm_used = False, dm_path = replicate VFS_PATH_MAX CHR 0x00, dm_id = DEV_CONSOLE\<rparr>"

definition upd_vfd :: "nat \<Rightarrow> (vfs_fd_t \<Rightarrow> vfs_fd_t) \<Rightarrow> ('h, 'a) vfs_state_scheme \<Rightarrow> ('h, 'a) vfs_state_scheme" where
  "upd_vfd fd f s = s\<lparr>fd_table := (fd_table s)(fd := f (fd_table s fd))\<rparr>"

section \<open>Mounting\<close>

definition vfs_mount_dev :: "string option \<Rightarrow> dev_id \<Rightarrow> ('h, 'a) vfs_state_scheme \<Rightarrow> int \<times> ('h, 'a) vfs_state_scheme" where
  "vfs_mount_dev path did s = (case path of
       None \<Rightarrow> (- 1, s)
     | Some p \<Rightarrow> (case first_slot (\<lambda>i. \<not> dm_used (dev_mounts s i)) VFS_MAX_DEV_MOUNTS of
           None \<Rightarrow> (- 1, s)
         | Some i \<Rightarrow> (0, s\<lparr>dev_mounts := (dev_mounts s)
             (i := \<lparr>dm_used = True, dm_path = name_array VFS_PATH_MAX p, dm_id = did\<rparr>)\<rparr>)))"

definition standard_mounts :: "(string \<times> dev_id) list" where
  "standard_mounts = [(''/dev/console'', DEV_CONSOLE), (''/dev/timer'', DEV_TIMER), (''/dev/flash'', DEV_FLASH),
     (''/dev/gpio'', DEV_GPIO), (''/dev/display'', DEV_DISPLAY), (''/dev/led'', DEV_LED)]"

definition vfs_init :: "(nat \<Rightarrow> spinlock_t) \<Rightarrow> nat \<Rightarrow> ('h, 'a) vfs_state_scheme \<Rightarrow> ('h, 'a) vfs_state_scheme" where
  "vfs_init pool addr s = fold (\<lambda>(path, did) s. snd (vfs_mount_dev (Some path) did s)) standard_mounts
     (s\<lparr>vfs_lock := kmutex_init pool addr,
        fd_table := (\<lambda>i. if i < VFS_MAX_OPEN then vfs_fd_zero\<lparr>vf_used := False\<rparr> else fd_table s i),
        dev_mounts := (\<lambda>i. if i < VFS_MAX_DEV_MOUNTS then dev_mount_zero\<lparr>dm_used := False\<rparr> else dev_mounts s i)\<rparr>)"

section \<open>Lookup\<close>

definition fd_alloc :: "('h, 'a) vfs_state_scheme \<Rightarrow> nat option" where
  "fd_alloc s = first_slot (\<lambda>i. \<not> vf_used (fd_table s i)) VFS_MAX_OPEN"

definition dev_mount_find :: "string \<Rightarrow> ('h, 'a) vfs_state_scheme \<Rightarrow> nat option" where
  "dev_mount_find path s = first_slot (\<lambda>i. dm_used (dev_mounts s i) \<and>
     strncmp_eq VFS_PATH_MAX (dm_path (dev_mounts s i)) path) VFS_MAX_DEV_MOUNTS"

section \<open>Operations\<close>

definition vfs_locked ::
  "('h, ('h, 'a) vfs_state_scheme) env \<Rightarrow> (('h, 'a) vfs_state_scheme \<Rightarrow> ('r \<times> ('h, 'a) vfs_state_scheme) option) \<Rightarrow>
     ('h, 'a) vfs_state_scheme \<Rightarrow> ('r \<times> ('h, 'a) vfs_state_scheme) option" where
  "vfs_locked E body s = do {
     s1 \<leftarrow> mutex_lock E vfs_lock (\<lambda>m s. s\<lparr>vfs_lock := m\<rparr>) s;
     (r, s2) \<leftarrow> body s1;
     s3 \<leftarrow> mutex_unlock E vfs_lock (\<lambda>m s. s\<lparr>vfs_lock := m\<rparr>) s2;
     Some (r, s3)
   }"

definition vfs_open_body ::
  "('h, ('h, 'a) vfs_state_scheme) env \<Rightarrow> string \<Rightarrow> u32 \<Rightarrow> ('h, 'a) vfs_state_scheme \<Rightarrow>
     (int \<times> ('h, 'a) vfs_state_scheme) option" where
  "vfs_open_body E path mode s = (case fd_alloc s of
       None \<Rightarrow> Some (- 1, s)
     | Some fd \<Rightarrow> (case dev_mount_find path s of
         Some m \<Rightarrow>
           let did = dm_id (dev_mounts s m);
               (rc, s1) = dev_open E did s
           in if rc < 0 then Some (- 1, s1)
              else Some (int fd, upd_vfd fd (\<lambda>_. \<lparr>vf_used = True, vf_type = VFS_TYPE_DEV, vf_path = name_array VFS_PATH_MAX path,
                vf_pos = 0, vf_dev_id = did, vf_fs_file_id = 0, vf_mode = mode\<rparr>) s1)
       | None \<Rightarrow> do {
           (fs_fd, s1) \<leftarrow> fs_open E (Some path) mode s;
           if fs_fd < 0 then Some (- 1, s1)
           else Some (int fd, upd_vfd fd (\<lambda>_. \<lparr>vf_used = True, vf_type = VFS_TYPE_FILE, vf_path = name_array VFS_PATH_MAX path,
             vf_pos = 0, vf_dev_id = DEV_COUNT, vf_fs_file_id = word_of_int fs_fd, vf_mode = mode\<rparr>) s1)
         }))"

definition vfs_open ::
  "('h, ('h, 'a) vfs_state_scheme) env \<Rightarrow> string option \<Rightarrow> u32 \<Rightarrow> ('h, 'a) vfs_state_scheme \<Rightarrow>
     (int \<times> ('h, 'a) vfs_state_scheme) option" where
  "vfs_open E path mode s = (case path of None \<Rightarrow> Some (- 1, s) | Some p \<Rightarrow> vfs_locked E (vfs_open_body E p mode) s)"

definition bad_vfd :: "int \<Rightarrow> ('h, 'a) vfs_state_scheme \<Rightarrow> bool" where
  "bad_vfd fd s \<longleftrightarrow> fd < 0 \<or> int VFS_MAX_OPEN \<le> fd \<or> \<not> vf_used (fd_table s (nat fd))"

definition advance :: "nat \<Rightarrow> int \<Rightarrow> ('h, 'a) vfs_state_scheme \<Rightarrow> ('h, 'a) vfs_state_scheme" where
  "advance fd result s = (if 0 < result then upd_vfd fd (\<lambda>f. f\<lparr>vf_pos := vf_pos f + word_of_int result\<rparr>) s else s)"

definition vfs_read_body ::
  "('h, ('h, 'a) vfs_state_scheme) env \<Rightarrow> int \<Rightarrow> bool \<Rightarrow> u32 \<Rightarrow> ('h, 'a) vfs_state_scheme \<Rightarrow>
     ((int \<times> u8 list) \<times> ('h, 'a) vfs_state_scheme) option" where
  "vfs_read_body E fd buf n s =
     (if bad_vfd fd s then Some ((- 1, []), s)
      else let f = fd_table s (nat fd)
        in if vf_type f = VFS_TYPE_DEV then (case dev_read E (vf_dev_id f) buf n s of (r, bs, s1) \<Rightarrow> Some ((r, bs), s1))
           else do {
             ((result, bs), s1) \<leftarrow> fs_read E (sint (vf_fs_file_id f)) buf n s;
             Some ((result, bs), advance (nat fd) result s1)
           })"

definition vfs_read ::
  "('h, ('h, 'a) vfs_state_scheme) env \<Rightarrow> int \<Rightarrow> bool \<Rightarrow> u32 \<Rightarrow> ('h, 'a) vfs_state_scheme \<Rightarrow>
     ((int \<times> u8 list) \<times> ('h, 'a) vfs_state_scheme) option" where
  "vfs_read E fd buf n s = vfs_locked E (vfs_read_body E fd buf n) s"

definition vfs_write_body ::
  "('h, ('h, 'a) vfs_state_scheme) env \<Rightarrow> int \<Rightarrow> u8 list option \<Rightarrow> u32 \<Rightarrow> ('h, 'a) vfs_state_scheme \<Rightarrow>
     (int \<times> ('h, 'a) vfs_state_scheme) option" where
  "vfs_write_body E fd buf n s =
     (if bad_vfd fd s then Some (- 1, s)
      else let f = fd_table s (nat fd)
        in if vf_type f = VFS_TYPE_DEV then Some (dev_write E (vf_dev_id f) buf n s)
           else do {
             (result, s1) \<leftarrow> fs_write E (sint (vf_fs_file_id f)) buf n s;
             Some (result, advance (nat fd) result s1)
           })"

definition vfs_write ::
  "('h, ('h, 'a) vfs_state_scheme) env \<Rightarrow> int \<Rightarrow> u8 list option \<Rightarrow> u32 \<Rightarrow> ('h, 'a) vfs_state_scheme \<Rightarrow>
     (int \<times> ('h, 'a) vfs_state_scheme) option" where
  "vfs_write E fd buf n s = vfs_locked E (vfs_write_body E fd buf n) s"

definition vfs_close_body ::
  "('h, ('h, 'a) vfs_state_scheme) env \<Rightarrow> int \<Rightarrow> ('h, 'a) vfs_state_scheme \<Rightarrow> (int \<times> ('h, 'a) vfs_state_scheme) option" where
  "vfs_close_body E fd s =
     (if bad_vfd fd s then Some (- 1, s)
      else do {
        let f = fd_table s (nat fd);
        (rc, s1) \<leftarrow> (if vf_type f = VFS_TYPE_DEV then Some (0, dev_close E (vf_dev_id f) s)
                    else fs_close E (sint (vf_fs_file_id f)) s);
        Some (rc, upd_vfd (nat fd) (\<lambda>f. f\<lparr>vf_used := False\<rparr>) s1)
      })"

definition vfs_close ::
  "('h, ('h, 'a) vfs_state_scheme) env \<Rightarrow> int \<Rightarrow> ('h, 'a) vfs_state_scheme \<Rightarrow> (int \<times> ('h, 'a) vfs_state_scheme) option" where
  "vfs_close E fd s = vfs_locked E (vfs_close_body E fd) s"

section \<open>The mount table\<close>

text \<open>The table that \<open>vfs_init\<close> leaves, slot by slot.\<close>

definition init_mount :: "nat \<Rightarrow> dev_mount_t" where
  "init_mount i = (if i < 6 then (case standard_mounts ! i of (p, did) \<Rightarrow> \<lparr>dm_used = True, dm_path = name_array VFS_PATH_MAX p, dm_id = did\<rparr>)
     else dev_mount_zero)"

lemma mount_slot:
  assumes "i < VFS_MAX_DEV_MOUNTS" "\<not> dm_used (dev_mounts s i)" "\<And>j. j < i \<Longrightarrow> dm_used (dev_mounts s j)"
  shows "vfs_mount_dev (Some p) did s = (0, s\<lparr>dev_mounts := (dev_mounts s)
             (i := \<lparr>dm_used = True, dm_path = name_array VFS_PATH_MAX p, dm_id = did\<rparr>)\<rparr>)"
proof -
  have "first_slot (\<lambda>i. \<not> dm_used (dev_mounts s i)) VFS_MAX_DEV_MOUNTS = Some i"
    using assms by (simp add: first_slot_Some_iff)
  then show ?thesis by (simp add: vfs_mount_dev_def)
qed

lemma mount_fold:
  assumes "\<And>j. j < n \<Longrightarrow> dm_used (dev_mounts s j)" "\<And>j. n \<le> j \<Longrightarrow> j < VFS_MAX_DEV_MOUNTS \<Longrightarrow> \<not> dm_used (dev_mounts s j)"
    and "n + length ms \<le> VFS_MAX_DEV_MOUNTS"
  shows "fold (\<lambda>(path, did) s. snd (vfs_mount_dev (Some path) did s)) ms s = s\<lparr>dev_mounts := (\<lambda>i. if n \<le> i \<and> i < n + length ms
     then \<lparr>dm_used = True, dm_path = name_array VFS_PATH_MAX (fst (ms ! (i - n))), dm_id = snd (ms ! (i - n))\<rparr> else dev_mounts s i)\<rparr>"
  using assms
proof (induction ms arbitrary: s n)
  case (Cons m ms)
  obtain p did where m: "m = (p, did)" by (cases m)
  let ?e = "\<lparr>dm_used = True, dm_path = name_array VFS_PATH_MAX p, dm_id = did\<rparr>"
  let ?s = "s\<lparr>dev_mounts := (dev_mounts s)(n := ?e)\<rparr>"
  let ?G = "\<lambda>i. if Suc n \<le> i \<and> i < Suc n + length ms
     then \<lparr>dm_used = True, dm_path = name_array VFS_PATH_MAX (fst (ms ! (i - Suc n))), dm_id = snd (ms ! (i - Suc n))\<rparr> else dev_mounts ?s i"
  have 1: "snd (vfs_mount_dev (Some p) did s) = ?s" using mount_slot [of n s p did] Cons.prems by simp
  have IH: "fold (\<lambda>(path, did) s. snd (vfs_mount_dev (Some path) did s)) ms ?s = ?s\<lparr>dev_mounts := ?G\<rparr>"
    by (rule Cons.IH) (use Cons.prems in \<open>auto simp: less_Suc_eq\<close>)
  have G: "?G = (\<lambda>i. if n \<le> i \<and> i < n + length (m # ms)
     then \<lparr>dm_used = True, dm_path = name_array VFS_PATH_MAX (fst ((m # ms) ! (i - n))), dm_id = snd ((m # ms) ! (i - n))\<rparr> else dev_mounts s i)"
    by (auto simp: fun_eq_iff nth_Cons' Suc_le_eq m)
  show ?case unfolding m [symmetric] G [symmetric] by (simp only: fold_simps m prod.case 1 IH) simp
next
  case Nil
  have "(\<lambda>i. if n \<le> i \<and> i < n then f i else dev_mounts s i) = dev_mounts s" for f by (rule ext) auto
  then show ?case by simp
qed

lemma vfs_init_mounts:
  assumes "i < VFS_MAX_DEV_MOUNTS"
  shows "dev_mounts (vfs_init pool addr s) i = init_mount i"
proof -
  define s0 where "s0 = s\<lparr>vfs_lock := kmutex_init pool addr,
        fd_table := (\<lambda>i. if i < VFS_MAX_OPEN then vfs_fd_zero\<lparr>vf_used := False\<rparr> else fd_table s i),
        dev_mounts := (\<lambda>i. if i < VFS_MAX_DEV_MOUNTS then dev_mount_zero\<lparr>dm_used := False\<rparr> else dev_mounts s i)\<rparr>"
  have z: "dev_mounts s0 j = dev_mount_zero" if "j < VFS_MAX_DEV_MOUNTS" for j
    using that by (simp add: s0_def dev_mount_zero_def)
  have len: "length standard_mounts = 6" by (simp add: standard_mounts_def)
  have "dev_mounts (vfs_init pool addr s) = (\<lambda>i. if 0 \<le> i \<and> i < 0 + length standard_mounts
     then \<lparr>dm_used = True, dm_path = name_array VFS_PATH_MAX (fst (standard_mounts ! (i - 0))), dm_id = snd (standard_mounts ! (i - 0))\<rparr>
     else dev_mounts s0 i)"
    unfolding vfs_init_def s0_def [symmetric]
    by (subst mount_fold [of 0 s0]) (use z len in \<open>simp_all add: dev_mount_zero_def VFS_MAX_DEV_MOUNTS_def\<close>)
  then show ?thesis using assms z [of i] len by (simp add: init_mount_def split_beta)
qed

lemma find_map: "find P (map f xs) = map_option f (find (\<lambda>x. P (f x)) xs)"
  by (induction xs) simp_all

lemma find_map_of: "map_option (\<lambda>i. snd (ms ! i)) (find (\<lambda>i. x = fst (ms ! i)) [0..<length ms]) = map_of ms x"
proof (induction ms)
  case (Cons m ms)
  have "[0..<length (m # ms)] = 0 # map Suc [0..<length ms]" by (simp add: map_Suc_upt upt_conv_Cons del: upt_Suc)
  then show ?case using Cons by (cases m) (simp add: find_map option.map_comp comp_def)
qed simp

lemma mount_find:
  "dev_mount_find path (vfs_init pool addr s) = find (\<lambda>i. cstr path = fst (standard_mounts ! i)) [0..<length standard_mounts]"
proof -
  let ?s = "vfs_init pool addr s"
  have match: "dm_used (init_mount i) \<and> strncmp_eq VFS_PATH_MAX (dm_path (init_mount i)) path \<longleftrightarrow>
      i < 6 \<and> cstr path = fst (standard_mounts ! i)" for i
  proof (cases "i < 6")
    case True
    then have "standard_mounts ! i \<in> set standard_mounts" by (intro nth_mem) (simp add: standard_mounts_def)
    moreover have "\<forall>m \<in> set standard_mounts. c_string (fst m) \<and> length (fst m) < 64"
      by (simp add: standard_mounts_def c_string_def)
    ultimately have c: "c_string (fst (standard_mounts ! i))" "length (fst (standard_mounts ! i)) < 64" by auto
    then have n: "cstr (name_array VFS_PATH_MAX (fst (standard_mounts ! i))) = fst (standard_mounts ! i)"
      by (simp add: cstr_name_array VFS_PATH_MAX_def strncpy_z_short)
    show ?thesis
    proof (cases "length (cstr path) < 64")
      case short: True
      with True c n show ?thesis by (auto simp: init_mount_def split_beta strncmp_eq_short VFS_PATH_MAX_def)
    next
      case False
      then have "\<not> strncmp_eq VFS_PATH_MAX (name_array VFS_PATH_MAX (fst (standard_mounts ! i))) path"
        using c n by (intro strncmp_eq_long) (simp_all add: VFS_PATH_MAX_def)
      with True False c show ?thesis by (auto simp: init_mount_def split_beta)
    qed
  qed (simp add: init_mount_def dev_mount_zero_def)
  have "dev_mount_find path ?s = first_slot (\<lambda>i. i < 6 \<and> cstr path = fst (standard_mounts ! i)) VFS_MAX_DEV_MOUNTS"
    unfolding dev_mount_find_def first_slot_def
    by (rule find_cong) (auto simp: vfs_init_mounts match)
  also have "\<dots> = find (\<lambda>i. cstr path = fst (standard_mounts ! i)) [0..<length standard_mounts]"
    by (simp add: first_slot_def VFS_MAX_DEV_MOUNTS_def standard_mounts_def upt_rec)
  finally show ?thesis .
qed

text \<open>
  After \<open>vfs_init\<close> a path names a device exactly when it is one of the six device paths, and
  then it is that device; every other path is left to the file system.
\<close>

lemma vfs_device_paths:
  "map_option (\<lambda>i. dm_id (dev_mounts (vfs_init pool addr s) i)) (dev_mount_find path (vfs_init pool addr s)) =
     map_of standard_mounts (cstr path)"
proof -
  let ?s = "vfs_init pool addr s"
  have "dm_id (dev_mounts ?s i) = snd (standard_mounts ! i)" if "dev_mount_find path ?s = Some i" for i
  proof -
    have "i < length standard_mounts" using that unfolding mount_find by (auto simp: find_Some_iff)
    then have "i < 6" by (simp add: standard_mounts_def)
    then show ?thesis by (simp add: vfs_init_mounts VFS_MAX_DEV_MOUNTS_def init_mount_def split_beta)
  qed
  then have "map_option (\<lambda>i. dm_id (dev_mounts ?s i)) (dev_mount_find path ?s) = map_option (\<lambda>i. snd (standard_mounts ! i)) (dev_mount_find path ?s)"
    by (cases "dev_mount_find path ?s") simp_all
  then show ?thesis unfolding mount_find find_map_of .
qed

section \<open>What the calls do to the descriptor tables\<close>

text \<open>The tables that link a VFS descriptor to a file system descriptor.\<close>

definition vtab :: "('h, 'a) vfs_state_scheme \<Rightarrow> (nat \<Rightarrow> fs_open_fd) \<times> (nat \<Rightarrow> vfs_fd_t) \<times> (nat \<Rightarrow> dev_mount_t)" where
  "vtab s = (open_fds s, fd_table s, dev_mounts s)"

text \<open>While a call waits, other threads leave the tables alone: they wait for \<open>vfs_lock\<close>.\<close>

definition resume_quiet :: "('h, ('h, 'a) vfs_state_scheme) env \<Rightarrow> bool" where
  "resume_quiet E \<longleftrightarrow> (\<forall>s. vtab (resume E s) = vtab s)"

lemma kmore_smore:
  fixes s s' :: "('h, 'a) sync_state_scheme"
  shows "kstate.more s' = kstate.more s \<Longrightarrow> sync_state.more s' = sync_state.more s"
  by (cases s; cases s'; simp)

lemma smore_vtab: "sync_state.more s' = sync_state.more s \<Longrightarrow> vtab s' = vtab s"
  by (cases s; cases s'; simp add: vtab_def)

lemma spin_more:
  "spin_acquire D l s = Some (save, l', s') \<Longrightarrow> sync_state.more s' = sync_state.more s"
  "spin_release D l save s = (l', s') \<Longrightarrow> sync_state.more s' = sync_state.more s"
  by (auto simp: spin_acquire_def spin_release_def bind_simps split: prod.splits)

lemma release_more: "sync_state.more (snd (spin_release D l save s)) = sync_state.more s"
  by (simp add: spin_release_def split: prod.split)

lemma yield_more: "sync_state.more (sched_yield core s) = sync_state.more s"
  by (rule kmore_smore) (simp add: frame_simps)

lemma wake_one_more:
  fixes s :: "'a kstate_scheme"
  assumes "wake_one core head s = Some r"
  shows "kstate.more (snd r) = kstate.more s"
proof (rule wake_one.raw_induct [where P = "\<lambda>core head s r. kstate.more (snd r) = kstate.more s", OF _ assms])
  fix w :: "nat \<Rightarrow> nat option \<Rightarrow> 'a kstate_scheme \<Rightarrow> (nat option \<times> 'a kstate_scheme) option" and core head s r
  assume IH: "\<And>core head s r. w core head s = Some r \<Longrightarrow> kstate.more (snd r) = kstate.more s"
  assume a: "(case waiter_dequeue head s of
       (None, head', s') \<Rightarrow> Some (head', s')
     | (Some t, head', s') \<Rightarrow> Option.bind (sched_unblock core (Some t) s')
         (\<lambda>(woken, s''). if woken then Some (head', s'') else w core head' s'')) = Some r"
  obtain t head' s1 where d: "waiter_dequeue head s = (t, head', s1)" by (metis prod_cases3)
  show "kstate.more (snd r) = kstate.more s"
  proof (cases t)
    case None
    with a d dequeue_more [OF d] show ?thesis by auto
  next
    case (Some u)
    with a d obtain b s2 where "sched_unblock core (Some u) s1 = Some (b, s2)" "(if b then Some (head', s2) else w core head' s2) = Some r"
      by (auto simp: bind_simps)
    with dequeue_more [OF d] show ?thesis by (cases b) (auto dest!: unblock_more IH)
  qed
qed

lemma park_more: "park core head s = Some r \<Longrightarrow> kstate.more (snd r) = kstate.more s"
  by (auto simp: park_def bind_simps dest!: enqueue_more block_more)

lemma kmutex_more:
  "kmutex_lock D core m s = Some (b, m', s') \<Longrightarrow> sync_state.more s' = sync_state.more s"
  "kmutex_unlock D core m s = Some (m', s') \<Longrightarrow> sync_state.more s' = sync_state.more s"
  by (auto simp: kmutex_lock_def kmutex_unlock_def bind_simps Let_def split_beta release_more yield_more
      dest!: spin_more(1) kmore_smore [OF park_more] kmore_smore [OF wake_one_more] split: if_splits)

lemma mutex_lock_vtab:
  fixes s :: "('h, 'a) vfs_state_scheme"
  assumes quiet: "resume_quiet E" and wr: "\<And>m s. vtab (wr m s) = vtab s" and l: "mutex_lock E rd wr s = Some s'"
  shows "vtab s' = vtab s"
proof -
  have "resume_quiet E \<longrightarrow> (\<forall>m s. vtab (wr m s) = vtab s) \<longrightarrow> vtab s' = vtab s"
  proof (rule mutex_lock.raw_induct [where P = "\<lambda>E rd wr s s'. resume_quiet E \<longrightarrow> (\<forall>m s. vtab (wr m s) = vtab s) \<longrightarrow> vtab s' = vtab s", OF _ l])
    fix w :: "('h, ('h, 'a) vfs_state_scheme) env \<Rightarrow> (('h, 'a) vfs_state_scheme \<Rightarrow> kmutex_t) \<Rightarrow>
      (kmutex_t \<Rightarrow> ('h, 'a) vfs_state_scheme \<Rightarrow> ('h, 'a) vfs_state_scheme) \<Rightarrow> ('h, 'a) vfs_state_scheme \<Rightarrow> ('h, 'a) vfs_state_scheme option"
      and E rd wr s s'
    assume IH: "\<And>E rd wr s s'. w E rd wr s = Some s' \<Longrightarrow> resume_quiet E \<longrightarrow> (\<forall>m s. vtab (wr m s) = vtab s) \<longrightarrow> vtab s' = vtab s"
    assume a: "Option.bind (kmutex_lock (e_sdk E) (core_num s) (rd s) s)
      (\<lambda>(got, m, s1). if got then Some (wr m s1) else w E rd wr (resume E (wr m s1))) = Some s'"
    then obtain got m s1 where k: "kmutex_lock (e_sdk E) (core_num s) (rd s) s = Some (got, m, s1)"
      "(if got then Some (wr m s1) else w E rd wr (resume E (wr m s1))) = Some s'"
      by (auto simp: bind_simps)
    have "vtab s1 = vtab s" by (rule smore_vtab [OF kmutex_more(1) [OF k(1)]])
    then show "resume_quiet E \<longrightarrow> (\<forall>m s. vtab (wr m s) = vtab s) \<longrightarrow> vtab s' = vtab s"
      using k(2) IH [of E rd wr "resume E (wr m s1)" s'] by (auto simp: resume_quiet_def split: if_splits)
  qed
  with assms show ?thesis by blast
qed

lemma mutex_unlock_vtab:
  assumes "\<And>m s. vtab (wr m s) = vtab s" and "mutex_unlock E rd wr s = Some s'"
  shows "vtab s' = vtab s"
  using assms by (auto simp: mutex_unlock_def bind_simps dest!: smore_vtab [OF kmutex_more(2)])

lemma pin_core0_vtab:
  fixes s :: "('h, 'a) vfs_state_scheme"
  assumes quiet: "resume_quiet E" and l: "pin_core0 E s = Some s'"
  shows "vtab s' = vtab s"
proof -
  have "resume_quiet E \<longrightarrow> vtab s' = vtab s"
  proof (rule pin_core0.raw_induct [where P = "\<lambda>E s s'. resume_quiet E \<longrightarrow> vtab s' = vtab s", OF _ l])
    fix w :: "('h, ('h, 'a) vfs_state_scheme) env \<Rightarrow> ('h, 'a) vfs_state_scheme \<Rightarrow> ('h, 'a) vfs_state_scheme option" and E s s'
    assume IH: "\<And>E s s'. w E s = Some s' \<Longrightarrow> resume_quiet E \<longrightarrow> vtab s' = vtab s"
    assume a: "(if core_num s \<noteq> 0 then w E (resume E (sched_yield (core_num s) s)) else Some s) = Some s'"
    show "resume_quiet E \<longrightarrow> vtab s' = vtab s"
      using a IH [of E "resume E (sched_yield (core_num s) s)" s'] smore_vtab [OF yield_more, of "core_num s" s]
      by (auto simp: resume_quiet_def split: if_splits)
  qed
  with quiet show ?thesis by blast
qed

lemma vtab_upd [simp]:
  "vtab (upd_tcb t f s) = vtab s" "vtab (s\<lparr>sio := h\<rparr>) = vtab s" "vtab (fs_printf msg s) = vtab s"
  "vtab (upd_entry i e s) = vtab s" "vtab (s\<lparr>superblock_ram := sb\<rparr>) = vtab s" "vtab (s\<lparr>scratch_owner := ow\<rparr>) = vtab s"
  "vtab (s\<lparr>fs_buffer := b\<rparr>) = vtab s" "vtab (s\<lparr>fs_mutex := m\<rparr>) = vtab s" "vtab (s\<lparr>vfs_lock := m\<rparr>) = vtab s"
  "vtab (upd_fd k g s) = ((open_fds s)(k := g (open_fds s k)), fd_table s, dev_mounts s)"
  "vtab (upd_vfd v x s) = (open_fds s, (fd_table s)(v := x (fd_table s v)), dev_mounts s)"
  by (simp_all add: vtab_def upd_tcb_def fs_printf_def dev_emit_def upd_entry_def upd_fd_def upd_vfd_def)

lemma flash_safe_vtab:
  fixes s :: "('h, 'a) vfs_state_scheme"
  assumes "resume_quiet E" "fs_flash_safe E f s = Some (rc, s')"
  shows "vtab s' = vtab s"
proof (cases "CURRENT_TCB s")
  case None
  with assms(2) show ?thesis by (auto simp: fs_flash_safe_def Let_def split_beta)
next
  case (Some t)
  with assms(2) obtain s1 where "pin_core0 E (upd_tcb t (\<lambda>b. b\<lparr>t_affinity := THREAD_AFFINITY_C0\<rparr>) s) = Some s1" "vtab s' = vtab s1"
    by (auto simp: fs_flash_safe_def Let_def split_beta bind_simps)
  with pin_core0_vtab [OF assms(1)] show ?thesis by fastforce
qed

lemma flush_vtab:
  fixes s :: "('h, 'a) vfs_state_scheme"
  assumes "resume_quiet E" "superblock_flush E s = Some (rc, s')"
  shows "vtab s' = vtab s"
  using assms(2)
  by (auto simp: superblock_flush_def flash_erase_sector_def bind_simps dest!: flash_safe_vtab [OF assms(1)] split: if_splits)

lemma fs_locked_vtab:
  fixes s :: "('h, 'a) vfs_state_scheme"
  assumes quiet: "resume_quiet E" and l: "fs_locked E body s = Some (r, s')"
  obtains s1 s2 where "vtab s1 = vtab s" "body s1 = Some (r, s2)" "vtab s' = vtab s2"
proof -
  from l obtain s1 s2 where s: "fs_take_lock E s = Some s1" "body s1 = Some (r, s2)" "fs_give_lock E s2 = Some s'"
    by (auto simp: fs_locked_def bind_simps)
  have "vtab s1 = vtab s" using s(1) mutex_lock_vtab [OF quiet _ , of "\<lambda>m s. s\<lparr>fs_mutex := m\<rparr>"]
    by (auto simp: fs_take_lock_def split: if_splits)
  moreover have "vtab s' = vtab s2" using s(3) mutex_unlock_vtab [of "\<lambda>m s. s\<lparr>fs_mutex := m\<rparr>"]
    by (auto simp: fs_give_lock_def split: if_splits)
  ultimately show thesis using that s(2) by blast
qed

text \<open>Which descriptors are in use, and the VFS table: all that the link between them depends on.\<close>

definition fs_used :: "('h, 'a) vfs_state_scheme \<Rightarrow> nat \<Rightarrow> bool" where
  "fs_used s k = of_used (open_fds s k)"

lemma vtab_same: "vtab s' = vtab s \<Longrightarrow> fs_used s' = fs_used s \<and> fd_table s' = fd_table s"
  by (auto simp: vtab_def fs_used_def)

lemma dev_frame_vtab: "dev_frame d s s' \<Longrightarrow> vtab s' = vtab s"
  unfolding dev_frame_def vtab_def by (elim conjE) (erule ssubst, simp)

lemma open_file_vtab:
  fixes s :: "('h, 'a) vfs_state_scheme"
  assumes "fs_open_file E i mode s = (r, s')"
  shows "r = - 1 \<and> vtab s' = vtab s \<or> (\<exists>k<FS_MAX_OPEN_FDS. r = int k \<and> \<not> fs_used s k \<and> fs_used s' = (fs_used s)(k := True) \<and> fd_table s' = fd_table s)"
proof -
  define s1 where "s1 = (if and mode VFS_O_WRONLY \<noteq> 0 then claim_buffer E i mode s else s)"
  have v: "vtab s1 = vtab s" by (simp add: s1_def claim_buffer_def)
  have o: "open_fds s1 = open_fds s" and t: "fd_table s1 = fd_table s" using v by (simp_all add: vtab_def)
  have al: "alloc_open_fd s1 = alloc_open_fd s" by (simp add: alloc_open_fd_def o)
  consider "and mode VFS_O_WRONLY \<noteq> 0" "scratch_owner s \<noteq> None" | "alloc_open_fd s = None" |
    k where "\<not> (and mode VFS_O_WRONLY \<noteq> 0 \<and> scratch_owner s \<noteq> None)" "alloc_open_fd s = Some k" by fastforce
  then show ?thesis
  proof cases
    case 1
    with assms show ?thesis by (simp add: fs_open_file_def Let_def)
  next
    case 2
    with assms v al show ?thesis
      unfolding s1_def by (auto simp: fs_open_file_def Let_def split: if_splits)
  next
    case 3
    have "fs_open_file E i mode s = (int k, upd_fd k (\<lambda>_. \<lparr>of_used = True, of_dirty = False, of_file_idx = i,
        of_pos = (if and mode VFS_O_WRONLY \<noteq> 0 \<and> and mode VFS_O_APPEND \<noteq> 0 then fe_size (sb_files (superblock_ram s1) ! i) else 0),
        of_mode = mode\<rparr>) s1)"
      unfolding fs_open_file_def Let_def s1_def [symmetric] if_not_P [OF 3(1)] al 3(2) by simp
    then obtain f where "s' = upd_fd k (\<lambda>_. f) s1" "of_used f" "r = int k" using assms by auto
    then show ?thesis using alloc_fd_SomeD [OF 3(2)] o t by (auto simp: fs_used_def fun_eq_iff upd_fd_def)
  qed
qed

lemma fs_open_vtab:
  fixes s :: "('h, 'a) vfs_state_scheme"
  assumes quiet: "resume_quiet E" and l: "fs_open E (Some p) mode s = Some (r, s')"
  shows "r = - 1 \<and> fs_used s' = fs_used s \<and> fd_table s' = fd_table s \<or>
    (\<exists>k<FS_MAX_OPEN_FDS. r = int k \<and> \<not> fs_used s k \<and> fs_used s' = (fs_used s)(k := True) \<and> fd_table s' = fd_table s)"
proof -
  obtain s1 s2 where 1: "vtab s1 = vtab s" "fs_open_body E p mode s1 = Some (r, s2)" "vtab s' = vtab s2"
    by (rule fs_locked_vtab [OF quiet, of "fs_open_body E p mode" s r s']) (use l in \<open>simp_all add: fs_open_def\<close>)
  have create: "vtab s3 = vtab s1" if c: "fs_create E n s1 = Some (i, s3)" for n i s3
    using c flush_vtab [OF quiet] by (fastforce simp: fs_create_def Let_def bind_simps split: option.splits)
  obtain s3 i where "fs_open_file E i mode s3 = (r, s2) \<and> vtab s3 = vtab s1 \<or> r = - 1 \<and> vtab s2 = vtab s1"
    using 1(2) create by (auto simp: fs_open_body_def Let_def bind_simps split: option.splits if_splits) blast+
  then show ?thesis
  proof
    assume a: "fs_open_file E i mode s3 = (r, s2) \<and> vtab s3 = vtab s1"
    then have "fs_used s3 = fs_used s" "fd_table s3 = fd_table s" using vtab_same 1(1) by metis+
    with open_file_vtab a 1(3) vtab_same show ?thesis by metis
  next
    assume "r = - 1 \<and> vtab s2 = vtab s1"
    with 1 vtab_same show ?thesis by metis
  qed
qed

lemma fs_read_vtab:
  fixes s :: "('h, 'a) vfs_state_scheme"
  assumes quiet: "resume_quiet E" and l: "fs_read E fd buf n s = Some (r, s')"
  shows "fs_used s' = fs_used s \<and> fd_table s' = fd_table s"
proof -
  have b: "fs_used s2 = fs_used s1 \<and> fd_table s2 = fd_table s1" if "fs_read_body E k n s1 = Some (r, s2)" for k s1 s2
    using that by (auto simp: fs_read_body_def Let_def fs_used_def upd_fd_def fun_eq_iff split: if_splits)
  show ?thesis
  proof (cases "bad_fd fd s \<or> \<not> buf \<or> n = 0")
    case False
    with l have "fs_locked E (fs_read_body E (nat fd) n) s = Some (r, s')" by (simp add: fs_read_def)
    from fs_locked_vtab [OF quiet this] b vtab_same show ?thesis by metis
  qed (use l in \<open>auto simp: fs_read_def split: if_splits\<close>)
qed

lemma fs_write_vtab:
  fixes s :: "('h, 'a) vfs_state_scheme"
  assumes quiet: "resume_quiet E" and l: "fs_write E fd buf n s = Some (r, s')"
  shows "fs_used s' = fs_used s \<and> fd_table s' = fd_table s"
proof -
  have b: "fs_used s2 = fs_used s1 \<and> fd_table s2 = fd_table s1" if "fs_write_body k bs n s1 = Some (r, s2)" for k bs s1 s2
    using that by (auto simp: fs_write_body_def Let_def fs_used_def upd_fd_def upd_entry_def fun_eq_iff split: if_splits)
  show ?thesis
  proof (cases "bad_fd fd s \<or> buf = None \<or> n = 0")
    case False
    then obtain bs where "fs_locked E (fs_write_body (nat fd) bs n) s = Some (r, s')" using l by (auto simp: fs_write_def)
    from fs_locked_vtab [OF quiet this] b vtab_same show ?thesis by metis
  qed (use l in \<open>auto simp: fs_write_def split: if_splits option.splits\<close>)
qed

lemma fs_close_vtab:
  fixes s :: "('h, 'a) vfs_state_scheme"
  assumes quiet: "resume_quiet E" and l: "fs_close E fd s = Some (r, s')"
  shows "fd_table s' = fd_table s \<and> (if bad_fd fd s then fs_used s' = fs_used s else fs_used s' = (fs_used s)(nat fd := False))"
proof -
  have c: "vtab s2 = vtab s1" if a: "fs_commit E i s1 = Some (rc, s2)" for i rc s1 s2
  proof -
    from a obtain rc1 s3 rc2 s4 where e: "fs_flash_safe E (flash_range_erase E (FILE_FLASH_OFFSET i) FS_BLOCK_SIZE) s1 = Some (rc1, s3)"
      "(if rc1 \<noteq> 0 then Some (- 1, s3) else Option.bind (flash_program_sector E (FILE_FLASH_OFFSET i) (fs_buffer s3) s3)
          (\<lambda>(rc2, s2). Some (if rc2 \<noteq> 0 then - 1 else 0, s2))) = Some (rc2 :: int, s4)"
      "(if rc2 = 0 then Option.bind (superblock_flush E (s4\<lparr>scratch_owner := None\<rparr>)) (\<lambda>(rc3, s4). Some (if rc3 \<noteq> 0 then - 1 else 0, s4))
        else Some (rc2, s4\<lparr>scratch_owner := None\<rparr>)) = Some (rc, s2)"
      unfolding fs_commit_def flash_erase_sector_def Let_def by (auto simp: bind_simps)
    have "vtab s3 = vtab s1" using flash_safe_vtab [OF quiet e(1)] .
    moreover have "vtab s4 = vtab s3" using e(2) flash_safe_vtab [OF quiet]
      by (fastforce simp: flash_program_sector_def bind_simps split: if_splits)
    moreover have "vtab s2 = vtab s4" using e(3) flush_vtab [OF quiet]
      by (fastforce simp: bind_simps split: if_splits)
    ultimately show ?thesis by simp
  qed
  have b: "fs_used s2 = (fs_used s1)(k := False) \<and> fd_table s2 = fd_table s1" if a: "fs_close_body E k s1 = Some (r, s2)" for k s1 s2
  proof -
    from a obtain rc s3 ow where s3: "(if of_dirty (open_fds s1 k) then fs_commit E (of_file_idx (open_fds s1 k)) s1 else Some (0, s1)) = Some (rc, s3)"
      "s2 = upd_fd k (\<lambda>f. f\<lparr>of_used := False, of_dirty := False\<rparr>) (if ow then s3\<lparr>scratch_owner := None\<rparr> else s3)"
      unfolding fs_close_body_def Let_def by (auto simp: bind_simps)
    have "vtab s3 = vtab s1" using s3(1) c by (auto split: if_splits)
    with s3(2) show ?thesis by (auto simp: vtab_def fs_used_def upd_fd_def fun_eq_iff)
  qed
  show ?thesis
  proof (cases "bad_fd fd s")
    case False
    with l have "fs_locked E (fs_close_body E (nat fd)) s = Some (r, s')" by (simp add: fs_close_def)
    from fs_locked_vtab [OF quiet this] obtain s1 s2 where 1: "vtab s1 = vtab s" "fs_close_body E (nat fd) s1 = Some (r, s2)" "vtab s' = vtab s2" .
    with b [OF 1(2)] vtab_same [OF 1(1)] vtab_same [OF 1(3)] False show ?thesis by simp
  qed (use l in \<open>simp add: fs_close_def\<close>)
qed

section \<open>Descriptors of the two layers correspond\<close>

definition file_fd :: "(nat \<Rightarrow> vfs_fd_t) \<Rightarrow> nat \<Rightarrow> nat \<Rightarrow> bool" where
  "file_fd T v k \<longleftrightarrow> vf_used (T v) \<and> vf_type (T v) = VFS_TYPE_FILE \<and> vf_fs_file_id (T v) = word_of_nat k"

text \<open>
  Every file descriptor of the VFS has a file system descriptor of its own, and every file
  system descriptor in use belongs to one.
\<close>

definition linked :: "(nat \<Rightarrow> bool) \<Rightarrow> (nat \<Rightarrow> vfs_fd_t) \<Rightarrow> bool" where
  "linked U T \<longleftrightarrow>
     (\<forall>v<VFS_MAX_OPEN. vf_used (T v) \<and> vf_type (T v) = VFS_TYPE_FILE \<longrightarrow> (\<exists>k<FS_MAX_OPEN_FDS. file_fd T v k \<and> U k)) \<and>
     (\<forall>v<VFS_MAX_OPEN. \<forall>w<VFS_MAX_OPEN. \<forall>k<FS_MAX_OPEN_FDS. file_fd T v k \<longrightarrow> file_fd T w k \<longrightarrow> v = w) \<and>
     (\<forall>k<FS_MAX_OPEN_FDS. U k \<longrightarrow> (\<exists>v<VFS_MAX_OPEN. file_fd T v k))"

lemma fd_word_inj:
  assumes "j < FS_MAX_OPEN_FDS" "k < FS_MAX_OPEN_FDS" and eq: "(word_of_nat j :: u32) = word_of_nat k"
  shows "j = k"
proof -
  have "j < 2 ^ 32" "k < 2 ^ 32" using assms by (simp_all add: FS_MAX_OPEN_FDS_def)
  then show ?thesis using arg_cong [OF eq, of unat] by (simp only: unat_small)
qed

lemma linkedD:
  assumes "linked U T"
  shows "v < VFS_MAX_OPEN \<Longrightarrow> vf_used (T v) \<Longrightarrow> vf_type (T v) = VFS_TYPE_FILE \<Longrightarrow> \<exists>k<FS_MAX_OPEN_FDS. file_fd T v k \<and> U k"
    and "v < VFS_MAX_OPEN \<Longrightarrow> w < VFS_MAX_OPEN \<Longrightarrow> k < FS_MAX_OPEN_FDS \<Longrightarrow> file_fd T v k \<Longrightarrow> file_fd T w k \<Longrightarrow> v = w"
    and "k < FS_MAX_OPEN_FDS \<Longrightarrow> U k \<Longrightarrow> \<exists>v<VFS_MAX_OPEN. file_fd T v k"
proof -
  show "v < VFS_MAX_OPEN \<Longrightarrow> vf_used (T v) \<Longrightarrow> vf_type (T v) = VFS_TYPE_FILE \<Longrightarrow> \<exists>k<FS_MAX_OPEN_FDS. file_fd T v k \<and> U k"
    using assms by (simp add: linked_def)
  show "v < VFS_MAX_OPEN \<Longrightarrow> w < VFS_MAX_OPEN \<Longrightarrow> k < FS_MAX_OPEN_FDS \<Longrightarrow> file_fd T v k \<Longrightarrow> file_fd T w k \<Longrightarrow> v = w"
    using assms unfolding linked_def by metis
  show "k < FS_MAX_OPEN_FDS \<Longrightarrow> U k \<Longrightarrow> \<exists>v<VFS_MAX_OPEN. file_fd T v k"
    using assms by (simp add: linked_def)
qed

text \<open>An entry that stays, or becomes, none of the file descriptors.\<close>

lemma linked_other:
  assumes "linked U T" and "\<not> (vf_used (T v) \<and> vf_type (T v) = VFS_TYPE_FILE)" "\<not> (vf_used e \<and> vf_type e = VFS_TYPE_FILE)"
  shows "linked U (T(v := e))"
proof -
  have f: "file_fd (T(v := e)) w k \<longleftrightarrow> file_fd T w k" for w k using assms(2,3) by (auto simp: file_fd_def)
  have u: "vf_used ((T(v := e)) w) \<and> vf_type ((T(v := e)) w) = VFS_TYPE_FILE \<longleftrightarrow> vf_used (T w) \<and> vf_type (T w) = VFS_TYPE_FILE" for w
    using assms(2,3) by auto
  show ?thesis using assms(1) unfolding linked_def f u .
qed

lemma linked_same:
  assumes "linked U T" and "vf_used e = vf_used (T v)" "vf_type e = vf_type (T v)" "vf_fs_file_id e = vf_fs_file_id (T v)"
  shows "linked U (T(v := e))"
proof -
  have f: "file_fd (T(v := e)) w k \<longleftrightarrow> file_fd T w k" for w k using assms(2-4) by (auto simp: file_fd_def)
  have u: "vf_used ((T(v := e)) w) = vf_used (T w)" "vf_type ((T(v := e)) w) = vf_type (T w)" for w
    using assms(2-4) by simp_all
  show ?thesis using assms(1) unfolding linked_def f u .
qed

lemma linked_open:
  assumes l: "linked U T" and v: "v < VFS_MAX_OPEN" "\<not> vf_used (T v)" and k: "k < FS_MAX_OPEN_FDS" "\<not> U k"
    and e: "vf_used e" "vf_type e = VFS_TYPE_FILE" "vf_fs_file_id e = word_of_nat k"
  shows "linked (U(k := True)) (T(v := e))"
proof -
  have f: "file_fd (T(v := e)) w j \<longleftrightarrow> (if w = v then j = k else file_fd T w j)" if "j < FS_MAX_OPEN_FDS" for w j
    using that k(1) e fd_word_inj by (auto simp: file_fd_def)
  have no: "\<not> file_fd T w k" if "w < VFS_MAX_OPEN" for w
    using linkedD(1) [OF l that] k fd_word_inj unfolding file_fd_def by metis
  have "\<exists>j<FS_MAX_OPEN_FDS. file_fd (T(v := e)) w j \<and> (U(k := True)) j"
    if wf: "w < VFS_MAX_OPEN" "vf_used ((T(v := e)) w)" "vf_type ((T(v := e)) w) = VFS_TYPE_FILE" for w
  proof (cases "w = v")
    case True
    then show ?thesis using k f [OF k(1)] by auto
  next
    case False
    then obtain j where "j < FS_MAX_OPEN_FDS" "file_fd T w j" "U j" using linkedD(1) [OF l wf(1)] wf by auto
    then show ?thesis using f [of j w] False by auto
  qed
  moreover have "w = x" if "w < VFS_MAX_OPEN" "x < VFS_MAX_OPEN" "j < FS_MAX_OPEN_FDS"
    "file_fd (T(v := e)) w j" "file_fd (T(v := e)) x j" for w x j
    using that linkedD(2) [OF l] no f [of j] by (auto split: if_splits)
  moreover have "\<exists>w<VFS_MAX_OPEN. file_fd (T(v := e)) w j" if jU: "j < FS_MAX_OPEN_FDS" "(U(k := True)) j" for j
  proof (cases "j = k")
    case False
    then obtain w where "w < VFS_MAX_OPEN" "file_fd T w j" using linkedD(3) [OF l jU(1)] jU(2) by auto
    moreover have "w \<noteq> v" using \<open>file_fd T w j\<close> v by (auto simp: file_fd_def)
    ultimately show ?thesis using f [OF jU(1), of w] by auto
  qed (use f [OF k(1), of v] v in auto)
  ultimately show ?thesis unfolding linked_def by blast
qed

lemma linked_close:
  assumes l: "linked U T" and v: "v < VFS_MAX_OPEN" and k: "k < FS_MAX_OPEN_FDS" "file_fd T v k"
    and e: "\<not> vf_used e"
  shows "linked (U(k := False)) (T(v := e))"
proof -
  have f: "file_fd (T(v := e)) w j \<longleftrightarrow> w \<noteq> v \<and> file_fd T w j" for w j using e by (auto simp: file_fd_def)
  have "\<exists>j<FS_MAX_OPEN_FDS. file_fd (T(v := e)) w j \<and> (U(k := False)) j"
    if wf: "w < VFS_MAX_OPEN" "vf_used ((T(v := e)) w)" "vf_type ((T(v := e)) w) = VFS_TYPE_FILE" for w
  proof -
    have w: "w \<noteq> v" using wf(2) e by auto
    then obtain j where j: "j < FS_MAX_OPEN_FDS" "file_fd T w j" "U j" using linkedD(1) [OF l wf(1)] wf(2,3) by auto
    then have "j \<noteq> k" using linkedD(2) [OF l wf(1) v k(1)] k(2) w by auto
    with j w show ?thesis by (auto simp: f)
  qed
  moreover have "\<exists>w<VFS_MAX_OPEN. file_fd (T(v := e)) w j" if jU: "j < FS_MAX_OPEN_FDS" "(U(k := False)) j" for j
  proof -
    have "j \<noteq> k" "U j" using jU(2) by (auto split: if_splits)
    then obtain w where w: "w < VFS_MAX_OPEN" "file_fd T w j" using linkedD(3) [OF l jU(1)] by auto
    moreover have "w \<noteq> v" using w(2) k(2) fd_word_inj [OF jU(1) k(1)] \<open>j \<noteq> k\<close> by (auto simp: file_fd_def)
    ultimately show ?thesis by (auto simp: f)
  qed
  moreover have "w = x" if "w < VFS_MAX_OPEN" "x < VFS_MAX_OPEN" "j < FS_MAX_OPEN_FDS"
    "file_fd (T(v := e)) w j" "file_fd (T(v := e)) x j" for w x j
    using that linkedD(2) [OF l] by (auto simp: f)
  ultimately show ?thesis unfolding linked_def by blast
qed

text \<open>The VFS calls, each between taking and giving \<open>vfs_lock\<close>.\<close>

datatype vfs_call = VfsOpen string u32 | VfsRead int bool u32 | VfsWrite int "u8 list option" u32 | VfsClose int

definition vfs_step ::
  "('h, ('h, 'a) vfs_state_scheme) env \<Rightarrow> vfs_call \<Rightarrow> ('h, 'a) vfs_state_scheme \<Rightarrow> (int \<times> ('h, 'a) vfs_state_scheme) option" where
  "vfs_step E c s = (case c of
       VfsOpen path mode \<Rightarrow> vfs_open_body E path mode s
     | VfsRead fd buf n \<Rightarrow> map_option (\<lambda>((r, bs), s'). (r, s')) (vfs_read_body E fd buf n s)
     | VfsWrite fd buf n \<Rightarrow> vfs_write_body E fd buf n s
     | VfsClose fd \<Rightarrow> vfs_close_body E fd s)"

definition vfs_link :: "('h, 'a) vfs_state_scheme \<Rightarrow> bool" where
  "vfs_link s \<longleftrightarrow> linked (fs_used s) (fd_table s)"

lemma vfs_link_cong: "fs_used s' = fs_used s \<Longrightarrow> fd_table s' = fd_table s \<Longrightarrow> vfs_link s' = vfs_link s"
  by (simp add: vfs_link_def)

lemma fs_used_upd_vfd [simp]: "fs_used (upd_vfd v f s) = fs_used s" "fd_table (upd_vfd v f s) = (fd_table s)(v := f (fd_table s v))"
  by (simp_all add: fs_used_def fun_eq_iff upd_vfd_def)

lemma advance_link: "vfs_link (advance v r s) = vfs_link s"
proof (cases "0 < r")
  case True
  have "linked (fs_used s) ((fd_table s)(v := (fd_table s v)\<lparr>vf_pos := x\<rparr>)) = linked (fs_used s) (fd_table s)" for x
    using linked_same [of "fs_used s" "fd_table s" "(fd_table s v)\<lparr>vf_pos := x\<rparr>" v]
      linked_same [of "fs_used s" "(fd_table s)(v := (fd_table s v)\<lparr>vf_pos := x\<rparr>)" "fd_table s v" v] by auto
  with True show ?thesis by (simp add: advance_def vfs_link_def)
qed (simp add: advance_def)

lemma bad_vfdD: "\<not> bad_vfd fd s \<Longrightarrow> nat fd < VFS_MAX_OPEN \<and> vf_used (fd_table s (nat fd))"
  by (auto simp: bad_vfd_def VFS_MAX_OPEN_def)

lemma fd_sint: "k < FS_MAX_OPEN_FDS \<Longrightarrow> sint (word_of_nat k :: u32) = int k"
  by (rule sint_small) (simp add: FS_MAX_OPEN_FDS_def)

lemma open_link:
  fixes s :: "('h, 'a) vfs_state_scheme"
  assumes quiet: "resume_quiet E" and l: "vfs_link s" and a: "vfs_open_body E path mode s = Some (r, s')"
  shows "vfs_link s'"
proof (cases "fd_alloc s")
  case None
  with a l show ?thesis by (simp add: vfs_open_body_def)
next
  case (Some v)
  then have v: "v < VFS_MAX_OPEN" "\<not> vf_used (fd_table s v)"
    unfolding fd_alloc_def using first_slot_SomeD by fastforce+
  show ?thesis
  proof (cases "dev_mount_find path s")
    case dev: (Some m)
    obtain rc s1 where d: "dev_open E (dm_id (dev_mounts s m)) s = (rc, s1)" by (cases "dev_open E (dm_id (dev_mounts s m)) s")
    then have "vtab s1 = vtab s" using dev_frame_vtab [OF dev_frame_ops(1), of E "dm_id (dev_mounts s m)" s] by simp
    then have f: "fs_used s1 = fs_used s" "fd_table s1 = fd_table s" using vtab_same by blast+
    then have l1: "vfs_link s1" using l vfs_link_cong by blast
    show ?thesis
    proof (cases "rc < 0")
      case True
      with a Some dev d l1 show ?thesis by (simp add: vfs_open_body_def Let_def)
    next
      case False
      then obtain e where "s' = upd_vfd v (\<lambda>_. e) s1" "vf_type e = VFS_TYPE_DEV"
        using a Some dev d by (auto simp: vfs_open_body_def Let_def)
      then show ?thesis using linked_other [of "fs_used s1" "fd_table s1" v e] l1 v(2) f by (simp add: vfs_link_def)
    qed
  next
    case None
    with a Some obtain fs_fd s1 where o: "fs_open E (Some path) mode s = Some (fs_fd, s1)"
      "(if fs_fd < 0 then s' = s1 else s' = upd_vfd v (\<lambda>_. \<lparr>vf_used = True, vf_type = VFS_TYPE_FILE, vf_path = name_array VFS_PATH_MAX path,
             vf_pos = 0, vf_dev_id = DEV_COUNT, vf_fs_file_id = word_of_int fs_fd, vf_mode = mode\<rparr>) s1)"
      by (auto simp: vfs_open_body_def bind_simps split: if_splits)
    from fs_open_vtab [OF quiet o(1)] show ?thesis
    proof
      assume "fs_fd = - 1 \<and> fs_used s1 = fs_used s \<and> fd_table s1 = fd_table s"
      with o(2) l show ?thesis using vfs_link_cong [of s1 s] by simp
    next
      assume "\<exists>k<FS_MAX_OPEN_FDS. fs_fd = int k \<and> \<not> fs_used s k \<and> fs_used s1 = (fs_used s)(k := True) \<and> fd_table s1 = fd_table s"
      then obtain k where k: "k < FS_MAX_OPEN_FDS" "fs_fd = int k" "\<not> fs_used s k" "fs_used s1 = (fs_used s)(k := True)" "fd_table s1 = fd_table s"
        by blast
      with o(2) obtain e where e: "s' = upd_vfd v (\<lambda>_. e) s1" "vf_used e" "vf_type e = VFS_TYPE_FILE" "vf_fs_file_id e = word_of_nat k"
        by auto
      have "linked ((fs_used s)(k := True)) ((fd_table s)(v := e))"
        by (rule linked_open) (use l v k(1,3) e(2-4) in \<open>simp_all add: vfs_link_def\<close>)
      then show ?thesis by (simp add: vfs_link_def e(1) k(4,5))
    qed
  qed
qed

lemma close_link:
  fixes s :: "('h, 'a) vfs_state_scheme"
  assumes quiet: "resume_quiet E" and l: "vfs_link s" and a: "vfs_close_body E fd s = Some (r, s')"
  shows "vfs_link s'"
proof (cases "bad_vfd fd s")
  case True
  with a l show ?thesis by (simp add: vfs_close_body_def)
next
  case False
  note v = bad_vfdD [OF False]
  let ?v = "nat fd"
  obtain s1 where s1: "s' = upd_vfd ?v (\<lambda>f. f\<lparr>vf_used := False\<rparr>) s1"
    "(if vf_type (fd_table s ?v) = VFS_TYPE_DEV then Some (0, dev_close E (vf_dev_id (fd_table s ?v)) s)
      else fs_close E (sint (vf_fs_file_id (fd_table s ?v))) s) = Some (r, s1)"
    using a False unfolding vfs_close_body_def Let_def by (auto simp: bind_simps)
  show ?thesis
  proof (cases "vf_type (fd_table s ?v)")
    case VFS_TYPE_DEV
    then have "vtab s1 = vtab s" using s1(2) dev_frame_vtab [OF dev_frame_ops(4)] by auto
    then have f: "fs_used s1 = fs_used s" "fd_table s1 = fd_table s" using vtab_same by blast+
    then show ?thesis using linked_other [of "fs_used s1" "fd_table s1" ?v "(fd_table s1 ?v)\<lparr>vf_used := False\<rparr>"] l VFS_TYPE_DEV
      by (simp add: s1(1) vfs_link_def)
  next
    case VFS_TYPE_FILE
    then obtain k where k: "k < FS_MAX_OPEN_FDS" "file_fd (fd_table s) ?v k" "fs_used s k"
      using linkedD(1) [of "fs_used s" "fd_table s" ?v] l v by (auto simp: vfs_link_def)
    then have "sint (vf_fs_file_id (fd_table s ?v)) = int k" using fd_sint by (simp add: file_fd_def)
    moreover have "\<not> bad_fd (int k) s" using k by (simp add: bad_fd_def fs_used_def)
    ultimately have f: "fd_table s1 = fd_table s" "fs_used s1 = (fs_used s)(k := False)"
      using fs_close_vtab [OF quiet] s1(2) VFS_TYPE_FILE by fastforce+
    have "linked ((fs_used s)(k := False)) ((fd_table s)(?v := (fd_table s ?v)\<lparr>vf_used := False\<rparr>))"
      by (rule linked_close [OF _ _ k(1,2)]) (use l v in \<open>simp_all add: vfs_link_def\<close>)
    then show ?thesis by (simp add: s1(1) vfs_link_def f)
  qed
qed

lemma read_link:
  fixes s :: "('h, 'a) vfs_state_scheme"
  assumes quiet: "resume_quiet E" and l: "vfs_link s" and a: "vfs_read_body E fd buf n s = Some (r, s')"
  shows "vfs_link s'"
proof (cases "bad_vfd fd s")
  case False
  show ?thesis
  proof (cases "vf_type (fd_table s (nat fd))")
    case VFS_TYPE_DEV
    then have "s' = snd (snd (dev_read E (vf_dev_id (fd_table s (nat fd))) buf n s))"
      using a False by (auto simp: vfs_read_body_def Let_def split: prod.splits)
    then have "vtab s' = vtab s" using dev_frame_vtab [OF dev_frame_ops(2)] by blast
    with l show ?thesis using vtab_same vfs_link_cong by blast
  next
    case VFS_TYPE_FILE
    then obtain q s1 where q: "fs_read E (sint (vf_fs_file_id (fd_table s (nat fd)))) buf n s = Some (q, s1)" "s' = advance (nat fd) (fst q) s1"
      using a False by (auto simp: vfs_read_body_def Let_def bind_simps)
    have "vfs_link s1" using fs_read_vtab [OF quiet q(1)] l vfs_link_cong by blast
    then show ?thesis by (simp add: q(2) advance_link)
  qed
qed (use a l in \<open>simp add: vfs_read_body_def\<close>)

lemma write_link:
  fixes s :: "('h, 'a) vfs_state_scheme"
  assumes quiet: "resume_quiet E" and l: "vfs_link s" and a: "vfs_write_body E fd buf n s = Some (r, s')"
  shows "vfs_link s'"
proof (cases "bad_vfd fd s")
  case False
  show ?thesis
  proof (cases "vf_type (fd_table s (nat fd))")
    case VFS_TYPE_DEV
    then have "s' = snd (dev_write E (vf_dev_id (fd_table s (nat fd))) buf n s)"
      using a False by (auto simp: vfs_write_body_def Let_def)
    then have "vtab s' = vtab s" using dev_frame_vtab [OF dev_frame_ops(3)] by blast
    with l show ?thesis using vtab_same vfs_link_cong by blast
  next
    case VFS_TYPE_FILE
    then obtain q s1 where q: "fs_write E (sint (vf_fs_file_id (fd_table s (nat fd)))) buf n s = Some (q, s1)" "s' = advance (nat fd) q s1"
      using a False by (auto simp: vfs_write_body_def Let_def bind_simps)
    have "vfs_link s1" using fs_write_vtab [OF quiet q(1)] l vfs_link_cong by blast
    then show ?thesis by (simp add: q(2) advance_link)
  qed
qed (use a l in \<open>simp add: vfs_write_body_def\<close>)

lemma vfs_step_link:
  fixes s :: "('h, 'a) vfs_state_scheme"
  assumes "resume_quiet E" "vfs_link s" "vfs_step E c s = Some (r, s')"
  shows "vfs_link s'"
  using assms(3) open_link [OF assms(1,2)] close_link [OF assms(1,2)] read_link [OF assms(1,2)] write_link [OF assms(1,2)]
  by (cases c) (auto simp: vfs_step_def)

inductive vfs_reach :: "('h, ('h, 'a) vfs_state_scheme) env \<Rightarrow> ('h, 'a) vfs_state_scheme \<Rightarrow> bool" for E where
  init: "\<forall>k<FS_MAX_OPEN_FDS. \<not> fs_used s k \<Longrightarrow> vfs_reach E (vfs_init pool addr s)"
| call: "vfs_reach E s \<Longrightarrow> vfs_step E c s = Some (r, s') \<Longrightarrow> vfs_reach E s'"
| others: "vfs_reach E s \<Longrightarrow> vtab s' = vtab s \<Longrightarrow> vfs_reach E s'"

lemma vfs_init_tables:
  "fs_used (vfs_init pool addr s) = fs_used s"
  "i < VFS_MAX_OPEN \<Longrightarrow> \<not> vf_used (fd_table (vfs_init pool addr s) i)"
proof -
  have f: "open_fds (fold (\<lambda>(path, did) s. snd (vfs_mount_dev (Some path) did s)) ms t) = open_fds t \<and>
      fd_table (fold (\<lambda>(path, did) s. snd (vfs_mount_dev (Some path) did s)) ms t) = fd_table t" for ms and t :: "('a, 'b) vfs_state_scheme"
    by (induction ms arbitrary: t) (auto simp: vfs_mount_dev_def split: option.split)
  show "fs_used (vfs_init pool addr s) = fs_used s" by (simp add: vfs_init_def fs_used_def fun_eq_iff f)
  show "i < VFS_MAX_OPEN \<Longrightarrow> \<not> vf_used (fd_table (vfs_init pool addr s) i)" by (simp add: vfs_init_def f)
qed

text \<open>
  C30. In every history of VFS calls the two descriptor tables correspond: each VFS descriptor of a
  file has an open file system descriptor, no two share one, and no file system descriptor is
  open without a VFS descriptor, so none leaks, whatever fails.
\<close>

theorem vfs_descriptors_linked:
  fixes s :: "('h, 'a) vfs_state_scheme"
  assumes "resume_quiet E" "vfs_reach E s"
  shows "linked (fs_used s) (fd_table s)"
  using assms(2)
proof induction
  case (init s pool addr)
  then show ?case by (simp add: linked_def file_fd_def vfs_init_tables)
next
  case (call s c r s')
  then show ?case using vfs_step_link [OF assms(1)] by (auto simp: vfs_link_def)
next
  case (others s s')
  then show ?case using vtab_same by fastforce
qed

text \<open>The scheduler of \<open>flash_env\<close>, at the type of the VFS state.\<close>

definition quiet_env :: "(nat \<Rightarrow> u8, (nat \<Rightarrow> u8) vfs_state) env" where
  "quiet_env = \<lparr>e_sdk = \<lparr>spin_lock_claim_unused = (\<lambda>_. None), spin_lock_claim = (\<lambda>_ _. None),
       spin_lock_init = (\<lambda>n h. (n, h)), spin_lock_is_claimed = (\<lambda>_ _. True), spin_lock_blocking = (\<lambda>_ h. Some (0, h)),
       spin_unlock = (\<lambda>_ _ h. h), spin_unlock_unsafe = (\<lambda>_ h. h), sio_read = (\<lambda>_ h. (1, h)),
       save_and_disable_interrupts = (\<lambda>h. (0, h)), restore_interrupts = (\<lambda>_ h. h)\<rparr>,
     e_board = \<lparr>slice_num = (\<lambda>p. p div 2), pwm_chan = (\<lambda>p. p mod 2), gpio_get = (\<lambda>_. True)\<rparr>,
     e_splash = ''picoOS'', getchar_timeout_us = (\<lambda>h. (None, h)), tud_task_event_ready = (\<lambda>_. False),
     unique_board_id = replicate 8 0, xip = (\<lambda>h. h),
     flash_range_erase = (\<lambda>off n h a. if off \<le> a \<and> a < off + n then 255 else h a),
     flash_range_program = (\<lambda>off bs h a. if off \<le> a \<and> a < off + length bs then and (h a) (bs ! (a - off)) else h a),
     flash_safe_execute = (\<lambda>_ f h. (0, f h)), resume = (\<lambda>s. s)\<rparr>"

lemma quiet_env_ok: "resume_quiet quiet_env"
proof -
  have "resume quiet_env = (\<lambda>s. s)" by (simp only: quiet_env_def env.simps)
  then show ?thesis by (simp add: resume_quiet_def)
qed

lemma vfs_init_console:
  "\<exists>s'. vfs_step E (VfsOpen ''/dev/console'' mode) (vfs_init pool addr s) = Some (0, s') \<and>
     vf_used (fd_table s' 0) \<and> vf_type (fd_table s' 0) = VFS_TYPE_DEV \<and> vf_dev_id (fd_table s' 0) = DEV_CONSOLE"
proof -
  let ?s = "vfs_init pool addr s"
  have "fd_alloc ?s = Some 0" unfolding fd_alloc_def first_slot_Some_iff by (simp add: vfs_init_tables VFS_MAX_OPEN_def)
  moreover have "dev_mount_find ''/dev/console'' ?s = Some 0"
    unfolding mount_find by (simp add: standard_mounts_def cstr_def upt_rec)
  moreover have "dm_id (dev_mounts ?s 0) = DEV_CONSOLE"
    by (simp add: vfs_init_mounts VFS_MAX_DEV_MOUNTS_def init_mount_def standard_mounts_def)
  ultimately show ?thesis
    by (auto simp: vfs_step_def vfs_open_body_def Let_def dev_open_def dev_get_def devices_def console_open_def)
qed

theorem vfs_descriptors_linked_witness:
  "\<forall>s pool addr. \<exists>s'. vfs_step quiet_env (VfsOpen ''/dev/console'' VFS_O_RDWR) (vfs_init pool addr (s\<lparr>open_fds := (\<lambda>_. open_fd_zero)\<rparr>)) = Some (0, s') \<and>
     linked (fs_used s') (fd_table s')"
proof (intro allI)
  fix s :: "(nat \<Rightarrow> u8) vfs_state" and pool addr
  have "\<forall>k<FS_MAX_OPEN_FDS. \<not> fs_used (s\<lparr>open_fds := (\<lambda>_. open_fd_zero)\<rparr>) k" by (simp add: fs_used_def open_fd_zero_def)
  from vfs_reach.init [OF this] obtain s' where
    "vfs_step quiet_env (VfsOpen ''/dev/console'' VFS_O_RDWR) (vfs_init pool addr (s\<lparr>open_fds := (\<lambda>_. open_fd_zero)\<rparr>)) = Some (0, s')"
    "vfs_reach quiet_env s'"
    using vfs_init_console [of quiet_env VFS_O_RDWR pool addr "s\<lparr>open_fds := (\<lambda>_. open_fd_zero)\<rparr>"] by (blast intro: vfs_reach.call)
  with vfs_descriptors_linked [OF quiet_env_ok this(2)]
  show "\<exists>s'. vfs_step quiet_env (VfsOpen ''/dev/console'' VFS_O_RDWR) (vfs_init pool addr (s\<lparr>open_fds := (\<lambda>_. open_fd_zero)\<rparr>)) = Some (0, s') \<and>
     linked (fs_used s') (fd_table s')" by blast
qed

text \<open>
  \<open>fs_delete\<close> closes the descriptors of the file below the VFS: a VFS descriptor of the file stays
  in use with a descriptor number that the next open may hand out for another file.
\<close>

lemma fs_delete_leaves_vfs_fd:
  fixes s :: "('h, 'a) vfs_state_scheme"
  assumes quiet: "resume_quiet E" and d: "fs_delete_body E name s = Some (r, s')" and i: "find_file name s = Some i"
    and k: "k < FS_MAX_OPEN_FDS" "fs_used s k" "of_file_idx (open_fds s k) = i" and v: "file_fd (fd_table s) v k"
  shows "file_fd (fd_table s') v k \<and> \<not> fs_used s' k"
proof -
  define s1 where "s1 = s\<lparr>open_fds := (\<lambda>k. if k < FS_MAX_OPEN_FDS \<and> of_used (open_fds s k) \<and> of_file_idx (open_fds s k) = i
           then (open_fds s k)\<lparr>of_used := False, of_dirty := False\<rparr> else open_fds s k)\<rparr>"
  have f1: "\<not> fs_used s1 k" "fd_table s1 = fd_table s" using k by (simp_all add: s1_def fs_used_def)
  define s2 where "s2 = (if scratch_owner s1 = Some i then s1\<lparr>scratch_owner := None\<rparr> else s1)"
  define s3 where "s3 = upd_entry i (\<lambda>_. entry_zero) s2"
  define s4 where "s4 = (if 0 < sb_file_count (superblock_ram s3)
           then s3\<lparr>superblock_ram := (superblock_ram s3)\<lparr>sb_file_count := sb_file_count (superblock_ram s3) - 1\<rparr>\<rparr> else s3)"
  have "Option.bind (flash_erase_sector E (FILE_FLASH_OFFSET i) s4) (\<lambda>(rc, s5). if rc \<noteq> 0 then Some (- 1, s5)
      else Option.bind (superblock_flush E s5) (\<lambda>(rc2, s6). Some (if rc2 \<noteq> 0 then - 1 else 0, s6))) = Some (r, s')"
    using d unfolding fs_delete_body_def i option.case Let_def s1_def [symmetric] s2_def [symmetric] s3_def [symmetric] s4_def [symmetric] .
  then obtain rc s5 where 4: "vtab s4 = vtab s1" "flash_erase_sector E (FILE_FLASH_OFFSET i) s4 = Some (rc, s5)"
    "(if rc \<noteq> 0 then Some (- 1, s5) else Option.bind (superblock_flush E s5) (\<lambda>(rc2, s6). Some (if rc2 \<noteq> 0 then - 1 else 0, s6))) = Some (r, s')"
    by (auto simp: bind_simps s4_def s3_def s2_def)
  have "vtab s5 = vtab s4" using 4(2) flash_safe_vtab [OF quiet] by (simp add: flash_erase_sector_def)
  moreover have "vtab s' = vtab s5" using 4(3) flush_vtab [OF quiet] by (fastforce simp: bind_simps split: if_splits)
  ultimately show ?thesis using 4(1) f1 v vtab_same by metis
qed

end
