(* ===== verification/Syscall.thy ===== *)
theory Syscall
  imports Vfs Launch
begin

text \<open>
  \<open>src/kernel/syscall.c\<close> and the wrappers of \<open>syscall.h\<close>: the dispatcher through which
  applications reach the kernel. Arguments are 32-bit words; a word used as a pointer addresses
  the application's memory (\<open>user_mem\<close>), a mutex or a message queue by its address. The address
  of \<open>thread_exit\<close> is the argument \<open>te\<close>.

  The state after a call that does not come back (exit, killing oneself) is the one in which the
  core is given up; the other calls that yield end when the caller runs again.
\<close>

section \<open>State\<close>

datatype syscall_num_t =
  SYS_SPAWN | SYS_THREAD_CREATE | SYS_EXIT | SYS_YIELD | SYS_SLEEP | SYS_OPEN | SYS_READ | SYS_WRITE | SYS_CLOSE |
  SYS_MQ_SEND | SYS_MQ_RECV | SYS_MUTEX_LOCK | SYS_MUTEX_UNLOCK | SYS_GETPID | SYS_GETTID | SYS_PS | SYS_KILL | SYS_GETCORE

definition syscall_nums :: "syscall_num_t list" where
  "syscall_nums = [SYS_SPAWN, SYS_THREAD_CREATE, SYS_EXIT, SYS_YIELD, SYS_SLEEP, SYS_OPEN, SYS_READ, SYS_WRITE, SYS_CLOSE,
     SYS_MQ_SEND, SYS_MQ_RECV, SYS_MUTEX_LOCK, SYS_MUTEX_UNLOCK, SYS_GETPID, SYS_GETTID, SYS_PS, SYS_KILL, SYS_GETCORE]"

definition syscall_of :: "u32 \<Rightarrow> syscall_num_t option" where
  "syscall_of num = (if unat num < length syscall_nums then Some (syscall_nums ! unat num) else None)"

record 'h sys_state = "'h vfs_state" +
  user_mem :: "u32 \<Rightarrow> u8"
  user_mutexes :: "u32 \<Rightarrow> kmutex_t"
  user_queues :: "u32 \<Rightarrow> mqueue_t"

text \<open>
  Bytes and strings behind a pointer. The kernel reads at most 65 characters of a string it is
  passed (a slash and the 64 of a path), so the first 128 stand for all of it.
\<close>

definition bytes_at :: "(u32 \<Rightarrow> u8) \<Rightarrow> u32 \<Rightarrow> nat \<Rightarrow> u8 list" where
  "bytes_at m a n = map (\<lambda>i. m (a + word_of_nat i)) [0..<n]"

definition string_at :: "(u32 \<Rightarrow> u8) \<Rightarrow> u32 \<Rightarrow> string option" where
  "string_at m a = (if a = 0 then None else Some (cstr (map (\<lambda>b. char_of (unat b)) (bytes_at m a 128))))"

definition store_bytes :: "u32 \<Rightarrow> u8 list \<Rightarrow> ('h, 'a) sys_state_scheme \<Rightarrow> ('h, 'a) sys_state_scheme" where
  "store_bytes a bs s = s\<lparr>user_mem := (\<lambda>x. if unat (x - a) < length bs then bs ! unat (x - a) else user_mem s x)\<rparr>"

definition PID_RANGE_SPAWN :: nat where "PID_RANGE_SPAWN = 0"

section \<open>The calls\<close>

definition sys_do_spawn ::
  "u32 \<Rightarrow> string option \<Rightarrow> u32 \<Rightarrow> u32 \<Rightarrow> ('h, 'a) sys_state_scheme \<Rightarrow> (int \<times> ('h, 'a) sys_state_scheme) option" where
  "sys_do_spawn te name entry arg s = (let (pid, s1) = task_alloc_pid PID_RANGE_SPAWN s
   in if pid = 0 then Some (- 1, s1)
      else case task_create_process name pid s1 of
          (None, s2) \<Rightarrow> Some (- 1, s2)
        | (Some proc, s2) \<Rightarrow> do {
            (t, s3) \<leftarrow> task_create_thread te (Some proc) name entry arg 4 DEFAULT_STACK_SIZE s2;
            case t of
              None \<Rightarrow> Some (- 1, task_free_process (Some proc) s3)
            | Some _ \<Rightarrow> Some (sint pid, s3)
          })"

definition sys_do_thread_create ::
  "u32 \<Rightarrow> u32 \<Rightarrow> u32 \<Rightarrow> u32 \<Rightarrow> ('h, 'a) sys_state_scheme \<Rightarrow> (int \<times> ('h, 'a) sys_state_scheme) option" where
  "sys_do_thread_create te pid entry arg s = (case task_find_process pid s of
       None \<Rightarrow> Some (- 1, s)
     | Some proc \<Rightarrow> do {
         (t, s1) \<leftarrow> task_create_thread te (Some proc) (Some ''thread'') entry arg 4 DEFAULT_STACK_SIZE s;
         case t of None \<Rightarrow> Some (- 1, s1) | Some t \<Rightarrow> Some (sint (t_tid (tcb_pool s1 t)), s1)
       })"

definition all_dead :: "pcb \<Rightarrow> ('h, 'a) sys_state_scheme \<Rightarrow> bool" where
  "all_dead proc s = list_all (\<lambda>i. case p_threads proc ! i of None \<Rightarrow> True
     | Some t \<Rightarrow> t_state (tcb_pool s t) = THREAD_ZOMBIE) [0..<p_thread_count proc]"

definition sys_do_exit :: "u32 \<Rightarrow> ('h, 'a) sys_state_scheme \<Rightarrow> (int \<times> ('h, 'a) sys_state_scheme) option" where
  "sys_do_exit code s = (case CURRENT_TCB s of
       None \<Rightarrow> Some (0, sched_yield (core_num s) s)
     | Some t \<Rightarrow>
         let s1 = set_state t THREAD_ZOMBIE s;
             s2 = (case task_find_process (t_pid (tcb_pool s1 t)) s1 of
                 None \<Rightarrow> s1
               | Some p \<Rightarrow> upd_pcb p (\<lambda>b. let b1 = b\<lparr>p_exit_code := sint code\<rparr>
                     in if all_dead b1 s1 then b1\<lparr>p_alive := False\<rparr> else b1) s1)
         in Some (0, sched_yield (core_num s) s2))"

definition sys_do_sleep ::
  "('h, ('h, 'a) sys_state_scheme) env \<Rightarrow> u32 \<Rightarrow> ('h, 'a) sys_state_scheme \<Rightarrow> (int \<times> ('h, 'a) sys_state_scheme) option" where
  "sys_do_sleep E ms s = do {
     s1 \<leftarrow> sched_sleep (core_num s) ms s;
     Some (0, if CURRENT_TCB s = None then s1 else resume E s1)
   }"

text \<open>The wait loops of \<open>mqueue_send\<close> and \<open>mqueue_recv\<close>, closed as those of the mutexes are.\<close>

partial_function (option) mq_send_loop ::
  "('h, ('h, 'a) sys_state_scheme) env \<Rightarrow> u32 \<Rightarrow> u32 \<Rightarrow> ('h, 'a) sys_state_scheme \<Rightarrow> ('h, 'a) sys_state_scheme option" where
  "mq_send_loop E q msg s = Option.bind
     (mqueue_send (e_sdk E) (core_num s) (user_queues s q) (bytes_at (user_mem s) msg (unat (q_msg_size (user_queues s q)))) s)
     (\<lambda>(sent, q', s1). let s2 = s1\<lparr>user_queues := (user_queues s1)(q := q')\<rparr>
        in if sent then Some s2 else mq_send_loop E q msg (resume E s2))"

partial_function (option) mq_recv_loop ::
  "('h, ('h, 'a) sys_state_scheme) env \<Rightarrow> u32 \<Rightarrow> u32 \<Rightarrow> ('h, 'a) sys_state_scheme \<Rightarrow> ('h, 'a) sys_state_scheme option" where
  "mq_recv_loop E q out s = Option.bind (mqueue_recv (e_sdk E) (core_num s) (user_queues s q) s)
     (\<lambda>(got, q', s1). let s2 = s1\<lparr>user_queues := (user_queues s1)(q := q')\<rparr>
        in case got of Some msg \<Rightarrow> Some (store_bytes out msg s2) | None \<Rightarrow> mq_recv_loop E q out (resume E s2))"

text \<open>\<open>printf\<close>'s left-justified fields, and the process listing.\<close>

definition ljust :: "nat \<Rightarrow> string \<Rightarrow> string" where
  "ljust n xs = xs @ replicate (n - length xs) CHR 0x20"

definition ps_line :: "pcb \<Rightarrow> string" where
  "ps_line p = ljust 4 (dec (unat (p_pid p))) @ '' '' @ ljust 16 (p_name p) @ '' '' @ ljust 8 (dec (p_thread_count p)) @ '' '' @
     (if p_alive p then ''yes'' else ''no'') @ [CHR 0x0A]"

definition sys_do_ps :: "('h, 'a) sys_state_scheme \<Rightarrow> ('h, 'a) sys_state_scheme" where
  "sys_do_ps s = dev_emit
     ([Printf (''PID  NAME             THREADS  ALIVE'' @ [CHR 0x0A]), Printf (''---  ---------------  -------  -----'' @ [CHR 0x0A])] @
      concat (map (\<lambda>i. case task_get_process_slot (int i) s of None \<Rightarrow> [] | Some p \<Rightarrow> [Printf (ps_line (pcb_pool s p))])
        [0..<MAX_PROCESSES])) s"

definition sys_do_kill :: "u32 \<Rightarrow> ('h, 'a) sys_state_scheme \<Rightarrow> (int \<times> ('h, 'a) sys_state_scheme) option" where
  "sys_do_kill tid s = (case task_find_thread tid s of
       None \<Rightarrow> Some (- 1, s)
     | Some t \<Rightarrow>
         if PID_IS_KERNEL (t_pid (tcb_pool s t)) then Some (- 1, s)
         else do {
           s1 \<leftarrow> task_kill_thread (core_num s) (Some t) s;
           Some (0, if CURRENT_TCB s = Some t then sched_yield (core_num s) s1 else s1)
         })"

section \<open>Dispatch\<close>

definition syscall_dispatch ::
  "('h, ('h, 'a) sys_state_scheme) env \<Rightarrow> u32 \<Rightarrow> u32 \<Rightarrow> u32 \<Rightarrow> u32 \<Rightarrow> u32 \<Rightarrow> u32 \<Rightarrow> ('h, 'a) sys_state_scheme \<Rightarrow>
     (int \<times> ('h, 'a) sys_state_scheme) option" where
  "syscall_dispatch E te num a0 a1 a2 a3 s = (case syscall_of num of
       None \<Rightarrow> Some (- 1, s)
     | Some n \<Rightarrow> (case n of
         SYS_SPAWN \<Rightarrow> sys_do_spawn te (string_at (user_mem s) a0) a1 a2 s
       | SYS_THREAD_CREATE \<Rightarrow> sys_do_thread_create te a0 a1 a2 s
       | SYS_EXIT \<Rightarrow> sys_do_exit a0 s
       | SYS_YIELD \<Rightarrow> Some (0, resume E (sched_yield (core_num s) s))
       | SYS_SLEEP \<Rightarrow> sys_do_sleep E a0 s
       | SYS_OPEN \<Rightarrow> vfs_open E (string_at (user_mem s) a0) a1 s
       | SYS_READ \<Rightarrow> map_option (\<lambda>((r, bs), s1). (r, store_bytes a1 bs s1)) (vfs_read E (sint a0) (a1 \<noteq> 0) a2 s)
       | SYS_WRITE \<Rightarrow> vfs_write E (sint a0) (if a1 = 0 then None else Some (bytes_at (user_mem s) a1 (unat a2))) a2 s
       | SYS_CLOSE \<Rightarrow> vfs_close E (sint a0) s
       | SYS_MQ_SEND \<Rightarrow> map_option (\<lambda>s1. (0, s1)) (mq_send_loop E a0 a1 s)
       | SYS_MQ_RECV \<Rightarrow> map_option (\<lambda>s1. (0, s1)) (mq_recv_loop E a0 a1 s)
       | SYS_MUTEX_LOCK \<Rightarrow> map_option (\<lambda>s1. (0, s1))
           (mutex_lock E (\<lambda>s. user_mutexes s a0) (\<lambda>m s. s\<lparr>user_mutexes := (user_mutexes s)(a0 := m)\<rparr>) s)
       | SYS_MUTEX_UNLOCK \<Rightarrow> map_option (\<lambda>s1. (0, s1))
           (mutex_unlock E (\<lambda>s. user_mutexes s a0) (\<lambda>m s. s\<lparr>user_mutexes := (user_mutexes s)(a0 := m)\<rparr>) s)
       | SYS_GETPID \<Rightarrow> Some (case CURRENT_TCB s of None \<Rightarrow> 0 | Some t \<Rightarrow> sint (t_pid (tcb_pool s t)), s)
       | SYS_GETTID \<Rightarrow> Some (case CURRENT_TCB s of None \<Rightarrow> 0 | Some t \<Rightarrow> sint (t_tid (tcb_pool s t)), s)
       | SYS_PS \<Rightarrow> Some (0, sys_do_ps s)
       | SYS_KILL \<Rightarrow> sys_do_kill a0 s
       | SYS_GETCORE \<Rightarrow> Some (int (core_num s), s)))"

definition sys_yield :: "('h, ('h, 'a) sys_state_scheme) env \<Rightarrow> u32 \<Rightarrow> ('h, 'a) sys_state_scheme \<Rightarrow> (unit \<times> ('h, 'a) sys_state_scheme) option" where
  "sys_yield E te s = map_option (\<lambda>(_, s1). ((), s1)) (syscall_dispatch E te 3 0 0 0 0 s)"

definition sys_sleep :: "('h, ('h, 'a) sys_state_scheme) env \<Rightarrow> u32 \<Rightarrow> u32 \<Rightarrow> ('h, 'a) sys_state_scheme \<Rightarrow> (unit \<times> ('h, 'a) sys_state_scheme) option" where
  "sys_sleep E te ms s = map_option (\<lambda>(_, s1). ((), s1)) (syscall_dispatch E te 4 ms 0 0 0 s)"

definition sys_exit :: "('h, ('h, 'a) sys_state_scheme) env \<Rightarrow> u32 \<Rightarrow> int \<Rightarrow> ('h, 'a) sys_state_scheme \<Rightarrow> (unit \<times> ('h, 'a) sys_state_scheme) option" where
  "sys_exit E te code s = map_option (\<lambda>(_, s1). ((), s1)) (syscall_dispatch E te 2 (word_of_int code) 0 0 0 s)"

definition sys_getpid :: "('h, ('h, 'a) sys_state_scheme) env \<Rightarrow> u32 \<Rightarrow> ('h, 'a) sys_state_scheme \<Rightarrow> (int \<times> ('h, 'a) sys_state_scheme) option" where
  "sys_getpid E te s = syscall_dispatch E te 13 0 0 0 0 s"

definition sys_gettid :: "('h, ('h, 'a) sys_state_scheme) env \<Rightarrow> u32 \<Rightarrow> ('h, 'a) sys_state_scheme \<Rightarrow> (int \<times> ('h, 'a) sys_state_scheme) option" where
  "sys_gettid E te s = syscall_dispatch E te 14 0 0 0 0 s"

definition sys_getcore :: "('h, ('h, 'a) sys_state_scheme) env \<Rightarrow> u32 \<Rightarrow> ('h, 'a) sys_state_scheme \<Rightarrow> (int \<times> ('h, 'a) sys_state_scheme) option" where
  "sys_getcore E te s = syscall_dispatch E te 17 0 0 0 0 s"

section \<open>Spawning\<close>

text \<open>What a spawn has done: nothing that can be seen, or one process with one thread.\<close>

definition spawned :: "u32 \<Rightarrow> u32 \<Rightarrow> ('h, 'a) sys_state_scheme \<Rightarrow> int \<Rightarrow> ('h, 'a) sys_state_scheme \<Rightarrow> bool" where
  "spawned entry arg s rc s' \<longleftrightarrow> rc = - 1 \<and> no_app s s' \<or>
     (\<exists>p t pid. new_app s pid p t s' \<and> entry_frame entry arg t s' \<and> rc = sint pid)"

lemma sys_do_spawn_launch:
  "sys_do_spawn te name entry arg s = (let (pid, s1) = task_alloc_pid PID_RANGE_SPAWN s
   in if pid = 0 then Some (- 1, s1)
      else map_option (\<lambda>(r, s2). case r of
          Inl None \<Rightarrow> (- 1, s2) | Inl (Some p) \<Rightarrow> (- 1, task_free_process (Some p) s2) | Inr (p, t) \<Rightarrow> (sint pid, s2))
        (launch te name pid entry arg 4 s1))"
proof -
  obtain pid s1 where al: "task_alloc_pid PID_RANGE_SPAWN s = (pid, s1)" by fastforce
  obtain r s2 where c: "task_create_process name pid s1 = (r, s2)" by fastforce
  show ?thesis
  proof (cases r)
    case None
    then show ?thesis by (simp add: sys_do_spawn_def launch_def al c)
  next
    case (Some p)
    show ?thesis
    proof (cases "task_create_thread te (Some p) name entry arg 4 DEFAULT_STACK_SIZE s2")
      case None
      then show ?thesis by (simp add: sys_do_spawn_def launch_def al c Some)
    next
      case (Some x)
      then show ?thesis using \<open>r = Some p\<close> c al by (cases x; cases "fst x") (simp_all add: sys_do_spawn_def launch_def)
    qed
  qed
qed

lemma spawn_spec:
  fixes s :: "('h, 'a) sys_state_scheme"
  assumes inv: "sched_inv s qs"
  shows "\<exists>rc s' qs'. sys_do_spawn te name entry arg s = Some (rc, s') \<and> sched_inv s' qs' \<and> spawned entry arg s rc s'"
proof -
  obtain pid s1 where al: "task_alloc_pid PID_RANGE_SPAWN s = (pid, s1)" by fastforce
  note a = alloc_pid_frame [OF al]
  have i1: "sched_inv s1 qs" using inv a(1) by simp
  show ?thesis
  proof (cases "pid = 0")
    case True
    have "spawned entry arg s (- 1) s1" using a(2) [of s1] by (simp add: spawned_def no_app_def)
    then show ?thesis using True al i1 by (auto simp: sys_do_spawn_launch)
  next
    case pid: False
    show ?thesis
    proof (cases rule: launch_cases [OF i1, of te name pid entry arg 4])
      case 1
      have "spawned entry arg s (- 1) s1" using a(2) [of s1] by (simp add: spawned_def no_app_def)
      then show ?thesis using 1 pid al i1 by (auto simp: sys_do_spawn_launch)
    next
      case (2 p s2)
      then have "spawned entry arg s (- 1) (task_free_process (Some p) s2)" using a(2) by (simp add: spawned_def)
      then show ?thesis using 2 pid al by (auto simp: sys_do_spawn_launch)
    next
      case (3 p t s2 qs' base)
      have "new_app s pid p t s2" using 3(3) a(3) by simp
      with 3(4) have "spawned entry arg s (sint pid) s2" unfolding spawned_def by blast
      then show ?thesis using 3(1,2) pid al by (auto simp: sys_do_spawn_launch)
    qed
  qed
qed

text \<open>
  C31. \<open>SYS_SPAWN\<close> always returns and is all or nothing: either it fails with -1 and leaves the sets
  of threads and processes and every process as they were, also when the process could be created
  but its thread could not, or it gives the PID of a new, live process whose only thread is new
  and READY. The scheduler's invariant holds afterwards.
\<close>

theorem sys_spawn_all_or_nothing:
  fixes s :: "('h, 'a) sys_state_scheme"
  assumes "sched_inv s qs"
  shows "\<exists>rc s' qs'. syscall_dispatch E te 0 a0 a1 a2 a3 s = Some (rc, s') \<and> sched_inv s' qs' \<and> spawned a1 a2 s rc s'"
  using spawn_spec [OF assms, of te "string_at (user_mem s) a0" a1 a2]
  by (simp add: syscall_dispatch_def syscall_of_def syscall_nums_def)

text \<open>The kernel part of one state with everything else of another, for the instances below.\<close>

definition with_kernel :: "kstate \<Rightarrow> nat sys_state \<Rightarrow> nat sys_state" where
  "with_kernel k x = kstate.extend k (kstate.more x)"

lemma with_kernel_fields [simp]:
  "tcb_pool (with_kernel k x) = tcb_pool k" "tcb_used (with_kernel k x) = tcb_used k" "current_tcb (with_kernel k x) = current_tcb k"
  "pcb_used (with_kernel k x) = pcb_used k" "user_mem (with_kernel k x) = user_mem x" "core_num (with_kernel k x) = core_num x"
  "sched_inv (with_kernel k x) qs \<longleftrightarrow> sched_inv k qs"
proof -
  show "sched_inv (with_kernel k x) qs \<longleftrightarrow> sched_inv k qs"
    by (rule sched_inv_cong) (simp_all add: with_kernel_def kstate.defs)
qed (cases x; simp add: with_kernel_def kstate.defs)+

theorem sys_spawn_all_or_nothing_witness:
  "\<forall>(E :: (nat, nat sys_state) env) x. \<exists>rc s' qs'. syscall_dispatch E 99 0 0x20000000 0x10000101 0 0 (with_kernel kernel_boot x) = Some (rc, s') \<and>
     sched_inv s' qs' \<and> spawned 0x10000101 0 (with_kernel kernel_boot x) rc s'"
proof (intro allI)
  fix E :: "(nat, nat sys_state) env" and x
  have "sched_inv (with_kernel kernel_boot x) (\<lambda>_. [])" by simp
  from sys_spawn_all_or_nothing [OF this]
  show "\<exists>rc s' qs'. syscall_dispatch E 99 0 0x20000000 0x10000101 0 0 (with_kernel kernel_boot x) = Some (rc, s') \<and>
     sched_inv s' qs' \<and> spawned 0x10000101 0 (with_kernel kernel_boot x) rc s'" .
qed

text \<open>
  C32. No application can kill a kernel thread: \<open>SYS_KILL\<close> fails, and changes nothing, exactly when
  there is no such thread or it belongs to a kernel process, and whatever thread it does kill,
  every thread of a kernel process stays in its slot and in its state.
\<close>

theorem sys_kill_protects_kernel:
  fixes s :: "('h, 'a) sys_state_scheme"
  assumes inv: "sched_inv s qs" and core: "core_num s < 2"
  shows "\<exists>rc s' qs'. syscall_dispatch E te 16 tid a1 a2 a3 s = Some (rc, s') \<and> sched_inv s' qs' \<and>
     (rc = - 1 \<longleftrightarrow> (case task_find_thread tid s of None \<Rightarrow> True | Some t \<Rightarrow> PID_IS_KERNEL (t_pid (tcb_pool s t)))) \<and>
     (rc = - 1 \<longrightarrow> s' = s) \<and>
     (\<forall>t<MAX_THREADS. tcb_used s t \<and> PID_IS_KERNEL (t_pid (tcb_pool s t)) \<longrightarrow>
        tcb_used s' t \<and> t_state (tcb_pool s' t) = t_state (tcb_pool s t))"
proof -
  have d: "syscall_dispatch E te 16 tid a1 a2 a3 s = sys_do_kill tid s"
    by (simp add: syscall_dispatch_def syscall_of_def syscall_nums_def)
  show ?thesis
  proof (cases "case task_find_thread tid s of None \<Rightarrow> True | Some t \<Rightarrow> PID_IS_KERNEL (t_pid (tcb_pool s t))")
    case True
    then have "sys_do_kill tid s = Some (- 1, s)" by (simp add: sys_do_kill_def split: option.splits)
    with True inv show ?thesis unfolding d by blast
  next
    case False
    then obtain t where f: "task_find_thread tid s = Some t" and nk: "\<not> PID_IS_KERNEL (t_pid (tcb_pool s t))"
      by (auto split: option.splits)
    have t: "t < 16" "tcb_used s t" using first_slot_SomeD [OF f [unfolded task_find_thread_def]] by simp_all
    obtain s1 qs1 where 1: "task_kill_thread (core_num s) (Some t) s = Some s1" "sched_inv s1 qs1"
      "\<And>u. u \<noteq> t \<Longrightarrow> tcb_used s1 u = tcb_used s u \<and> t_state (tcb_pool s1 u) = t_state (tcb_pool s u)"
      by (rule task_kill_thread_spec [OF inv t core], rule that; (assumption | blast))
    define s' where "s' = (if CURRENT_TCB s = Some t then sched_yield (core_num s) s1 else s1)"
    have k: "sys_do_kill tid s = Some (0, s')" using f nk 1(1) by (simp add: sys_do_kill_def s'_def)
    have f': "tcb_used s' = tcb_used s1" "tcb_pool s' = tcb_pool s1" by (simp_all add: s'_def sched_yield_def)
    have i': "sched_inv s' qs1" using 1(2) by (simp add: s'_def frame_simps)
    have "tcb_used s' u \<and> t_state (tcb_pool s' u) = t_state (tcb_pool s u)"
      if "tcb_used s u" "PID_IS_KERNEL (t_pid (tcb_pool s u))" for u
      using 1(3) [of u] that nk f' by (cases "u = t") simp_all
    with k i' False show ?thesis unfolding d by (intro exI [of _ 0] exI [of _ s'] exI [of _ qs1]) simp
  qed
qed

theorem sys_kill_protects_kernel_witness:
  "\<forall>(E :: (nat, nat sys_state) env) x. syscall_dispatch E 99 16 5 0 0 0 (with_kernel kernel_boot (x\<lparr>core_num := 0\<rparr>)) =
     Some (- 1, with_kernel kernel_boot (x\<lparr>core_num := 0\<rparr>))"
proof (intro allI)
  fix E :: "(nat, nat sys_state) env" and x :: "nat sys_state"
  let ?s = "with_kernel kernel_boot (x\<lparr>core_num := 0\<rparr>)"
  have "sched_inv ?s (\<lambda>_. [])" "core_num ?s < 2" by simp_all
  from sys_kill_protects_kernel [OF this, of E 99 5 0 0 0]
  obtain rc s' qs' where "syscall_dispatch E 99 16 5 0 0 0 ?s = Some (rc, s')" "sched_inv s' qs'"
    "rc = - 1 \<longleftrightarrow> (case task_find_thread 5 ?s of None \<Rightarrow> True | Some t \<Rightarrow> PID_IS_KERNEL (t_pid (tcb_pool ?s t)))" "rc = - 1 \<longrightarrow> s' = ?s"
    by blast
  moreover have "task_find_thread 5 ?s = None" by (simp add: task_find_thread_def first_slot_None)
  ultimately show "syscall_dispatch E 99 16 5 0 0 0 ?s = Some (- 1, ?s)" by simp
qed

text \<open>An unknown call number is refused without effect.\<close>

lemma syscall_unknown: "18 \<le> unat num \<Longrightarrow> syscall_dispatch E te num a0 a1 a2 a3 s = Some (- 1, s)"
  by (simp add: syscall_dispatch_def syscall_of_def syscall_nums_def)

end
