(* ===== verification/Console.thy ===== *)
theory Console
  imports Syscall
begin

text \<open>
  The console side of \<open>src/shell/shell.c\<close>: printing, the polling read of one key, the line editor
  of \<open>shell_readline\<close> and \<open>shell_run\<close>, and the tokeniser. Keys come from the console as
  \<open>getchar_timeout_us(0)\<close> gives them; while there is none the shell polls the USB stack and sleeps
  a millisecond, and the loop goes on in whatever state the other threads leave.

  Proved here: the line editor never writes outside its buffer, and computes the line that
  \<open>edited\<close> describes; the tokeniser, which cuts the line in place, computes the words of the line.
\<close>

definition SHELL_LINE_MAX :: u32 where "SHELL_LINE_MAX = 128"
definition SHELL_ARGC_MAX :: nat where "SHELL_ARGC_MAX = 8"

section \<open>Output\<close>

definition sh_print :: "string \<Rightarrow> ('h, 'a) dev_state_scheme \<Rightarrow> ('h, 'a) dev_state_scheme" where
  "sh_print msg s = dev_emit [Printf msg] s"

definition sh_println :: "string \<Rightarrow> ('h, 'a) dev_state_scheme \<Rightarrow> ('h, 'a) dev_state_scheme" where
  "sh_println msg s = sh_print (msg @ crlf) s"

text \<open>\<open>printf\<close>'s right-justified and zero-padded fields.\<close>

definition rjust :: "char \<Rightarrow> nat \<Rightarrow> string \<Rightarrow> string" where
  "rjust c n xs = replicate (n - length xs) c @ xs"

fun hex_digits :: "nat \<Rightarrow> nat \<Rightarrow> string" where
  "hex_digits 0 n = []"
| "hex_digits (Suc k) n = hex_digits k (n div 16) @ [char_of (if n mod 16 < 10 then 48 + n mod 16 else 55 + n mod 16)]"

section \<open>Reading a line\<close>

text \<open>The loop that waits for a key.\<close>

partial_function (option) shell_getchar ::
  "('h, ('h, 'a) sys_state_scheme) env \<Rightarrow> u32 \<Rightarrow> ('h, 'a) sys_state_scheme \<Rightarrow> (int \<times> ('h, 'a) sys_state_scheme) option" where
  "shell_getchar E te s = (case getchar_timeout_us E (sio s) of
       (Some ch, h) \<Rightarrow> Some (ch, s\<lparr>sio := h\<rparr>)
     | (None, h) \<Rightarrow> Option.bind (sys_sleep E te 1 (dev_console_poll E (s\<lparr>sio := h\<rparr>))) (\<lambda>(_, s1). shell_getchar E te s1))"

text \<open>
  What a key other than Enter does to the buffer and its length, and what is echoed. \<open>buf\<close> is the
  whole array of \<open>sz\<close> characters.
\<close>

definition is_enter :: "int \<Rightarrow> bool" where
  "is_enter ch \<longleftrightarrow> ch = 13 \<or> ch = 10"

definition is_erase :: "int \<Rightarrow> bool" where
  "is_erase ch \<longleftrightarrow> ch = 8 \<or> ch = 0x7F"

definition edit_key :: "u32 \<Rightarrow> int \<Rightarrow> string \<times> u32 \<Rightarrow> (string \<times> u32) \<times> hw_op list" where
  "edit_key sz ch bl = (case bl of (buf, len) \<Rightarrow>
     if is_erase ch \<and> 0 < len then ((buf, len - 1), [Printf [CHR 0x08, CHR 0x20, CHR 0x08]])
     else if 0x20 \<le> ch \<and> ch < 0x7F \<and> len < sz - 1
     then ((buf[unat len := char_of (nat ch)], len + 1), [PutcharRaw (word_of_int ch)])
     else ((buf, len), []))"

partial_function (option) readline_loop ::
  "('h, ('h, 'a) sys_state_scheme) env \<Rightarrow> u32 \<Rightarrow> u32 \<Rightarrow> string \<times> u32 \<Rightarrow> ('h, 'a) sys_state_scheme \<Rightarrow>
     ((string \<times> u32) \<times> ('h, 'a) sys_state_scheme) option" where
  "readline_loop E te sz bl s = Option.bind (shell_getchar E te s) (\<lambda>(ch, s1).
     if is_enter ch then Some (bl, sh_print crlf s1)
     else case edit_key sz ch bl of (bl', echo) \<Rightarrow> readline_loop E te sz bl' (dev_emit echo s1))"

definition shell_readline ::
  "('h, ('h, 'a) sys_state_scheme) env \<Rightarrow> u32 \<Rightarrow> string \<Rightarrow> u32 \<Rightarrow> ('h, 'a) sys_state_scheme \<Rightarrow>
     ((int \<times> string) \<times> ('h, 'a) sys_state_scheme) option" where
  "shell_readline E te buf sz s = Option.bind (readline_loop E te sz (buf, 0) s)
     (\<lambda>((buf', len), s1). Some ((sint len, buf'[unat len := CHR 0x00]), s1))"

section \<open>Cutting a line into words\<close>

definition is_blank :: "char \<Rightarrow> bool" where
  "is_blank c \<longleftrightarrow> c = CHR 0x20 \<or> c = CHR 0x09"

definition is_nul :: "char \<Rightarrow> bool" where
  "is_nul c \<longleftrightarrow> c = CHR 0x00"

function scan_while :: "(char \<Rightarrow> bool) \<Rightarrow> string \<Rightarrow> nat \<Rightarrow> nat" where
  "scan_while P line p = (if p < length line \<and> P (line ! p) then scan_while P line (p + 1) else p)"
  by pat_completeness auto
termination by (relation "measure (\<lambda>(P, line, p). length line - p)") auto

declare scan_while.simps [simp del]

text \<open>The line is the array with its terminator; a pointer into it is an index, \<open>argv\<close> the list of the first \<open>argc\<close>.\<close>

function tokenise_loop :: "nat \<Rightarrow> string \<Rightarrow> nat \<Rightarrow> nat list \<Rightarrow> string \<times> nat list" where
  "tokenise_loop max_argc line p argv =
     (if \<not> is_nul (line ! p) \<and> length argv < max_argc then
        let p1 = scan_while is_blank line p
        in if is_nul (line ! p1) then (line, argv)
           else let p2 = scan_while (\<lambda>c. \<not> is_nul c \<and> \<not> is_blank c) line p1
             in if \<not> is_nul (line ! p2) then tokenise_loop max_argc (line[p2 := CHR 0x00]) (p2 + 1) (argv @ [p1])
                else tokenise_loop max_argc line p2 (argv @ [p1])
      else (line, argv))"
  by pat_completeness auto
termination by (relation "measure (\<lambda>(m, line, p, argv). m - length argv)") auto

declare tokenise_loop.simps [simp del]

definition tokenise :: "string \<Rightarrow> nat \<Rightarrow> string \<times> nat list" where
  "tokenise line max_argc = tokenise_loop max_argc line 0 []"

text \<open>The C strings that the pointers of \<open>argv\<close> denote.\<close>

definition argv_strings :: "string \<times> nat list \<Rightarrow> string list" where
  "argv_strings la = (case la of (line, argv) \<Rightarrow> map (\<lambda>p. cstr (drop p line)) argv)"

section \<open>The line editor\<close>

text \<open>
  The line that a sequence of keys leaves, and the echo: a printable key is appended while the
  line is shorter than \<open>n\<close>, an erase key takes the last one away, any other key is ignored.
\<close>

definition edit_step :: "nat \<Rightarrow> string \<times> hw_op list \<Rightarrow> u8 \<Rightarrow> string \<times> hw_op list" where
  "edit_step n lo key = (case lo of (line, out) \<Rightarrow>
     if (key = 8 \<or> key = 0x7F) \<and> line \<noteq> [] then (butlast line, out @ [Printf [CHR 0x08, CHR 0x20, CHR 0x08]])
     else if 0x20 \<le> key \<and> key < 0x7F \<and> length line < n then (line @ [char_of (unat key)], out @ [PutcharRaw key])
     else (line, out))"

definition edited :: "nat \<Rightarrow> u8 list \<Rightarrow> string \<times> hw_op list" where
  "edited n keys = foldl (edit_step n) ([], []) keys"

text \<open>The array and the length stand for a line.\<close>

definition holds_line :: "u32 \<Rightarrow> string \<times> u32 \<Rightarrow> string \<Rightarrow> bool" where
  "holds_line sz bl line \<longleftrightarrow> unat (snd bl) = length line \<and> length line < unat sz \<and> unat sz \<le> length (fst bl) \<and>
     take (length line) (fst bl) = line"

lemma holds_line_empty: "sz \<noteq> 0 \<Longrightarrow> unat sz \<le> length buf \<Longrightarrow> holds_line sz (buf, 0) []"
  by (simp add: holds_line_def unat_gt_0)

lemma key_codes:
  fixes key :: u8
  shows "is_erase (uint key) \<longleftrightarrow> key = 8 \<or> key = 0x7F" "is_enter (uint key) \<longleftrightarrow> key = 13 \<or> key = 10"
    "0x20 \<le> uint key \<longleftrightarrow> 0x20 \<le> key" "uint key < 0x7F \<longleftrightarrow> key < 0x7F"
  by (simp_all add: is_erase_def is_enter_def word_le_def word_less_def word_uint_eq_iff)

lemma edit_key_step:
  assumes "holds_line sz (buf, len) line"
  obtains buf' len' line' echo where "edit_key sz (uint key) (buf, len) = ((buf', len'), echo)"
    "holds_line sz (buf', len') line'" "length buf' = length buf" "\<And>out. edit_step (unat sz - 1) (line, out) key = (line', out @ echo)"
proof -
  have l: "unat len = length line" "length line < unat sz" "unat sz \<le> length buf" "take (length line) buf = line"
    using assms by (simp_all add: holds_line_def)
  have sz: "sz \<noteq> 0" using l(2) by auto
  have m1: "unat (sz - 1) = unat sz - 1" using sz by (simp add: unat_sub_if' unat_gt_0 Suc_leI)
  consider (erase) "key = 8 \<or> key = 0x7F" "line \<noteq> []"
    | (add) "0x20 \<le> key" "key < 0x7F" "length line < unat sz - 1" "\<not> ((key = 8 \<or> key = 0x7F) \<and> line \<noteq> [])"
    | (skip) "\<not> ((key = 8 \<or> key = 0x7F) \<and> line \<noteq> [])" "\<not> (0x20 \<le> key \<and> key < 0x7F \<and> length line < unat sz - 1)"
    by blast
  then show ?thesis
  proof cases
    case erase
    then have "0 < len" using l(1) by (simp add: word_less_nat_alt)
    moreover have "unat (len - 1) = length line - 1" using \<open>0 < len\<close> l(1) by (simp add: unat_sub_if' word_less_nat_alt Suc_leI)
    moreover have "take (length line - 1) buf = butlast line" using l by (metis butlast_take less_le_trans less_imp_le)
    ultimately show ?thesis using erase l
      by (intro that [of buf "len - 1"]) (simp_all add: edit_key_def edit_step_def key_codes holds_line_def)
  next
    case add
    have p: "len + 1 \<noteq> 0 \<and> unat (len + 1) = length line + 1"
      using add(3) l(1) unat_lt_2_32 [of sz] by (simp add: unat_word_ariths unat_eq_zero [symmetric])
    have c: "char_of (nat (uint key)) = (char_of (unat key) :: char)" by simp
    have e: "edit_key sz (uint key) (buf, len) = ((buf[length line := char_of (unat key)], len + 1), [PutcharRaw key])"
      using add l(1) m1 by (auto simp: edit_key_def key_codes word_less_nat_alt c)
    have t: "take (length line + 1) (buf[length line := char_of (unat key)]) = line @ [char_of (unat key)]"
      using l by (simp add: take_Suc_conv_app_nth)
    show ?thesis
    proof (rule that [OF e])
      show "holds_line sz (buf[length line := char_of (unat key)], len + 1) (line @ [char_of (unat key)])"
        using l add(3) p t by (simp add: holds_line_def)
      show "edit_step (unat sz - 1) (line, out) key = (line @ [char_of (unat key)], out @ [PutcharRaw key])" for out
        using add by (auto simp: edit_step_def)
    qed simp
  next
    case skip
    then have "edit_key sz (uint key) (buf, len) = ((buf, len), [])"
      using l(1) m1 by (auto simp: edit_key_def key_codes word_less_nat_alt)
    with skip assms show ?thesis by (intro that) (auto simp: edit_step_def)
  qed
qed

lemma edit_step_out: "foldl (edit_step n) (l, out) keys = (l', out') \<Longrightarrow>
    foldl (edit_step n) (l, pre @ out) keys = (l', pre @ out')"
proof (induction keys arbitrary: l out)
  case (Cons k ks)
  obtain l1 o1 where s: "edit_step n (l, out) k = (l1, o1)" by fastforce
  then have "edit_step n (l, pre @ out) k = (l1, pre @ o1)" by (auto simp: edit_step_def split: if_splits)
  with Cons s show ?case by simp
qed simp

lemma getchar_pending:
  assumes "console_input E pending" and "pending (sio s) = key # rest"
  obtains h where "shell_getchar E te s = Some (uint key, s\<lparr>sio := h\<rparr>)" "pending h = rest"
proof -
  from assms have "fst (getchar_timeout_us E (sio s)) = Some (uint key)" "pending (snd (getchar_timeout_us E (sio s))) = rest"
    by (auto simp: console_input_def dest: spec [of _ "sio s"])
  then show ?thesis by (intro that [of "snd (getchar_timeout_us E (sio s))"]) (subst shell_getchar.simps, auto split: prod.split)
qed

lemma readline_loop_pending:
  assumes con: "console_input E pending" and nl: "nl = 13 \<or> nl = 10"
  shows "pending (sio s) = keys @ nl # rest \<Longrightarrow> \<forall>k \<in> set keys. k \<noteq> 13 \<and> k \<noteq> 10 \<Longrightarrow> holds_line sz (buf, len) line \<Longrightarrow>
    foldl (edit_step (unat sz - 1)) (line, []) keys = (line', out) \<Longrightarrow>
    \<exists>buf' len' h. readline_loop E te sz (buf, len) s =
      Some ((buf', len'), s\<lparr>sio := h, dev_hw := emit (out @ [Printf crlf]) (dev_hw s)\<rparr>) \<and>
      holds_line sz (buf', len') line' \<and> length buf' = length buf \<and> pending h = rest"
proof (induction keys arbitrary: s buf len line out)
  case Nil
  from Nil.prems(1) have "pending (sio s) = nl # rest" by simp
  then obtain h where g: "shell_getchar E te s = Some (uint nl, s\<lparr>sio := h\<rparr>)" "pending h = rest"
    by (rule getchar_pending [OF con])
  then have "readline_loop E te sz (buf, len) s = Some ((buf, len), sh_print crlf (s\<lparr>sio := h\<rparr>))"
    using nl by (subst readline_loop.simps) (simp add: key_codes)
  with Nil.prems(3,4) g(2) show ?case by (auto simp: sh_print_def dev_emit_def)
next
  case (Cons key keys)
  from Cons.prems(1) have "pending (sio s) = key # (keys @ nl # rest)" by simp
  then obtain h where g: "shell_getchar E te s = Some (uint key, s\<lparr>sio := h\<rparr>)" "pending h = keys @ nl # rest"
    by (rule getchar_pending [OF con])
  obtain buf1 len1 line1 echo where k: "edit_key sz (uint key) (buf, len) = ((buf1, len1), echo)"
    "holds_line sz (buf1, len1) line1" "length buf1 = length buf" "\<And>out. edit_step (unat sz - 1) (line, out) key = (line1, out @ echo)"
    using edit_key_step [OF Cons.prems(3)] by metis
  obtain out1 where o1: "foldl (edit_step (unat sz - 1)) (line1, []) keys = (line', out1)" "out = echo @ out1"
    using Cons.prems(4) k(4) [of "[]"] edit_step_out [of "unat sz - 1" line1 "[]" keys _ _ echo]
    by (cases "foldl (edit_step (unat sz - 1)) (line1, []) keys") auto
  let ?s = "dev_emit echo (s\<lparr>sio := h\<rparr>)"
  obtain buf' len' h' where r: "readline_loop E te sz (buf1, len1) ?s =
      Some ((buf', len'), ?s\<lparr>sio := h', dev_hw := emit (out1 @ [Printf crlf]) (dev_hw ?s)\<rparr>)"
      "holds_line sz (buf', len') line'" "length buf' = length buf1" "pending h' = rest"
    using Cons.IH [of ?s buf1 len1 line1 out1] g(2) k(2) o1(1) Cons.prems(2) by (auto simp: dev_emit_def)
  have "readline_loop E te sz (buf, len) s = readline_loop E te sz (buf1, len1) ?s"
    using Cons.prems(2) by (subst readline_loop.simps) (simp add: g(1) key_codes k(1))
  then show ?case using r k(3) o1(2) by (auto simp: dev_emit_def)
qed

text \<open>
  C37. With the keys of a line and Enter pending at the console, \<open>shell_readline\<close> returns at once with
  exactly the edited line and its length, NUL-terminated inside the buffer; it echoes what the
  reference editor echoes, leaves the keys after Enter pending, and changes nothing else.
\<close>

theorem readline_edits:
  fixes E :: "('h, ('h, 'a) sys_state_scheme) env" and s :: "('h, 'a) sys_state_scheme"
  assumes "console_input E pending" and "pending (sio s) = keys @ nl # rest" and "nl = 13 \<or> nl = 10"
    and "\<forall>k \<in> set keys. k \<noteq> 13 \<and> k \<noteq> 10" and "sz \<noteq> 0" "unat sz \<le> length buf" "unat sz \<le> 2 ^ 31"
  shows "case edited (unat sz - 1) keys of (line, echo) \<Rightarrow>
    \<exists>buf' h. shell_readline E te buf sz s =
        Some ((int (length line), buf'), s\<lparr>sio := h, dev_hw := emit (echo @ [Printf crlf]) (dev_hw s)\<rparr>) \<and>
      length line < unat sz \<and> length buf' = length buf \<and> take (length line + 1) buf' = line @ [CHR 0x00] \<and> pending h = rest"
proof -
  obtain line echo where ed: "foldl (edit_step (unat sz - 1)) ([], []) keys = (line, echo)" by fastforce
  obtain buf' len' h where r: "readline_loop E te sz (buf, 0) s =
      Some ((buf', len'), s\<lparr>sio := h, dev_hw := emit (echo @ [Printf crlf]) (dev_hw s)\<rparr>)"
      "holds_line sz (buf', len') line" "length buf' = length buf" "pending h = rest"
    using readline_loop_pending [OF assms(1,3,2,4) holds_line_empty [OF assms(5,6)] ed] by blast
  have l: "unat len' = length line" "length line < unat sz" "take (length line) buf' = line"
    using r(2) by (simp_all add: holds_line_def)
  have "len' = word_of_nat (length line)" by (rule unat_eq_word [OF l(1)])
  moreover have "length line < 2 ^ 31" using l(2) assms(7) by simp
  ultimately have "sint len' = int (length line)" by (metis sint_small)
  moreover have "take (length line + 1) (buf'[length line := CHR 0x00]) = line @ [CHR 0x00]"
    using l r(3) assms(6) by (simp add: take_Suc_conv_app_nth)
  ultimately have "\<exists>buf' h. shell_readline E te buf sz s =
        Some ((int (length line), buf'), s\<lparr>sio := h, dev_hw := emit (echo @ [Printf crlf]) (dev_hw s)\<rparr>) \<and>
      length line < unat sz \<and> length buf' = length buf \<and> take (length line + 1) buf' = line @ [CHR 0x00] \<and> pending h = rest"
    using r l(1,2) by (intro exI [of _ "buf'[length line := CHR 0x00]"] exI [of _ h]) (simp add: shell_readline_def)
  moreover have "edited (unat sz - 1) keys = (line, echo)" unfolding edited_def by (rule ed)
  ultimately show ?thesis by (simp only: prod.case)
qed

theorem readline_edits_witness:
  "\<forall>s :: u8 list sys_state. \<exists>buf'. shell_readline (sim_env :: (u8 list, u8 list sys_state) env) 0 (replicate 4 CHR 0x00) 4
       (s\<lparr>sio := [104, 8, 111, 107, 33, 33, 13, 120]\<rparr>) =
     Some ((3, buf'), s\<lparr>sio := [120], dev_hw := emit ([PutcharRaw 104, Printf [CHR 0x08, CHR 0x20, CHR 0x08],
       PutcharRaw 111, PutcharRaw 107, PutcharRaw 33] @ [Printf crlf]) (dev_hw s)\<rparr>) \<and> take 4 buf' = ''ok!'' @ [CHR 0x00]"
proof
  fix s :: "u8 list sys_state"
  have con: "console_input (sim_env :: (u8 list, u8 list sys_state) env) (\<lambda>h. h)"
    by (simp add: console_input_def sim_env_def split: list.split)
  let ?s = "s\<lparr>sio := [104, 8, 111, 107, 33, 33, 13, 120]\<rparr>"
  let ?echo = "[PutcharRaw 104, Printf [CHR 0x08, CHR 0x20, CHR 0x08], PutcharRaw 111, PutcharRaw 107, PutcharRaw 33]"
  have ed: "edited (unat (4 :: u32) - 1) [104, 8, 111, 107, 33, 33] = (''ok!'', ?echo)"
    by (simp add: edited_def edit_step_def char_of_def bit_0)
  have pend: "sio ?s = [104, 8, 111, 107, 33, 33] @ 13 # [120]" by simp
  obtain buf' h where b: "shell_readline (sim_env :: (u8 list, u8 list sys_state) env) 0 (replicate 4 CHR 0x00) 4 ?s =
      Some ((int (length ''ok!''), buf'), ?s\<lparr>sio := h, dev_hw := emit (?echo @ [Printf crlf]) (dev_hw ?s)\<rparr>)"
    "take (length ''ok!'' + 1) buf' = ''ok!'' @ [CHR 0x00]" "h = [120]"
    using readline_edits [OF con pend, of 4 "replicate 4 CHR 0x00" 0, unfolded ed prod.case] by auto
  have "length ''ok!'' + 1 = 4" by simp
  note b(2) [unfolded this]
  with b(1,3) show "\<exists>buf'. shell_readline (sim_env :: (u8 list, u8 list sys_state) env) 0 (replicate 4 CHR 0x00) 4 ?s =
     Some ((3, buf'), s\<lparr>sio := [120], dev_hw := emit (?echo @ [Printf crlf]) (dev_hw s)\<rparr>) \<and> take 4 buf' = ''ok!'' @ [CHR 0x00]"
    by (intro exI [of _ buf']) simp
qed

section \<open>The tokeniser\<close>

text \<open>The words of a text: the maximal runs of characters that are not blanks.\<close>

function words :: "string \<Rightarrow> string list" where
  "words s = (let t = dropWhile is_blank s in
     if t = [] then [] else takeWhile (\<lambda>c. \<not> is_blank c) t # words (dropWhile (\<lambda>c. \<not> is_blank c) t))"
  by pat_completeness auto
termination
proof (relation "measure length", goal_cases)
  case (2 s t)
  then have "\<not> is_blank (hd t)" using hd_dropWhile [of is_blank s] by simp
  moreover obtain c r where t: "t = c # r" using 2(2) by (cases t) auto
  ultimately have "\<not> is_blank c" using 2(1) by (metis list.sel(1))
  then have "length (dropWhile (\<lambda>c. \<not> is_blank c) t) < length t"
    by (simp add: t le_imp_less_Suc length_dropWhile_le)
  also have "length t \<le> length s" using 2 by (simp add: length_dropWhile_le)
  finally show ?case by simp
qed simp

declare words.simps [simp del]

definition tok_end :: "char \<Rightarrow> bool" where
  "tok_end c \<longleftrightarrow> is_nul c \<or> is_blank c"

text \<open>Scanning from a position in \<open>pre @ xs @ NUL # junk\<close> is scanning \<open>xs\<close>.\<close>

lemma scan_while_list:
  assumes "\<not> P (CHR 0x00)"
  shows "scan_while P (pre @ xs @ CHR 0x00 # junk) (length pre) = length pre + length (takeWhile P xs)"
proof (induction xs arbitrary: pre)
  case Nil
  show ?case using assms by (subst scan_while.simps) simp
next
  case (Cons x xs)
  show ?case
  proof (cases "P x")
    case True
    have "scan_while P (pre @ (x # xs) @ CHR 0x00 # junk) (length pre) =
      scan_while P ((pre @ [x]) @ xs @ CHR 0x00 # junk) (length (pre @ [x]))"
      using True by (subst scan_while.simps) (simp add: nth_append)
    with True Cons [of "pre @ [x]"] show ?thesis by simp
  next
    case False
    then show ?thesis by (subst scan_while.simps) (simp add: nth_append)
  qed
qed

lemma tok_end_c_string: "c_string xs \<Longrightarrow> takeWhile (\<lambda>c. \<not> is_nul c \<and> \<not> is_blank c) xs = takeWhile (\<lambda>c. \<not> is_blank c) xs"
  by (rule takeWhile_cong) (auto simp: c_string_def is_nul_def)

lemma cstr_append_nul: "c_string xs \<Longrightarrow> cstr (xs @ CHR 0x00 # z) = xs"
  unfolding cstr_def c_string_def by (subst takeWhile_append2) auto

lemma nul_blank: "is_blank c \<Longrightarrow> \<not> is_nul c"
  by (auto simp: is_blank_def is_nul_def)

lemma words_blanks: "words s = words (dropWhile is_blank s)"
  by (subst (1 2) words.simps) (simp add: dropWhile_idem)

lemma words_Nil: "words s = [] \<longleftrightarrow> (\<forall>c \<in> set s. is_blank c)"
  by (subst words.simps) (auto simp: Let_def)

lemma drop_past: "drop (length xs + k) (xs @ ys) = drop k ys"
  by simp

lemma tokenise_loop_token:
  assumes "\<not> is_nul (line ! p)" "length argv < m" and p1: "scan_while is_blank line p = p1" and "\<not> is_nul (line ! p1)"
    and p2: "scan_while (\<lambda>c. \<not> is_nul c \<and> \<not> is_blank c) line p1 = p2"
  shows "tokenise_loop m line p argv = (if is_nul (line ! p2) then tokenise_loop m line p2 (argv @ [p1])
    else tokenise_loop m (line[p2 := CHR 0x00]) (p2 + 1) (argv @ [p1]))"
  using assms(1,2,4) by (subst tokenise_loop.simps) (simp add: Let_def p1 p2)

text \<open>
  What the loop leaves when it starts in front of \<open>xs\<close>: the characters before are unchanged, and
  the pointers it adds are the words of \<open>xs\<close>, as many as fit.
\<close>

lemma tokenise_loop_words:
  assumes "c_string xs" "length argv \<le> m"
  shows "\<exists>rest ps. tokenise_loop m (pre @ xs @ CHR 0x00 # junk) (length pre) argv = (pre @ rest, argv @ ps) \<and>
    length rest = length xs + 1 + length junk \<and> (\<forall>p \<in> set ps. length pre \<le> p) \<and>
    map (\<lambda>p. cstr (drop (p - length pre) rest)) ps = take (m - length argv) (words xs)"
  using assms
proof (induction xs arbitrary: pre argv rule: measure_induct_rule [where f = length])
  case (less xs)
  let ?line = "pre @ xs @ CHR 0x00 # junk"
  let ?b = "takeWhile is_blank xs" and ?t = "dropWhile is_blank xs"
  show ?case
  proof (cases "xs = [] \<or> length argv = m")
    case True
    then have "tokenise_loop m ?line (length pre) argv = (?line, argv)"
      by (subst tokenise_loop.simps) (auto simp: is_nul_def nth_append)
    then show ?thesis using True by (auto simp: words.simps [of "[]"])
  next
    case False
    then have lt: "length argv < m" and ne: "xs \<noteq> []" using less.prems(2) by auto
    have nz: "\<not> is_nul (?line ! length pre)" using less.prems(1) ne
      by (cases xs) (auto simp: is_nul_def c_string_def)
    have split: "xs = ?b @ ?t" by simp
    have p1: "scan_while is_blank ?line (length pre) = length pre + length ?b"
      by (rule scan_while_list) (simp add: is_blank_def)
    show ?thesis
    proof (cases ?t)
      case Nil
      then have "xs = ?b" using split by (metis append_Nil2)
      then have "?line ! (length pre + length ?b) = CHR 0x00" by (metis append_assoc length_append nth_append_length)
      then have "tokenise_loop m ?line (length pre) argv = (?line, argv)"
        using nz by (subst tokenise_loop.simps) (simp add: Let_def p1 is_nul_def)
      moreover have "words xs = []" using Nil by (simp add: words.simps [of xs])
      ultimately show ?thesis by auto
    next
      case (Cons c r)
      let ?w = "takeWhile (\<lambda>c. \<not> is_blank c) ?t" and ?u = "dropWhile (\<lambda>c. \<not> is_blank c) ?t"
      have ct: "c_string ?t" using less.prems(1) set_dropWhileD [of _ is_blank xs] by (auto simp: c_string_def)
      have line: "?line = (pre @ ?b) @ ?t @ CHR 0x00 # junk" by simp
      have "?line ! (length pre + length ?b) = c" using Cons by (metis append_Cons length_append line nth_append_length)
      moreover have "\<not> is_nul c" using ct Cons by (auto simp: is_nul_def c_string_def)
      ultimately have n1: "\<not> is_nul (?line ! (length pre + length ?b))" by simp
      have p2: "scan_while (\<lambda>c. \<not> is_nul c \<and> \<not> is_blank c) ?line (length pre + length ?b) = length pre + length ?b + length ?w"
        using scan_while_list [of "\<lambda>c. \<not> is_nul c \<and> \<not> is_blank c" "pre @ ?b" ?t junk, folded line] tok_end_c_string [OF ct]
        by (simp add: is_nul_def del: takeWhile_dropWhile_id)
      have ws: "words xs = ?w # words ?u" using Cons by (subst words.simps) (simp add: Let_def)
      have cw: "cstr (?w @ CHR 0x00 # z) = ?w" for z
        using ct by (intro cstr_append_nul) (auto simp: c_string_def dest: set_takeWhileD)
      have line2: "?line = (pre @ ?b @ ?w) @ ?u @ CHR 0x00 # junk" by simp
      show ?thesis
      proof (cases ?u)
        case Nil
        have "?line ! (length pre + length ?b + length ?w) = CHR 0x00"
          by (metis Nil add.assoc append_Nil length_append line2 nth_append_length)
        then have "tokenise_loop m ?line (length pre) argv = tokenise_loop m ?line (length pre + length ?b + length ?w) (argv @ [length pre + length ?b])"
          using tokenise_loop_token [OF nz lt p1 n1 p2] by (simp add: is_nul_def)
        also have "\<dots> = (?line, argv @ [length pre + length ?b])"
          using \<open>?line ! _ = CHR 0x00\<close> by (subst tokenise_loop.simps) (simp add: is_nul_def)
        finally have e: "tokenise_loop m ?line (length pre) argv = (pre @ (?b @ ?w @ CHR 0x00 # junk), argv @ [length pre + length ?b])"
          using line2 by (simp only: Nil append_Nil append_assoc)
        have "take (m - length argv) (words xs) = [?w]" using ws Nil lt by (simp add: words.simps [of "[]"] take_Cons')
        moreover have "length xs = length ?b + length ?w"
          using Nil split by (metis append_Nil2 length_append takeWhile_dropWhile_id)
        ultimately show ?thesis
        proof (intro exI conjI)
          show "tokenise_loop m ?line (length pre) argv = (pre @ (?b @ ?w @ CHR 0x00 # junk), argv @ [length pre + length ?b])" by (rule e)
        qed (simp_all add: cw)
      next
        case u: (Cons d v)
        let ?pre = "pre @ ?b @ ?w @ [CHR 0x00]"
        have "?line ! (length pre + length ?b + length ?w) = d"
          using u by (metis add.assoc append_Cons length_append line2 nth_append_length)
        moreover have db: "is_blank d" using u hd_dropWhile [of "\<lambda>c. \<not> is_blank c" ?t] by simp
        moreover have "?line[length pre + length ?b + length ?w := CHR 0x00] = ?pre @ v @ CHR 0x00 # junk"
          using u by (subst line2) (simp add: list_update_append)
        ultimately have step: "tokenise_loop m ?line (length pre) argv = tokenise_loop m (?pre @ v @ CHR 0x00 # junk) (length ?pre) (argv @ [length pre + length ?b])"
          using tokenise_loop_token [OF nz lt p1 n1 p2] nul_blank [OF db] by (simp add: add.assoc)
        have wu: "words ?u = words v" using u db by (metis dropWhile.simps(2) words_blanks)
        have cv: "c_string v" using ct u set_dropWhileD [of _ "\<lambda>c. \<not> is_blank c" ?t] by (auto simp: c_string_def)
        have lv: "length v < length xs"
          using u length_dropWhile_le [of "\<lambda>c. \<not> is_blank c" ?t] length_dropWhile_le [of is_blank xs] by simp
        have la: "length (argv @ [length pre + length ?b]) \<le> m" using lt by simp
        obtain rest ps where r: "tokenise_loop m ?line (length pre) argv = (?pre @ rest, (argv @ [length pre + length ?b]) @ ps)"
          "length rest = length v + 1 + length junk" "\<forall>p \<in> set ps. length ?pre \<le> p"
          "map (\<lambda>p. cstr (drop (p - length ?pre) rest)) ps = take (m - length (argv @ [length pre + length ?b])) (words v)"
          using less.IH [OF lv cv la, of ?pre] unfolding step by blast
        let ?rest = "?b @ ?w @ CHR 0x00 # rest" and ?p = "length pre + length ?b"
        have l: "length xs = length ?b + (length ?w + Suc (length v))" 
        proof -
          have "length xs = length ?b + length ?t" by (subst split, subst length_append, rule refl)
          moreover have "length ?t = length ?w + length ?u" by (metis takeWhile_dropWhile_id length_append)
          ultimately show ?thesis by (simp add: u)
        qed
        have d: "drop (p - length pre) ?rest = drop (p - length ?pre) rest" if "p \<in> set ps" for p
        proof -
          have "length ?pre \<le> p" using r(3) that by blast
          moreover have "length ?pre = length pre + length (?b @ ?w @ [CHR 0x00])" by (rule length_append)
          ultimately have "p - length pre = length (?b @ ?w @ [CHR 0x00]) + (p - length ?pre)" by linarith
          moreover have "?rest = (?b @ ?w @ [CHR 0x00]) @ rest" by simp
          ultimately show ?thesis by (metis drop_past)
        qed
        have "map (\<lambda>p. cstr (drop (p - length pre) ?rest)) (?p # ps) = ?w # take (m - length (argv @ [length pre + length ?b])) (words v)"
          using r(4) d cw [of rest] by (simp cong: map_cong)
        also have "\<dots> = take (m - length argv) (words xs)" using ws wu lt by (simp add: take_Cons')
        finally show ?thesis
        proof (intro exI conjI)
          show "tokenise_loop m ?line (length pre) argv = (pre @ ?rest, argv @ ?p # ps)" using r(1) by simp
        qed (use r(2,3) l in auto)
      qed
    qed
  qed
qed

lemma tokenise_argv:
  assumes "c_string s"
  shows "argv_strings (tokenise (s @ CHR 0x00 # junk) max_argc) = take max_argc (words s)"
proof -
  from tokenise_loop_words [OF assms, of "[]" max_argc "[]" junk]
  obtain rest ps where "tokenise_loop max_argc (s @ CHR 0x00 # junk) 0 [] = (rest, ps)"
    "map (\<lambda>p. cstr (drop p rest)) ps = take max_argc (words s)" by auto
  then show ?thesis by (simp add: tokenise_def argv_strings_def)
qed

lemma tokenise_loop_length: "length (fst (tokenise_loop m line p argv)) = length line"
proof (induction m line p argv rule: tokenise_loop.induct)
  case (1 m line p argv)
  then show ?case by (subst tokenise_loop.simps) (simp add: Let_def)
qed

lemma tokenise_length: "length (fst (tokenise line m)) = length line"
  by (simp add: tokenise_def tokenise_loop_length)

text \<open>
  C36. \<open>tokenise\<close>, which cuts the line in place with one pass of pointers, is the split of the line into
  words at blanks: it returns as many pointers as the line has words, at most \<open>max_argc\<close>, and each
  points, in the array as the cuts leave it, to a C string that is the corresponding word.
\<close>

theorem tokenise_words:
  assumes "c_string s"
  shows "argv_strings (tokenise (s @ CHR 0x00 # junk) max_argc) = take max_argc (words s) \<and>
    length (fst (tokenise (s @ CHR 0x00 # junk) max_argc)) = length (s @ CHR 0x00 # junk)"
  using tokenise_argv [OF assms] by (simp add: tokenise_length)

theorem tokenise_words_witness:
  "argv_strings (tokenise ('' fs  write notes hi'' @ CHR 0x00 # ''stale'') 8) = [''fs'', ''write'', ''notes'', ''hi'']"
proof -
  have "words '' fs  write notes hi'' = [''fs'', ''write'', ''notes'', ''hi'']"
    by (simp add: words.simps is_blank_def)
  then show ?thesis using tokenise_words [of "'' fs  write notes hi''" "''stale''" 8] by (simp add: c_string_def)
qed

end
