(* ===== verification/ShellCmds.thy ===== *)
theory ShellCmds
  imports Console FsHistory Launch
begin

text \<open>
  The built-in commands of \<open>src/shell/shell.c\<close>. A command gets \<open>argv\<close> as the list of its C strings
  (\<open>argc\<close> is the length) and returns its result code; \<^const>\<open>None\<close> means that it does not return.
  The state after a command that kills its own thread is the one in which the core is given up.

  What is outside \<open>src/\<close> is in \<open>shell_env\<close>: the kernel's environment, the application table that
  the application's translation unit defines, the addresses that the linker gives to
  \<open>thread_exit\<close> and \<open>btn_monitor_thread\<close>, the strings of the build, and the commands that
  other modules register.
\<close>

section \<open>State\<close>

datatype cmd_handler =
    CmdInfo | CmdHelp | CmdPs | CmdThreads | CmdKill | CmdKillproc | CmdMem | CmdLs | CmdCat | CmdRm | CmdFs
  | CmdReboot | CmdUpdate | CmdTrace | CmdRun | CmdDisplay | CmdLed | CmdOther nat

record shell_cmd_t =
  sc_name :: string
  sc_help :: string
  sc_handler :: cmd_handler

record btn_binding_t =
  bb_mask :: u8
  bb_appname :: string

record 'h shell_state = "'h sys_state" +
  cmd_table :: "shell_cmd_t list"
  btn_bindings :: "btn_binding_t list"

record app_entry_t =
  ae_name :: string
  ae_entry :: u32
  ae_priority :: u8

record build_info =
  b_version :: "nat \<times> nat \<times> nat"
  b_built_on :: string
  b_compiler :: string
  b_platform :: string
  b_sram :: string
  b_flash :: string
  b_wifi :: bool
  b_bt :: bool

record ('h, 's) shell_env =
  x_env :: "('h, 's) env"
  x_thread_exit :: u32
  x_btn_monitor :: u32
  x_app_table :: "app_entry_t list"
  x_build :: build_info
  x_other :: "nat \<Rightarrow> string list \<Rightarrow> 's \<Rightarrow> (int \<times> 's) option"
  x_usb_connected :: "'h \<Rightarrow> bool"

definition SHELL_MAX_CMDS :: nat where "SHELL_MAX_CMDS = 32"

definition shell_register_cmd :: "shell_cmd_t option \<Rightarrow> ('h, 'a) shell_state_scheme \<Rightarrow> int \<times> ('h, 'a) shell_state_scheme" where
  "shell_register_cmd cmd s = (case cmd of
       None \<Rightarrow> (- 1, s)
     | Some c \<Rightarrow> if SHELL_MAX_CMDS \<le> length (cmd_table s) then (- 1, s)
         else (0, s\<lparr>cmd_table := cmd_table s @ [c]\<rparr>))"

section \<open>Listing commands\<close>

text \<open>A loop that acts on the state at each index, and may not return.\<close>

fun each :: "('b \<Rightarrow> 's \<Rightarrow> 's option) \<Rightarrow> 'b list \<Rightarrow> 's \<Rightarrow> 's option" where
  "each f [] s = Some s"
| "each f (x # xs) s = Option.bind (f x s) (each f xs)"

definition cmd_help :: "('h, 'a) shell_state_scheme \<Rightarrow> (int \<times> ('h, 'a) shell_state_scheme) option" where
  "cmd_help s = Some (0, fold (\<lambda>c. sh_print (''  '' @ ljust 12 (sc_name c) @ ''  '' @ sc_help c @ crlf)) (cmd_table s)
     (sh_println ''Available commands:'' s))"

definition cmd_ps_line :: "pcb \<Rightarrow> string" where
  "cmd_ps_line p = ljust 4 (dec (unat (p_pid p))) @ '' '' @ ljust 16 (p_name p) @ '' '' @ ljust 8 (dec (p_thread_count p)) @ '' '' @
     (if p_alive p then ''yes'' else ''no'') @ crlf"

definition cmd_ps :: "('h, 'a) shell_state_scheme \<Rightarrow> (int \<times> ('h, 'a) shell_state_scheme) option" where
  "cmd_ps s0 = (let s = sh_println ''---  ---------------  -------  -----'' (sh_println ''PID  NAME             THREADS  ALIVE'' s0)
   in Some (0, fold (\<lambda>i s. case task_get_process_slot (int i) s of
       None \<Rightarrow> s | Some p \<Rightarrow> sh_print (cmd_ps_line (pcb_pool s p)) s) [0..<MAX_PROCESSES] s))"

fun state_name :: "thread_state \<Rightarrow> string" where
  "state_name THREAD_NEW = ''NEW''"
| "state_name THREAD_READY = ''READY''"
| "state_name THREAD_RUNNING = ''RUNNING''"
| "state_name THREAD_BLOCKED = ''BLOCKED''"
| "state_name THREAD_SLEEPING = ''SLEEPING''"
| "state_name THREAD_ZOMBIE = ''ZOMBIE''"

text \<open>\<open>%llu.%llu\<close> of a number of tenths, and the string that \<open>snprintf\<close> leaves in the buffer.\<close>

definition tenths :: "u64 \<Rightarrow> string" where
  "tenths t = dec (unat (t div 10)) @ ''.'' @ dec (unat (t mod 10))"

definition cpu_time_text :: "u64 \<Rightarrow> string" where
  "cpu_time_text us = (let ms = us div 1000
   in if ms < 1000 then dec (unat ms) @ ''ms''
      else let t = us div 100000 in if t < 600 then tenths t @ ''s''
      else let t = us div 6000000 in if t < 600 then tenths t @ ''m''
      else let t = us div 360000000 in if t < 240 then tenths t @ ''h''
      else tenths (us div 8640000000) @ ''d'')"

definition format_cpu_time :: "u64 \<Rightarrow> nat \<Rightarrow> string" where
  "format_cpu_time us buf_size = take (buf_size - 1) (cpu_time_text us)"

definition core_str :: "u8 \<Rightarrow> string" where
  "core_str affinity = (if affinity = THREAD_AFFINITY_ANY then ''*'' else if affinity = THREAD_AFFINITY_C0 then ''0'' else ''1'')"

definition thread_line :: "tcb \<Rightarrow> u32 \<Rightarrow> string" where
  "thread_line t canary = ljust 4 (dec (unat (t_tid t))) @ '' '' @ ljust 4 (dec (unat (t_pid t))) @ '' '' @
     ljust 4 (dec (unat (t_priority t))) @ '' '' @ ljust 5 (core_str (t_affinity t)) @ '' '' @ ljust 9 (state_name (t_state t)) @ '' '' @
     ljust 7 (format_cpu_time (t_cpu_time_us t) 16) @ '' '' @ ljust 7 (dec (unat (t_stack_size t))) @ '' '' @ ljust 16 (t_name t) @ '' '' @
     (if canary = STACK_CANARY then ''OK'' else ''OVERFLOW'') @ crlf"

text \<open>The word at the base of the thread's stack; reading it through \<open>NULL\<close> does not return.\<close>

definition stack_canary :: "nat \<Rightarrow> ('h, 'a) shell_state_scheme \<Rightarrow> u32 option" where
  "stack_canary t s = map_option (heap_mem s) (t_stack_base (tcb_pool s t))"

definition cmd_threads :: "('h, 'a) shell_state_scheme \<Rightarrow> (int \<times> ('h, 'a) shell_state_scheme) option" where
  "cmd_threads s0 = (let s = sh_println ''---  ---  ---  ----  --------  ------  ------  ---------------  --------''
       (sh_println ''TID  PID  PRI  CORE  STATE     Time    STACK   NAME            CANARY'' s0)
   in map_option (\<lambda>s. (0, s)) (each (\<lambda>i s. case task_get_thread_slot (int i) s of
       None \<Rightarrow> Some s
     | Some t \<Rightarrow> Option.bind (stack_canary t s) (\<lambda>c. Some (sh_print (thread_line (tcb_pool s t) c) s))) [0..<MAX_THREADS] s))"

definition mem_line :: "tcb \<Rightarrow> u32 \<Rightarrow> string" where
  "mem_line t canary = ''  TID '' @ ljust 3 (dec (unat (t_tid t))) @ '' '' @ ljust 14 (t_name t) @ ''  canary='' @
     hex_digits 8 (unat canary) @ ''  '' @ (if canary = STACK_CANARY then ''OK'' else ''*** OVERFLOWED ***'') @ crlf"

definition cmd_mem :: "('h, 'a) shell_state_scheme \<Rightarrow> (int \<times> ('h, 'a) shell_state_scheme) option" where
  "cmd_mem s0 = do {
     ((used, free_bytes, largest), s1) \<leftarrow> kmem_stats s0;
     let s2 = sh_print (''Kernel heap:'' @ crlf) s1;
     let s3 = sh_print (''  Used        : '' @ dec (unat used) @ '' bytes'' @ crlf) s2;
     let s4 = sh_print (''  Free        : '' @ dec (unat free_bytes) @ '' bytes'' @ crlf) s3;
     let s5 = sh_print (''  Largest free: '' @ dec (unat largest) @ '' bytes'' @ crlf) s4;
     s7 \<leftarrow> each (\<lambda>i s. case task_get_thread_slot (int i) s of
         None \<Rightarrow> Some s
       | Some t \<Rightarrow> Option.bind (stack_canary t s) (\<lambda>c. Some (sh_print (mem_line (tcb_pool s t) c) s)))
       [0..<MAX_THREADS] (sh_println ''Thread stack canaries:'' s5);
     Some (0, s7)
   }"

section \<open>Killing\<close>

text \<open>\<open>strtol(s, NULL, 10)\<close> and \<open>strtoul(s, NULL, 10)\<close> with 32-bit \<open>long\<close>.\<close>

definition strtol10 :: "string \<Rightarrow> int" where
  "strtol10 str = max (- (2 ^ 31)) (min (2 ^ 31 - 1) (atoi str))"

definition strtoul10 :: "string \<Rightarrow> u32" where
  "strtoul10 str = (if 2 ^ 32 \<le> \<bar>atoi str\<bar> then - 1 else word_of_int (atoi str))"

definition cmd_kill ::
  "string list \<Rightarrow> ('h, 'a) shell_state_scheme \<Rightarrow> (int \<times> ('h, 'a) shell_state_scheme) option" where
  "cmd_kill argv s =
     (if length argv < 2 then Some (- 1, sh_println ''Usage: kill <tid>'' s)
      else let tid = word_of_int (strtol10 (argv ! 1)) :: u32
        in case task_find_thread tid s of
          None \<Rightarrow> Some (- 1, sh_print (''kill: thread '' @ dec (unat tid) @ '' not found'' @ crlf) s)
        | Some t \<Rightarrow>
            let b = tcb_pool s t
            in if PID_IS_KERNEL (t_pid b) then Some (- 1, sh_print (''kill: thread '' @ dec (unat tid) @ '' ('' @ t_name b @
                 '') belongs to kernel process '' @ dec (unat (t_pid b)) @ crlf) s)
               else do {
                 let self = CURRENT_TCB s = Some t;
                 s1 \<leftarrow> task_kill_thread (core_num s) (Some t) s;
                 let s2 = sh_print (''kill: thread '' @ dec (unat tid) @ '' ('' @ t_name b @ '') killed'' @ crlf) s1;
                 Some (0, if self then sched_yield (core_num s) s2 else s2)
               })"

definition cmd_killproc ::
  "string list \<Rightarrow> ('h, 'a) shell_state_scheme \<Rightarrow> (int \<times> ('h, 'a) shell_state_scheme) option" where
  "cmd_killproc argv s =
     (if length argv < 2 then Some (- 1, sh_println ''Usage: killproc <pid>'' s)
      else let pid = word_of_int (strtol10 (argv ! 1)) :: u32
        in if PID_IS_KERNEL pid then Some (- 1, sh_print (''killproc: PIDs '' @ dec (unat PID_KERNEL_MIN) @ ''-'' @
             dec (unat PID_KERNEL_MAX) @ '' are kernel processes'' @ crlf) s)
           else case task_find_process pid s of
             None \<Rightarrow> Some (- 1, sh_print (''killproc: process '' @ dec (unat pid) @ '' not found'' @ crlf) s)
           | Some p \<Rightarrow> do {
               s1 \<leftarrow> task_kill_process (core_num s) (Some p)
                 (sh_print (''killproc: killing process '' @ dec (unat pid) @ '' ('' @ p_name (pcb_pool s p) @ '')'' @ crlf) s);
               cur \<leftarrow> current_tcb s1 (core_num s);
               Some (0, if t_state (tcb_pool s1 cur) = THREAD_ZOMBIE then sched_yield (core_num s) s1 else s1)
             })"

section \<open>File system commands\<close>

definition ls_callback :: "fs_entry \<Rightarrow> hw_op list \<Rightarrow> int \<times> hw_op list" where
  "ls_callback e out = (0, out @ [Printf (''  '' @ ljust 16 (cstr (fe_name e)) @ ''  '' @ dec (unat (fe_size e)) @ '' bytes'' @ crlf)])"

definition cmd_ls ::
  "('h, ('h, 'a) shell_state_scheme) env \<Rightarrow> ('h, 'a) shell_state_scheme \<Rightarrow> (int \<times> ('h, 'a) shell_state_scheme) option" where
  "cmd_ls E s = do {
     (out, s1) \<leftarrow> fs_list E (Some ls_callback) [] (sh_println ''----------------  ----'' (sh_println ''Name              Size'' s));
     Some (0, dev_emit out s1)
   }"

definition chars_of :: "u8 list \<Rightarrow> string" where
  "chars_of bs = map (\<lambda>b. char_of (unat b)) bs"

definition bytes_of :: "string \<Rightarrow> u8 list" where
  "bytes_of cs = map (\<lambda>c. word_of_nat (of_char c)) cs"

definition quoted :: "string \<Rightarrow> string" where
  "quoted x = [CHR 0x27] @ x @ [CHR 0x27] @ crlf"

text \<open>The loop of \<open>cat\<close>: 127 bytes at a time, printed as a C string.\<close>

partial_function (option) cat_loop ::
  "('h, ('h, 'a) shell_state_scheme) env \<Rightarrow> int \<Rightarrow> ('h, 'a) shell_state_scheme \<Rightarrow> ('h, 'a) shell_state_scheme option" where
  "cat_loop E fd s = Option.bind (fs_read E fd True 127 s) (\<lambda>((n, bs), s1).
     if 0 < n then cat_loop E fd (sh_print (cstr (chars_of bs)) s1) else Some s1)"

definition cmd_cat ::
  "('h, ('h, 'a) shell_state_scheme) env \<Rightarrow> string list \<Rightarrow> ('h, 'a) shell_state_scheme \<Rightarrow> (int \<times> ('h, 'a) shell_state_scheme) option" where
  "cmd_cat E argv s =
     (if length argv < 2 then Some (- 1, sh_println ''Usage: cat <file>'' s)
      else do {
        (fd, s1) \<leftarrow> fs_open E (Some (argv ! 1)) VFS_O_RDONLY s;
        if fd < 0 then Some (- 1, sh_print (''cat: cannot open '' @ quoted (argv ! 1)) s1)
        else do {
          s2 \<leftarrow> cat_loop E fd s1;
          (_, s3) \<leftarrow> fs_close E fd (sh_println '''' s2);
          Some (0, s3)
        }
      })"

text \<open>
  \<open>strncat(line, x, sizeof(line) - strlen(line) - 1)\<close> on the 128 characters of \<open>line\<close>, and the line
  that the words from \<open>argv[3]\<close> make: separated by blanks, with a newline at the end.
\<close>

definition strncat_line :: "string \<Rightarrow> string \<Rightarrow> string" where
  "strncat_line line x = line @ take (unat SHELL_LINE_MAX - length line - 1) (cstr x)"

fun join_words :: "nat \<Rightarrow> string list \<Rightarrow> string \<Rightarrow> string" where
  "join_words i [] line = line"
| "join_words i (w # ws) line =
     join_words (i + 1) ws (strncat_line (if 3 < i then strncat_line line '' '' else line) w)"

definition text_line :: "string list \<Rightarrow> string" where
  "text_line argv = strncat_line (join_words 3 (drop 3 argv) '''') [CHR 0x0A]"

text \<open>The multi-line mode: every line read is written with a newline until a single dot.\<close>

partial_function (option) fs_write_lines ::
  "('h, ('h, 'a) shell_state_scheme) env \<Rightarrow> u32 \<Rightarrow> int \<Rightarrow> string \<Rightarrow> int \<Rightarrow> ('h, 'a) shell_state_scheme \<Rightarrow>
     (int \<times> ('h, 'a) shell_state_scheme) option" where
  "fs_write_lines E te fd buf tot s = Option.bind (shell_readline E te buf SHELL_LINE_MAX (sh_print ''> '' s)) (\<lambda>((n, buf1), s1).
     if n = 1 \<and> buf1 ! 0 = CHR 0x2E then Some (tot, s1)
     else let line = cstr buf1 @ take (unat SHELL_LINE_MAX - nat n - 1) [CHR 0x0A];
            buf2 = line @ CHR 0x00 # drop (length line + 1) buf1
       in Option.bind (fs_write E fd (Some (bytes_of line)) (word_of_nat (length line)) s1) (\<lambda>(w, s2).
            if w < 0 then Some (tot, sh_println ''fs write: write error (file full?)'' s2)
            else fs_write_lines E te fd buf2 (tot + w) s2))"

text \<open>The content of an uninitialised \<open>char line[128]\<close> does not matter; it is zero here.\<close>

definition line_array :: string where
  "line_array = replicate (unat SHELL_LINE_MAX) CHR 0x00"

definition fs_cmd_write ::
  "('h, ('h, 'a) shell_state_scheme) env \<Rightarrow> u32 \<Rightarrow> string list \<Rightarrow> ('h, 'a) shell_state_scheme \<Rightarrow>
     (int \<times> ('h, 'a) shell_state_scheme) option" where
  "fs_cmd_write E te argv s =
     (if length argv < 3 then Some (- 1, fold sh_println [''Usage: fs write <file> [text]'',
          ''       Without [text]: interactive multi-line mode.'',
          ''       End input with a single '' @ [CHR 0x27, CHR 0x2E, CHR 0x27] @ '' on its own line.''] s)
      else do {
        (fd, s1) \<leftarrow> fs_open E (Some (argv ! 2)) (or VFS_O_WRONLY (or VFS_O_CREAT VFS_O_TRUNC)) s;
        if fd < 0 then Some (- 1, sh_print (''fs write: cannot open '' @ quoted (argv ! 2)) s1)
        else do {
          (total, s2) \<leftarrow> (if 4 \<le> length argv
            then fs_write E fd (Some (bytes_of (text_line argv))) (word_of_nat (length (text_line argv))) s1
            else fs_write_lines E te fd line_array 0
              (sh_println (''Type lines, then enter '' @ [CHR 0x27, CHR 0x2E, CHR 0x27] @ '' alone to finish.'')
                (sh_print (''Entering multi-line mode for '' @ [CHR 0x27] @ argv ! 2 @ [CHR 0x27, CHR 0x2E] @ crlf) s1)));
          (rc, s3) \<leftarrow> fs_close E fd s2;
          if rc \<noteq> 0 then Some (- 1, sh_print (''fs write: flash commit failed for '' @ quoted (argv ! 2)) s3)
          else if total < 0 then Some (- 1, sh_print (''fs write: failed writing to '' @ quoted (argv ! 2)) s3)
          else Some (0, sh_print (''fs write: wrote '' @ dec_int total @ '' bytes to '' @ quoted (argv ! 2)) s3)
        }
      })"

definition fs_cmd_append ::
  "('h, ('h, 'a) shell_state_scheme) env \<Rightarrow> string list \<Rightarrow> ('h, 'a) shell_state_scheme \<Rightarrow>
     (int \<times> ('h, 'a) shell_state_scheme) option" where
  "fs_cmd_append E argv s =
     (if length argv < 4 then Some (- 1, sh_println ''Usage: fs append <file> <text>'' s)
      else do {
        (fd, s1) \<leftarrow> fs_open E (Some (argv ! 2)) (or VFS_O_WRONLY (or VFS_O_CREAT VFS_O_APPEND)) s;
        if fd < 0 then Some (- 1, sh_print (''fs append: cannot open '' @ quoted (argv ! 2)) s1)
        else do {
          (written, s2) \<leftarrow> fs_write E fd (Some (bytes_of (text_line argv))) (word_of_nat (length (text_line argv))) s1;
          (rc, s3) \<leftarrow> fs_close E fd s2;
          if rc \<noteq> 0 then Some (- 1, sh_print (''fs append: flash commit failed for '' @ quoted (argv ! 2)) s3)
          else if written < 0 then Some (- 1, sh_print (''fs append: failed writing to '' @ quoted (argv ! 2)) s3)
          else Some (0, sh_print (''fs append: appended '' @ dec_int written @ '' bytes to '' @ quoted (argv ! 2)) s3)
        }
      })"

definition em_dash :: string where "em_dash = [CHR 0xE2, CHR 0x80, CHR 0x94]"

definition cmd_fs ::
  "('h, ('h, 'a) shell_state_scheme) env \<Rightarrow> u32 \<Rightarrow> string list \<Rightarrow> ('h, 'a) shell_state_scheme \<Rightarrow>
     (int \<times> ('h, 'a) shell_state_scheme) option" where
  "cmd_fs E te argv s = (let sub = (if 2 \<le> length argv then argv ! 1 else '''')
   in if strcmp_eq sub ''write'' then fs_cmd_write E te argv s
      else if strcmp_eq sub ''append'' then fs_cmd_append E argv s
      else if strcmp_eq sub ''format'' then do {
        (_, s1) \<leftarrow> fs_format E (sh_println (''Formatting filesystem '' @ em_dash @ '' all files will be erased...'') s);
        Some (0, sh_println ''Format complete.'' s1)
      }
      else Some (- 1, fold sh_println [''Usage: fs <write|append|format>'',
        ''  fs write <file> [text]   '' @ em_dash @ '' create/overwrite (multi-line if no text)'',
        ''  fs append <file> <text>  '' @ em_dash @ '' append a line to a file'',
        ''  fs format                '' @ em_dash @ '' erase all files''] s))"

definition cmd_rm ::
  "('h, ('h, 'a) shell_state_scheme) env \<Rightarrow> string list \<Rightarrow> ('h, 'a) shell_state_scheme \<Rightarrow> (int \<times> ('h, 'a) shell_state_scheme) option" where
  "cmd_rm E argv s =
     (if length argv < 2 then Some (- 1, sh_println ''Usage: rm <file>'' s)
      else do {
        (rc, s1) \<leftarrow> fs_delete E (Some (argv ! 1)) s;
        if rc < 0 then Some (- 1, sh_print (''rm: '' @ [CHR 0x27] @ argv ! 1 @ [CHR 0x27] @ '' not found'' @ crlf) s1)
        else Some (0, sh_print (''rm: deleted '' @ quoted (argv ! 1)) s1)
      })"

section \<open>Trace\<close>

definition trace_why :: "u8 \<Rightarrow> string" where
  "trace_why st = (if st = state_code THREAD_RUNNING then ''preempt/yield'' else if st = state_code THREAD_SLEEPING then ''sleep''
     else if st = state_code THREAD_BLOCKED then ''block'' else if st = state_code THREAD_ZOMBIE then ''exit'' else ''?'')"

definition name_tid :: "string \<Rightarrow> u32 \<Rightarrow> string" where
  "name_tid nm tid = nm @ ''('' @ dec (unat tid) @ '')''"

definition event_text :: "trace_event \<Rightarrow> string" where
  "event_text e = (case te_type e of
       TRACE_SWITCH \<Rightarrow> name_tid (if te_name e = [] then ''-'' else te_name e) (te_tid e) @ '' -> '' @
         name_tid (te_to_name e) (te_to_tid e) @ ''  '' @ trace_why (te_state e) @ crlf
     | TRACE_WAKE \<Rightarrow> ''wake     '' @ name_tid (te_name e) (te_tid e) @ crlf
     | TRACE_UNBLOCK \<Rightarrow> ''unblock  '' @ name_tid (te_name e) (te_tid e) @ crlf
     | TRACE_KILL \<Rightarrow> ''kill     '' @ name_tid (te_name e) (te_tid e) @ crlf)"

definition event_time :: "u32 \<Rightarrow> nat \<Rightarrow> string" where
  "event_time dt core = rjust (CHR 0x20) 4 (dec (unat (dt div 1000))) @ ''.'' @ rjust (CHR 0x30) 3 (dec (unat (dt mod 1000))) @
     ''  c'' @ dec core @ ''   ''"

text \<open>The events of \<open>[first, end)\<close>; \<open>t0\<close> is the time of the first one printed.\<close>

fun trace_events :: "nat list \<Rightarrow> u32 option \<Rightarrow> ('h, 'a) dev_state_scheme \<Rightarrow> ('h, 'a) dev_state_scheme option" where
  "trace_events [] t0 s = Some s"
| "trace_events (seq # sq) t0 s = Option.bind (sched_trace_get (word_of_nat seq) s) (\<lambda>(ev, s1). case ev of
       None \<Rightarrow> trace_events sq t0 s1
     | Some e \<Rightarrow> let start = (case t0 of None \<Rightarrow> te_time_us e | Some t \<Rightarrow> t)
         in trace_events sq (Some start) (sh_print (event_text e) (sh_print (event_time (te_time_us e - start) (te_core e)) s1)))"

definition trace_show :: "u32 \<Rightarrow> ('h, 'a) dev_state_scheme \<Rightarrow> ('h, 'a) dev_state_scheme option" where
  "trace_show want s = do {
     ((was_on, _, _, _), s1) \<leftarrow> sched_trace_info s;
     s2 \<leftarrow> sched_trace_pause True s1;
     ((_, first0, last, _), s3) \<leftarrow> sched_trace_info s2;
     let first = (if want \<noteq> 0 \<and> want < last - first0 then last - want else first0);
     s4 \<leftarrow> trace_events [unat first..<unat last] None
       (if first = last then sh_println ''trace: no events (start with: trace on [name])'' s3
        else sh_println ''      ms  core  event'' s3);
     if was_on then sched_trace_pause False s4 else Some s4
   }"

definition cmd_trace ::
  "string list \<Rightarrow> ('h, 'a) dev_state_scheme \<Rightarrow> (int \<times> ('h, 'a) dev_state_scheme) option" where
  "cmd_trace argv s =
     (if length argv < 2 then do {
        ((on, first, last, flt), s1) \<leftarrow> sched_trace_info s;
        let s2 = sh_print (''trace: '' @ (if on then ''on'' else ''off'') @ '', '' @ dec (unat last) @ '' events recorded, '' @
          dec (unat (last - first)) @ '' kept'') s1;
        let s3 = (if cstr flt \<noteq> [] then sh_print ('', threads named '' @ cstr flt @ ''*'') s2 else s2);
        Some (0, sh_print crlf s3)
      }
      else if strcmp_eq (argv ! 1) ''on'' then do {
        s1 \<leftarrow> sched_trace_start (if 2 < length argv then Some (argv ! 2) else None) s;
        Some (0, if 2 < length argv then sh_print (''Tracing threads named '' @ argv ! 2 @ ''*.'' @ crlf) s1
                 else sh_println ''Tracing all threads.'' s1)
      }
      else if strcmp_eq (argv ! 1) ''off'' then do {
        s1 \<leftarrow> sched_trace_pause True s;
        Some (0, sh_println (''Tracing stopped; '' @ [CHR 0x27] @ ''trace show'' @ [CHR 0x27] @ '' prints the events.'') s1)
      }
      else if strcmp_eq (argv ! 1) ''show'' then do {
        s1 \<leftarrow> trace_show (if 2 < length argv then strtoul10 (argv ! 2) else 0) s;
        Some (0, s1)
      }
      else Some (- 1, sh_println ''Usage: trace [on [name] | off | show [n]]'' s))"

section \<open>Starting applications\<close>

definition PID_RANGE_AUTORUN :: nat where "PID_RANGE_AUTORUN = 1"
definition PID_RANGE_RUN :: nat where "PID_RANGE_RUN = 2"
definition PID_RANGE_BUTTON :: nat where "PID_RANGE_BUTTON = 3"

text \<open>
  The kernel's memory in words, seen as bytes: the byte at an address, and storing bytes.
\<close>

definition mem_byte :: "(nat \<Rightarrow> u32) \<Rightarrow> nat \<Rightarrow> u8" where
  "mem_byte m a = ucast (drop_bit (8 * (a mod 4)) (m (a - a mod 4)))"

definition poke_byte :: "nat \<Rightarrow> u8 \<Rightarrow> (nat \<Rightarrow> u32) \<Rightarrow> nat \<Rightarrow> u32" where
  "poke_byte a b m = m(a - a mod 4 := or (and (m (a - a mod 4)) (NOT (push_bit (8 * (a mod 4)) 0xFF))) (push_bit (8 * (a mod 4)) (ucast b)))"

fun poke_bytes :: "nat \<Rightarrow> u8 list \<Rightarrow> (nat \<Rightarrow> u32) \<Rightarrow> nat \<Rightarrow> u32" where
  "poke_bytes a [] m = m"
| "poke_bytes a (b # bs) m = poke_bytes (a + 1) bs (poke_byte a b m)"

text \<open>The copy of the argument on the kernel heap.\<close>

definition copy_arg :: "string option \<Rightarrow> 'a kstate_scheme \<Rightarrow> (nat option \<times> 'a kstate_scheme) option" where
  "copy_arg arg s = (case arg of
       None \<Rightarrow> Some (None, s)
     | Some a \<Rightarrow> do {
         (ptr, s1) \<leftarrow> kmalloc (word_of_nat (length (cstr a)) + 1) s;
         Some (ptr, case ptr of None \<Rightarrow> s1
           | Some p \<Rightarrow> s1\<lparr>heap_mem := poke_bytes p (bytes_of (cstr a @ [CHR 0x00])) (heap_mem s1)\<rparr>)
       })"

definition ptr_word :: "nat option \<Rightarrow> u32" where
  "ptr_word p = (case p of None \<Rightarrow> 0 | Some a \<Rightarrow> word_of_nat a)"

definition run_app ::
  "u32 \<Rightarrow> app_entry_t \<Rightarrow> string \<Rightarrow> string option \<Rightarrow> ('h, 'a) dev_state_scheme \<Rightarrow> (int \<times> ('h, 'a) dev_state_scheme) option" where
  "run_app te app appname arg s = (let (pid, s1) = task_alloc_pid PID_RANGE_RUN s in do {
     (app_arg, s2) \<leftarrow> copy_arg arg s1;
     (r, s3) \<leftarrow> launch te (Some appname) pid (ae_entry app) (ptr_word app_arg) (ae_priority app) s2;
     case r of
       Inl None \<Rightarrow> do {
         s4 \<leftarrow> kfree app_arg (sh_println ''run: cannot create process (pool full)'' s3);
         Some (- 1, s4)
       }
     | Inl (Some proc) \<Rightarrow> do {
         s4 \<leftarrow> kfree app_arg (task_free_process (Some proc) (sh_println ''run: cannot create thread (pool full)'' s3));
         Some (- 1, s4)
       }
     | Inr (proc, t) \<Rightarrow> Some (0, sh_print (''run: started '' @ [CHR 0x27] @ appname @ [CHR 0x27] @ '' as PID '' @ dec (unat pid) @
         '' TID '' @ dec (unat (t_tid (tcb_pool s3 t))) @ crlf) s3)
   })"

definition cmd_run ::
  "u32 \<Rightarrow> app_entry_t list \<Rightarrow> string list \<Rightarrow> ('h, 'a) dev_state_scheme \<Rightarrow> (int \<times> ('h, 'a) dev_state_scheme) option" where
  "cmd_run te apps argv s =
     (if length argv < 2 then Some (0, fold (\<lambda>a. sh_print (''  '' @ ae_name a @ crlf)) apps
        (sh_println ''Available apps:'' (sh_println ''Usage: run <appname> [arg]'' s)))
      else case find (\<lambda>a. strcmp_eq (ae_name a) (argv ! 1)) apps of
        None \<Rightarrow> Some (- 1, sh_print (''run: app '' @ [CHR 0x27] @ argv ! 1 @ [CHR 0x27] @ '' not found'' @ crlf) s)
      | Some app \<Rightarrow> run_app te app (argv ! 1) (if 3 \<le> length argv then Some (argv ! 2) else None) s)"

section \<open>System information\<close>

definition cmd_info ::
  "('h, 's) env \<Rightarrow> build_info \<Rightarrow> ('h, 'a) dev_state_scheme \<Rightarrow> (int \<times> ('h, 'a) dev_state_scheme) option" where
  "cmd_info E b s = (case b_version b of (major, minor, edit) \<Rightarrow>
     case sync_spinlock_report (e_sdk E) (sio s) of (spin_used, spin_total) \<Rightarrow>
       Some (0, fold sh_print
         ([crlf @ ''picoOS v'' @ dec major @ ''.'' @ dec minor @ ''.'' @ dec edit @ crlf @ [CHR 0x0A],
           ''Built On  : '' @ b_built_on b @ crlf, ''Compiler  : '' @ b_compiler b @ crlf, ''Platform  : '' @ b_platform b @ crlf,
           ''SRAM      : '' @ b_sram b @ crlf, ''Flash     : '' @ b_flash b @ crlf,
           ''Spinlocks : '' @ dec spin_used @ ''/'' @ dec spin_total @ '' claim-free HW slots in use'' @ crlf] @
          (if b_wifi b then [''WiFi      : CYW43 (enabled)'' @ crlf] else []) @
          (if b_bt b then [''Bluetooth : CYW43 (enabled)'' @ crlf] else []) @
          [''Display   : '' @ dec (unat DISP_WIDTH) @ ''x'' @ dec (unat DISP_HEIGHT) @ '' RGB332 ST7789'' @ crlf]) s))"

text \<open>The two commands that restart the machine do not return.\<close>

definition cmd_reboot :: "('h, 'a) dev_state_scheme \<Rightarrow> (int \<times> ('h, 'a) dev_state_scheme) option" where
  "cmd_reboot s = None"

definition cmd_update :: "('h, 'a) dev_state_scheme \<Rightarrow> (int \<times> ('h, 'a) dev_state_scheme) option" where
  "cmd_update s = None"

end
