(* ===== verification/AppStart.thy ===== *)
theory AppStart
  imports ShellCmds
begin

text \<open>
  What the shell's \<open>run\<close> promises: an application is started completely or not at all, nothing leaks
  from the heap when it is not, and the application finds its argument, a copy on the kernel heap,
  intact behind the pointer that its entry point gets.
\<close>

section \<open>Bytes in the word memory\<close>

lemma aligned_word: "(a :: nat) - a mod 4 = 4 * (a div 4)"
  by (simp add: minus_mod_eq_mult_div)

lemma bit_ff: "bit (0xFF :: 'a::len word) j \<longleftrightarrow> j < LENGTH('a) \<and> j < 8"
proof -
  have "(0xFF :: 'a word) = Bit_Operations.mask 8" by (simp add: mask_eq_exp_minus_1)
  then have "bit (0xFF :: 'a word) j \<longleftrightarrow> bit (Bit_Operations.mask 8 :: 'a word) j" by (rule arg_cong)
  also have "\<dots> \<longleftrightarrow> j < LENGTH('a) \<and> j < 8" unfolding bit_mask_iff possible_bit_word by auto
  finally show ?thesis .
qed

lemma mem_byte_poke: "mem_byte (poke_byte a b m) x = (if x = a then b else mem_byte m x)"
proof (cases "x div 4 = a div 4")
  case False
  then have "x - x mod 4 \<noteq> a - a mod 4" by (simp add: aligned_word)
  with False show ?thesis by (auto simp: mem_byte_def poke_byte_def)
next
  case True
  then have e: "x - x mod 4 = a - a mod 4" by (simp add: aligned_word)
  have x: "x = a \<longleftrightarrow> x mod 4 = a mod 4" using True by (metis div_mult_mod_eq)
  let ?w = "m (a - a mod 4)"
  have m: "x mod 4 < 4" "a mod 4 < 4" by simp_all
  define F :: u32 where "F = 0xFF"
  have ff: "bit F j \<longleftrightarrow> j < 8" for j using bit_ff [where 'a = 32, of j] by (auto simp: F_def)
  have "mem_byte (poke_byte a b m) x = ucast (drop_bit (8 * (x mod 4))
      (or (and ?w (NOT (push_bit (8 * (a mod 4)) F))) (push_bit (8 * (a mod 4)) (ucast b))))"
    by (simp add: mem_byte_def poke_byte_def e F_def)
  also have "\<dots> = (if x mod 4 = a mod 4 then b else ucast (drop_bit (8 * (x mod 4)) ?w))"
  proof (rule bit_eqI)
    fix n assume "possible_bit TYPE(8 word) n"
    then have n: "n < 8" by (simp add: possible_bit_word)
    have lt: "8 * (x mod 4) + n < 32" using n m by linarith
    have disj: "\<not> (8 * (a mod 4) \<le> 8 * (x mod 4) + n \<and> 8 * (x mod 4) + n - 8 * (a mod 4) < 8)" if "x mod 4 \<noteq> a mod 4"
      using that n by (auto simp: not_less)
    show "bit (ucast (drop_bit (8 * (x mod 4))
        (or (and ?w (NOT (push_bit (8 * (a mod 4)) F))) (push_bit (8 * (a mod 4)) (ucast b)))) :: u8) n \<longleftrightarrow>
      bit (if x mod 4 = a mod 4 then b else ucast (drop_bit (8 * (x mod 4)) ?w)) n"
      using n lt disj
      by (auto simp: bit_ucast_iff bit_drop_bit_eq bit_or_iff bit_and_iff bit_not_iff bit_push_bit_iff ff dest: bit_imp_le_length)
  qed
  finally show ?thesis by (simp add: x mem_byte_def e)
qed

lemma mem_byte_poke_bytes:
  "mem_byte (poke_bytes a bs m) x = (if a \<le> x \<and> x < a + length bs then bs ! (x - a) else mem_byte m x)"
proof (induction bs arbitrary: a m)
  case (Cons b bs)
  then show ?case by (cases "x = a") (auto simp: mem_byte_poke nth_Cons')
qed auto

lemma poked_bytes: "map (mem_byte (poke_bytes a bs m)) [a..<a + length bs] = bs"
  by (rule nth_equalityI) (simp_all add: mem_byte_poke_bytes)

text \<open>A byte is that of its word, so bytes of words that do not change do not change.\<close>

lemma mem_bytes_cong:
  assumes "8 dvd a" and "\<And>x. a \<le> x \<Longrightarrow> x < a + n \<Longrightarrow> m' x = m x"
  shows "map (mem_byte m') [a..<a + n] = map (mem_byte m) [a..<a + n]"
proof (rule map_cong [OF refl])
  fix x assume "x \<in> set [a..<a + n]"
  then have x: "a \<le> x" "x < a + n" by simp_all
  obtain k where k: "a = 4 * (2 * k)" using assms(1) by (elim dvdE) simp
  then have "2 * k \<le> x div 4" using x(1) by simp
  then have "a \<le> x - x mod 4" unfolding aligned_word k by simp
  then show "mem_byte m' x = mem_byte m x" using x(2) by (simp add: mem_byte_def assms(2))
qed

section \<open>Printing and the heap in the invariant\<close>

lemma sh_print_kernel [simp]:
  "sched_inv (sh_print msg s) qs \<longleftrightarrow> sched_inv s qs" "heap_segs (sh_print msg s) = heap_segs s" "heap_wf (sh_print msg s) \<longleftrightarrow> heap_wf s"
  "heap_live (sh_print msg s) = heap_live s" "heap_mem (sh_print msg s) = heap_mem s" "tcb_pool (sh_print msg s) = tcb_pool s"
  "pcb_pool (sh_print msg s) = pcb_pool s" "tcb_used (sh_print msg s) = tcb_used s" "pcb_used (sh_print msg s) = pcb_used s"
  "core_num (sh_print msg s) = core_num s" "current_tcb (sh_print msg s) = current_tcb s"
proof -
  show "sched_inv (sh_print msg s) qs \<longleftrightarrow> sched_inv s qs" by (rule sched_inv_cong) (simp_all add: sh_print_def dev_emit_def)
  show "heap_segs (sh_print msg s) = heap_segs s" "heap_wf (sh_print msg s) \<longleftrightarrow> heap_wf s" "heap_live (sh_print msg s) = heap_live s"
    by (rule heap_cong; simp add: sh_print_def dev_emit_def)+
qed (simp_all add: sh_print_def dev_emit_def)

lemma new_app_print [simp]: "new_app s pid p t (sh_print msg s') \<longleftrightarrow> new_app s pid p t s'"
  by (simp add: new_app_def)

lemma no_app_print [simp]: "no_app s (sh_print msg s') \<longleftrightarrow> no_app s s'"
  by (simp add: no_app_def)

lemma entry_frame_print [simp]: "entry_frame e w t (sh_print msg s) \<longleftrightarrow> entry_frame e w t s"
  by (simp add: entry_frame_def)

lemma free_process_print [simp]: "task_free_process p (sh_print msg s) = sh_print msg (task_free_process p s)"
  by (simp add: task_free_process_def upd_pcb_def sh_print_def dev_emit_def split: option.split)

text \<open>The invariant survives a change of the heap that keeps the stacks of the threads allocated.\<close>

lemma sched_inv_heap:
  assumes inv: "sched_inv s qs" and s': "s' = s\<lparr>heap_blocks := B, heap_mem := M\<rparr>" and wf: "heap_wf s'"
    and live: "\<And>t b k. t < MAX_THREADS \<Longrightarrow> tcb_used s t \<Longrightarrow> t_stack_base (tcb_pool s t) = Some b \<Longrightarrow> (b, k) \<in> heap_live s \<Longrightarrow> (b, k) \<in> heap_live s'"
  shows "sched_inv s' qs"
proof -
  note i = sched_invD [OF inv]
  have "procs_wf s' \<longleftrightarrow> procs_wf s" by (rule procs_wf_cong) (simp_all add: s')
  then have "procs_wf s'" using i(1) by (simp add: tasks_wf_def)
  moreover have "stacks_wf s'"
    using i(1) wf live unfolding tasks_wf_def stacks_wf_def by (simp add: s') blast
  moreover have "rq_abs s' qs" using i(2) by (subst rq_abs_cong) (simp_all add: s' next_of_def fun_eq_iff)
  moreover have "queue_ok s' qs" using i(4) by (subst queue_ok_cong) (simp_all add: s')
  ultimately show ?thesis using i(3) by (simp add: sched_inv_def tasks_wf_def s')
qed

section \<open>The copy of the argument\<close>

lemma copy_arg_cases:
  fixes s :: "'a kstate_scheme"
  assumes inv: "sched_inv s qs" and short: "\<forall>a. arg = Some a \<longrightarrow> length (cstr a) < 2 ^ 31"
  obtains (Null) "copy_arg arg s = Some (None, s)"
      "\<And>a. arg = Some a \<Longrightarrow> seg_alloc (unat (ALIGN8 (word_of_nat (length (cstr a)) + 1))) (heap_segs s) = None"
  | (Copied) a ptr k B M where "arg = Some a" "copy_arg arg s = Some (Some ptr, s\<lparr>heap_blocks := B, heap_mem := M\<rparr>)"
      "sched_inv (s\<lparr>heap_blocks := B, heap_mem := M\<rparr>) qs" "heap_live (s\<lparr>heap_blocks := B, heap_mem := M\<rparr>) = insert (ptr, k) (heap_live s)"
      "\<And>j. (ptr, j) \<notin> heap_live s" "length (cstr a) + 1 \<le> k" "8 dvd ptr"
      "seg_free ptr (heap_segs (s\<lparr>heap_blocks := B, heap_mem := M\<rparr>)) = heap_segs s"
      "map (mem_byte M) [ptr..<ptr + (length (cstr a) + 1)] = bytes_of (cstr a @ [CHR 0x00])"
proof (cases arg)
  case None
  then show ?thesis using Null by (simp add: copy_arg_def)
next
  case (Some a)
  have hwf: "heap_wf s" using sched_invD(1) [OF inv] by (simp add: tasks_wf_def stacks_wf_def)
  let ?n = "word_of_nat (length (cstr a)) + 1 :: u32"
  have n: "unat ?n = length (cstr a) + 1" using short Some unat_small [of "length (cstr a) + 1"] by (simp add: add.commute)
  show ?thesis
    using hwf
  proof (cases rule: kmalloc_cases [where n = ?n])
    case Null': Null
    have "?n \<noteq> 0" using n by (metis add_is_0 one_neq_zero unat_0)
    with Null' show ?thesis using Some by (intro Null) (auto simp: copy_arg_def)
  next
    case (Block B ptr l')
    let ?h = "s\<lparr>heap_blocks := B\<rparr>" and ?M = "poke_bytes ptr (bytes_of (cstr a @ [CHR 0x00])) (heap_mem s)"
    let ?s = "s\<lparr>heap_blocks := B, heap_mem := ?M\<rparr>"
    obtain k where k: "unat (ALIGN8 ?n) \<le> k" "heap_live ?h = insert (ptr, k) (heap_live s)" "\<And>j. (ptr, j) \<notin> heap_live s"
      using kheap.alloc_some [OF hwf Block(3)] by blast
    have same: "heap_segs ?s = heap_segs ?h" "heap_wf ?s" "heap_live ?s = insert (ptr, k) (heap_live s)"
      using heap_cong [of ?s ?h] Block(4) k(2) by simp_all
    have b: "8 dvd ptr" using kheap.owned_block [OF Block(4), of ptr k] k(2) by simp
    have "unat ?n \<le> unat (ALIGN8 ?n)" by (rule ALIGN8_ge) (use n short Some in simp)
    with k(1) n have len: "length (cstr a) + 1 \<le> k" by simp
    have inv': "sched_inv ?s qs"
      by (rule sched_inv_heap [OF inv refl same(2)]) (simp add: same(3))
    have sf: "seg_free ptr (heap_segs ?s) = heap_segs s"
      unfolding same(1) Block(5) by (rule seg_free_alloc [OF heap_wf_tiled [OF hwf] heap_wf_no_adj [OF hwf] Block(2)])
    have cp: "copy_arg arg s = Some (Some ptr, ?s)" using Block(3) Some by (simp add: copy_arg_def)
    have bs: "map (mem_byte ?M) [ptr..<ptr + (length (cstr a) + 1)] = bytes_of (cstr a @ [CHR 0x00])"
      using poked_bytes [of ptr "bytes_of (cstr a @ [CHR 0x00])" "heap_mem s"] by (simp add: bytes_of_def)
    show ?thesis by (rule Copied [OF Some cp inv' same(3) k(3) len b sf bs])
  qed
qed

section \<open>Running an application\<close>

text \<open>What a new thread's argument is: nothing, or a block of the heap that holds a copy of the string.\<close>

definition arg_passed :: "string option \<Rightarrow> u32 \<Rightarrow> 'a kstate_scheme \<Rightarrow> 'a kstate_scheme \<Rightarrow> bool" where
  "arg_passed arg w s s' \<longleftrightarrow> (case arg of
       None \<Rightarrow> w = 0
     | Some a \<Rightarrow>
         w = 0 \<and> seg_alloc (unat (ALIGN8 (word_of_nat (length (cstr a)) + 1))) (heap_segs s) = None \<or>
         (\<exists>ptr k. w = word_of_nat ptr \<and> (ptr, k) \<in> heap_live s' \<and> (\<forall>j. (ptr, j) \<notin> heap_live s) \<and>
            map (mem_byte (heap_mem s')) [ptr..<ptr + (length (cstr a) + 1)] = bytes_of (cstr a @ [CHR 0x00])))"

definition ran :: "u32 \<Rightarrow> string option \<Rightarrow> 'a kstate_scheme \<Rightarrow> int \<Rightarrow> 'a kstate_scheme \<Rightarrow> bool" where
  "ran entry arg s rc s' \<longleftrightarrow> rc = - 1 \<and> no_app s s' \<or>
     rc = 0 \<and> (\<exists>pid p t w. new_app s pid p t s' \<and> entry_frame entry w t s' \<and> arg_passed arg w s s')"

text \<open>Giving the copy back restores the heap, whatever state of the pools the start has left.\<close>

lemma free_copy:
  assumes inv: "sched_inv s4 qs" and no: "no_app s2 s4" and "sched_inv s qs"
    and s2: "s2 = s\<lparr>heap_blocks := B, heap_mem := M\<rparr>" and live: "heap_live s2 = insert (ptr, k) (heap_live s)"
    and fresh: "\<And>j. (ptr, j) \<notin> heap_live s" and sf: "seg_free ptr (heap_segs s2) = heap_segs s"
  obtains s5 where "kfree (Some ptr) s4 = Some s5" "sched_inv s5 qs" "no_app s s5"
proof -
  have n: "pcb_used s4 = pcb_used s" "tcb_used s4 = tcb_used s" "\<And>q. pcb_used s q \<Longrightarrow> pcb_pool s4 q = pcb_pool s q"
    "\<And>u. tcb_used s u \<Longrightarrow> tcb_pool s4 u = tcb_pool s u" "heap_segs s4 = heap_segs s2"
    using no by (simp_all add: no_app_def s2)
  have wf4: "heap_wf s4" using sched_invD(1) [OF inv] by (simp add: tasks_wf_def stacks_wf_def)
  have l4: "heap_live s4 = insert (ptr, k) (heap_live s)" using live n(5) by (simp add: heap_live_def)
  then obtain B' where f: "kfree (Some ptr) s4 = Some (s4\<lparr>heap_blocks := B'\<rparr>)" "heap_wf (s4\<lparr>heap_blocks := B'\<rparr>)"
    "heap_segs (s4\<lparr>heap_blocks := B'\<rparr>) = seg_free ptr (heap_segs s4)" using kfree_live [OF wf4, of ptr k] by blast
  let ?s5 = "s4\<lparr>heap_blocks := B'\<rparr>"
  have segs: "heap_segs ?s5 = heap_segs s" using f(3) n(5) sf by simp
  then have l5: "heap_live ?s5 = heap_live s" by (simp add: heap_live_def)
  have "sched_inv ?s5 qs"
  proof (rule sched_inv_heap [OF inv, where B = B' and M = "heap_mem s4"])
    fix t b j assume t: "t < MAX_THREADS" "tcb_used s4 t" "t_stack_base (tcb_pool s4 t) = Some b" "(b, j) \<in> heap_live s4"
    have u: "tcb_used s t" "t_stack_base (tcb_pool s t) = Some b" using t(2,3) n(2,4) by simp_all
    have "stacks_wf s" using sched_invD(1) [OF assms(3)] by (simp add: tasks_wf_def)
    then have "\<exists>b k. t_stack_base (tcb_pool s t) = Some b \<and> (b, k) \<in> heap_live s"
      using t(1) u(1) unfolding stacks_wf_def by blast
    then have "\<exists>i. (b, i) \<in> heap_live s" using u(2) by auto
    then have "b \<noteq> ptr" using fresh by auto
    then show "(b, j) \<in> heap_live ?s5" using t(4) l4 l5 by simp
  qed (use f(2) in simp_all)
  moreover have "no_app s ?s5" using n segs by (simp add: no_app_def)
  ultimately show ?thesis using that f(1) by blast
qed

lemma ran_started:
  assumes "new_app s2 pid p t s3" "entry_frame entry w t s3" "arg_passed arg w s s3"
    and "pcb_used s2 = pcb_used s" "tcb_used s2 = tcb_used s" "pcb_pool s2 = pcb_pool s"
  shows "ran entry arg s 0 s3"
proof -
  have "new_app s pid p t s3" using assms(1,4-6) by (simp add: new_app_def task_find_process_def)
  with assms(2,3) show ?thesis unfolding ran_def by blast
qed

lemma ran_print: "ran e arg s rc (sh_print msg s') \<longleftrightarrow> ran e arg s rc s'"
proof -
  have "arg_passed arg w s (sh_print msg s') \<longleftrightarrow> arg_passed arg w s s'" for w by (simp add: arg_passed_def split: option.split)
  then show ?thesis by (simp add: ran_def)
qed

lemma run_app_spec:
  fixes s :: "('h, 'a) dev_state_scheme"
  assumes inv: "sched_inv s qs" and short: "\<forall>a. arg = Some a \<longrightarrow> length (cstr a) < 2 ^ 31"
  shows "\<exists>rc s' qs'. run_app te app name arg s = Some (rc, s') \<and> sched_inv s' qs' \<and> ran (ae_entry app) arg s rc s'"
proof -
  obtain pid s1 where al: "task_alloc_pid PID_RANGE_RUN s = (pid, s1)" by fastforce
  note a = alloc_pid_frame [OF al]
  obtain rs where s1: "s1 = s\<lparr>pid_ranges := rs\<rparr>"
    using al by (auto simp: task_alloc_pid_def Let_def split: if_splits option.splits intro: that [of "pid_ranges s"] that)
  have i1: "sched_inv s1 qs" using inv a(1) by simp
  have l1: "heap_live s1 = heap_live s" using a(5) by (simp add: heap_live_def)
  have "new_app s1 q p t s' \<longleftrightarrow> new_app s q p t s'" for q p t and s' :: "('h, 'a) dev_state_scheme"
    by (simp add: new_app_def task_find_process_def s1)
  moreover have "arg_passed arg w s1 s' \<longleftrightarrow> arg_passed arg w s s'" for w s' by (simp add: arg_passed_def a(5) l1 split: option.split)
  ultimately have to_s: "ran e arg s1 rc s' \<longleftrightarrow> ran e arg s rc s'" for e rc s' by (simp add: ran_def a(2))
  have "\<exists>rc s' qs'. run_app te app name arg s = Some (rc, s') \<and> sched_inv s' qs' \<and> ran (ae_entry app) arg s1 rc s'"
  proof (cases rule: copy_arg_cases [OF i1 short])
    case 1
    have ap: "arg_passed arg 0 s1 s3" for s3 using 1(2) by (simp add: arg_passed_def split: option.split)
    show ?thesis
    proof (cases rule: launch_cases [OF i1, of te "Some name" pid "ae_entry app" 0 "ae_priority app"])
      case n: 1
      let ?s' = "sh_println ''run: cannot create process (pool full)'' s1"
      have "run_app te app name arg s = Some (- 1, ?s')" using n 1(1) al by (simp add: run_app_def ptr_word_def)
      moreover have "sched_inv ?s' qs" "ran (ae_entry app) arg s1 (- 1) ?s'" using i1 by (simp_all add: sh_println_def ran_def no_app_def)
      ultimately show ?thesis by blast
    next
      case n: (2 p s3)
      let ?s' = "task_free_process (Some p) (sh_println ''run: cannot create thread (pool full)'' s3)"
      have "run_app te app name arg s = Some (- 1, ?s')" using n(1) 1(1) al by (simp add: run_app_def ptr_word_def)
      moreover have "sched_inv ?s' qs" "ran (ae_entry app) arg s1 (- 1) ?s'" using n(2,3) by (simp_all add: sh_println_def ran_def)
      ultimately show ?thesis by blast
    next
      case n: (3 p t s3 qs' base)
      have "ran (ae_entry app) arg s1 0 s3" by (rule ran_started [OF n(3,4) ap]) simp_all
      then have r: "ran (ae_entry app) arg s1 0 (sh_print msg s3)" for msg by (simp add: ran_print)
      have "sched_inv (sh_print msg s3) qs'" for msg using n(2) by simp
      moreover have "\<exists>msg. run_app te app name arg s = Some (0, sh_print msg s3)"
        using n(1) 1(1) al by (simp add: run_app_def ptr_word_def) blast
      ultimately show ?thesis using r by blast
    qed
  next
    case (2 x ptr k B M)
    let ?s2 = "s1\<lparr>heap_blocks := B, heap_mem := M\<rparr>"
    note fc = free_copy [OF _ _ i1 refl 2(4,5,8)]
    show ?thesis
    proof (cases rule: launch_cases [OF 2(3), of te "Some name" pid "ae_entry app" "word_of_nat ptr" "ae_priority app"])
      case n: 1
      obtain s5 where f: "kfree (Some ptr) (sh_println ''run: cannot create process (pool full)'' ?s2) = Some s5" "sched_inv s5 qs" "no_app s1 s5"
        by (rule fc [of "sh_println ''run: cannot create process (pool full)'' ?s2"]) (use 2(3) in \<open>simp_all add: sh_println_def no_app_def\<close>)
      then show ?thesis using n 2(2) al by (auto simp: run_app_def ptr_word_def ran_def)
    next
      case n: (2 p s3)
      let ?s4 = "task_free_process (Some p) (sh_println ''run: cannot create thread (pool full)'' s3)"
      obtain s5 where f: "kfree (Some ptr) ?s4 = Some s5" "sched_inv s5 qs" "no_app s1 s5"
        by (rule fc [of ?s4]) (use n(2,3) in \<open>simp_all add: sh_println_def\<close>)
      then show ?thesis using n(1) 2(2) al by (auto simp: run_app_def ptr_word_def ran_def)
    next
      case n: (3 p t s3 qs' base)
      obtain m where m: "2048 \<le> m" "heap_live s3 = insert (base, m) (heap_live ?s2)" "\<forall>j. (base, j) \<notin> heap_live ?s2" using n(5) by blast
      have w3: "heap_wf s3" using sched_invD(1) [OF n(2)] by (simp add: tasks_wf_def stacks_wf_def)
      have own: "(ptr, k) \<in> heap_live ?s2" "(ptr, k) \<in> heap_live s3" using 2(4) m(2) by simp_all
      with m(3) have "ptr \<noteq> base" by auto
      from kheap.owned_apart [OF w3 own(2) _ this, of m] m(2) have apart: "ptr + k \<le> base \<or> base + m \<le> ptr" by simp
      have "heap_mem s3 y = M y" if "ptr \<le> y" "y < ptr + (length (cstr x) + 1)" for y
        using n(6) [of y] that apart m(1) 2(6) by auto
      then have "map (mem_byte (heap_mem s3)) [ptr..<ptr + (length (cstr x) + 1)] = bytes_of (cstr x @ [CHR 0x00])"
        unfolding 2(9) [symmetric] by (rule mem_bytes_cong [OF 2(7)])
      with own(2) 2(1,5) have ap: "arg_passed arg (word_of_nat ptr) s1 s3" unfolding arg_passed_def by auto
      have "ran (ae_entry app) arg s1 0 s3" by (rule ran_started [OF n(3,4) ap]) simp_all
      then have r: "ran (ae_entry app) arg s1 0 (sh_print msg s3)" for msg by (simp add: ran_print)
      have "sched_inv (sh_print msg s3) qs'" for msg using n(2) by simp
      moreover have "\<exists>msg. run_app te app name arg s = Some (0, sh_print msg s3)"
        using n(1) 2(2) al by (simp add: run_app_def ptr_word_def) blast
      ultimately show ?thesis using r by blast
    qed
  qed
  then show ?thesis using to_s by blast
qed



end
