(* ===== verification/Shell.thy ===== *)
theory Shell
  imports ShellCmds
begin

text \<open>
  The rest of \<open>src/shell/shell.c\<close>: the start-up configuration (\<open>config.txt\<close>: \<open>AUTORUN=\<close> and the
  button bindings), the button monitor, the command table and the interactive loop. \<open>shell_run\<close>
  never returns; \<open>shell_cycle\<close> is one turn of its loop, from the prompt to the end of the command.
\<close>

section \<open>The configuration file\<close>

definition is_eol :: "char \<Rightarrow> bool" where
  "is_eol c \<longleftrightarrow> c = CHR 0x0A \<or> c = CHR 0x0D"

definition BTN_NAME_MAX :: nat where "BTN_NAME_MAX = 16"
definition AUTORUN_NAME_MAX :: nat where "AUTORUN_NAME_MAX = 32"
definition CFG_BUFSZ :: nat where "CFG_BUFSZ = 256"

text \<open>The text after the end of the line that \<open>p\<close> points to, and after its line ends.\<close>

definition next_line :: "string \<Rightarrow> string" where
  "next_line p = dropWhile is_eol (dropWhile (\<lambda>c. \<not> is_eol c) p)"

definition this_line :: "string \<Rightarrow> string" where
  "this_line p = takeWhile (\<lambda>c. \<not> is_eol c) p"

lemma next_line_shorter: "p \<noteq> [] \<Longrightarrow> length (next_line p) < length p"
proof -
  assume "p \<noteq> []"
  then obtain c r where p: "p = c # r" by (cases p) auto
  have "length (next_line p) \<le> length (dropWhile (\<lambda>c. \<not> is_eol c) p)" by (simp add: next_line_def length_dropWhile_le)
  moreover have "length (dropWhile (\<lambda>c. \<not> is_eol c) p) < length p" if "\<not> is_eol c"
    using that by (simp add: p le_imp_less_Suc length_dropWhile_le)
  moreover have "length (next_line p) < length p" if "is_eol c"
    using that by (simp add: p next_line_def le_imp_less_Suc length_dropWhile_le)
  ultimately show ?thesis by (cases "is_eol c") auto
qed

definition btn_map :: "(string \<times> u8) list" where
  "btn_map = [(''BUTTONA='', DISP_BTN_A), (''BUTTONB='', DISP_BTN_B), (''BUTTONX='', DISP_BTN_X), (''BUTTONY='', DISP_BTN_Y)]"

text \<open>The value of a line \<open>KEY=value\<close>, cut to \<open>n - 1\<close> characters.\<close>

definition has_key :: "string \<Rightarrow> string \<Rightarrow> bool" where
  "has_key key p \<longleftrightarrow> length key < length (this_line p) \<and> strncmp_eq (length key) p key"

definition key_value :: "nat \<Rightarrow> string \<Rightarrow> string \<Rightarrow> string" where
  "key_value n key p = (let vlen = length (this_line p) - length key
   in take (if n \<le> vlen then n - 1 else vlen) (drop (length key) p))"

definition bind_line :: "string \<Rightarrow> btn_binding_t list \<Rightarrow> btn_binding_t list" where
  "bind_line p bs = (if 4 \<le> length bs then bs
     else case find (\<lambda>(key, msk). has_key key p) btn_map of
       None \<Rightarrow> bs
     | Some (key, msk) \<Rightarrow> bs @ [\<lparr>bb_mask = msk, bb_appname = key_value BTN_NAME_MAX key p\<rparr>])"

function parse_btn_config :: "string \<Rightarrow> btn_binding_t list \<Rightarrow> btn_binding_t list" where
  "parse_btn_config p bs = (if p = [] then bs else parse_btn_config (next_line p) (bind_line p bs))"
  by pat_completeness auto
termination by (relation "measure (\<lambda>(p, bs). length p)") (simp_all add: next_line_shorter)

declare parse_btn_config.simps [simp del]

function autorun_name :: "string \<Rightarrow> string" where
  "autorun_name p = (if p = [] then [] else if has_key ''AUTORUN='' p then key_value AUTORUN_NAME_MAX ''AUTORUN='' p
     else autorun_name (next_line p))"
  by pat_completeness auto
termination by (relation "measure length") (simp_all add: next_line_shorter)

declare autorun_name.simps [simp del]

definition read_config ::
  "('h, ('h, 'a) shell_state_scheme) env \<Rightarrow> ('h, 'a) shell_state_scheme \<Rightarrow> (string option \<times> ('h, 'a) shell_state_scheme) option" where
  "read_config E s = do {
     (fd, s1) \<leftarrow> vfs_open E (Some ''config.txt'') VFS_O_RDONLY s;
     if fd < 0 then Some (None, s1)
     else do {
       ((n, bs), s2) \<leftarrow> vfs_read E fd True (word_of_nat CFG_BUFSZ - 1) s1;
       (_, s3) \<leftarrow> vfs_close E fd s2;
       Some (if n \<le> 0 then None else Some (cstr (chars_of bs)), s3)
     }
   }"

section \<open>Automatic start\<close>

definition started_text :: "string \<Rightarrow> string \<Rightarrow> u32 \<Rightarrow> u32 \<Rightarrow> string" where
  "started_text who appname pid tid = ''[shell] '' @ who @ '': started '' @ [CHR 0x27] @ appname @ [CHR 0x27] @ '' PID '' @
     dec (unat pid) @ '' TID '' @ dec (unat tid) @ crlf"

text \<open>The start of an application by name without an argument: what \<open>AUTORUN\<close> and a button do.\<close>

definition start_app ::
  "u32 \<Rightarrow> string \<Rightarrow> nat \<Rightarrow> app_entry_t \<Rightarrow> string \<Rightarrow> ('h, 'a) dev_state_scheme \<Rightarrow> ('h, 'a) dev_state_scheme option" where
  "start_app te who rng app appname s = (let (pid, s1) = task_alloc_pid rng s in do {
     (r, s2) \<leftarrow> launch te (Some appname) pid (ae_entry app) 0 (ae_priority app) s1;
     Some (case r of
       Inl None \<Rightarrow> sh_print (''[shell] '' @ who @ '': process pool full'' @ crlf) s2
     | Inl (Some proc) \<Rightarrow> task_free_process (Some proc) (sh_print (''[shell] '' @ who @ '': thread pool full'' @ crlf) s2)
     | Inr (proc, t) \<Rightarrow> sh_print (started_text who appname (p_pid (pcb_pool s2 proc)) (t_tid (tcb_pool s2 t))) s2)
   })"

definition find_app :: "app_entry_t list \<Rightarrow> string \<Rightarrow> app_entry_t option" where
  "find_app apps appname = find (\<lambda>a. strcmp_eq (ae_name a) appname) apps"

definition shell_autorun_init ::
  "('h, ('h, 'a) shell_state_scheme) shell_env \<Rightarrow> ('h, 'a) shell_state_scheme \<Rightarrow> ('h, 'a) shell_state_scheme option" where
  "shell_autorun_init X s = do {
     (cfg, s1) \<leftarrow> read_config (x_env X) s;
     case cfg of
       None \<Rightarrow> Some s1
     | Some buf \<Rightarrow> let appname = autorun_name buf in
         if appname = [] then Some s1
         else case find_app (x_app_table X) appname of
           None \<Rightarrow> Some (sh_print (''[shell] autorun: app '' @ [CHR 0x27] @ appname @ [CHR 0x27] @ '' not found'' @ crlf) s1)
         | Some app \<Rightarrow> start_app (x_thread_exit X) ''autorun'' PID_RANGE_AUTORUN app appname s1
   }"

section \<open>Buttons\<close>

definition get_buttons ::
  "('h, 's) env \<Rightarrow> ('h, 'a) dev_state_scheme \<Rightarrow> (u8 \<times> ('h, 'a) dev_state_scheme) option" where
  "get_buttons E s = map_option (\<lambda>(rc, arg, s1). (case arg of ArgDisp (DispByte b) \<Rightarrow> b | _ \<Rightarrow> 0, s1))
     (dev_ioctl E DEV_DISPLAY IOCTL_DISP_GET_BTNS (ArgDisp (DispByte 0)) s)"

definition app_running :: "string \<Rightarrow> 'a kstate_scheme \<Rightarrow> bool" where
  "app_running appname s \<longleftrightarrow> list_ex (\<lambda>j. case task_get_process_slot (int j) s of
     None \<Rightarrow> False | Some p \<Rightarrow> p_alive (pcb_pool s p) \<and> strcmp_eq (p_name (pcb_pool s p)) appname) [0..<MAX_PROCESSES]"

definition press_button ::
  "u32 \<Rightarrow> app_entry_t list \<Rightarrow> u8 \<Rightarrow> btn_binding_t \<Rightarrow> ('h, 'a) dev_state_scheme \<Rightarrow> ('h, 'a) dev_state_scheme option" where
  "press_button te apps pressed b s =
     (if and pressed (bb_mask b) = 0 then Some s
      else if app_running (bb_appname b) s
      then Some (sh_print (''[shell] btn: '' @ [CHR 0x27] @ bb_appname b @ [CHR 0x27] @ '' already running'' @ crlf) s)
      else case find_app apps (bb_appname b) of
        None \<Rightarrow> Some s
      | Some app \<Rightarrow> start_app te ''btn'' PID_RANGE_BUTTON app (bb_appname b) s)"

text \<open>One turn of \<open>btn_monitor_thread\<close>: \<open>prev\<close> is the state of the buttons 100 ms before.\<close>

definition btn_monitor_step ::
  "('h, ('h, 'a) shell_state_scheme) shell_env \<Rightarrow> u8 \<Rightarrow> ('h, 'a) shell_state_scheme \<Rightarrow> (u8 \<times> ('h, 'a) shell_state_scheme) option" where
  "btn_monitor_step X prev s = do {
     (_, s1) \<leftarrow> sys_sleep (x_env X) (x_thread_exit X) 100 s;
     (cur, s2) \<leftarrow> get_buttons (x_env X) s1;
     s3 \<leftarrow> each (press_button (x_thread_exit X) (x_app_table X) (and cur (NOT prev))) (btn_bindings s2) s2;
     Some (cur, s3)
   }"

definition btn_names :: "(u8 \<times> string) list" where
  "btn_names = [(DISP_BTN_A, ''A''), (DISP_BTN_B, ''B''), (DISP_BTN_X, ''X''), (DISP_BTN_Y, ''Y'')]"

definition show_binding :: "btn_binding_t \<Rightarrow> ('h, 'a) dev_state_scheme \<Rightarrow> ('h, 'a) dev_state_scheme" where
  "show_binding b s = (case map_of btn_names (bb_mask b) of
       None \<Rightarrow> s | Some nm \<Rightarrow> sh_print (''[shell] btn '' @ nm @ '' -> '' @ bb_appname b @ crlf) s)"

definition shell_btn_init ::
  "('h, ('h, 'a) shell_state_scheme) shell_env \<Rightarrow> ('h, 'a) shell_state_scheme \<Rightarrow> ('h, 'a) shell_state_scheme option" where
  "shell_btn_init X s = (let E = x_env X in do {
     (cfg, s1) \<leftarrow> read_config E s;
     case cfg of
       None \<Rightarrow> Some s1
     | Some buf \<Rightarrow>
         let s2 = s1\<lparr>btn_bindings := parse_btn_config buf (btn_bindings s1)\<rparr> in
         if btn_bindings s2 = [] then Some s2
         else do {
           let s3 = snd (dev_open E DEV_DISPLAY s2);
           (_, _, s4) \<leftarrow> dev_ioctl E DEV_DISPLAY IOCTL_DISP_CLEAR ArgNull s3;
           (_, _, s5) \<leftarrow> dev_ioctl E DEV_DISPLAY IOCTL_DISP_FLUSH ArgNull s4;
           let s6 = fold show_binding (btn_bindings s5) s5;
           case task_get_kernel_proc s6 of
             None \<Rightarrow> Some s6
           | Some kproc \<Rightarrow> map_option snd (task_create_thread (x_thread_exit X) (Some kproc) (Some ''btn-mon'')
               (x_btn_monitor X) 0 3 DEFAULT_STACK_SIZE s6)
         }
   })"

section \<open>The command table\<close>

definition builtin_cmds :: "shell_cmd_t list" where
  "builtin_cmds = map (\<lambda>(n, h, f). \<lparr>sc_name = n, sc_help = h, sc_handler = f\<rparr>)
    [(''info'', ''Show system information and version'', CmdInfo),
     (''help'', ''List all commands'', CmdHelp),
     (''ps'', ''Show processes'', CmdPs),
     (''threads'', ''Show all threads with state and CPU time'', CmdThreads),
     (''kill'', ''kill <tid>  '' @ em_dash @ '' kill a thread (not one in PIDs 1-9)'', CmdKill),
     (''killproc'', ''killproc <pid>  '' @ em_dash @ '' kill all threads in a process (not PIDs 1-9)'', CmdKillproc),
     (''mem'', ''Show heap usage and stack canary status'', CmdMem),
     (''ls'', ''List filesystem contents'', CmdLs),
     (''cat'', ''cat <file>  '' @ em_dash @ '' print file contents'', CmdCat),
     (''rm'', ''rm <file>  '' @ em_dash @ '' delete a file'', CmdRm),
     (''fs'', ''fs <write|append|format>  '' @ em_dash @ '' filesystem ops'', CmdFs),
     (''reboot'', ''Reboot the system'', CmdReboot),
     (''update'', ''Reboot into USB BOOTSEL mode'', CmdUpdate),
     (''trace'', ''trace [on [name]|off|show [n]] '' @ em_dash @ '' record scheduler events'', CmdTrace),
     (''run'', ''run <appname>  '' @ em_dash @ '' spawn an app thread'', CmdRun)]"

definition shell_init ::
  "('h, ('h, 'a) shell_state_scheme) shell_env \<Rightarrow> ('h, 'a) shell_state_scheme \<Rightarrow> ('h, 'a) shell_state_scheme option" where
  "shell_init X s = do {
     s1 \<leftarrow> shell_autorun_init X (fold (\<lambda>c s. snd (shell_register_cmd (Some c) s)) builtin_cmds s);
     shell_btn_init X s1
   }"

definition call_handler ::
  "('h, ('h, 'a) shell_state_scheme) shell_env \<Rightarrow> cmd_handler \<Rightarrow> string list \<Rightarrow> ('h, 'a) shell_state_scheme \<Rightarrow>
     (int \<times> ('h, 'a) shell_state_scheme) option" where
  "call_handler X h argv s = (let E = x_env X; te = x_thread_exit X in case h of
       CmdInfo \<Rightarrow> cmd_info E (x_build X) s
     | CmdHelp \<Rightarrow> cmd_help s
     | CmdPs \<Rightarrow> cmd_ps s
     | CmdThreads \<Rightarrow> cmd_threads s
     | CmdKill \<Rightarrow> cmd_kill argv s
     | CmdKillproc \<Rightarrow> cmd_killproc argv s
     | CmdMem \<Rightarrow> cmd_mem s
     | CmdLs \<Rightarrow> cmd_ls E s
     | CmdCat \<Rightarrow> cmd_cat E argv s
     | CmdRm \<Rightarrow> cmd_rm E argv s
     | CmdFs \<Rightarrow> cmd_fs E te argv s
     | CmdReboot \<Rightarrow> cmd_reboot s
     | CmdUpdate \<Rightarrow> cmd_update s
     | CmdTrace \<Rightarrow> cmd_trace argv s
     | CmdRun \<Rightarrow> cmd_run te (x_app_table X) argv s
     | CmdDisplay \<Rightarrow> map_option (\<lambda>(rc, d). (rc, s\<lparr>dev_display := d\<rparr>)) (cmd_display (e_board E) (e_splash E) argv (dev_display s))
     | CmdLed \<Rightarrow> Some (case cmd_led (e_board E) (tl argv) (dev_led s) of (rc, l) \<Rightarrow> (rc, s\<lparr>dev_led := l\<rparr>))
     | CmdOther n \<Rightarrow> x_other X n argv s)"

section \<open>The interactive loop\<close>

definition find_cmd :: "string \<Rightarrow> ('h, 'a) shell_state_scheme \<Rightarrow> shell_cmd_t option" where
  "find_cmd name s = find (\<lambda>c. strcmp_eq (sc_name c) name) (cmd_table s)"

definition shell_dispatch ::
  "('h, ('h, 'a) shell_state_scheme) shell_env \<Rightarrow> string list \<Rightarrow> ('h, 'a) shell_state_scheme \<Rightarrow> ('h, 'a) shell_state_scheme option" where
  "shell_dispatch X argv s =
     (if argv = [] then Some s
      else case find_cmd (argv ! 0) s of
        None \<Rightarrow> Some (sh_print (''Unknown command: '' @ [CHR 0x27] @ argv ! 0 @ [CHR 0x27] @ ''  (type '' @ [CHR 0x27] @ ''help'' @
          [CHR 0x27] @ '')'' @ crlf) s)
      | Some c \<Rightarrow> do {
          (rc, s1) \<leftarrow> call_handler X (sc_handler c) argv s;
          Some (if rc \<noteq> 0 then sh_print (''Command returned error '' @ dec_int rc @ crlf) s1 else s1)
        })"

text \<open>One line; \<open>buf\<close> is the array \<open>line\<close>, which the next turn reuses.\<close>

definition shell_cycle ::
  "('h, ('h, 'a) shell_state_scheme) shell_env \<Rightarrow> string \<Rightarrow> ('h, 'a) shell_state_scheme \<Rightarrow> (string \<times> ('h, 'a) shell_state_scheme) option" where
  "shell_cycle X buf s = do {
     ((buf1, len), s1) \<leftarrow> readline_loop (x_env X) (x_thread_exit X) SHELL_LINE_MAX (buf, 0) (sh_print ''pico> '' s);
     let buf2 = buf1[unat len := CHR 0x00];
     if len = 0 then Some (buf2, s1)
     else let (buf3, argv) = tokenise buf2 SHELL_ARGC_MAX
       in map_option (\<lambda>s2. (buf3, s2)) (shell_dispatch X (argv_strings (buf3, argv)) s1)
   }"

text \<open>The wait for the USB host at the start of \<open>shell_run\<close>, and the first lines.\<close>

partial_function (option) usb_wait ::
  "('h, ('h, 'a) shell_state_scheme) shell_env \<Rightarrow> ('h, 'a) shell_state_scheme \<Rightarrow> ('h, 'a) shell_state_scheme option" where
  "usb_wait X s = (if x_usb_connected X (sio s) then Some s
     else Option.bind (sys_sleep (x_env X) (x_thread_exit X) 5 (dev_console_poll (x_env X) s)) (\<lambda>(_, s1). usb_wait X s1))"

definition shell_start ::
  "('h, ('h, 'a) shell_state_scheme) shell_env \<Rightarrow> ('h, 'a) shell_state_scheme \<Rightarrow> ('h, 'a) shell_state_scheme option" where
  "shell_start X s = map_option (sh_print (crlf @ ''picoOS shell ready.  Type '' @ [CHR 0x27] @ ''help'' @ [CHR 0x27] @
     '' for commands.'' @ crlf)) (usb_wait X s)"

section \<open>Lines of the configuration\<close>

text \<open>The non-empty lines of a text, and the binding that a line asks for.\<close>

function config_lines :: "string \<Rightarrow> string list" where
  "config_lines p = (if p = [] then [] else
     (if this_line p = [] then config_lines (next_line p) else this_line p # config_lines (next_line p)))"
  by pat_completeness auto
termination by (relation "measure length") (simp_all add: next_line_shorter)

declare config_lines.simps [simp del]

definition line_binding :: "string \<Rightarrow> btn_binding_t option" where
  "line_binding l = (case find (\<lambda>(key, msk). length key < length l \<and> take (length key) l = key) btn_map of
     None \<Rightarrow> None
   | Some (key, msk) \<Rightarrow> Some \<lparr>bb_mask = msk, bb_appname = take 15 (drop (length key) l)\<rparr>)"

lemma has_key_line:
  assumes "c_string p" "c_string key"
  shows "has_key key p \<longleftrightarrow> length key < length (this_line p) \<and> take (length key) (this_line p) = key"
proof (cases "length key < length (this_line p)")
  case True
  have p: "p = this_line p @ dropWhile (\<lambda>c. \<not> is_eol c) p" by (simp add: this_line_def)
  have "take (length key) (this_line p @ dropWhile (\<lambda>c. \<not> is_eol c) p) = take (length key) (this_line p)" using True by simp
  then have "take (length key) p = take (length key) (this_line p)" by (simp only: p [symmetric])
  moreover have "length (this_line p) \<le> length p" by (simp add: this_line_def length_takeWhile_le)
  then have "length key \<le> length p" using True by simp
  ultimately show ?thesis using assms True by (simp add: has_key_def strncmp_eq_def)
qed (simp add: has_key_def)

lemma key_value_line:
  assumes "length key < length (this_line p)" "0 < n"
  shows "key_value n key p = take (n - 1) (drop (length key) (this_line p))"
proof -
  have "this_line p = take (length (this_line p)) p" unfolding this_line_def by (rule takeWhile_eq_take)
  then have "drop (length key) (this_line p) = take (length (this_line p) - length key) (drop (length key) p)"
    by (subst \<open>this_line p = _\<close>) (rule drop_take)
  then show ?thesis using assms
    by (cases "n \<le> length (this_line p) - length key") (simp_all add: key_value_def Let_def min_absorb1 min_absorb2)
qed

lemma bind_line_spec:
  assumes "c_string p"
  shows "bind_line p bs = (if 4 \<le> length bs then bs
    else bs @ (case line_binding (this_line p) of None \<Rightarrow> [] | Some b \<Rightarrow> [b]))"
proof -
  have "has_key key p \<longleftrightarrow> length key < length (this_line p) \<and> take (length key) (this_line p) = key" if "(key, msk) \<in> set btn_map" for key msk
    using that by (intro has_key_line [OF assms]) (auto simp: btn_map_def c_string_def)
  then have f: "find (\<lambda>(key, msk). has_key key p) btn_map =
      find (\<lambda>(key, msk). length key < length (this_line p) \<and> take (length key) (this_line p) = key) btn_map"
    by (intro find_cong) auto
  show ?thesis
  proof (cases "find (\<lambda>(key, msk). length key < length (this_line p) \<and> take (length key) (this_line p) = key) btn_map")
    case None
    with f show ?thesis by (simp add: bind_line_def line_binding_def)
  next
    case (Some km)
    obtain key msk where km: "km = (key, msk)" by fastforce
    with Some have "length key < length (this_line p)" by (auto simp: find_Some_iff)
    with Some f km show ?thesis by (simp add: bind_line_def line_binding_def key_value_line BTN_NAME_MAX_def)
  qed
qed

lemma next_line_c_string: "c_string p \<Longrightarrow> c_string (next_line p)"
  by (auto simp: c_string_def next_line_def dest!: set_dropWhileD)

lemma line_binding_Nil [simp]: "line_binding [] = None"
  by (simp add: line_binding_def btn_map_def)

lemma config_lines_c_string: "c_string p \<Longrightarrow> l \<in> set (config_lines p) \<Longrightarrow> c_string l"
proof (induction p rule: config_lines.induct)
  case (1 p)
  have "c_string (this_line p)" using "1.prems"(1) by (auto simp: c_string_def this_line_def dest: set_takeWhileD)
  with 1 next_line_c_string [OF "1.prems"(1)] show ?case
    by (subst (asm) (3) config_lines.simps) (auto split: if_splits)
qed

lemma parse_btn_config_spec:
  "c_string p \<Longrightarrow> length bs \<le> 4 \<Longrightarrow>
    parse_btn_config p bs = take 4 (bs @ List.map_filter line_binding (config_lines p))"
proof (induction p bs rule: parse_btn_config.induct)
  case (1 p bs)
  show ?case
  proof (cases "p = []")
    case True
    with "1.prems" show ?thesis by (simp add: parse_btn_config.simps [of "[]"] config_lines.simps [of "[]"] map_filter_simps)
  next
    case False
    define more where "more = (case line_binding (this_line p) of None \<Rightarrow> [] | Some b \<Rightarrow> [b])"
    have cl: "List.map_filter line_binding (config_lines p) = more @ List.map_filter line_binding (config_lines (next_line p))"
      using False by (subst config_lines.simps) (auto simp: more_def map_filter_simps split: option.split)
    have bl: "bind_line p bs = (if 4 \<le> length bs then bs else bs @ more)"
      unfolding more_def by (rule bind_line_spec [OF "1.prems"(1)])
    have "length more \<le> 1" by (simp add: more_def split: option.split)
    then have "length (bind_line p bs) \<le> 4" using "1.prems"(2) by (simp add: bl)
    from "1.IH" [OF False next_line_c_string [OF "1.prems"(1)] this]
    have "parse_btn_config p bs = take 4 (bind_line p bs @ List.map_filter line_binding (config_lines (next_line p)))"
      using False by (subst parse_btn_config.simps) simp
    also have "\<dots> = take 4 (bs @ List.map_filter line_binding (config_lines p))"
      using "1.prems"(2) by (auto simp: bl cl)
    finally show ?thesis .
  qed
qed

lemma line_binding_name:
  assumes "line_binding l = Some b" and "c_string l"
  shows "0 < length (bb_appname b)" "length (bb_appname b) < BTN_NAME_MAX" "c_string (bb_appname b)"
proof -
  obtain key msk where f: "find (\<lambda>(key, msk). length key < length l \<and> take (length key) l = key) btn_map = Some (key, msk)"
    and b: "b = \<lparr>bb_mask = msk, bb_appname = take 15 (drop (length key) l)\<rparr>"
    using assms(1) by (auto simp: line_binding_def split: option.splits)
  from f have "length key < length l" by (auto simp: find_Some_iff)
  with b assms(2) show "0 < length (bb_appname b)" "length (bb_appname b) < BTN_NAME_MAX" "c_string (bb_appname b)"
    by (auto simp: BTN_NAME_MAX_def c_string_def dest!: in_set_takeD in_set_dropD)
qed

text \<open>
  C38. Parsing \<open>config.txt\<close> gives exactly the bindings of its lines, in the order of the file, cut to the
  four that the array holds; every name is a non-empty C string that fits its 16 characters.
\<close>

theorem btn_config_bindings:
  assumes "c_string buf"
  shows "parse_btn_config buf [] = take 4 (List.map_filter line_binding (config_lines buf)) \<and>
    (\<forall>b \<in> set (parse_btn_config buf []). 0 < length (bb_appname b) \<and> length (bb_appname b) < BTN_NAME_MAX \<and> c_string (bb_appname b))"
proof -
  have e: "parse_btn_config buf [] = take 4 (List.map_filter line_binding (config_lines buf))"
    using parse_btn_config_spec [OF assms, of "[]"] by simp
  have "0 < length (bb_appname b) \<and> length (bb_appname b) < BTN_NAME_MAX \<and> c_string (bb_appname b)"
    if "b \<in> set (parse_btn_config buf [])" for b
  proof -
    from that have "b \<in> set (List.map_filter line_binding (config_lines buf))" unfolding e by (rule in_set_takeD)
    then obtain l where "l \<in> set (config_lines buf)" "line_binding l = Some b" by (auto simp: map_filter_def)
    with config_lines_c_string [OF assms] show ?thesis using line_binding_name [of l b] by simp
  qed
  with e show ?thesis by blast
qed

theorem btn_config_bindings_witness:
  "map (\<lambda>b. (bb_mask b, bb_appname b)) (parse_btn_config (''BUTTONB=cray'' @ crlf @ ''AUTORUN=pi'' @ crlf @ ''BUTTONA=demo'') []) =
     [(DISP_BTN_B, ''cray''), (DISP_BTN_A, ''demo'')]"
proof -
  let ?buf = "''BUTTONB=cray'' @ crlf @ ''AUTORUN=pi'' @ crlf @ ''BUTTONA=demo''"
  have "c_string ?buf" by (simp add: c_string_def crlf_def)
  from btn_config_bindings [OF this] have "parse_btn_config ?buf [] = take 4 (List.map_filter line_binding (config_lines ?buf))" by blast
  also have "config_lines ?buf = [''BUTTONB=cray'', ''AUTORUN=pi'', ''BUTTONA=demo'']"
    by code_simp
  finally show ?thesis by (simp add: map_filter_simps line_binding_def btn_map_def)
qed

section \<open>Times\<close>

section \<open>Times\<close>

lemma length_dec: "n < 10 ^ k \<Longrightarrow> 0 < k \<Longrightarrow> length (dec n) \<le> k"
proof (induction k arbitrary: n)
  case (Suc k)
  show ?case
  proof (cases "n < 10")
    case True
    then show ?thesis by (simp add: dec.simps)
  next
    case False
    then have "0 < k" using Suc.prems(1) by (cases k) auto
    moreover have "n div 10 < 10 ^ k" using Suc.prems(1) by (simp add: less_mult_imp_div_less mult.commute)
    ultimately show ?thesis using False Suc.IH by (subst dec.simps) simp
  qed
qed simp

lemma length_tenths: "unat t < 10 ^ Suc k \<Longrightarrow> 0 < k \<Longrightarrow> length (tenths t) \<le> k + 2"
  using length_dec [of "unat (t div 10)" k] length_dec [of "unat (t mod 10)" 1]
  by (simp add: tenths_def unat_div unat_mod less_mult_imp_div_less mult.commute)

text \<open>The text of a time has at most 12 characters, so the 16 of \<open>time_buf\<close> never truncate it.\<close>

lemma format_cpu_time_fits:
  "length (cpu_time_text us) \<le> 12" "format_cpu_time us 16 = cpu_time_text us"
proof -
  have s: "length (tenths t) \<le> 4" if "t < 600" for t
    using that length_tenths [of t 2] by (simp add: word_less_nat_alt)
  have d: "length (tenths (us div 8640000000)) \<le> 11"
  proof -
    have "unat us < 18446744073709551616" using unsigned_less [of us] by simp
    then show ?thesis using length_tenths [of "us div 8640000000" 9] by (simp add: unat_div)
  qed
  have m: "length (dec (unat ms)) \<le> 3" if "ms < 1000" for ms :: u64
    using that length_dec [of "unat ms" 3] by (simp add: word_less_nat_alt)
  have h: "t < 600" if "t < 240" for t :: u64 using that by (simp add: word_less_nat_alt)
  show l: "length (cpu_time_text us) \<le> 12"
    using s [of "us div 100000"] s [of "us div 6000000"] s [of "us div 360000000", OF h] d m [of "us div 1000"]
    by (auto simp: cpu_time_text_def Let_def)
  then show "format_cpu_time us 16 = cpu_time_text us" by (simp add: format_cpu_time_def)
qed

section \<open>A line at the prompt\<close>

lemma edit_step_c_string:
  "c_string l \<Longrightarrow> c_string (fst (edit_step n (l, out) key))"
proof -
  assume l: "c_string l"
  have "char_of (unat key) \<noteq> CHR 0x00" if "0x20 \<le> key"
  proof
    assume "char_of (unat key) = CHR 0x00"
    then have "of_char (char_of (unat key) :: char) = (0 :: nat)" by simp
    moreover have "unat key < 256" using unsigned_less [of key] by simp
    ultimately show False using that by (simp add: word_le_nat_alt)
  qed
  with l show ?thesis by (auto simp: edit_step_def c_string_def dest: in_set_butlastD)
qed

lemma edited_c_string: "c_string (fst (edited n keys))"
proof -
  have "c_string l \<Longrightarrow> c_string (fst (foldl (edit_step n) (l, out) keys))" for l out
  proof (induction keys arbitrary: l out)
    case (Cons k ks)
    with edit_step_c_string [of l n out k] show ?case by (cases "edit_step n (l, out) k") simp
  qed simp
  then show ?thesis by (simp add: edited_def c_string_def)
qed

text \<open>
  C35. One turn of the shell's loop, with a line typed at the console, is the dispatch of the words of
  the edited line, at most eight, after the prompt and the echo: the buffer, the key loop, the in-place
  cuts and the search of the table add nothing else, and the keys after Enter stay for the next turn.
\<close>

theorem shell_cycle_runs_line:
  fixes X :: "('h, ('h, 'a) shell_state_scheme) shell_env" and s :: "('h, 'a) shell_state_scheme"
  assumes con: "console_input (x_env X) pending" and keys: "pending (sio s) = keys @ nl # rest"
    and nl: "nl = 13 \<or> nl = 10" "\<forall>k \<in> set keys. k \<noteq> 13 \<and> k \<noteq> 10" and buf: "length buf = 128"
  shows "case edited 127 keys of (line, echo) \<Rightarrow> \<exists>buf' h. length buf' = 128 \<and> pending h = rest \<and>
    shell_cycle X buf s = map_option (Pair buf') (shell_dispatch X (take SHELL_ARGC_MAX (words line))
      (s\<lparr>sio := h, dev_hw := emit ([Printf ''pico> ''] @ echo @ [Printf crlf]) (dev_hw s)\<rparr>))"
proof -
  let ?s = "sh_print ''pico> '' s"
  obtain line echo where ed: "foldl (edit_step 127) ([], []) keys = (line, echo)" by fastforce
  have k: "pending (sio ?s) = keys @ nl # rest" using keys by (simp add: sh_print_def dev_emit_def)
  have hl: "holds_line SHELL_LINE_MAX (buf, 0) []" using buf by (simp add: holds_line_def SHELL_LINE_MAX_def)
  have u: "unat SHELL_LINE_MAX - 1 = 127" by (simp add: SHELL_LINE_MAX_def)
  obtain buf1 len h where r: "readline_loop (x_env X) (x_thread_exit X) SHELL_LINE_MAX (buf, 0) ?s =
      Some ((buf1, len), ?s\<lparr>sio := h, dev_hw := emit (echo @ [Printf crlf]) (dev_hw ?s)\<rparr>)"
      "holds_line SHELL_LINE_MAX (buf1, len) line" "length buf1 = length buf" "pending h = rest"
    using readline_loop_pending [OF con nl(1) k nl(2) hl, unfolded u, OF ed] by blast
  let ?s1 = "s\<lparr>sio := h, dev_hw := emit ([Printf ''pico> ''] @ echo @ [Printf crlf]) (dev_hw s)\<rparr>"
  have s1: "?s\<lparr>sio := h, dev_hw := emit (echo @ [Printf crlf]) (dev_hw ?s)\<rparr> = ?s1"
    by (simp add: sh_print_def dev_emit_def)
  have l: "unat len = length line" "length line < 128" "take (length line) buf1 = line"
    using r(2) by (simp_all add: holds_line_def SHELL_LINE_MAX_def)
  have cs: "c_string line" using edited_c_string [of 127 keys] by (simp add: edited_def ed)
  let ?buf2 = "buf1[unat len := CHR 0x00]"
  have b2: "?buf2 = line @ CHR 0x00 # drop (Suc (length line)) buf1"
    using l r(3) buf by (simp add: upd_conv_take_nth_drop)
  obtain buf3 argv where tk: "tokenise ?buf2 SHELL_ARGC_MAX = (buf3, argv)" by fastforce
  have av: "argv_strings (buf3, argv) = take SHELL_ARGC_MAX (words line)"
    using tokenise_argv [OF cs, of "drop (Suc (length line)) buf1" SHELL_ARGC_MAX] tk b2 by simp
  have l3: "length buf3 = 128" using tokenise_length [of ?buf2 SHELL_ARGC_MAX] tk r(3) buf by simp
  show ?thesis
  proof (cases "len = 0")
    case True
    then have "line = []" using l(1) by simp
    then have "shell_dispatch X (take SHELL_ARGC_MAX (words line)) ?s1 = Some ?s1" by (simp add: words.simps [of "[]"] shell_dispatch_def)
    moreover have "shell_cycle X buf s = Some (?buf2, ?s1)" using True by (simp add: shell_cycle_def r(1) s1)
    ultimately have "shell_cycle X buf s = map_option (Pair ?buf2) (shell_dispatch X (take SHELL_ARGC_MAX (words line)) ?s1)" by simp
    moreover have "length ?buf2 = 128" using r(3) buf by simp
    moreover have "edited 127 keys = (line, echo)" by (simp add: edited_def ed)
    ultimately show ?thesis using r(4) by (simp only: prod.case) blast
  next
    case False
    then have "shell_cycle X buf s = map_option (Pair buf3) (shell_dispatch X (take SHELL_ARGC_MAX (words line)) ?s1)"
      by (simp add: shell_cycle_def r(1) s1 tk av Let_def)
    moreover have "edited 127 keys = (line, echo)" by (simp add: edited_def ed)
    ultimately show ?thesis using r(4) l3 by (simp only: prod.case) blast
  qed
qed

text \<open>A console with input and nothing else, and a shell without commands on it.\<close>

definition sim_shell :: "(u8 list, u8 list shell_state) shell_env" where
  "sim_shell = \<lparr>x_env = sim_env, x_thread_exit = 0, x_btn_monitor = 0, x_app_table = [],
     x_build = \<lparr>b_version = (0, 0, 0), b_built_on = [], b_compiler = [], b_platform = [], b_sram = [], b_flash = [],
       b_wifi = False, b_bt = False\<rparr>,
     x_other = (\<lambda>_ _ s. Some (0, s)), x_usb_connected = (\<lambda>_. True)\<rparr>"

lemma sim_env_console: "console_input (sim_env :: (u8 list, 's) env) (\<lambda>h. h)"
  by (simp add: console_input_def sim_env_def split: list.split)

theorem shell_cycle_runs_line_witness:
  "\<forall>s. \<exists>buf' s'. shell_cycle sim_shell line_array (s\<lparr>sio := [104, 105, 32, 13], cmd_table := []\<rparr>) = Some (buf', s') \<and>
     sio s' = [] \<and> hw_log (dev_hw s') = hw_log (dev_hw s) @ [Printf ''pico> '', PutcharRaw 104, PutcharRaw 105, PutcharRaw 32,
       Printf crlf, Printf (''Unknown command: '' @ [CHR 0x27] @ ''hi'' @ [CHR 0x27] @ ''  (type '' @ [CHR 0x27] @ ''help'' @
          [CHR 0x27] @ '')'' @ crlf)]"
proof
  fix s :: "u8 list shell_state"
  let ?s = "s\<lparr>sio := [104, 105, 32, 13], cmd_table := []\<rparr>"
  have con: "console_input (x_env sim_shell) (\<lambda>h. h)" by (simp add: sim_shell_def sim_env_console)
  have p: "sio ?s = [104, 105, 32] @ 13 # []" by simp
  have ed: "edited 127 [104, 105, 32] = (''hi '', [PutcharRaw 104, PutcharRaw 105, PutcharRaw 32])"
    by (simp add: edited_def edit_step_def char_of_def bit_0)
  have w: "take SHELL_ARGC_MAX (words ''hi '') = [''hi'']" by (simp add: words.simps is_blank_def SHELL_ARGC_MAX_def)
  have la: "length line_array = 128" by (simp add: line_array_def SHELL_LINE_MAX_def)
  obtain buf' h where c: "shell_cycle sim_shell line_array ?s = map_option (Pair buf') (shell_dispatch sim_shell [''hi'']
      (?s\<lparr>sio := h, dev_hw := emit ([Printf ''pico> ''] @ [PutcharRaw 104, PutcharRaw 105, PutcharRaw 32] @ [Printf crlf]) (dev_hw ?s)\<rparr>))"
    and h: "h = []"
    using shell_cycle_runs_line [OF con p _ _ la, unfolded ed prod.case w] by auto
  show "\<exists>buf' s'. shell_cycle sim_shell line_array ?s = Some (buf', s') \<and>
     sio s' = [] \<and> hw_log (dev_hw s') = hw_log (dev_hw s) @ [Printf ''pico> '', PutcharRaw 104, PutcharRaw 105, PutcharRaw 32,
       Printf crlf, Printf (''Unknown command: '' @ [CHR 0x27] @ ''hi'' @ [CHR 0x27] @ ''  (type '' @ [CHR 0x27] @ ''help'' @
          [CHR 0x27] @ '')'' @ crlf)]"
    unfolding c h by (simp add: shell_dispatch_def find_cmd_def sh_print_def dev_emit_def)
qed

end
