(* ===== verification/Idle.thy ===== *)
theory Idle
  imports Launch
begin

text \<open>
  The idle threads (\<open>idle_thread\<close> and \<open>idle1_thread\<close> of \<open>src/main.c\<close>): each core has one pinned
  to it that never blocks, sleeps or exits and that no kill command accepts. This theory shows
  what that is for: whatever the other threads do, a core that switches always finds a thread.
  The start-up code that creates the two threads is in the theory \<open>Boot\<close>.
\<close>

text \<open>\<open>t\<close> is the idle thread of \<open>core\<close>.\<close>

definition idle_on :: "nat \<Rightarrow> nat \<Rightarrow> 'a kstate_scheme \<Rightarrow> bool" where
  "idle_on core t s \<longleftrightarrow> t < MAX_THREADS \<and> tcb_used s t \<and> PID_IS_KERNEL (t_pid (tcb_pool s t)) \<and>
     \<not> t_kill_pending (tcb_pool s t) \<and> t_affinity (tcb_pool s t) = of_nat core \<and>
     (t_state (tcb_pool s t) = THREAD_READY \<or> t_state (tcb_pool s t) = THREAD_RUNNING) \<and>
     current_tcb s (1 - core) \<noteq> Some t"

text \<open>
  The calls that the threads of a running system make. The idle threads \<open>I\<close> do not block, sleep or
  exit (their loops only wait for interrupts and poll the console), and only threads of processes
  outside the kernel range are killed (the guard of \<open>kill\<close>, \<open>killproc\<close> and \<open>SYS_KILL\<close>). Unlike
  in \<open>sched_step\<close>, a core may switch at any time.
\<close>

inductive busy_step :: "nat set \<Rightarrow> 'a kstate_scheme \<Rightarrow> 'a kstate_scheme \<Rightarrow> bool" for I where
  process: "busy_step I s (snd (task_create_process name pid s))"
| create: "proc_ok proc s \<Longrightarrow> 68 \<le> unat n \<Longrightarrow> unat n + 7 < 2 ^ 32 \<Longrightarrow>
     task_create_thread te proc name entry arg pr n s = Some (r, s') \<Longrightarrow> busy_step I s s'"
| block: "current_tcb s core = Some t \<Longrightarrow> t \<notin> I \<Longrightarrow> sched_block (Some t) s = Some s' \<Longrightarrow> busy_step I s s'"
| unblock: "t < MAX_THREADS \<Longrightarrow> tcb_used s t \<Longrightarrow> t_state (tcb_pool s t) = THREAD_BLOCKED \<or>
       t_state (tcb_pool s t) = THREAD_ZOMBIE \<and> \<not> is_current (current_tcb s) t \<Longrightarrow>
     sched_unblock core (Some t) s = Some (b, s') \<Longrightarrow> busy_step I s s'"
| sleep: "current_tcb s core = Some t \<Longrightarrow> t \<notin> I \<Longrightarrow> sched_sleep core ms s = Some s' \<Longrightarrow> busy_step I s s'"
| yield: "busy_step I s (sched_yield core s)"
| kill: "core < 2 \<Longrightarrow> t < MAX_THREADS \<Longrightarrow> tcb_used s t \<Longrightarrow> \<not> PID_IS_KERNEL (t_pid (tcb_pool s t)) \<Longrightarrow>
     task_kill_thread core (Some t) s = Some s' \<Longrightarrow> busy_step I s s'"
| exit: "core < 2 \<Longrightarrow> current_tcb s core = Some t \<Longrightarrow> t \<notin> I \<Longrightarrow> busy_step I s (thread_exit_step core s)"
| switch: "core < 2 \<Longrightarrow> sched_next_thread core s = Some (r, s') \<Longrightarrow> busy_step I s s'"
| tick: "isr_systick core s = Some s' \<Longrightarrow> busy_step I s s'"

lemma idle_on_cong:
  assumes "idle_on core t s" and "tcb_used s' t" "keeps_id (tcb_pool s t) (tcb_pool s' t)"
    and "t_state (tcb_pool s' t) = t_state (tcb_pool s t)" "current_tcb s' = current_tcb s"
  shows "idle_on core t s'"
  using assms by (auto simp: idle_on_def keeps_id_def)

lemma same_but_next:
  "(b :: tcb)\<lparr>t_next := None\<rparr> = c\<lparr>t_next := None\<rparr> \<Longrightarrow> keeps_id c b \<and> t_state b = t_state c"
  by (cases b; cases c) (simp add: keeps_id_def)

lemma idle_selectable:
  assumes idle: "idle_on core t s" and inv: "sched_inv s qs" and core: "core < 2"
  shows "selectable core s t"
proof -
  have t: "t < 16" "tcb_used s t" using idle by (simp_all add: idle_on_def)
  have "thread_inv (t_state (tcb_pool s t)) (t \<in> set (qs (prio_of (tcb_pool s t)))) (t_kill_pending (tcb_pool s t))
      (is_current (current_tcb s) t)"
    using queue_invD(2) [OF sched_invD(4) [OF inv, unfolded queue_ok_def] t] .
  then have "t_state (tcb_pool s t) = THREAD_RUNNING \<Longrightarrow> is_current (current_tcb s) t" by (simp add: thread_inv_def)
  moreover have "is_current (current_tcb s) t \<longleftrightarrow> current_tcb s core = Some t \<or> current_tcb s (1 - core) = Some t"
    using core by (cases core) (auto simp: is_current_def)
  ultimately show ?thesis using idle by (auto simp: selectable_def idle_on_def left_state_def)
qed

lemma idle_not_any: "core < 2 \<Longrightarrow> of_nat core \<noteq> THREAD_AFFINITY_ANY"
  by (cases core) (auto simp: THREAD_AFFINITY_ANY_def less_Suc_eq)

lemma core_of_affinity: "core < 2 \<Longrightarrow> c < 2 \<Longrightarrow> (of_nat core :: u8) = of_nat c \<Longrightarrow> core = c"
  by (cases core; cases c) (auto simp: less_Suc_eq)

lemma switch_returns:
  assumes inv: "sched_inv s qs" and core: "core < 2" and idle: "idle_on core t s" and canary: "canary_intact (current_tcb s core) s"
  obtains u s' qs' where "sched_next_thread core s = Some (Some u, s')" "sched_inv s' qs'" "tcb_used s u" "selectable core s u"
    "t_state (tcb_pool s' u) = THREAD_RUNNING" "current_tcb s' = (current_tcb s)(core := Some u)"
    "\<And>v. tcb_used s' v \<longleftrightarrow> tcb_used s v \<and> \<not> (outgoing_reaped (current_tcb s core) s \<and> current_tcb s core = Some v)"
    "\<And>v. v \<noteq> u \<Longrightarrow> tcb_used s' v \<Longrightarrow> t_state (tcb_pool s' v) =
       (if current_tcb s core = Some v then left_state (tcb_pool s v) else t_state (tcb_pool s v))"
    "\<And>v. tcb_used s' v \<Longrightarrow> keeps_id (tcb_pool s v) (tcb_pool s' v)"
proof -
  have t: "t < 16" "tcb_used s t" using idle by (simp_all add: idle_on_def)
  from selection_exists [OF inv t idle_selectable [OF idle inv core]] obtain u where
    sel: "fst (selection core s qs) = Some u" by auto
  show thesis by (rule sched_next_thread_selects [OF inv core canary sel], rule that; (assumption | blast))
qed

lemma switch_canary:
  assumes "sched_inv s qs" and "sched_next_thread core s = Some r"
  shows "canary_intact (current_tcb s core) s"
proof (rule ccontr)
  assume "\<not> ?thesis"
  moreover have "canary_intact (current_tcb s core) (s\<lparr>sched_lock := True\<rparr>) = canary_intact (current_tcb s core) s"
    by (simp add: canary_intact_def split: option.split)
  ultimately have "\<not> canary_intact (current_tcb s core) (s\<lparr>sched_lock := True\<rparr>)" by simp
  then show False using assms(2) sched_acquire_free [OF sched_invD(3) [OF assms(1)]] by (simp add: sched_next_thread_def)
qed

text \<open>A switch on core \<open>c\<close> keeps the idle thread of any core.\<close>

lemma switch_idle:
  assumes inv: "sched_inv s qs" and c: "c < 2" "idle_on c w s" and core: "core < 2" and idle: "idle_on core t s"
    and run: "sched_next_thread c s = Some (r, s')"
  shows "\<exists>qs'. sched_inv s' qs'" and "idle_on core t s'"
proof -
  obtain u s1 qs1 where n: "sched_next_thread c s = Some (Some u, s1)" "sched_inv s1 qs1" "tcb_used s u" "selectable c s u"
    "t_state (tcb_pool s1 u) = THREAD_RUNNING" "current_tcb s1 = (current_tcb s)(c := Some u)"
    "\<And>v. tcb_used s1 v \<longleftrightarrow> tcb_used s v \<and> \<not> (outgoing_reaped (current_tcb s c) s \<and> current_tcb s c = Some v)"
    "\<And>v. v \<noteq> u \<Longrightarrow> tcb_used s1 v \<Longrightarrow> t_state (tcb_pool s1 v) =
       (if current_tcb s c = Some v then left_state (tcb_pool s v) else t_state (tcb_pool s v))"
    "\<And>v. tcb_used s1 v \<Longrightarrow> keeps_id (tcb_pool s v) (tcb_pool s1 v)"
    by (rule switch_returns [OF inv c switch_canary [OF inv run]], rule that; (assumption | blast))
  have s': "s' = s1" using run n(1) by simp
  show "\<exists>qs'. sched_inv s' qs'" using n(2) s' by blast
  have i: "t < 16" "tcb_used s t" "PID_IS_KERNEL (t_pid (tcb_pool s t))" "\<not> t_kill_pending (tcb_pool s t)"
    "t_affinity (tcb_pool s t) = of_nat core" "current_tcb s (1 - core) \<noteq> Some t"
    "t_state (tcb_pool s t) = THREAD_READY \<or> t_state (tcb_pool s t) = THREAD_RUNNING"
    using idle by (simp_all add: idle_on_def)
  have left: "left_state (tcb_pool s t) = THREAD_READY" using i(4,7) by (auto simp: left_state_def)
  then have "\<not> (outgoing_reaped (current_tcb s c) s \<and> current_tcb s c = Some t)"
    by (auto simp: outgoing_reaped_def reaped_here_def)
  then have used: "tcb_used s1 t" using n(7) [of t] i(2) by blast
  have id: "PID_IS_KERNEL (t_pid (tcb_pool s1 t))" "\<not> t_kill_pending (tcb_pool s1 t)" "t_affinity (tcb_pool s1 t) = of_nat core"
    using n(9) [OF used] i(3-5) by (simp_all add: keeps_id_def)
  have "u = t \<Longrightarrow> c = core" using n(4) i(5) idle_not_any [OF core] core_of_affinity [OF core c(1)]
    by (simp add: selectable_def)
  moreover have "1 - core \<noteq> core" using core by arith
  ultimately have cur: "current_tcb s1 (1 - core) \<noteq> Some t" using i(6) n(6) by (cases "u = t") auto
  have "t_state (tcb_pool s1 t) = THREAD_READY \<or> t_state (tcb_pool s1 t) = THREAD_RUNNING"
  proof (cases "u = t")
    case False
    then show ?thesis using n(8) [of t] used left i(7) by (auto split: if_splits)
  qed (use n(5) in simp)
  with used id cur i(1) show "idle_on core t s'" by (simp add: idle_on_def s')
qed

lemma used_not_new: "tcb_used s t \<Longrightarrow> \<not> tcb_used s u \<Longrightarrow> t \<noteq> u"
  by auto

lemma busy_step_keeps:
  fixes s :: "'a kstate_scheme"
  assumes step: "busy_step I s s'" and inv: "sched_inv s qs" and core: "core < 2"
    and idles: "\<And>c. c < 2 \<Longrightarrow> \<exists>w \<in> I. idle_on c w s" and t: "t \<in> I" "idle_on core t s"
  shows "(\<exists>qs'. sched_inv s' qs') \<and> idle_on core t s'"
  using step
proof cases
  case (process name pid)
  show ?thesis
  proof (cases "fst (task_create_process name pid s)")
    case None
    then have "s' = s" using process by (auto simp: task_create_process_def split: if_splits option.splits)
    then show ?thesis using inv t(2) by blast
  next
    case (Some p)
    note f = create_process_fields [OF Some]
    have "current_tcb (snd (task_create_process name pid s)) = current_tcb s"
      by (auto simp: task_create_process_def upd_pcb_def split: option.split)
    then show ?thesis using create_process_sched_inv [OF inv Some] t(2) f(8,9) process
      by (auto intro!: idle_on_cong [OF t(2)] simp: idle_on_def)
  qed
next
  case (create proc n te name entry arg pr r)
  have used: "tcb_used s t" using t(2) by (simp add: idle_on_def)
  show ?thesis
  proof (rule create_thread_split [OF inv create(1-3), of te name entry arg pr], goal_cases)
    case (1 s1)
    then show ?case using create(4) used idle_on_cong [OF t(2), of s1] by auto
  next
    case (2 u s1 qs1 base)
    have "t \<noteq> u" using used 2(4) by auto
    then have "keeps_id (tcb_pool s t) (tcb_pool s1 t) \<and> t_state (tcb_pool s1 t) = t_state (tcb_pool s t)"
      by (intro same_but_next 2(7))
    then show ?case using 2(1,2,5,8) create(4) used idle_on_cong [OF t(2), of s1] by auto
  qed
next
  case (block c u)
  obtain s1 where b: "sched_block (Some u) s = Some s1" "sched_inv s1 (qs(prio_of (tcb_pool s u) := remove1 u (qs (prio_of (tcb_pool s u)))))"
    "current_tcb s1 = current_tcb s" "\<And>v. v \<noteq> u \<Longrightarrow> t_state (tcb_pool s1 v) = t_state (tcb_pool s v)"
    "tcb_used s1 = tcb_used s" "\<And>v. keeps_id (tcb_pool s v) (tcb_pool s1 v)"
    by (rule sched_block_inv [OF inv], rule that; (assumption | blast))
  have "u \<noteq> t" using t(1) block(2) by auto
  then show ?thesis using b block(3) t(2) idle_on_cong [OF t(2), of s1] by (auto simp: idle_on_def)
next
  case (unblock u c b)
  have e: "\<exists>qs'. sched_inv s' qs'" by (rule unblock_inv [OF inv _ unblock(2,3,4)]) (use unblock(1) in simp)
  have st: "t_state (tcb_pool s t) = THREAD_READY \<or> t_state (tcb_pool s t) = THREAD_RUNNING" "tcb_used s t"
    using t(2) by (simp_all add: idle_on_def)
  have u: "u < 16" "u \<noteq> t" using unblock(1,3) st by auto
  from unblock(3) show ?thesis
  proof (elim disjE conjE)
    assume bl: "t_state (tcb_pool s u) = THREAD_BLOCKED"
    obtain s1 where "sched_unblock c (Some u) s = Some (True, s1)" "tcb_used s1 = tcb_used s" "current_tcb s1 = current_tcb s"
      "\<And>v. v \<noteq> u \<Longrightarrow> t_state (tcb_pool s1 v) = t_state (tcb_pool s v)" "\<And>v. keeps_id (tcb_pool s v) (tcb_pool s1 v)"
      by (rule sched_unblock_wakes [OF inv u(1) unblock(2) bl, of c], rule that; (assumption | blast))
    then show ?thesis using e unblock(4) u(2) st(2) idle_on_cong [OF t(2), of s1] by auto
  next
    assume z: "t_state (tcb_pool s u) = THREAD_ZOMBIE" "\<not> is_current (current_tcb s) u"
    obtain s1 where "sched_unblock c (Some u) s = Some (False, s1)" "tcb_used s1 = (tcb_used s)(u := False)"
      "current_tcb s1 = current_tcb s" "tcb_pool s1 = (tcb_pool s)(u := tcb_zero)"
      by (rule sched_unblock_frees [OF inv u(1) unblock(2) z, of c], rule that; (assumption | blast))
    then show ?thesis using e unblock(4) u(2) st(2) idle_on_cong [OF t(2), of s1] by auto
  qed
next
  case (sleep c u ms)
  obtain s1 where b: "sched_sleep c ms s = Some s1" "sched_inv s1 (qs(prio_of (tcb_pool s u) := remove1 u (qs (prio_of (tcb_pool s u)))))"
    "current_tcb s1 = current_tcb s" "\<And>v. v \<noteq> u \<Longrightarrow> t_state (tcb_pool s1 v) = t_state (tcb_pool s v)"
    "tcb_used s1 = tcb_used s" "\<And>v. keeps_id (tcb_pool s v) (tcb_pool s1 v)"
    by (rule sched_sleep_inv [OF inv sleep(1), of ms], rule that; (assumption | blast))
  have "u \<noteq> t" using t(1) sleep(2) by auto
  then show ?thesis using b sleep(3) t(2) idle_on_cong [OF t(2), of s1] by (auto simp: idle_on_def)
next
  case (yield c)
  then have "sched_inv s' qs" using inv by (simp add: frame_simps)
  moreover have "idle_on core t s'" using t(2) yield by (simp add: sched_yield_def idle_on_def)
  ultimately show ?thesis by blast
next
  case (kill c u)
  have u: "u < 16" "u \<noteq> t" using kill(2,4) t(2) by (auto simp: idle_on_def)
  obtain s1 qs1 where k: "task_kill_thread c (Some u) s = Some s1" "sched_inv s1 qs1" "current_tcb s1 = current_tcb s"
    "\<And>v. v \<noteq> u \<Longrightarrow> tcb_used s1 v = tcb_used s v \<and> t_state (tcb_pool s1 v) = t_state (tcb_pool s v)"
    "\<And>v. v \<noteq> u \<Longrightarrow> keeps_id (tcb_pool s v) (tcb_pool s1 v)"
    by (rule task_kill_thread_spec [OF inv u(1) kill(3,1)], rule that; (assumption | blast))
  have "tcb_used s1 t" using k(4) [of t] u(2) t(2) by (simp add: idle_on_def)
  then show ?thesis using k kill(5) u(2) idle_on_cong [OF t(2), of s1] by auto
next
  case (exit c u)
  have "u \<noteq> t" using t(1) exit(4) by auto
  then have "idle_on core t s'" using t(2) exit(1,3) by (simp add: thread_exit_step_def idle_on_def frame_simps sched_yield_def)
  then show ?thesis using exit_inv [OF inv exit(2)] exit(1) by blast
next
  case (switch c r)
  obtain w where "idle_on c w s" using idles [OF switch(1)] by blast
  from switch_idle [OF inv switch(1) this core t(2) switch(2)] show ?thesis by blast
next
  case (tick c)
  have e: "\<exists>qs'. sched_inv s' qs'" using tick0_inv [OF inv] tick1_inv [OF inv] tick by (cases "c = 0") auto
  have st: "t_state (tcb_pool s t) = THREAD_READY \<or> t_state (tcb_pool s t) = THREAD_RUNNING"
    using t(2) by (simp add: idle_on_def)
  show ?thesis
  proof (cases "c = 0")
    case True
    let ?s = "tick_state s"
    have inv1: "sched_inv ?s qs" using tick_state_inv [of s qs] inv by simp
    have i1: "idle_on core t ?s" using t(2)
      by (simp add: tick_state_def Let_def idle_on_def upd_tcb_def split: option.split)
    have "set [0..<MAX_THREADS] \<subseteq> {..<(16::nat)}" by auto
    from wake_sleepers_spec [OF sched_inv_locked [OF inv1, of True] this, of 0 "time_us ?s"] obtain s1 where
      w: "wake_sleepers [0..<MAX_THREADS] 0 (time_us ?s) (?s\<lparr>sched_lock := True\<rparr>) = Some s1" "same_but_states (?s\<lparr>sched_lock := True\<rparr>) s1"
      "\<And>u. t_state (tcb_pool s1 u) = (if u \<in> set [0..<MAX_THREADS] \<and> expired (time_us ?s) (?s\<lparr>sched_lock := True\<rparr>) u
         then THREAD_READY else t_state (tcb_pool ?s u))" by auto
    have "isr_systick 0 s = Some (sched_release s1)"
      using w(1) sched_acquire_free [OF sched_invD(3) [OF inv1]] by (simp add: systick0_eq)
    then have s': "s' = sched_release s1" using tick True by simp
    have "\<not> expired (time_us ?s) (?s\<lparr>sched_lock := True\<rparr>) t" using i1 by (auto simp: expired_def idle_on_def)
    then have "t_state (tcb_pool s' t) = t_state (tcb_pool ?s t)" using w(3) [of t] by (simp add: s' frame_simps)
    moreover have "tcb_used s' t" "keeps_id (tcb_pool ?s t) (tcb_pool s' t)" "current_tcb s' = current_tcb ?s"
      using w(2) i1 by (simp_all add: s' same_but_states_def frame_simps idle_on_def)
    ultimately have "idle_on core t s'" using idle_on_cong [OF i1] by blast
    then show ?thesis using e by blast
  next
    case False
    have "idle_on core t s'" using tick False t(2)
      by (auto simp: isr_systick_def upd_tcb_def Let_def idle_on_def split: option.splits if_splits)
    then show ?thesis using e by blast
  qed
qed

end
