(* ===== verification/Boot.thy ===== *)
theory Boot
  imports Shell AppStart Idle
begin

text \<open>
  \<open>src/main.c\<close> in the build without WiFi and Bluetooth: the start-up sequence of core 0 up to the
  first thread, and the entry of core 1. The machine's start-up functions of the SDK, the
  addresses that the linker gives to the entry functions and to the two mutexes, and the effect of
  launching core 1 (which registers itself for the flash lock-out and then waits) are parameters.
\<close>

record ('h, 's) boot_env = "('h, 's) shell_env" +
  y_stdio_usb_init :: "'h \<Rightarrow> 'h"
  y_sleep_ms :: "nat \<Rightarrow> 'h \<Rightarrow> 'h"
  y_launch_core1 :: "'h \<Rightarrow> 'h"
  y_idle :: u32
  y_idle1 :: u32
  y_shell :: u32
  y_vfs_lock :: nat
  y_fs_mutex :: nat

definition PID_SHELL :: u32 where "PID_SHELL = 2"

section \<open>The start-up sequence\<close>

text \<open>At most 30 waits of 100 ms for the USB host.\<close>

fun host_wait :: "('h, 's) boot_env \<Rightarrow> nat \<Rightarrow> 'h \<Rightarrow> 'h" where
  "host_wait Y 0 h = h"
| "host_wait Y (Suc n) h = (if x_usb_connected Y h then h else host_wait Y n (y_sleep_ms Y 100 h))"

definition banner_rule :: string where
  "banner_rule = replicate 55 (CHR 0x3D)"

definition boot_banner :: "build_info \<Rightarrow> ('h, 'a) dev_state_scheme \<Rightarrow> ('h, 'a) dev_state_scheme" where
  "boot_banner b s = (case b_version b of (major, minor, edit) \<Rightarrow> fold sh_print
     [crlf @ crlf @ banner_rule @ crlf, ''picoOS  v'' @ dec major @ ''.'' @ dec minor @ ''.'' @ dec edit @ crlf @ crlf,
      ''  Platform : '' @ b_platform b @ crlf, ''  Options  : DISPLAY_PACK'' @ crlf, banner_rule @ crlf @ crlf] s)"

definition display_cmd :: shell_cmd_t where
  "display_cmd = \<lparr>sc_name = ''display'', sc_help = ''ST7789 240x135 display: clear/fill/text/line/rect/backlight/buttons/info'',
     sc_handler = CmdDisplay\<rparr>"

definition led_cmd :: shell_cmd_t where
  "led_cmd = \<lparr>sc_name = ''led'', sc_help = ''Control RGB LED: led on|off | led RRGGBB | led <color>'', sc_handler = CmdLed\<rparr>"

text \<open>\<open>dev_init\<close> with the two commands it registers.\<close>

definition boot_devices :: "('h, 's) env \<Rightarrow> ('h, 'a) shell_state_scheme \<Rightarrow> ('h, 'a) shell_state_scheme" where
  "boot_devices E s = snd (shell_register_cmd (Some led_cmd) (dev_init E (snd (shell_register_cmd (Some display_cmd) s))))"

text \<open>The initialisation of the kernel's subsystems, in the order of \<open>main\<close>.\<close>

definition kernel_init ::
  "('h, ('h, 'a) shell_state_scheme) boot_env \<Rightarrow> ('h, 'a) shell_state_scheme \<Rightarrow> ('h, 'a) shell_state_scheme option" where
  "kernel_init Y s = (let E = x_env Y; s1 = kmem_init s in do {
     (pool, ev, h) \<leftarrow> sync_init (e_sdk E) (\<lambda>_. \<lparr>sl_hw = None, sl_lock = 0\<rparr>) (sio s1);
     let s2 = task_init (s1\<lparr>sio := h, event_pool_lock := ev\<rparr>);
     let s3 = vfs_init pool (y_vfs_lock Y) (boot_devices E s2);
     (_, s4) \<leftarrow> fs_init E pool (y_fs_mutex Y) s3;
     Some s4
   })"

text \<open>An idle thread, pinned to its core once it exists.\<close>

definition create_pinned ::
  "u32 \<Rightarrow> nat option \<Rightarrow> string \<Rightarrow> u32 \<Rightarrow> u8 \<Rightarrow> 'a kstate_scheme \<Rightarrow> 'a kstate_scheme option" where
  "create_pinned te proc name entry aff s = do {
     (t, s1) \<leftarrow> task_create_thread te proc (Some name) entry 0 7 IDLE_STACK_SIZE s;
     Some (case t of None \<Rightarrow> s1 | Some i \<Rightarrow> upd_tcb i (\<lambda>b. b\<lparr>t_affinity := aff\<rparr>) s1)
   }"

definition boot_threads :: "('h, 's) boot_env \<Rightarrow> 'a kstate_scheme \<Rightarrow> 'a kstate_scheme option" where
  "boot_threads Y s = (let te = x_thread_exit Y; (kernel_proc, s1) = task_create_process (Some ''kernel'') PID_KERNEL s in do {
     s2 \<leftarrow> create_pinned te kernel_proc ''idle'' (y_idle Y) THREAD_AFFINITY_C0 s1;
     s3 \<leftarrow> create_pinned te kernel_proc ''idle1'' (y_idle1 Y) THREAD_AFFINITY_C1 s2;
     let (shell_proc, s4) = task_create_process (Some ''shell'') PID_SHELL s3;
     (_, s5) \<leftarrow> task_create_thread te shell_proc (Some ''shell'') (y_shell Y) 0 2 DEFAULT_STACK_SIZE s4;
     Some s5
   })"

definition thread_summary :: "('h, 'a) dev_state_scheme \<Rightarrow> ('h, 'a) dev_state_scheme" where
  "thread_summary s = sh_print (crlf @ ''Starting scheduler...'' @ crlf @ crlf)
     (fold (\<lambda>i s. case task_get_thread_slot (int i) s of
         None \<Rightarrow> s
       | Some t \<Rightarrow> let b = tcb_pool s t in sh_print (''  TID '' @ dec (unat (t_tid b)) @ ''  PID '' @ dec (unat (t_pid b)) @ ''  pri '' @
           dec (unat (t_priority b)) @ ''  '' @ t_name b @ crlf) s) [0..<MAX_THREADS]
       (sh_print (''Threads created:'' @ crlf) s))"

text \<open>
  \<open>main\<close> up to the jump into core 0's first thread: the initial stack pointer, entry point and
  argument of that thread.
\<close>

definition main_boot ::
  "('h, ('h, 'a) shell_state_scheme) boot_env \<Rightarrow> ('h, 'a) shell_state_scheme \<Rightarrow>
     ((nat \<times> u32 \<times> u32) \<times> ('h, 'a) shell_state_scheme) option" where
  "main_boot Y s = (let
     s1 = boot_banner (x_build Y) (s\<lparr>sio := host_wait Y 30 (y_stdio_usb_init Y (sio s))\<rparr>) in do {
     s2 \<leftarrow> kernel_init Y (s1\<lparr>sio := y_launch_core1 Y (sio s1)\<rparr>);
     s3 \<leftarrow> boot_threads Y s2;
     sched_start (sched_init (thread_summary s3))
   })"

text \<open>\<open>core1_entry\<close> behind the registration; until core 0 has a thread it waits.\<close>

definition core1_entry :: "'a kstate_scheme \<Rightarrow> ((nat \<times> u32 \<times> u32) \<times> 'a kstate_scheme) option" where
  "core1_entry s = (if current_tcb s 0 = None then None else sched_start_core1 (sched_init_core1 s))"

text \<open>
  The bodies of the first threads: one turn of core 0's idle loop behind its wait for an interrupt
  (core 1's loop only waits), and the shell's entry up to its loop, whose turns are \<open>shell_cycle\<close>.
\<close>

definition idle_thread :: "('h, 's) env \<Rightarrow> ('h, 'a) dev_state_scheme \<Rightarrow> ('h, 'a) dev_state_scheme" where
  "idle_thread E s = dev_console_poll E s"

definition shell_thread_entry ::
  "('h, ('h, 'a) shell_state_scheme) boot_env \<Rightarrow> ('h, 'a) shell_state_scheme \<Rightarrow> ('h, 'a) shell_state_scheme option" where
  "shell_thread_entry Y s = do {
     s1 \<leftarrow> shell_init (shell_env.truncate Y) s;
     shell_start (shell_env.truncate Y) s1
   }"

section \<open>The first threads\<close>

lemma seg_alloc_tail:
  "\<forall>(x, y, f) \<in> set us. \<not> f \<Longrightarrow> n + 64 \<le> k \<Longrightarrow>
     seg_alloc n (us @ [(a, k, True)]) = Some (a + 16, us @ [(a, n, False), (a + 16 + n, k - n - 16, True)])"
  by (induction us) auto

lemma create_fresh:
  fixes s :: "'a kstate_scheme"
  assumes inv: "sched_inv s qs" and ok: "proc_ok proc s" and n: "68 \<le> unat n" "unat n + 7 < 2 ^ 32" "ALIGN8 n = n"
    and slot: "first_slot (\<lambda>i. \<not> tcb_used s i) MAX_THREADS = Some t"
    and segs: "heap_segs s = us @ [(a, k, True)]" "\<forall>(x, y, f) \<in> set us. \<not> f" "unat n + 64 \<le> k"
  obtains s' where "task_create_thread te proc name entry arg pr n s = Some (Some t, s')"
    "sched_inv s' (qs(prio_of (tcb_pool s' t) := qs (prio_of (tcb_pool s' t)) @ [t]))"
    "tcb_used s' = (tcb_used s)(t := True)" "tcb_pool s' t = new_tcb proc name pr n (a + 16) s"
    "\<And>u. u \<noteq> t \<Longrightarrow> (tcb_pool s' u)\<lparr>t_next := None\<rparr> = (tcb_pool s u)\<lparr>t_next := None\<rparr>"
    "heap_mem s' = thread_memory te entry arg (a + 16) n (heap_mem s)" "current_tcb s' = current_tcb s"
    "heap_segs s' = us @ [(a, unat n, False), (a + 16 + unat n, k - unat n - 16, True)]"
    "pcb_used s' = pcb_used s" "pcb_pool s' = link_thread proc t (pcb_pool s)"
proof -
  let ?k = "s\<lparr>tcb_used := (tcb_used s)(t := True)\<rparr>"
  have "heap_wf s" using sched_invD(1) [OF inv] by (simp add: tasks_wf_def stacks_wf_def)
  then have "heap_abs ?k (us @ [(a, k, True)])" using heap_cong [of ?k s] segs(1) by (simp add: heap_abs_iff)
  moreover have "n \<noteq> 0" using n(1) by auto
  ultimately obtain B where B: "kmalloc n ?k = Some (Some (a + 16), ?k\<lparr>heap_blocks := B\<rparr>)"
    "heap_abs (?k\<lparr>heap_blocks := B\<rparr>) (us @ [(a, unat n, False), (a + 16 + unat n, k - unat n - 16, True)])"
    using kmalloc_some seg_alloc_tail [OF segs(2,3)] n(3) by metis
  show thesis
    by (rule create_thread_inv [OF inv ok n(1,2) slot B(1), of te name entry arg pr], rule that; (assumption | use B(2) in \<open>simp add: heap_abs_iff\<close>))
qed

lemma prio_of_new: "prio_of (new_tcb proc name pr n base s) = (if unat pr < 8 then unat pr else 7)"
  by (simp add: new_tcb_def prio_of_def)

lemma create_pinned_spec:
  fixes s :: "'a kstate_scheme"
  assumes inv: "sched_inv s qs" and ok: "proc_ok proc s" and slot: "first_slot (\<lambda>i. \<not> tcb_used s i) MAX_THREADS = Some t"
    and segs: "heap_segs s = us @ [(a, k, True)]" "\<forall>(x, y, f) \<in> set us. \<not> f" "576 \<le> k"
  obtains s' where "create_pinned te proc name entry aff s = Some s'" "sched_inv s' (qs(7 := qs 7 @ [t]))"
    "tcb_used s' = (tcb_used s)(t := True)" "tcb_pool s' t = (new_tcb proc (Some name) 7 512 (a + 16) s)\<lparr>t_affinity := aff\<rparr>"
    "\<And>u. u \<noteq> t \<Longrightarrow> (tcb_pool s' u)\<lparr>t_next := None\<rparr> = (tcb_pool s u)\<lparr>t_next := None\<rparr>"
    "heap_mem s' = thread_memory te entry 0 (a + 16) 512 (heap_mem s)" "current_tcb s' = current_tcb s"
    "heap_segs s' = us @ [(a, 512, False), (a + 528, k - 528, True)]"
    "pcb_used s' = pcb_used s" "pcb_pool s' = link_thread proc t (pcb_pool s)"
proof -
  have n: "68 \<le> unat (512 :: u32)" "unat (512 :: u32) + 7 < 2 ^ 32" "ALIGN8 512 = 512" "unat (512 :: u32) + 64 \<le> k"
    using segs(3) by (simp_all add: ALIGN8_def)
  obtain s1 where c: "task_create_thread te proc (Some name) entry 0 7 512 s = Some (Some t, s1)"
    "sched_inv s1 (qs(prio_of (tcb_pool s1 t) := qs (prio_of (tcb_pool s1 t)) @ [t]))"
    "tcb_used s1 = (tcb_used s)(t := True)" "tcb_pool s1 t = new_tcb proc (Some name) 7 512 (a + 16) s"
    "\<And>u. u \<noteq> t \<Longrightarrow> (tcb_pool s1 u)\<lparr>t_next := None\<rparr> = (tcb_pool s u)\<lparr>t_next := None\<rparr>"
    "heap_mem s1 = thread_memory te entry 0 (a + 16) 512 (heap_mem s)" "current_tcb s1 = current_tcb s"
    "heap_segs s1 = us @ [(a, unat (512 :: u32), False), (a + 16 + unat (512 :: u32), k - unat (512 :: u32) - 16, True)]"
    "pcb_used s1 = pcb_used s" "pcb_pool s1 = link_thread proc t (pcb_pool s)"
    by (rule create_fresh [OF inv ok n(1-3) slot segs(1,2) n(4), of te "Some name" entry 0 7], rule that; (assumption | blast))
  define s' where "s' = upd_tcb t (\<lambda>b. b\<lparr>t_affinity := aff\<rparr>) s1"
  have run: "create_pinned te proc name entry aff s = Some s'"
    using c(1) by (simp add: create_pinned_def IDLE_STACK_SIZE_def s'_def)
  have "prio_of (tcb_pool s1 t) = 7" by (simp add: c(4) prio_of_new)
  then have "sched_inv s1 (qs(7 := qs 7 @ [t]))" using c(2) by simp
  moreover have "sched_inv s' Q \<longleftrightarrow> sched_inv s1 Q" for Q by (rule sched_inv_cong) (simp_all add: s'_def upd_tcb_def)
  ultimately have i: "sched_inv s' (qs(7 := qs 7 @ [t]))" by simp
  have h: "heap_segs s' = heap_segs s1" by (rule heap_cong) (simp_all add: s'_def upd_tcb_def)
  have o: "\<And>u. u \<noteq> t \<Longrightarrow> (tcb_pool s' u)\<lparr>t_next := None\<rparr> = (tcb_pool s u)\<lparr>t_next := None\<rparr>"
    using c(5) by (simp add: s'_def)
  show thesis by (rule that [OF run i]) (use c h o in \<open>simp_all add: s'_def upd_tcb_def\<close>)
qed

lemma create_process_on:
  fixes s :: "'a kstate_scheme"
  assumes inv: "sched_inv s qs" and pid: "pid \<noteq> 0" "task_find_process pid s = None" and free: "p0 < 8" "\<not> pcb_used s p0"
  obtains p s' where "task_create_process name pid s = (Some p, s')" "sched_inv s' qs" "proc_ok (Some p) s'" "\<not> pcb_used s p"
    "pcb_used s' = (pcb_used s)(p := True)" "p_pid (pcb_pool s' p) = pid" "\<And>q. q \<noteq> p \<Longrightarrow> pcb_pool s' q = pcb_pool s q"
    "p_alive (pcb_pool s' p)" "thread_list (pcb_pool s' p) = []" "tcb_used s' = tcb_used s" "tcb_pool s' = tcb_pool s"
    "heap_segs s' = heap_segs s" "heap_mem s' = heap_mem s" "current_tcb s' = current_tcb s"
proof (cases rule: create_process_cases [of name pid s])
  case Fail
  then show ?thesis using pid free by blast
next
  case (Slot p)
  obtain s2 where c: "task_create_process name pid s = (Some p, s2)" using Slot(5) by (cases "task_create_process name pid s") simp
  note f = create_process_fields [OF Slot(5), unfolded c snd_conv] and i = create_process_sched_inv [OF inv Slot(5), unfolded c snd_conv]
  note k = create_process_kernel [OF Slot(5), unfolded c snd_conv]
  have "heap_segs s2 = heap_segs s" by (rule heap_cong) (simp_all add: f)
  then show ?thesis using Slot f k by (intro that [OF c i]) (simp_all add: proc_ok_def thread_list_def)
qed

lemma same_view:
  "(b :: tcb)\<lparr>t_next := None\<rparr> = c\<lparr>t_next := None\<rparr> \<Longrightarrow> t_state b = t_state c \<and> t_pid b = t_pid c \<and> t_affinity b = t_affinity c \<and>
     t_kill_pending b = t_kill_pending c \<and> t_saved_sp b = t_saved_sp c \<and> t_stack_base b = t_stack_base c"
  by (cases b; cases c) simp

text \<open>What the memory holds for a thread: the canary and the words that start it.\<close>

definition starts :: "u32 \<Rightarrow> nat \<Rightarrow> 'a kstate_scheme \<Rightarrow> bool" where
  "starts entry t s \<longleftrightarrow> entry_frame entry 0 t s \<and> canary_intact (Some t) s"

lemma starts_new:
  assumes m: "heap_mem s = thread_memory te entry 0 base n m0" and n: "68 \<le> unat n"
    and t: "t_saved_sp (tcb_pool s t) = base + unat n - 64" "t_stack_base (tcb_pool s t) = Some base"
  shows "starts entry t s"
proof -
  note f = thread_memory_frame [OF n, where te = te and entry = entry and arg = 0 and base = base and m = m0]
  have "initial_frame entry 0 te ! 8 = 0" "initial_frame entry 0 te ! 14 = entry"
    by (simp_all add: initial_frame_def eval_nat_numeral)
  with f(2) [where i = 8] f(2) [where i = 14] have "heap_mem s (base + unat n - 64 + 32) = 0" "heap_mem s (base + unat n - 64 + 56) = entry"
    by (simp_all add: m)
  with f(1) t show ?thesis by (simp add: starts_def entry_frame_def Let_def canary_intact_def m)
qed

lemma starts_kept:
  assumes "starts entry t s" and "t_saved_sp (tcb_pool s' t) = t_saved_sp (tcb_pool s t)"
    "t_stack_base (tcb_pool s' t) = t_stack_base (tcb_pool s t)" "t_stack_base (tcb_pool s t) = Some b"
    and "t_saved_sp (tcb_pool s t) + 56 < c" "b < c" "\<And>x. x < c \<Longrightarrow> heap_mem s' x = heap_mem s x"
  shows "starts entry t s'"
  using assms by (simp add: starts_def entry_frame_def Let_def canary_intact_def)

text \<open>The three threads of a system that has just started.\<close>

definition first_thread :: "nat \<Rightarrow> u32 \<Rightarrow> u8 \<Rightarrow> u32 \<Rightarrow> 'a kstate_scheme \<Rightarrow> bool" where
  "first_thread t pid aff entry s \<longleftrightarrow> tcb_used s t \<and> t_state (tcb_pool s t) = THREAD_READY \<and> t_pid (tcb_pool s t) = pid \<and>
     t_affinity (tcb_pool s t) = aff \<and> \<not> t_kill_pending (tcb_pool s t) \<and> starts entry t s"

lemma boot_threads_spec:
  fixes s :: "'a kstate_scheme"
  assumes inv: "sched_inv s (\<lambda>_. [])" and used: "tcb_used s = (\<lambda>_. False)" "pcb_used s = (\<lambda>_. False)" and segs: "heap_segs s = [(0, 65520, True)]"
  obtains s' where "boot_threads Y s = Some s'" "sched_inv s' ((\<lambda>_. [])(7 := [0, 1], 2 := [2]))" "tcb_used s' = (\<lambda>t. t < 3)"
    "current_tcb s' = current_tcb s" "first_thread 0 PID_KERNEL THREAD_AFFINITY_C0 (y_idle Y) s'"
    "first_thread 1 PID_KERNEL THREAD_AFFINITY_C1 (y_idle1 Y) s'" "first_thread 2 PID_SHELL THREAD_AFFINITY_ANY (y_shell Y) s'"
proof -
  let ?te = "x_thread_exit Y"
  have none: "task_find_process pid s = None" for pid
    by (simp add: task_find_process_def first_slot_None used)
  have k: "PID_KERNEL \<noteq> 0" "0 < (8 :: nat)" "\<not> pcb_used s 0" by (simp_all add: PID_KERNEL_def used)
  obtain p s1 where 1: "task_create_process (Some ''kernel'') PID_KERNEL s = (Some p, s1)" "sched_inv s1 (\<lambda>_. [])" "proc_ok (Some p) s1"
    "\<not> pcb_used s p" "pcb_used s1 = (pcb_used s)(p := True)" "p_pid (pcb_pool s1 p) = PID_KERNEL" "\<And>q. q \<noteq> p \<Longrightarrow> pcb_pool s1 q = pcb_pool s q"
    "p_alive (pcb_pool s1 p)" "thread_list (pcb_pool s1 p) = []" "tcb_used s1 = tcb_used s" "tcb_pool s1 = tcb_pool s"
    "heap_segs s1 = heap_segs s" "heap_mem s1 = heap_mem s" "current_tcb s1 = current_tcb s"
    by (rule create_process_on [OF inv k(1) none k(2,3), of "Some ''kernel''"], rule that; (assumption | blast))
  have slot: "first_slot (\<lambda>i. \<not> tcb_used s1 i) MAX_THREADS = Some 0" by (simp add: first_slot_Some_iff 1(10) used)
  have sg: "heap_segs s1 = [] @ [(0, 65520, True)]" "\<forall>(x, y, f) \<in> set []. \<not> f" "576 \<le> (65520 :: nat)" by (simp_all add: 1(12) segs)
  define Q0 :: "nat \<Rightarrow> nat list" where "Q0 = (\<lambda>_. [])"
  have inv1: "sched_inv s1 Q0" using 1(2) by (simp add: Q0_def)
  obtain s2 where 2: "create_pinned ?te (Some p) ''idle'' (y_idle Y) THREAD_AFFINITY_C0 s1 = Some s2" "sched_inv s2 (Q0(7 := Q0 7 @ [0]))"
    "tcb_used s2 = (tcb_used s1)(0 := True)" "tcb_pool s2 0 = (new_tcb (Some p) (Some ''idle'') 7 512 (0 + 16) s1)\<lparr>t_affinity := THREAD_AFFINITY_C0\<rparr>"
    "\<And>u. u \<noteq> 0 \<Longrightarrow> (tcb_pool s2 u)\<lparr>t_next := None\<rparr> = (tcb_pool s1 u)\<lparr>t_next := None\<rparr>"
    "heap_mem s2 = thread_memory ?te (y_idle Y) 0 (0 + 16) 512 (heap_mem s1)" "current_tcb s2 = current_tcb s1"
    "heap_segs s2 = [] @ [(0, 512, False), (0 + 528, 65520 - 528, True)]" "pcb_used s2 = pcb_used s1"
    "pcb_pool s2 = link_thread (Some p) 0 (pcb_pool s1)"
    by (rule create_pinned_spec [OF inv1 1(3) slot sg, of ?te "''idle''" "y_idle Y" THREAD_AFFINITY_C0], rule that; (assumption | blast))
  have ok2: "proc_ok (Some p) s2" using 1(3) by (simp add: proc_ok_def 2(9))
  have slot: "first_slot (\<lambda>i. \<not> tcb_used s2 i) MAX_THREADS = Some 1" by (simp add: first_slot_Some_iff 2(3) 1(10) used)
  have sg: "heap_segs s2 = [(0, 512, False)] @ [(528, 64992, True)]" "\<forall>(x, y, f) \<in> set [(0 :: nat, 512 :: nat, False)]. \<not> f" "576 \<le> (64992 :: nat)"
    by (simp_all add: 2(8))
  define Q1 where "Q1 = Q0(7 := [0])"
  have inv2: "sched_inv s2 Q1" using 2(2) by (simp add: Q0_def Q1_def)
  obtain s3 where 3: "create_pinned ?te (Some p) ''idle1'' (y_idle1 Y) THREAD_AFFINITY_C1 s2 = Some s3"
    "sched_inv s3 (Q1(7 := Q1 7 @ [1]))"
    "tcb_used s3 = (tcb_used s2)(1 := True)" "tcb_pool s3 1 = (new_tcb (Some p) (Some ''idle1'') 7 512 (528 + 16) s2)\<lparr>t_affinity := THREAD_AFFINITY_C1\<rparr>"
    "\<And>u. u \<noteq> 1 \<Longrightarrow> (tcb_pool s3 u)\<lparr>t_next := None\<rparr> = (tcb_pool s2 u)\<lparr>t_next := None\<rparr>"
    "heap_mem s3 = thread_memory ?te (y_idle1 Y) 0 (528 + 16) 512 (heap_mem s2)" "current_tcb s3 = current_tcb s2"
    "heap_segs s3 = [(0, 512, False)] @ [(528, 512, False), (528 + 528, 64992 - 528, True)]" "pcb_used s3 = pcb_used s2"
    "pcb_pool s3 = link_thread (Some p) 1 (pcb_pool s2)"
    by (rule create_pinned_spec [OF inv2 ok2 slot sg, of ?te "''idle1''" "y_idle1 Y" THREAD_AFFINITY_C1], rule that; (assumption | blast))
  have pid: "p_pid (pcb_pool s2 p) = PID_KERNEL" "p_pid (pcb_pool s3 p) = PID_KERNEL"
    using 1(6) by (simp_all add: 2(10) 3(10) link_thread_def)
  have pu: "pcb_used s3 = (\<lambda>x. x = p)" using 1(5) used by (simp add: 2(9) 3(9) fun_eq_iff)
  then have none3: "task_find_process PID_SHELL s3 = None"
    using pid(2) by (simp add: task_find_process_def first_slot_None PID_SHELL_def PID_KERNEL_def)
  define Q2 where "Q2 = Q0(7 := [0, 1])"
  have inv3: "sched_inv s3 Q2" using 3(2) by (simp add: Q0_def Q1_def Q2_def)
  define p0 :: nat where "p0 = (if p = 0 then 1 else 0)"
  have k3: "PID_SHELL \<noteq> 0" "p0 < 8" "\<not> pcb_used s3 p0" by (simp_all add: PID_SHELL_def p0_def pu)
  obtain q s4 where 4: "task_create_process (Some ''shell'') PID_SHELL s3 = (Some q, s4)"
    "sched_inv s4 Q2" "proc_ok (Some q) s4"
    "p_pid (pcb_pool s4 q) = PID_SHELL" "tcb_used s4 = tcb_used s3" "tcb_pool s4 = tcb_pool s3"
    "heap_segs s4 = heap_segs s3" "heap_mem s4 = heap_mem s3" "current_tcb s4 = current_tcb s3"
    by (rule create_process_on [OF inv3 k3(1) none3 k3(2,3), of "Some ''shell''"], rule that; (assumption | blast))
  have n: "68 \<le> unat (2048 :: u32)" "unat (2048 :: u32) + 7 < 2 ^ 32" "ALIGN8 2048 = 2048" by (simp_all add: ALIGN8_def)
  have u4: "tcb_used s4 = (\<lambda>t. t < 2)" using used by (auto simp: 4(5) 3(3) 2(3) 1(10) fun_eq_iff)
  have slot: "first_slot (\<lambda>i. \<not> tcb_used s4 i) MAX_THREADS = Some 2" by (simp add: first_slot_Some_iff u4)
  have sg: "heap_segs s4 = [(0, 512, False), (528, 512, False)] @ [(1056, 64464, True)]"
    "\<forall>(x, y, f) \<in> set [(0 :: nat, 512 :: nat, False), (528, 512, False)]. \<not> f" "unat (2048 :: u32) + 64 \<le> 64464"
    by (simp_all add: 4(7) 3(8))
  obtain s5 where 5: "task_create_thread ?te (Some q) (Some ''shell'') (y_shell Y) 0 2 2048 s4 = Some (Some 2, s5)"
    "sched_inv s5 (Q2(prio_of (tcb_pool s5 2) := Q2 (prio_of (tcb_pool s5 2)) @ [2]))"
    "tcb_used s5 = (tcb_used s4)(2 := True)" "tcb_pool s5 2 = new_tcb (Some q) (Some ''shell'') 2 2048 (1056 + 16) s4"
    "\<And>u. u \<noteq> 2 \<Longrightarrow> (tcb_pool s5 u)\<lparr>t_next := None\<rparr> = (tcb_pool s4 u)\<lparr>t_next := None\<rparr>"
    "heap_mem s5 = thread_memory ?te (y_shell Y) 0 (1056 + 16) 2048 (heap_mem s4)" "current_tcb s5 = current_tcb s4"
    by (rule create_fresh [OF 4(2,3) n slot sg, of ?te "Some ''shell''" "y_shell Y" 0 2], rule that; (assumption | blast))
  have run: "boot_threads Y s = Some s5"
    using 1(1) 2(1) 3(1) 4(1) 5(1) by (simp add: boot_threads_def DEFAULT_STACK_SIZE_def)
  have "prio_of (tcb_pool s5 2) = 2" by (simp add: 5(4) prio_of_new)
  with 5(2) have inv5: "sched_inv s5 ((\<lambda>_. [])(7 := [0, 1], 2 := [2]))" by (simp add: Q2_def Q0_def)
  have u5: "tcb_used s5 = (\<lambda>t. t < 3)" by (auto simp: 5(3) u4 fun_eq_iff)
  have c5: "current_tcb s5 = current_tcb s" by (simp add: 5(7) 4(9) 3(7) 2(7) 1(14))
  have n5: "68 \<le> unat (512 :: u32)" by simp
  have m3: "x < 544 \<Longrightarrow> heap_mem s3 x = heap_mem s2 x" for x
    using thread_memory_frame(3) [OF n5, where te = ?te and entry = "y_idle1 Y" and arg = 0 and base = 544 and m = "heap_mem s2" and x = x]
    by (simp add: 3(6))
  have m5: "x < 1072 \<Longrightarrow> heap_mem s5 x = heap_mem s3 x" for x
    using thread_memory_frame(3) [OF n(1), where te = ?te and entry = "y_shell Y" and arg = 0 and base = 1072 and m = "heap_mem s4" and x = x]
    by (simp add: 5(6) 4(8))
  have t0: "t_state (tcb_pool s2 0) = THREAD_READY" "t_pid (tcb_pool s2 0) = PID_KERNEL" "t_affinity (tcb_pool s2 0) = THREAD_AFFINITY_C0"
    "\<not> t_kill_pending (tcb_pool s2 0)" "t_saved_sp (tcb_pool s2 0) = 464" "t_stack_base (tcb_pool s2 0) = Some 16"
    by (simp_all add: 2(4) new_tcb_def 1(6))
  have t1: "t_state (tcb_pool s3 1) = THREAD_READY" "t_pid (tcb_pool s3 1) = PID_KERNEL" "t_affinity (tcb_pool s3 1) = THREAD_AFFINITY_C1"
    "\<not> t_kill_pending (tcb_pool s3 1)" "t_saved_sp (tcb_pool s3 1) = 992" "t_stack_base (tcb_pool s3 1) = Some 544"
    by (simp_all add: 3(4) [simplified] new_tcb_def pid(1))
  have t2: "t_state (tcb_pool s5 2) = THREAD_READY" "t_pid (tcb_pool s5 2) = PID_SHELL" "t_affinity (tcb_pool s5 2) = THREAD_AFFINITY_ANY"
    "\<not> t_kill_pending (tcb_pool s5 2)" "t_saved_sp (tcb_pool s5 2) = 3056" "t_stack_base (tcb_pool s5 2) = Some 1072"
    by (simp_all add: 5(4) new_tcb_def 4(4))
  note v03 = same_view [OF 3(5) [of 0], simplified] and v05 = same_view [OF 5(5) [of 0], unfolded 4(6), simplified]
  note v15 = same_view [OF 5(5) [of 1], unfolded 4(6), simplified]
  have "starts (y_idle Y) 0 s2"
    by (rule starts_new [where te = ?te and base = 16 and n = 512 and ?m0.0 = "heap_mem s1"]) (simp_all add: t0 2(6))
  then have "starts (y_idle Y) 0 s3"
    by (rule starts_kept [where b = 16 and c = 544]) (simp_all add: v03 t0 m3)
  then have i0: "starts (y_idle Y) 0 s5"
    by (rule starts_kept [where b = 16 and c = 1072]) (simp_all add: v03 v05 t0 m5)
  have "starts (y_idle1 Y) 1 s3"
    by (rule starts_new [where te = ?te and base = 544 and n = 512 and ?m0.0 = "heap_mem s2"]) (simp_all add: t1 [simplified] 3(6))
  then have i1: "starts (y_idle1 Y) 1 s5"
    by (rule starts_kept [where b = 544 and c = 1072]) (simp_all add: v15 t1 [simplified] m5)
  have i2: "starts (y_shell Y) 2 s5"
    by (rule starts_new [where te = ?te and base = 1072 and n = 2048 and ?m0.0 = "heap_mem s4"]) (simp_all add: t2 5(6))
  have f0: "first_thread 0 PID_KERNEL THREAD_AFFINITY_C0 (y_idle Y) s5" using i0 v03 v05 t0 by (simp add: first_thread_def u5)
  have f1: "first_thread 1 PID_KERNEL THREAD_AFFINITY_C1 (y_idle1 Y) s5" using i1 v15 t1 by (simp add: first_thread_def u5)
  have f2: "first_thread 2 PID_SHELL THREAD_AFFINITY_ANY (y_shell Y) s5" using i2 t2 by (simp add: first_thread_def u5)
  show thesis by (rule that [OF run inv5 u5 c5 f0 f1 f2])
qed

section \<open>The initialised kernel\<close>

text \<open>
  The part of the state that is the kernel's: what the devices, the VFS and the file system do
  during start-up, without a current thread, does not touch it.
\<close>

abbreviation kernel_of :: "'a kstate_scheme \<Rightarrow> kstate" where
  "kernel_of \<equiv> kstate.truncate"

lemma kernel_of_sh_print [simp]: "kernel_of (sh_print msg s) = kernel_of s" "core_num (sh_print msg s) = core_num s" "sio (sh_print msg s) = sio s"
  by (simp_all add: sh_print_def dev_emit_def kstate.truncate_def)

lemma kernel_of_fs_printf [simp]: "kernel_of (fs_printf msg s) = kernel_of s" "core_num (fs_printf msg s) = core_num s"
  by (simp_all add: fs_printf_def dev_emit_def kstate.truncate_def)

lemma current_of_kernel: "kernel_of s' = kernel_of s \<Longrightarrow> core_num s' = core_num s \<Longrightarrow> CURRENT_TCB s' = CURRENT_TCB s"
  by (simp add: CURRENT_TCB_def kstate.truncate_def)

definition no_kernel :: "('h, 'a) exec_state_scheme \<Rightarrow> ('h, 'b) exec_state_scheme \<Rightarrow> bool" where
  "no_kernel s s' \<longleftrightarrow> kernel_of s' = kernel_of s \<and> core_num s' = core_num s \<and> CURRENT_TCB s' = CURRENT_TCB s"

lemma flash_safe_boot:
  assumes "CURRENT_TCB s = None"
  obtains rc s' where "fs_flash_safe E f s = Some (rc, s')" "no_kernel s s'"
proof -
  let ?r = "flash_safe_execute E (core_num s) f (sio s)"
  let ?s = "s\<lparr>sio := snd ?r\<rparr>"
  define m where "m = ''[fs] flash operation failed (rc '' @ dec_int (fst ?r) @ '')''"
  have run: "fs_flash_safe E f s = Some (fst ?r, if fst ?r \<noteq> 0 then fs_printf m ?s else ?s)"
    using assms by (simp add: fs_flash_safe_def split_beta Let_def m_def)
  have "no_kernel s ?s" "no_kernel s (fs_printf m ?s)"
    by (simp_all add: no_kernel_def fs_printf_def dev_emit_def CURRENT_TCB_def kstate.truncate_def)
  then show thesis by (intro that [OF run]) simp
qed

lemma erase_loop_boot: "CURRENT_TCB s = None \<Longrightarrow> \<exists>s'. erase_loop E is s = Some s' \<and> no_kernel s s'"
proof (induction "is" arbitrary: s)
  case Nil
  then show ?case by (simp add: no_kernel_def)
next
  case (Cons i "is")
  obtain rc s1 where 1: "flash_erase_sector E (FS_FLASH_OFFSET + i * FS_BLOCK_SIZE) s = Some (rc, s1)" "no_kernel s s1"
    unfolding flash_erase_sector_def by (rule flash_safe_boot [OF Cons.prems])
  then have "CURRENT_TCB s1 = None" using Cons.prems by (simp add: no_kernel_def)
  from Cons.IH [OF this] 1 show ?case by (auto simp: no_kernel_def)
qed

lemma flush_boot:
  assumes "CURRENT_TCB s = None"
  obtains rc s' where "superblock_flush E s = Some (rc, s')" "no_kernel s s'"
proof -
  obtain rc s1 where 1: "flash_erase_sector E FS_FLASH_OFFSET s = Some (rc, s1)" "no_kernel s s1"
    unfolding flash_erase_sector_def by (rule flash_safe_boot [OF assms])
  then have c: "CURRENT_TCB s1 = None" using assms by (simp add: no_kernel_def)
  obtain rc2 s2 where 2: "fs_flash_safe E (flash_range_program E FS_FLASH_OFFSET (sb_pages (superblock_ram s1))) s1 = Some (rc2, s2)" "no_kernel s1 s2"
    by (rule flash_safe_boot [OF c])
  show thesis
    by (rule that [of "if rc \<noteq> 0 then - 1 else if rc2 \<noteq> 0 then - 1 else 0" "if rc \<noteq> 0 then s1 else s2"])
      (use 1 2 in \<open>simp_all add: superblock_flush_def no_kernel_def\<close>)
qed

lemma fs_init_boot:
  assumes "CURRENT_TCB s = None"
  obtains s' where "fs_init E pool addr s = Some ((), s')" "no_kernel s s'"
proof -
  define s1 where "s1 = s\<lparr>fs_mutex := kmutex_init pool addr, open_fds := (\<lambda>_. open_fd_zero), scratch_owner := None\<rparr>"
  define sb where "sb = sb_of (flash_bytes E (sio s1) FS_FLASH_OFFSET SB_SIZE)"
  have 1: "no_kernel s s1" by (simp add: s1_def no_kernel_def CURRENT_TCB_def kstate.truncate_def)
  show thesis
  proof (cases "sb_magic sb = FS_SUPERBLOCK_MAGIC \<and> sb_version sb = 1")
    case True
    then have "fs_init E pool addr s = Some ((), fs_printf (''[fs] mounted: '' @ dec (unat (sb_file_count sb)) @ '' file(s) found'') (s1\<lparr>superblock_ram := sb\<rparr>))"
      by (simp add: fs_init_def s1_def [symmetric] sb_def [symmetric])
    moreover have "no_kernel s (fs_printf m (s1\<lparr>superblock_ram := sb\<rparr>))" for m
      using 1 by (simp add: no_kernel_def fs_printf_def dev_emit_def CURRENT_TCB_def kstate.truncate_def)
    ultimately show ?thesis by (rule that)
  next
    case False
    define s2 where "s2 = fs_printf ''[fs] no valid FS found, formatting flash...'' s1"
    have 2: "no_kernel s1 s2" by (simp add: s2_def no_kernel_def fs_printf_def dev_emit_def CURRENT_TCB_def kstate.truncate_def)
    define s3 where "s3 = s2\<lparr>open_fds := (\<lambda>i. if i < FS_MAX_OPEN_FDS then (open_fds s2 i)\<lparr>of_used := False, of_dirty := False\<rparr> else open_fds s2 i),
        scratch_owner := None\<rparr>"
    have 3: "no_kernel s2 s3" by (simp add: s3_def no_kernel_def CURRENT_TCB_def kstate.truncate_def)
    have c3: "CURRENT_TCB s2 = None" "CURRENT_TCB s3 = None" using assms 1 2 3 by (simp_all add: no_kernel_def)
    obtain s4 where 4: "erase_loop E [0..<1 + FS_MAX_FILES] s3 = Some s4" "no_kernel s3 s4" using erase_loop_boot [OF c3(2)] by blast
    define s5 where "s5 = s4\<lparr>superblock_ram := sb_zero\<lparr>sb_magic := FS_SUPERBLOCK_MAGIC, sb_version := 1, sb_file_count := 0\<rparr>\<rparr>"
    have 5: "no_kernel s4 s5" by (simp add: s5_def no_kernel_def CURRENT_TCB_def kstate.truncate_def)
    have "CURRENT_TCB s5 = None" using c3(2) 4(2) 5 by (simp add: no_kernel_def)
    then obtain rc s6 where 6: "superblock_flush E s5 = Some (rc, s6)" "no_kernel s5 s6" by (rule flush_boot)
    define s7 where "s7 = fs_printf ''[fs] format complete'' s6"
    have 7: "no_kernel s6 s7" by (simp add: s7_def no_kernel_def fs_printf_def dev_emit_def CURRENT_TCB_def kstate.truncate_def)
    have "fs_format_body E s2 = Some ((), s7)"
      unfolding fs_format_body_def Let_def s3_def [symmetric] using 4(1) 6(1) by (simp add: s5_def s7_def)
    moreover have "CURRENT_TCB s7 = None" using c3(2) 4(2) 5 6(2) 7 by (simp add: no_kernel_def)
    ultimately have "fs_format E s2 = Some ((), s7)"
      using c3(1) by (simp add: fs_format_def fs_locked_def fs_take_lock_def fs_give_lock_def)
    moreover have "fs_init E pool addr s = fs_format E s2"
      unfolding fs_init_def Let_def s1_def [symmetric] sb_def [symmetric] s2_def using False by (rule if_not_P)
    moreover have "no_kernel s s7" using 1 2 3 4(2) 5 6(2) 7 by (simp add: no_kernel_def)
    ultimately show ?thesis using that by simp
  qed
qed

lemma no_kernel_refl [simp]: "no_kernel s s"
  and no_kernel_trans: "no_kernel s s' \<Longrightarrow> no_kernel s' s'' \<Longrightarrow> no_kernel s s''"
  by (simp_all add: no_kernel_def)

lemma devices_boot: "no_kernel s (boot_devices E s)"
proof -
  have r: "no_kernel s (snd (shell_register_cmd c s))" for c and s :: "('h, 'b) shell_state_scheme"
    by (simp add: shell_register_cmd_def no_kernel_def CURRENT_TCB_def kstate.truncate_def split: option.split)
  have d: "no_kernel s (dev_init E s)" for s :: "('q, 'b) shell_state_scheme" and E :: "('q, 'r) env"
    by (simp add: dev_init_def dev_open_def dev_get_def devices_def on_display_def split_beta no_kernel_def CURRENT_TCB_def kstate.truncate_def)
  show ?thesis unfolding boot_devices_def by (rule no_kernel_trans [OF no_kernel_trans [OF r d] r])
qed

lemma mounts_boot: "no_kernel s (fold (\<lambda>(path, did) s. snd (vfs_mount_dev (Some path) did s)) ms s)"
proof (induction ms arbitrary: s)
  case (Cons m ms)
  have "no_kernel s (snd (vfs_mount_dev (Some p) d s))" for p d
    by (simp add: vfs_mount_dev_def no_kernel_def CURRENT_TCB_def kstate.truncate_def split: option.split)
  then show ?case using Cons.IH by (cases m) (auto intro: no_kernel_trans)
qed simp

lemma vfs_boot: "no_kernel s (vfs_init pool addr s)"
proof -
  let ?s = "s\<lparr>vfs_lock := kmutex_init pool addr,
        fd_table := (\<lambda>i. if i < VFS_MAX_OPEN then vfs_fd_zero\<lparr>vf_used := False\<rparr> else fd_table s i),
        dev_mounts := (\<lambda>i. if i < VFS_MAX_DEV_MOUNTS then dev_mount_zero\<lparr>dm_used := False\<rparr> else dev_mounts s i)\<rparr>"
  have "no_kernel s ?s" by (simp add: no_kernel_def CURRENT_TCB_def kstate.truncate_def)
  then show ?thesis unfolding vfs_init_def by (rule no_kernel_trans [OF _ mounts_boot])
qed

lemma kernel_init_spec:
  fixes s :: "('h, 'a) shell_state_scheme"
  assumes D: "sdk_ok (e_sdk (x_env Y)) held claimed" and os: "\<not> claimed (sio s) PICO_SPINLOCK_ID_OS1" "\<not> claimed (sio s) PICO_SPINLOCK_ID_OS2"
    and locks: "3 \<le> card (unclaimed claimed (sio s))" and bss: "kernel_of s = kernel_bss" and core: "core_num s = 0"
  obtains s' where "kernel_init Y s = Some s'" "kernel_of s' = kernel_boot" "core_num s' = 0"
proof -
  let ?s1 = "kmem_init s"
  have k1: "kernel_of ?s1 = kmem_init kernel_bss" "sio ?s1 = sio s" "core_num ?s1 = 0"
    using core unfolding bss [symmetric] by (simp_all add: kmem_init_def kstate.truncate_def)
  obtain pool ev h where i: "sync_init (e_sdk (x_env Y)) (\<lambda>_. \<lparr>sl_hw = None, sl_lock = 0\<rparr>) (sio ?s1) = Some (pool, ev, h)"
    using sync_init_outcome [OF D os, of "\<lambda>_. \<lparr>sl_hw = None, sl_lock = 0\<rparr>"] locks k1(2) by auto
  define s2 where "s2 = task_init (?s1\<lparr>sio := h, event_pool_lock := ev\<rparr>)"
  have "kernel_of s2 = task_init (kernel_of ?s1)" by (simp add: s2_def task_init_def kstate.truncate_def cong: if_cong)
  then have k2: "kernel_of s2 = kernel_boot" by (simp add: k1(1) kernel_boot_def)
  have c2: "core_num s2 = 0" using k1(3) by (simp add: s2_def task_init_def)
  have n2: "CURRENT_TCB s2 = None" using k1(3) by (simp add: CURRENT_TCB_def s2_def task_init_def)
  define s3 where "s3 = vfs_init pool (y_vfs_lock Y) (boot_devices (x_env Y) s2)"
  have f3: "no_kernel s2 s3" unfolding s3_def by (rule no_kernel_trans [OF devices_boot vfs_boot])
  then have "CURRENT_TCB s3 = None" using n2 by (simp add: no_kernel_def)
  then obtain s4 where 4: "fs_init (x_env Y) pool (y_fs_mutex Y) s3 = Some ((), s4)" "no_kernel s3 s4" by (rule fs_init_boot)
  have "kernel_init Y s = Some s4" using i 4(1) by (simp add: kernel_init_def Let_def s2_def s3_def)
  moreover have "kernel_of s4 = kernel_boot" "core_num s4 = 0" using f3 4(2) k2 c2 by (simp_all add: no_kernel_def)
  ultimately show thesis by (rule that)
qed

section \<open>The first threads of the cores\<close>

lemma find_append: "find ok (xs @ ys) = (case find ok xs of None \<Rightarrow> find ok ys | Some x \<Rightarrow> Some x)"
  by (induction xs) auto

lemma first_on_queues_spec:
  "rq_abs s qs \<Longrightarrow> \<forall>p \<in> set ps. p < 8 \<Longrightarrow> first_on_queues ps ok s = Some (find ok (concat (map qs ps)))"
proof (induction ps)
  case (Cons p ps)
  have "chain (next_of s) (ready_queues s p) (qs p)" using Cons.prems by (simp add: rq_abs_def)
  from pick_thread_chain [OF this, of ok] Cons show ?case by (simp add: find_append split: option.split)
qed simp

lemma start_on:
  assumes inv: "sched_inv s qs" and core: "core < 2" "current_tcb s core = None"
    and t: "t < 16" "tcb_used s t" "t_state (tcb_pool s t) = THREAD_READY" "current_tcb s (1 - core) \<noteq> Some t"
    and s': "s' = (set_state t THREAD_RUNNING s)\<lparr>current_tcb := (current_tcb s)(core := Some t)\<rparr>"
  shows "sched_inv s' qs"
proof -
  note i = sched_invD [OF inv]
  have "(current_tcb s)(core := None) = current_tcb s" using core(2) by auto
  then have "queue_at s ((current_tcb s)(core := None)) qs" using i(4) by (simp add: queue_ok_at)
  from switched_in_inv [OF i(1,2) this refl core(1) t, of "trace_ring s" "trace_seq s"]
  have "sched_inv (switched_in core t (trace_ring s) (trace_seq s) s) qs" .
  moreover have "sched_inv s' qs \<longleftrightarrow> sched_inv (switched_in core t (trace_ring s) (trace_seq s) s) qs"
    using i(3) by (intro sched_inv_cong) (simp_all add: s' switched_in_def sched_release_def set_state_def upd_tcb_def)
  ultimately show ?thesis by simp
qed

text \<open>A system with its three threads ready, as \<open>main\<close> leaves it for the scheduler.\<close>

definition ready_to_start :: "('h, 's) boot_env \<Rightarrow> 'a kstate_scheme \<Rightarrow> bool" where
  "ready_to_start Y s \<longleftrightarrow> sched_inv s ((\<lambda>_. [])(7 := [0, 1], 2 := [2])) \<and> current_tcb s = (\<lambda>_. None) \<and>
     first_thread 0 PID_KERNEL THREAD_AFFINITY_C0 (y_idle Y) s \<and> first_thread 1 PID_KERNEL THREAD_AFFINITY_C1 (y_idle1 Y) s \<and>
     first_thread 2 PID_SHELL THREAD_AFFINITY_ANY (y_shell Y) s"

text \<open>Both cores in their first threads.\<close>

definition both_started :: "'a kstate_scheme \<Rightarrow> bool" where
  "both_started s \<longleftrightarrow> (\<exists>qs. sched_inv s qs) \<and> current_tcb s = (\<lambda>_. None)(0 := Some 2, 1 := Some 1) \<and>
     t_state (tcb_pool s 2) = THREAD_RUNNING \<and> t_state (tcb_pool s 1) = THREAD_RUNNING \<and> idle_on 0 0 s \<and> idle_on 1 1 s \<and>
     canary_intact (current_tcb s 0) s \<and> canary_intact (current_tcb s 1) s"

lemma start_cores:
  fixes s :: "'a kstate_scheme"
  assumes r: "ready_to_start Y s"
  obtains p0 s1 p1 s2 where "sched_start (sched_init s) = Some ((p0, y_shell Y, 0), s1)"
    "core1_entry s1 = Some ((p1, y_idle1 Y, 0), s2)" "both_started s2"
proof -
  define Q :: "nat \<Rightarrow> nat list" where "Q = (\<lambda>_. [])(7 := [0, 1], 2 := [2])"
  define s0 where "s0 = sched_init s"
  have q: "concat (map Q [0..<8]) = [2, 0, 1]" by (simp add: Q_def upt_rec)
  have inv: "sched_inv s Q" using r by (simp add: ready_to_start_def Q_def)
  moreover have "sched_inv s0 Q \<longleftrightarrow> sched_inv s Q"
    using sched_invD(3) [OF inv] by (intro sched_inv_cong) (simp_all add: s0_def sched_init_def)
  ultimately have inv0: "sched_inv s0 Q" by simp
  have f: "tcb_pool s0 = tcb_pool s" "tcb_used s0 = tcb_used s" "current_tcb s0 = (\<lambda>_. None)" "heap_mem s0 = heap_mem s"
    using r by (simp_all add: s0_def sched_init_def ready_to_start_def)
  have t0: "tcb_used s 0" "t_state (tcb_pool s 0) = THREAD_READY" "t_pid (tcb_pool s 0) = PID_KERNEL" "t_affinity (tcb_pool s 0) = 0"
    "\<not> t_kill_pending (tcb_pool s 0)"
    and t1: "tcb_used s 1" "t_state (tcb_pool s 1) = THREAD_READY" "t_pid (tcb_pool s 1) = PID_KERNEL" "t_affinity (tcb_pool s 1) = THREAD_AFFINITY_C1"
    "\<not> t_kill_pending (tcb_pool s 1)" "entry_frame (y_idle1 Y) 0 1 s" "canary_intact (Some 1) s"
    and t2: "tcb_used s 2" "t_state (tcb_pool s 2) = THREAD_READY" "t_affinity (tcb_pool s 2) = THREAD_AFFINITY_ANY" "entry_frame (y_shell Y) 0 2 s"
      "canary_intact (Some 2) s"
    using r by (simp_all add: ready_to_start_def first_thread_def starts_def THREAD_AFFINITY_C0_def)
  define s1 where "s1 = (set_state 2 THREAD_RUNNING s0)\<lparr>current_tcb := (current_tcb s0)(0 := Some 2)\<rparr>"
  have fq0: "first_on_queues [0..<8] ok s0 = Some (find ok [2, 0, 1])" for ok
    using first_on_queues_spec [OF sched_invD(2) [OF inv0], of "[0..<8]"] q by simp
  have "sched_start s0 = Some (frame_entry 2 s1, s1)"
    using t2 by (simp add: sched_start_def fq0 s1_def f Let_def)
  moreover have "frame_entry 2 s1 = (t_saved_sp (tcb_pool s 2) + 64, y_shell Y, 0)"
    using t2(4) by (simp add: frame_entry_def entry_frame_def Let_def s1_def f set_state_def upd_tcb_def)
  ultimately have run0: "sched_start s0 = Some ((t_saved_sp (tcb_pool s 2) + 64, y_shell Y, 0), s1)" by simp
  have inv1: "sched_inv s1 Q"
    by (rule start_on [OF inv0, where core = 0 and t = 2]) (simp_all add: f t2 s1_def)
  define s1' where "s1' = sched_init_core1 s1"
  have "sched_inv s1' Q \<longleftrightarrow> sched_inv s1 Q" by (intro sched_inv_cong) (simp_all add: s1'_def sched_init_core1_def)
  then have inv1': "sched_inv s1' Q" using inv1 by simp
  have f1: "tcb_pool s1' = (tcb_pool s)(2 := (tcb_pool s 2)\<lparr>t_state := THREAD_RUNNING\<rparr>)" "tcb_used s1' = tcb_used s"
    "current_tcb s1' = (\<lambda>_. None)(0 := Some 2)" "heap_mem s1' = heap_mem s"
    by (simp_all add: s1'_def sched_init_core1_def s1_def f set_state_def upd_tcb_def)
  define s2 where "s2 = (set_state 1 THREAD_RUNNING s1')\<lparr>current_tcb := (current_tcb s1')(1 := Some 1)\<rparr>"
  have inv2: "sched_inv s2 Q"
    by (rule start_on [OF inv1', where core = 1 and t = 1]) (simp_all add: f1 t1 [simplified] s2_def)
  have acq: "sched_acquire s1' = Some (s1'\<lparr>sched_lock := True\<rparr>)" by (rule sched_acquire_free [OF sched_invD(3) [OF inv1']])
  have rel: "sched_release ((set_state 1 THREAD_RUNNING (s1'\<lparr>sched_lock := True\<rparr>))\<lparr>current_tcb := (current_tcb s1')(1 := Some 1)\<rparr>) = s2"
    using sched_invD(3) [OF inv1'] by (simp add: s2_def sched_release_def set_state_def upd_tcb_def)
  have rq: "rq_abs (s1'\<lparr>sched_lock := True\<rparr>) Q" using sched_invD(2) [OF inv1'] by simp
  have fq: "first_on_queues [0..<8] ok (s1'\<lparr>sched_lock := True\<rparr>) = Some (find ok [2, 0, 1])" for ok
    using first_on_queues_spec [OF rq, of "[0..<8]" ok] by (simp add: q)
  have "core1_entry s1 = sched_start_core1 s1'" by (simp add: core1_entry_def s1'_def s1_def f)
  also have "\<dots> = Some (frame_entry 1 s2, s2)"
    using t0 t1 rel by (simp add: sched_start_core1_def acq fq f1 THREAD_AFFINITY_ANY_def THREAD_AFFINITY_C1_def)
  also have "frame_entry 1 s2 = (t_saved_sp (tcb_pool s 1) + 64, y_idle1 Y, 0)"
    using t1(6) by (simp add: frame_entry_def entry_frame_def Let_def s2_def f1 set_state_def upd_tcb_def)
  finally have run1: "core1_entry s1 = Some ((t_saved_sp (tcb_pool s 1) + 64, y_idle1 Y, 0), s2)" .
  have "idle_on 0 0 s2" "idle_on 1 1 s2"
    using t0 t1 by (simp_all add: idle_on_def s2_def f1 set_state_def upd_tcb_def PID_IS_KERNEL_def PID_KERNEL_MIN_def PID_KERNEL_MAX_def
        PID_KERNEL_def THREAD_AFFINITY_C1_def)
  moreover have "canary_intact (Some 1) s2" "canary_intact (Some 2) s2"
    using t1(7) t2(5) by (simp_all add: canary_intact_def s2_def f1 set_state_def upd_tcb_def split: option.splits)
  ultimately have "both_started s2" using inv2 by (auto simp: both_started_def s2_def f1 set_state_def upd_tcb_def)
  with run0 run1 show thesis using that by (simp add: s0_def)
qed

lemma kernel_of_eqD:
  assumes "kernel_of s' = kernel_of s"
  shows "heap_blocks s' = heap_blocks s" "heap_mem s' = heap_mem s" "heap_head s' = heap_head s" "heap_lock s' = heap_lock s"
    "tcb_pool s' = tcb_pool s" "pcb_pool s' = pcb_pool s" "tcb_used s' = tcb_used s" "pcb_used s' = pcb_used s"
    "current_tcb s' = current_tcb s" "ready_queues s' = ready_queues s" "sched_lock s' = sched_lock s"
  using assms by (simp_all add: kstate.truncate_def)

lemma sched_inv_kernel:
  assumes "kernel_of s' = kernel_of s"
  shows "sched_inv s' qs \<longleftrightarrow> sched_inv s qs"
  by (rule sched_inv_cong) (simp_all add: kernel_of_eqD [OF assms])

lemma ready_to_start_kernel:
  assumes "kernel_of s' = kernel_of s" and "ready_to_start Y s"
  shows "ready_to_start Y s'"
  using assms(2) unfolding ready_to_start_def sched_inv_kernel [OF assms(1)]
  by (simp add: first_thread_def starts_def entry_frame_def canary_intact_def kernel_of_eqD [OF assms(1)] cong: option.case_cong)

lemma kernel_of_sio: "kernel_of (s\<lparr>sio := x\<rparr>) = kernel_of s"
  by (simp add: kstate.truncate_def)

lemma fold_sh_print [simp]: "kernel_of (fold sh_print ms s) = kernel_of s" "core_num (fold sh_print ms s) = core_num s" "sio (fold sh_print ms s) = sio s"
  by (induction ms arbitrary: s) simp_all

lemma banner_kernel [simp]: "kernel_of (boot_banner b s) = kernel_of s" "core_num (boot_banner b s) = core_num s" "sio (boot_banner b s) = sio s"
  by (simp_all add: boot_banner_def split_beta del: fold.simps)

lemma summary_kernel:
  fixes s :: "('h, 'a) dev_state_scheme"
  shows "kernel_of (thread_summary s) = kernel_of s"
proof -
  define f :: "nat \<Rightarrow> ('h, 'a) dev_state_scheme \<Rightarrow> ('h, 'a) dev_state_scheme" where
    "f = (\<lambda>i s. case task_get_thread_slot (int i) s of None \<Rightarrow> s
       | Some t \<Rightarrow> let b = tcb_pool s t in sh_print (''  TID '' @ dec (unat (t_tid b)) @ ''  PID '' @ dec (unat (t_pid b)) @ ''  pri '' @
           dec (unat (t_priority b)) @ ''  '' @ t_name b @ crlf) s)"
  have "kernel_of (f i s) = kernel_of s" for i s by (simp add: f_def Let_def split: option.split)
  then have "kernel_of (fold f is s) = kernel_of s" for "is" s by (induction "is" arbitrary: s) simp_all
  then show ?thesis unfolding thread_summary_def f_def [symmetric] by simp
qed

lemma main_boot_runs:
  fixes s :: "('h, 'a) shell_state_scheme"
  assumes D: "sdk_ok (e_sdk (x_env Y)) held claimed" and h: "h = y_launch_core1 Y (host_wait Y 30 (y_stdio_usb_init Y (sio s)))"
    and os: "\<not> claimed h PICO_SPINLOCK_ID_OS1" "\<not> claimed h PICO_SPINLOCK_ID_OS2" and locks: "3 \<le> card (unclaimed claimed h)"
    and bss: "kernel_of s = kernel_bss" and core: "core_num s = 0"
  obtains p0 s1 p1 s2 where "main_boot Y s = Some ((p0, y_shell Y, 0), s1)" "core1_entry s1 = Some ((p1, y_idle1 Y, 0), s2)" "both_started s2"
proof -
  define a where "a = boot_banner (x_build Y) (s\<lparr>sio := host_wait Y 30 (y_stdio_usb_init Y (sio s))\<rparr>)"
  define b where "b = a\<lparr>sio := y_launch_core1 Y (sio a)\<rparr>"
  have b: "sio b = h" "kernel_of b = kernel_bss" "core_num b = 0"
    using core by (simp_all add: b_def a_def h bss [symmetric] kernel_of_sio)
  obtain c where c: "kernel_init Y b = Some c" "kernel_of c = kernel_boot"
    by (rule kernel_init_spec [OF D, of b]) (use os locks b in simp_all)
  have "kernel_of kernel_boot = kernel_boot" by (cases kernel_boot) (simp add: kstate.truncate_def)
  then have c2: "kernel_of c = kernel_of kernel_boot" using c(2) by simp
  have i: "sched_inv c (\<lambda>_. [])" using sched_inv_kernel [OF c2] by simp
  have "heap_segs c = heap_segs kernel_boot" by (rule heap_cong) (simp_all add: kernel_of_eqD [OF c2])
  then have hs: "heap_segs c = [(0, 65520, True)]" by simp
  have u: "tcb_used c = (\<lambda>_. False)" "pcb_used c = (\<lambda>_. False)" "current_tcb c = (\<lambda>_. None)"
    by (auto simp: kernel_of_eqD [OF c2])
  obtain d where d: "boot_threads Y c = Some d" "sched_inv d ((\<lambda>_. [])(7 := [0, 1], 2 := [2]))" "current_tcb d = current_tcb c"
    "first_thread 0 PID_KERNEL THREAD_AFFINITY_C0 (y_idle Y) d" "first_thread 1 PID_KERNEL THREAD_AFFINITY_C1 (y_idle1 Y) d"
    "first_thread 2 PID_SHELL THREAD_AFFINITY_ANY (y_shell Y) d"
    by (rule boot_threads_spec [OF i u(1,2) hs, of Y], rule that; (assumption | blast))
  have "ready_to_start Y d" using d u(3) by (simp add: ready_to_start_def)
  then have "ready_to_start Y (thread_summary d)" by (rule ready_to_start_kernel [OF summary_kernel])
  then obtain p0 s1 p1 s2 where r: "sched_start (sched_init (thread_summary d)) = Some ((p0, y_shell Y, 0), s1)"
    "core1_entry s1 = Some ((p1, y_idle1 Y, 0), s2)" "both_started s2" by (rule start_cores)
  have "main_boot Y s = Some ((p0, y_shell Y, 0), s1)"
    using c(1) d(1) r(1) by (simp add: main_boot_def Let_def a_def [symmetric] b_def [symmetric])
  then show thesis using r(2,3) by (rule that)
qed


text \<open>A machine that starts: locks of plain memory, and a flash without a file system.\<close>

definition sim_boot :: "((nat \<Rightarrow> bool) \<times> (nat \<Rightarrow> bool), 's) boot_env" where
  "sim_boot = \<lparr>x_env = \<lparr>e_sdk = sim_sdk,
       e_board = \<lparr>slice_num = (\<lambda>p. p div 2), pwm_chan = (\<lambda>p. p mod 2), gpio_get = (\<lambda>_. True)\<rparr>, e_splash = ''picoOS'',
       getchar_timeout_us = (\<lambda>h. (None, h)), tud_task_event_ready = (\<lambda>_. False), unique_board_id = replicate 8 0,
       xip = (\<lambda>_ _. 255), flash_range_erase = (\<lambda>_ _ h. h), flash_range_program = (\<lambda>_ _ h. h),
       flash_safe_execute = (\<lambda>_ f h. (0, f h)), resume = (\<lambda>s. s)\<rparr>,
     x_thread_exit = 0x10000201, x_btn_monitor = 0x10000301, x_app_table = [],
     x_build = \<lparr>b_version = (0, 1, 0), b_built_on = [], b_compiler = [], b_platform = ''Pico'', b_sram = [], b_flash = [],
       b_wifi = False, b_bt = False\<rparr>,
     x_other = (\<lambda>_ _ s. Some (0, s)), x_usb_connected = (\<lambda>_. True), y_stdio_usb_init = (\<lambda>h. h), y_sleep_ms = (\<lambda>_ h. h),
     y_launch_core1 = (\<lambda>h. h), y_idle = 0x10000401, y_idle1 = 0x10000501, y_shell = 0x10000601, y_vfs_lock = 0x20001000,
     y_fs_mutex = 0x20002000\<rparr>"

type_synonym sim_machine = "((nat \<Rightarrow> bool) \<times> (nat \<Rightarrow> bool)) shell_state"

definition reset_state :: "sim_machine \<Rightarrow> sim_machine" where
  "reset_state x = kstate.extend kernel_bss (kstate.more (x\<lparr>sio := (\<lambda>_. False, \<lambda>_. False), core_num := 0\<rparr>))"

lemma reset_fields: "kernel_of (reset_state x) = kernel_bss" "core_num (reset_state x) = 0" "sio (reset_state x) = (\<lambda>_. False, \<lambda>_. False)"
proof -
  have "kernel_of (kstate.extend k m) = k" for k :: kstate and m :: 'b
    by (cases k) (simp add: kstate.truncate_def kstate.extend_def)
  then show "kernel_of (reset_state x) = kernel_bss" by (simp add: reset_state_def)
  show "core_num (reset_state x) = 0" "sio (reset_state x) = (\<lambda>_. False, \<lambda>_. False)"
    by (cases x; simp add: reset_state_def kstate.extend_def)+
qed

lemma sim_boot_sdk: "e_sdk (x_env sim_boot) = sim_sdk" by (simp add: sim_boot_def)

lemma sim_boot_ready:
  fixes Y :: "((nat \<Rightarrow> bool) \<times> (nat \<Rightarrow> bool), sim_machine) boot_env"
  assumes "Y = sim_boot"
  shows "(\<lambda>_. False, \<lambda>_. False) = y_launch_core1 Y (host_wait Y 30 (y_stdio_usb_init Y (sio (reset_state x))))"
    "3 \<le> card (unclaimed snd (\<lambda>_ :: nat. False, \<lambda>_. False))"
proof -
  have c: "x_usb_connected Y h" "y_stdio_usb_init Y h = h" "y_launch_core1 Y h = h" for h by (simp_all add: assms sim_boot_def)
  have e: "(30 :: nat) = Suc 29" by simp
  have "host_wait Y 30 h = h" for h unfolding e by (simp only: host_wait.simps c if_True)
  then show "(\<lambda>_. False, \<lambda>_. False) = y_launch_core1 Y (host_wait Y 30 (y_stdio_usb_init Y (sio (reset_state x))))"
    by (simp only: c reset_fields(3))
  have "unclaimed snd (\<lambda>_ :: nat. False, \<lambda>_. False) = {24..31}" by (auto simp: unclaimed_def)
  then show "3 \<le> card (unclaimed snd (\<lambda>_ :: nat. False, \<lambda>_. False))" by simp
qed


section \<open>The running system\<close>

text \<open>The states that the calls of the threads on both cores lead to; 0 and 1 are the idle threads.\<close>

inductive runs :: "'a kstate_scheme \<Rightarrow> 'a kstate_scheme \<Rightarrow> bool" for b where
  start: "runs b b"
| step: "runs b s \<Longrightarrow> busy_step {0, 1} s s' \<Longrightarrow> runs b s'"

inductive_cases runsE: "runs b s"

lemma runs_inv:
  assumes "both_started b" and "runs b s"
  shows "(\<exists>qs. sched_inv s qs) \<and> idle_on 0 0 s \<and> idle_on 1 1 s"
  using assms(2)
proof (induction rule: runs.induct)
  case start
  then show ?case using assms(1) by (simp add: both_started_def)
next
  case (step s s')
  then obtain qs where inv: "sched_inv s qs" and i: "idle_on 0 0 s" "idle_on 1 1 s" by blast
  have all: "\<exists>w \<in> {0, 1}. idle_on c w s" if "c < 2" for c using that i by (cases c) (auto simp: less_Suc_eq)
  have "(\<exists>qs'. sched_inv s' qs') \<and> idle_on 0 0 s'"
    by (rule busy_step_keeps [OF step(2) inv _ all _ i(1)]) simp_all
  moreover have "(\<exists>qs'. sched_inv s' qs') \<and> idle_on 1 1 s'"
    by (rule busy_step_keeps [OF step(2) inv _ all _ i(2)]) simp_all
  ultimately show ?case by blast
qed

lemma runs_switch:
  assumes b: "both_started b" and r: "runs b r" and core: "core < 2" and canary: "canary_intact (current_tcb r core) r"
  shows "\<exists>t r'. sched_next_thread core r = Some (Some t, r') \<and> t_state (tcb_pool r' t) = THREAD_RUNNING \<and>
    current_tcb r' = (current_tcb r)(core := Some t) \<and> current_tcb r' (1 - core) \<noteq> Some t"
proof -
  from runs_inv [OF b r] obtain qs where inv: "sched_inv r qs" and i: "idle_on 0 0 r" "idle_on 1 1 r" by blast
  have idle: "idle_on core core r" using core i by (cases core) (auto simp: less_Suc_eq)
  obtain u s' where n: "sched_next_thread core r = Some (Some u, s')" "selectable core r u" "t_state (tcb_pool s' u) = THREAD_RUNNING"
    "current_tcb s' = (current_tcb r)(core := Some u)"
    by (rule switch_returns [OF inv core idle canary], rule that; (assumption | blast))
  have "1 - core \<noteq> core" using core by arith
  with n(2) have "current_tcb s' (1 - core) \<noteq> Some u" by (simp add: n(4) selectable_def)
  with n show ?thesis by blast
qed



end
