(* ===== verification/KillCmds.thy ===== *)
theory KillCmds
  imports Boot
begin

text \<open>
  The shell's \<open>kill\<close> and \<open>killproc\<close>: what they end, and what they leave alone.
\<close>

text \<open>The thread is gone, a zombie, or running on the other core with a kill pending.\<close>

definition doomed :: "'a kstate_scheme \<Rightarrow> nat \<Rightarrow> bool" where
  "doomed s t \<longleftrightarrow> \<not> tcb_used s t \<or> t_state (tcb_pool s t) = THREAD_ZOMBIE \<or> t_kill_pending (tcb_pool s t)"

text \<open>The thread is as it was, but for its place in a queue.\<close>

definition spared :: "'a kstate_scheme \<Rightarrow> 'a kstate_scheme \<Rightarrow> nat \<Rightarrow> bool" where
  "spared s s' t \<longleftrightarrow> tcb_used s' t = tcb_used s t \<and> t_state (tcb_pool s' t) = t_state (tcb_pool s t) \<and>
     t_kill_pending (tcb_pool s' t) = t_kill_pending (tcb_pool s t)"

lemma spared_refl [simp]: "spared s s t"
  and spared_trans: "spared s s' t \<Longrightarrow> spared s' s'' t \<Longrightarrow> spared s s'' t"
  and spared_doomed: "spared s s' t \<Longrightarrow> doomed s' t = doomed s t"
  by (auto simp: spared_def doomed_def)

lemma kill_dooms:
  assumes inv: "sched_inv s qs" and t: "t < 16" "tcb_used s t" and core: "core < 2"
  obtains s' qs' where "task_kill_thread core (Some t) s = Some s'" "sched_inv s' qs'" "current_tcb s' = current_tcb s"
    "doomed s' t" "\<And>u. u \<noteq> t \<Longrightarrow> spared s s' u"
proof -
  obtain s' qs' where k: "task_kill_thread core (Some t) s = Some s'" "sched_inv s' qs'" "current_tcb s' = current_tcb s"
    "\<And>u. u \<noteq> t \<Longrightarrow> tcb_used s' u = tcb_used s u \<and> t_state (tcb_pool s' u) = t_state (tcb_pool s u)"
    "if current_tcb s core = Some t then tcb_used s' t \<and> t_state (tcb_pool s' t) = THREAD_ZOMBIE
     else if current_tcb s (1 - core) = Some t then
       tcb_used s' t \<and> t_kill_pending (tcb_pool s' t) \<and> t_state (tcb_pool s' t) = t_state (tcb_pool s t)
     else if t_state (tcb_pool s t) = THREAD_BLOCKED \<or> t_state (tcb_pool s t) = THREAD_ZOMBIE then
       tcb_used s' t \<and> t_state (tcb_pool s' t) = THREAD_ZOMBIE
     else \<not> tcb_used s' t \<and> qs' = qs(prio_of (tcb_pool s t) := remove1 t (qs (prio_of (tcb_pool s t)))) \<and>
       heap_live s' = {x \<in> heap_live s. Some (fst x) \<noteq> t_stack_base (tcb_pool s t)}"
    "\<And>u. u \<noteq> t \<Longrightarrow> t_kill_pending (tcb_pool s' u) = t_kill_pending (tcb_pool s u)"
    by (rule task_kill_thread_spec [OF inv t core], rule that; (assumption | blast))
  have "doomed s' t" using k(5) by (auto simp: doomed_def split: if_splits)
  moreover have "\<And>u. u \<noteq> t \<Longrightarrow> spared s s' u" using k(4,6) by (simp add: spared_def)
  ultimately show thesis using that k(1-3) by blast
qed

text \<open>The loop over the snapshot of a process's threads.\<close>

lemma kill_all_dooms:
  fixes s :: "'a kstate_scheme"
  assumes "sched_inv s qs" and "distinct ts" and "\<forall>t \<in> set ts. t < 16 \<and> tcb_used s t" and core: "core < 2"
  shows "\<exists>s' qs'. kill_all core (map Some ts) s = Some s' \<and> sched_inv s' qs' \<and> current_tcb s' = current_tcb s \<and>
    (\<forall>t \<in> set ts. doomed s' t) \<and> (\<forall>u. u \<notin> set ts \<longrightarrow> spared s s' u)"
  using assms(1-3)
proof (induction ts arbitrary: s qs)
  case (Cons t ts)
  have t: "t < 16" "tcb_used s t" and ts: "distinct ts" "t \<notin> set ts" using Cons.prems(2,3) by simp_all
  obtain s1 qs1 where 1: "task_kill_thread core (Some t) s = Some s1" "sched_inv s1 qs1" "current_tcb s1 = current_tcb s"
    "doomed s1 t" "\<And>u. u \<noteq> t \<Longrightarrow> spared s s1 u"
    by (rule kill_dooms [OF Cons.prems(1) t core], rule that; (assumption | blast))
  have "\<forall>u \<in> set ts. u < 16 \<and> tcb_used s1 u" using Cons.prems(3) ts(2) 1(5) by (metis list.set_intros(2) spared_def)
  from Cons.IH [OF 1(2) ts(1) this] obtain s2 qs2 where 2: "kill_all core (map Some ts) s1 = Some s2" "sched_inv s2 qs2"
    "current_tcb s2 = current_tcb s1" "\<forall>u \<in> set ts. doomed s2 u" "\<forall>u. u \<notin> set ts \<longrightarrow> spared s1 s2 u" by blast
  have "doomed s2 t" using 1(4) 2(5) ts(2) spared_doomed by blast
  moreover have "spared s s2 u" if "u \<notin> set (t # ts)" for u using spared_trans [of s s1 u s2] that 1(5) [of u] 2(5) by simp
  ultimately have "\<forall>u \<in> set (t # ts). doomed s2 u" "\<forall>u. u \<notin> set (t # ts) \<longrightarrow> spared s s2 u" using 2(4) by auto
  then show ?case using 1(1,3) 2(1,2,3) by (intro exI [of _ s2] exI [of _ qs2]) simp
next
  case Nil
  then show ?case by (intro exI [of _ s] exI [of _ qs]) simp
qed

lemma kill_process_spec:
  fixes s :: "'a kstate_scheme"
  assumes inv: "sched_inv s qs" and p: "p < 8" "pcb_used s p" and core: "core < 2"
  obtains s' qs' where "task_kill_process core (Some p) s = Some s'" "sched_inv s' qs'" "current_tcb s' = current_tcb s"
    "\<And>t. t < 16 \<Longrightarrow> tcb_used s t \<Longrightarrow> t_pid (tcb_pool s t) = p_pid (pcb_pool s p) \<Longrightarrow> doomed s' t"
    "\<And>t. t < 16 \<Longrightarrow> tcb_used s t \<Longrightarrow> t_pid (tcb_pool s t) \<noteq> p_pid (pcb_pool s p) \<Longrightarrow> spared s s' t"
proof -
  let ?s = "upd_pcb p (\<lambda>b. b\<lparr>p_alive := False\<rparr>) s" and ?b = "pcb_pool s p"
  note i = sched_invD [OF inv]
  have wf: "procs_wf s" using i(1) by (simp add: tasks_wf_def)
  note w = procs_wfD [OF wf p]
  have f: "tcb_used ?s = tcb_used s" "tcb_pool ?s = tcb_pool s" "current_tcb ?s = current_tcb s" by (simp_all add: upd_pcb_def)
  have pu: "pcb_used ?s = pcb_used s" by (simp add: upd_pcb_def)
  have "stacks_wf ?s \<longleftrightarrow> stacks_wf s" by (rule stacks_wf_cong) (simp_all add: upd_pcb_def)
  moreover have "pcb_wf (pcb_pool ?s q) = pcb_wf (pcb_pool s q)" "p_pid (pcb_pool ?s q) = p_pid (pcb_pool s q)"
      "thread_list (pcb_pool ?s q) = thread_list (pcb_pool s q)" for q
    by (cases "q = p"; simp add: upd_pcb_def pcb_wf_def thread_list_def)+
  then have "procs_wf ?s" using wf unfolding procs_wf_def by (simp only: f pu)
  moreover have "rq_abs ?s qs \<longleftrightarrow> rq_abs s qs" by (rule rq_abs_cong) (simp_all add: upd_pcb_def next_of_def fun_eq_iff)
  moreover have "queue_ok ?s qs \<longleftrightarrow> queue_ok s qs" by (rule queue_ok_cong) (simp_all add: upd_pcb_def)
  ultimately have inv': "sched_inv ?s qs" using i by (simp add: sched_inv_def tasks_wf_def upd_pcb_def)
  have snap: "take (p_thread_count (pcb_pool ?s p)) (p_threads (pcb_pool ?s p)) = map Some (thread_list ?b)"
  proof -
    have "length (thread_list ?b) = p_thread_count ?b" using pcb_wf_length [OF w(1)] by simp
    then show ?thesis using w(1) by (simp add: upd_pcb_def pcb_wf_def)
  qed
  have "distinct (thread_list ?b)" using w(1) by (simp add: pcb_wf_def)
  moreover have "\<forall>t \<in> set (thread_list ?b). t < 16 \<and> tcb_used ?s t" using w(3) f by simp
  ultimately obtain s' qs' where k: "kill_all core (map Some (thread_list ?b)) ?s = Some s'" "sched_inv s' qs'" "current_tcb s' = current_tcb ?s"
    "\<forall>t \<in> set (thread_list ?b). doomed s' t" "\<forall>u. u \<notin> set (thread_list ?b) \<longrightarrow> spared ?s s' u"
    using kill_all_dooms [OF inv' _ _ core] by blast
  have "task_kill_process core (Some p) s = Some s'" using k(1) by (simp add: task_kill_process_def Let_def snap)
  then show thesis using k(2-5) w(3) f by (intro that [of s' qs']) (auto simp: spared_def)
qed

lemma spared_print [simp]: "spared s (sh_print msg s') t \<longleftrightarrow> spared s s' t" "spared (sh_print msg s) s' t \<longleftrightarrow> spared s s' t"
  "doomed (sh_print msg s') t \<longleftrightarrow> doomed s' t"
  by (simp_all add: spared_def doomed_def)

lemma spared_yield [simp]: "spared s (sched_yield c s') t \<longleftrightarrow> spared s s' t" "doomed (sched_yield c s') t \<longleftrightarrow> doomed s' t"
  by (simp_all add: spared_def doomed_def sched_yield_def)

text \<open>
  C33. \<open>killproc <pid>\<close> always returns: a PID of the kernel range or of no process is refused with no
  thread touched; otherwise every thread of that process is freed, a zombie, or (when it is
  running on the other core) has its kill pending, and no thread of any other process changes its
  state; in both cases the scheduler's invariant holds.
\<close>

theorem killproc_ends_process:
  fixes s :: "('h, 'a) shell_state_scheme"
  assumes inv: "sched_inv s qs" and core: "core_num s < 2" and cur: "current_tcb s (core_num s) \<noteq> None" and argv: "2 \<le> length argv"
  shows "\<exists>rc s' qs'. cmd_killproc argv s = Some (rc, s') \<and> sched_inv s' qs' \<and>
    (let pid = word_of_int (strtol10 (argv ! 1)) :: u32
     in if PID_IS_KERNEL pid \<or> task_find_process pid s = None then rc = - 1 \<and> (\<forall>t. spared s s' t)
        else rc = 0 \<and> (\<forall>t < MAX_THREADS. tcb_used s t \<longrightarrow> (if t_pid (tcb_pool s t) = pid then doomed s' t else spared s s' t)))"
proof -
  let ?pid = "word_of_int (strtol10 (argv ! 1)) :: u32"
  show ?thesis
  proof (cases "PID_IS_KERNEL ?pid \<or> task_find_process ?pid s = None")
    case True
    then obtain msg where "cmd_killproc argv s = Some (- 1, sh_print msg s)"
      using argv by (cases "PID_IS_KERNEL ?pid") (simp_all add: cmd_killproc_def Let_def)
    moreover have "\<forall>t. spared s (sh_print msg s) t" by simp
    moreover have "sched_inv (sh_print msg s) qs" using inv by simp
    ultimately show ?thesis using True unfolding Let_def by auto
  next
    case False
    then obtain p where p: "task_find_process ?pid s = Some p" by auto
    have pp: "p < 8" "pcb_used s p" "p_pid (pcb_pool s p) = ?pid"
      using first_slot_SomeD [OF p [unfolded task_find_process_def]] by simp_all
    define m where "m = ''killproc: killing process '' @ dec (unat ?pid) @ '' ('' @ p_name (pcb_pool s p) @ '')'' @ crlf"
    let ?s = "sh_print m s"
    have i: "sched_inv ?s qs" "pcb_used ?s p" using inv pp(2) by simp_all
    obtain s1 qs1 where 1: "task_kill_process (core_num s) (Some p) ?s = Some s1" "sched_inv s1 qs1" "current_tcb s1 = current_tcb ?s"
      "\<And>t. t < 16 \<Longrightarrow> tcb_used ?s t \<Longrightarrow> t_pid (tcb_pool ?s t) = p_pid (pcb_pool ?s p) \<Longrightarrow> doomed s1 t"
      "\<And>t. t < 16 \<Longrightarrow> tcb_used ?s t \<Longrightarrow> t_pid (tcb_pool ?s t) \<noteq> p_pid (pcb_pool ?s p) \<Longrightarrow> spared ?s s1 t"
      by (rule kill_process_spec [OF i(1) pp(1) i(2) core], rule that; (assumption | blast))
    obtain c where c: "current_tcb s1 (core_num s) = Some c" using cur 1(3) by auto
    define s' where "s' = (if t_state (tcb_pool s1 c) = THREAD_ZOMBIE then sched_yield (core_num s) s1 else s1)"
    have "cmd_killproc argv s = Some (0, s')"
      using argv False p 1(1) c by (simp add: cmd_killproc_def Let_def s'_def m_def)
    moreover have "sched_inv s' qs1" using 1(2) by (simp add: s'_def frame_simps)
    moreover have "if t_pid (tcb_pool s t) = ?pid then doomed s' t else spared s s' t" if "t < MAX_THREADS" "tcb_used s t" for t
      using that 1(4,5) [of t] pp(3) by (simp add: s'_def)
    ultimately show ?thesis using False unfolding Let_def by auto
  qed
qed

theorem killproc_ends_process_witness:
  "\<exists>(s :: nat shell_state) s' qs. cmd_killproc [''killproc'', ''100''] s = Some (0, s') \<and> sched_inv s' qs \<and>
     task_find_process 100 s \<noteq> None \<and> tcb_used s' 0 \<and> t_state (tcb_pool s' 0) = THREAD_RUNNING"
proof -
  obtain k :: kstate where k: "sched_inv k ((\<lambda>_. [])(7 := [0, 1]))" "tcb_used k = (\<lambda>t. t = 0 \<or> t = 1)"
    "\<And>t. t < 2 \<Longrightarrow> t_state (tcb_pool k t) = (if t = 0 then THREAD_RUNNING else THREAD_READY) \<and>
       t_affinity (tcb_pool k t) = THREAD_AFFINITY_ANY \<and>
       \<not> t_kill_pending (tcb_pool k t) \<and> prio_of (tcb_pool k t) = 7 \<and> t_pid (tcb_pool k t) = 0"
    "current_tcb k = (\<lambda>_. None)(0 := Some 0)" "canary_intact (Some 0) k" "pcb_used k = (\<lambda>_. False)"
    by (rule boot_running, rule that; (assumption | blast))
  obtain x :: "nat shell_state" where "x = x" by blast
  define a where "a = (kstate.extend k (kstate.more (x\<lparr>core_num := 0\<rparr>)) :: nat shell_state)"
  have f: "tcb_used a = tcb_used k" "tcb_pool a = tcb_pool k" "pcb_used a = pcb_used k" "current_tcb a = current_tcb k" "core_num a = 0"
    by (simp add: a_def kstate.defs; cases x; simp)+
  have inv: "sched_inv a ((\<lambda>_. [])(7 := [0, 1]))" using k(1) sched_inv_cong [of a k] by (simp add: a_def kstate.defs)
  have none: "task_find_process 100 a = None" by (simp add: task_find_process_def first_slot_None f k(6))
  have pid0: "(100 :: u32) \<noteq> 0" and slot0: "0 < (8 :: nat)" "\<not> pcb_used a 0" by (simp_all add: f k(6))
  obtain p b where b: "task_create_process (Some ''app'') 100 a = (Some p, b)" "sched_inv b ((\<lambda>_. [])(7 := [0, 1]))"
    "pcb_used b = (pcb_used a)(p := True)" "p_pid (pcb_pool b p) = 100" "tcb_used b = tcb_used a" "tcb_pool b = tcb_pool a"
    "current_tcb b = current_tcb a" "proc_ok (Some p) b"
    by (rule create_process_on [OF inv pid0 none slot0, of "Some ''app''"], rule that; (assumption | blast))
  have "core_num b = core_num a"
    using b(1) by (auto simp: task_create_process_def Let_def upd_pcb_def split: if_splits option.splits)
  then have c: "core_num b < 2" "current_tcb b (core_num b) \<noteq> None" by (simp_all add: f b k(4))
  have find: "task_find_process 100 b \<noteq> None"
    using b(3,4,8) by (auto simp: task_find_process_def first_slot_None proc_ok_def)
  have pid: "word_of_int (strtol10 ([''killproc'', ''100''] ! 1)) = (100 :: u32)" by code_simp
  have l: "2 \<le> length [''killproc'', ''100'']" by simp
  have "\<not> PID_IS_KERNEL 100" by (simp add: PID_IS_KERNEL_def PID_KERNEL_MIN_def PID_KERNEL_MAX_def)
  with killproc_ends_process [OF b(2) c l] find obtain s' qs' where r: "cmd_killproc [''killproc'', ''100''] b = Some (0, s')" "sched_inv s' qs'"
    "\<forall>t < MAX_THREADS. tcb_used b t \<longrightarrow> (if t_pid (tcb_pool b t) = 100 then doomed s' t else spared b s' t)"
    unfolding pid Let_def by auto
  have "tcb_used b 0" "t_pid (tcb_pool b 0) = 0" "t_state (tcb_pool b 0) = THREAD_RUNNING" using k(2) k(3) [of 0] by (simp_all add: b f)
  with r(3) have "spared b s' 0" by auto
  then have "tcb_used s' 0 \<and> t_state (tcb_pool s' 0) = THREAD_RUNNING" using \<open>tcb_used b 0\<close> \<open>t_state (tcb_pool b 0) = THREAD_RUNNING\<close>
    by (simp add: spared_def)
  with r(1,2) find show ?thesis by blast
qed

end
