(* ===== verification/Demo.thy ===== *)
theory Demo
  imports Boot
begin

text \<open>
  \<open>src/apps/demo.c\<close>: the producer and the consumer, which share a semaphore and a message queue, the
  simulated sensor, and the application table of the build without WiFi. A thread is a program
  counter with its local variables; one step is one call of the kernel, or one pass through the
  wait loop of a blocking one, so that two threads and everything else can interleave between
  any two of them.
\<close>

section \<open>State\<close>

record 'h demo_state = "'h shell_state" +
  producer_sem :: ksemaphore_t
  producer_queue :: mqueue_t
  demo_ipc_ready :: bool

datatype producer_pc = PStart | PSem | PQueue | PReady | PSleep | PSend | PSignal | PReport
datatype consumer_pc = CStart | CReady | CWait | CRecv | CReport

record producer =
  pr_pc :: producer_pc
  pr_counter :: u32
  pr_msg :: "u8 list"

record consumer =
  co_pc :: consumer_pc
  co_msg :: "u8 list"

text \<open>\<open>demo_message_t\<close> in memory.\<close>

definition message_bytes :: "u32 \<Rightarrow> u8 list" where
  "message_bytes v = le_bytes 4 v"

definition MESSAGE_SIZE :: u32 where "MESSAGE_SIZE = 4"

text \<open>\<open>CURRENT_TCB->affinity = a\<close>.\<close>

definition set_affinity :: "u8 \<Rightarrow> ('h, 'a) exec_state_scheme \<Rightarrow> ('h, 'a) exec_state_scheme option" where
  "set_affinity a s = map_option (\<lambda>t. upd_tcb t (\<lambda>b. b\<lparr>t_affinity := a\<rparr>) s) (CURRENT_TCB s)"

section \<open>The threads\<close>

text \<open>\<open>demo_ipc_init\<close> is the three steps from \<open>PSem\<close> to \<open>PReady\<close>; \<open>counter++\<close> comes before the send.\<close>

fun producer_step ::
  "('h, ('h, 'a) demo_state_scheme) env \<Rightarrow> (nat \<Rightarrow> spinlock_t) \<Rightarrow> nat \<Rightarrow> nat \<Rightarrow> producer_pc \<Rightarrow> producer \<Rightarrow> ('h, 'a) demo_state_scheme \<Rightarrow>
     (producer \<times> ('h, 'a) demo_state_scheme) option" where
  "producer_step E pool sem_addr queue_addr PStart p s = do {
     s1 \<leftarrow> set_affinity THREAD_AFFINITY_C0 s;
     Some (p\<lparr>pr_pc := PSem, pr_counter := 0\<rparr>, sh_print (''[producer] core '' @ dec (core_num s1) @ '': starting'' @ crlf) s1)
   }"
| "producer_step E pool sem_addr queue_addr PSem p s = Some (p\<lparr>pr_pc := PQueue\<rparr>, s\<lparr>producer_sem := ksemaphore_init pool sem_addr 0\<rparr>)"
| "producer_step E pool sem_addr queue_addr PQueue p s =
     Some (p\<lparr>pr_pc := PReady\<rparr>, s\<lparr>producer_queue := mqueue_init pool queue_addr MESSAGE_SIZE\<rparr>)"
| "producer_step E pool sem_addr queue_addr PReady p s = Some (p\<lparr>pr_pc := PSleep\<rparr>, s\<lparr>demo_ipc_ready := True\<rparr>)"
| "producer_step E pool sem_addr queue_addr PSleep p s = do {
     s1 \<leftarrow> sched_sleep (core_num s) 500 s;
     Some (p\<lparr>pr_pc := PSend, pr_msg := message_bytes (pr_counter p), pr_counter := pr_counter p + 1\<rparr>, s1)
   }"
| "producer_step E pool sem_addr queue_addr PSend p s = do {
     (sent, q, s1) \<leftarrow> mqueue_send (e_sdk E) (core_num s) (producer_queue s) (pr_msg p) s;
     Some (if sent then p\<lparr>pr_pc := PSignal\<rparr> else p, s1\<lparr>producer_queue := q\<rparr>)
   }"
| "producer_step E pool sem_addr queue_addr PSignal p s = do {
     (k, s1) \<leftarrow> ksemaphore_signal (e_sdk E) (core_num s) (producer_sem s) s;
     Some (p\<lparr>pr_pc := PReport\<rparr>, s1\<lparr>producer_sem := k\<rparr>)
   }"
| "producer_step E pool sem_addr queue_addr PReport p s = Some (p\<lparr>pr_pc := PSleep\<rparr>,
     sh_print (''[producer] core '' @ dec (core_num s) @ '': sent '' @ dec (unat (pr_counter p - 1)) @ crlf) s)"

fun consumer_step ::
  "('h, ('h, 'a) demo_state_scheme) env \<Rightarrow> consumer_pc \<Rightarrow> consumer \<Rightarrow> ('h, 'a) demo_state_scheme \<Rightarrow>
     (consumer \<times> ('h, 'a) demo_state_scheme) option" where
  "consumer_step E CStart c s = do {
     s1 \<leftarrow> set_affinity THREAD_AFFINITY_C1 s;
     Some (c\<lparr>co_pc := CReady\<rparr>, sh_print (''[consumer] core '' @ dec (core_num s1) @ '': starting'' @ crlf) s1)
   }"
| "consumer_step E CReady c s = (if demo_ipc_ready s then Some (c\<lparr>co_pc := CWait\<rparr>, s)
     else map_option (\<lambda>s1. (c, s1)) (sched_sleep (core_num s) 1 s))"
| "consumer_step E CWait c s = do {
     (got, k, s1) \<leftarrow> ksemaphore_wait (e_sdk E) (core_num s) (producer_sem s) s;
     Some (if got then c\<lparr>co_pc := CRecv\<rparr> else c, s1\<lparr>producer_sem := k\<rparr>)
   }"
| "consumer_step E CRecv c s = do {
     (got, q, s1) \<leftarrow> mqueue_recv (e_sdk E) (core_num s) (producer_queue s) s;
     Some (case got of None \<Rightarrow> c | Some msg \<Rightarrow> c\<lparr>co_pc := CReport, co_msg := msg\<rparr>, s1\<lparr>producer_queue := q\<rparr>)
   }"
| "consumer_step E CReport c s = Some (c\<lparr>co_pc := CWait\<rparr>,
     sh_print (''[consumer] core '' @ dec (core_num s) @ '': received '' @ dec (unat (le_word (co_msg c) :: u32)) @ crlf) s)"

text \<open>One turn of the sensor's loop: the reading of a tick, in tenths of a degree.\<close>

definition temp_tenths :: "u32 \<Rightarrow> u32" where
  "temp_tenths tick = 200 + (tick mod 50) * 2"

definition demo_sensor ::
  "('h, ('h, 'a) shell_state_scheme) env \<Rightarrow> u32 \<Rightarrow> u32 \<Rightarrow> ('h, 'a) shell_state_scheme \<Rightarrow> (u32 \<times> ('h, 'a) shell_state_scheme) option" where
  "demo_sensor E te tick s = do {
     (_, s1) \<leftarrow> sys_sleep E te 2000 s;
     let t = temp_tenths tick;
     Some (tick + 1, sh_print (''[sensor] temp='' @ dec (unat (t div 10)) @ ''.'' @ dec (unat (t mod 10)) @ '' C'' @ crlf) s1)
   }"

text \<open>The table, with the addresses that the linker gives to the entry functions.\<close>

definition app_table :: "u32 \<Rightarrow> u32 \<Rightarrow> u32 \<Rightarrow> u32 \<Rightarrow> app_entry_t list" where
  "app_table producer_entry consumer_entry sensor_entry pi_entry =
     [\<lparr>ae_name = ''producer'', ae_entry = producer_entry, ae_priority = 4\<rparr>,
      \<lparr>ae_name = ''consumer'', ae_entry = consumer_entry, ae_priority = 4\<rparr>,
      \<lparr>ae_name = ''sensor'', ae_entry = sensor_entry, ae_priority = 5\<rparr>,
      \<lparr>ae_name = ''pi'', ae_entry = pi_entry, ae_priority = 3\<rparr>]"

section \<open>Runs\<close>

text \<open>
  The two threads, and everything else: other threads, the tick and the switches may change
  anything but the two objects and the flag. The list is what the consumer has printed so far.
\<close>

definition same_ipc :: "('h, 'a) demo_state_scheme \<Rightarrow> ('h, 'a) demo_state_scheme \<Rightarrow> bool" where
  "same_ipc s s' \<longleftrightarrow> producer_sem s' = producer_sem s \<and> producer_queue s' = producer_queue s \<and> demo_ipc_ready s' = demo_ipc_ready s"

inductive demo_run ::
  "('h, ('h, 'a) demo_state_scheme) env \<Rightarrow> (nat \<Rightarrow> spinlock_t) \<Rightarrow> nat \<Rightarrow> nat \<Rightarrow>
     producer \<Rightarrow> consumer \<Rightarrow> ('h, 'a) demo_state_scheme \<Rightarrow> u32 list \<Rightarrow> bool"
  for E pool sem_addr queue_addr where
  start: "\<not> demo_ipc_ready s \<Longrightarrow> pr_pc p = PStart \<Longrightarrow> co_pc c = CStart \<Longrightarrow> demo_run E pool sem_addr queue_addr p c s []"
| producer: "demo_run E pool sem_addr queue_addr p c s rs \<Longrightarrow> producer_step E pool sem_addr queue_addr (pr_pc p) p s = Some (p', s') \<Longrightarrow>
    demo_run E pool sem_addr queue_addr p' c s' rs"
| consumer: "demo_run E pool sem_addr queue_addr p c s rs \<Longrightarrow> consumer_step E (co_pc c) c s = Some (c', s') \<Longrightarrow>
    demo_run E pool sem_addr queue_addr p c' s' (if co_pc c = CReport then rs @ [le_word (co_msg c)] else rs)"
| other: "demo_run E pool sem_addr queue_addr p c s rs \<Longrightarrow> same_ipc s s' \<Longrightarrow> demo_run E pool sem_addr queue_addr p c s' rs"

section \<open>What the calls do to the objects\<close>

lemma more_same_ipc:
  fixes s s' :: "('h, 'a) demo_state_scheme"
  shows "sync_state.more s' = sync_state.more s \<Longrightarrow> same_ipc s s'"
  by (cases s; cases s'; simp add: same_ipc_def)

lemma same_refl [simp]: "same_ipc s s"
  by (simp add: same_ipc_def)

lemma set_affinity_same: "set_affinity a s = Some s' \<Longrightarrow> same_ipc s s'"
  by (auto simp: set_affinity_def same_ipc_def upd_tcb_def)

lemma print_same [simp]: "same_ipc s (sh_print m s') \<longleftrightarrow> same_ipc s s'"
  by (simp add: same_ipc_def sh_print_def dev_emit_def)

lemma sleep_same:
  fixes s :: "('h, 'a) demo_state_scheme"
  assumes "sched_sleep core ms s = Some s'"
  shows "same_ipc s s'"
  using assms by (intro more_same_ipc kmore_smore)
    (auto simp: sched_sleep_def bind_simps Let_def frame_simps dest!: acquire_more remove_raw_more split: option.splits if_splits)

lemma send_effect:
  fixes s :: "('h, 'a) demo_state_scheme"
  assumes q: "mqueue_send D core q msg s = Some (sent, q', s')"
  shows "same_ipc s s'" and "sent \<longleftrightarrow> q_count q < MQ_MAX_MSG" and "q_msg_size q' = q_msg_size q"
    and "mq_abs q' ms \<longleftrightarrow> mq_abs (if sent then ring_put msg q else q) ms"
proof -
  show "same_ipc s s'" using q by (intro more_same_ipc)
      (auto simp: mqueue_send_def bind_simps Let_def split_beta release_more yield_more
        dest!: spin_more(1) kmore_smore [OF park_more] kmore_smore [OF wake_one_more] split: if_splits)
  show "sent \<longleftrightarrow> q_count q < MQ_MAX_MSG" "q_msg_size q' = q_msg_size q" "mq_abs q' ms \<longleftrightarrow> mq_abs (if sent then ring_put msg q else q) ms"
    using q by (auto simp: mqueue_send_def bind_simps Let_def split_beta ring_put_def split: if_splits)
qed

lemma recv_effect:
  fixes s :: "('h, 'a) demo_state_scheme"
  assumes q: "mqueue_recv D core q s = Some (got, q', s')"
  shows "same_ipc s s'" and "q_msg_size q' = q_msg_size q"
    and "got = (if 0 < q_count q then Some (fst (ring_get q)) else None)"
    and "mq_abs q' ms \<longleftrightarrow> mq_abs (if 0 < q_count q then snd (ring_get q) else q) ms"
proof -
  show "same_ipc s s'" using q by (intro more_same_ipc)
      (auto simp: mqueue_recv_def bind_simps Let_def split_beta release_more yield_more
        dest!: spin_more(1) kmore_smore [OF park_more] kmore_smore [OF wake_one_more] split: if_splits)
  show "q_msg_size q' = q_msg_size q" "got = (if 0 < q_count q then Some (fst (ring_get q)) else None)"
    "mq_abs q' ms \<longleftrightarrow> mq_abs (if 0 < q_count q then snd (ring_get q) else q) ms"
    using q by (auto simp: mqueue_recv_def bind_simps Let_def split_beta ring_get_def split: if_splits)
qed

lemma signal_effect:
  fixes s :: "('h, 'a) demo_state_scheme"
  assumes k: "ksemaphore_signal D core k s = Some (k', s')"
  shows "same_ipc s s'" and "k_count k' = k_count k + 1"
proof -
  show "same_ipc s s'" using k by (intro more_same_ipc)
      (auto simp: ksemaphore_signal_def bind_simps Let_def split_beta release_more dest!: spin_more(1) kmore_smore [OF wake_one_more])
  show "k_count k' = k_count k + 1" using k by (auto simp: ksemaphore_signal_def bind_simps Let_def split_beta)
qed

lemma wait_effect:
  fixes s :: "('h, 'a) demo_state_scheme"
  assumes k: "ksemaphore_wait D core k s = Some (got, k', s')"
  shows "same_ipc s s'" and "got \<longleftrightarrow> 0 < sint (k_count k)" and "k_count k' = (if got then k_count k - 1 else k_count k)"
proof -
  show "same_ipc s s'" using k by (intro more_same_ipc)
      (auto simp: ksemaphore_wait_def bind_simps Let_def split_beta release_more yield_more
        dest!: spin_more(1) kmore_smore [OF park_more] split: if_splits)
  show "got \<longleftrightarrow> 0 < sint (k_count k)" "k_count k' = (if got then k_count k - 1 else k_count k)"
    using k by (auto simp: ksemaphore_wait_def bind_simps Let_def split_beta split: if_splits)
qed

section \<open>The invariant\<close>

text \<open>The messages with the numbers from \<open>m\<close> up to \<open>n\<close>.\<close>

definition numbered :: "nat \<Rightarrow> nat \<Rightarrow> u8 list list" where
  "numbered m n = map (\<lambda>i. message_bytes (word_of_nat i)) [m..<n]"

text \<open>\<open>n\<close> messages have been sent and \<open>m\<close> received.\<close>

definition flow :: "nat \<Rightarrow> nat \<Rightarrow> producer \<Rightarrow> consumer \<Rightarrow> ('h, 'a) demo_state_scheme \<Rightarrow> u32 list \<Rightarrow> bool" where
  "flow n m p c s rs \<longleftrightarrow> m \<le> n \<and> mq_abs (producer_queue s) (numbered m n) \<and> q_msg_size (producer_queue s) = MESSAGE_SIZE \<and>
     pr_pc p \<in> {PSleep, PSend, PSignal, PReport} \<and>
     pr_counter p = word_of_nat (if pr_pc p = PSend then Suc n else n) \<and>
     (pr_pc p = PSend \<longrightarrow> pr_msg p = message_bytes (word_of_nat n)) \<and>
     0 \<le> sint (k_count (producer_sem s)) \<and>
     int (n - m) = sint (k_count (producer_sem s)) + (if pr_pc p = PSignal then 1 else 0) + (if co_pc c = CRecv then 1 else 0) \<and>
     rs = map word_of_nat [0..<(if co_pc c = CReport then m - 1 else m)] \<and>
     (co_pc c = CReport \<longrightarrow> 0 < m \<and> co_msg c = message_bytes (word_of_nat (m - 1)))"

definition setting_up :: "producer \<Rightarrow> consumer \<Rightarrow> ('h, 'a) demo_state_scheme \<Rightarrow> bool" where
  "setting_up p c s \<longleftrightarrow> co_pc c \<in> {CStart, CReady} \<and> pr_pc p \<in> {PStart, PSem, PQueue, PReady} \<and>
     (pr_pc p \<noteq> PStart \<longrightarrow> pr_counter p = 0) \<and> (pr_pc p \<in> {PQueue, PReady} \<longrightarrow> k_count (producer_sem s) = 0) \<and>
     (pr_pc p = PReady \<longrightarrow> mq_abs (producer_queue s) [] \<and> q_msg_size (producer_queue s) = MESSAGE_SIZE)"

definition demo_inv :: "producer \<Rightarrow> consumer \<Rightarrow> ('h, 'a) demo_state_scheme \<Rightarrow> u32 list \<Rightarrow> bool" where
  "demo_inv p c s rs \<longleftrightarrow> (if demo_ipc_ready s then \<exists>n m. flow n m p c s rs else setting_up p c s \<and> rs = [])"

lemma demo_inv_same:
  assumes "same_ipc s s'" and "demo_inv p c s rs"
  shows "demo_inv p c s' rs"
proof -
  note e = assms(1) [unfolded same_ipc_def]
  have "flow n m p c s' rs = flow n m p c s rs" for n m by (simp only: flow_def e)
  moreover have "setting_up p c s' = setting_up p c s" by (simp only: setting_up_def e)
  ultimately show ?thesis using assms(2) by (simp only: demo_inv_def e)
qed

lemma numbered_le: "mq_abs q (numbered m n) \<Longrightarrow> n - m \<le> 16"
  by (simp add: mq_abs_def numbered_def)

lemma message_length [simp]: "length (message_bytes v) = 4"
  by (simp add: message_bytes_def)

lemma message_value [simp]: "le_word (message_bytes v) = v"
  by (simp add: message_bytes_def le_roundtrip)

lemma flow_pc: "flow n m p c s rs \<Longrightarrow> pr_pc p \<in> {PSleep, PSend, PSignal, PReport}"
  unfolding flow_def by blast

lemma demo_inv_setup: "demo_inv p c s rs \<Longrightarrow> pr_pc p \<in> {PStart, PSem, PQueue, PReady} \<Longrightarrow> \<not> demo_ipc_ready s \<and> setting_up p c s \<and> rs = []"
  by (cases "demo_ipc_ready s") (auto simp: demo_inv_def dest: flow_pc)

lemma demo_inv_flow:
  assumes "demo_inv p c s rs" and "pr_pc p \<in> {PSleep, PSend, PSignal, PReport}"
  obtains n m where "demo_ipc_ready s" "flow n m p c s rs"
proof -
  have "demo_ipc_ready s" using assms by (cases "demo_ipc_ready s") (auto simp: demo_inv_def setting_up_def)
  with assms(1) show thesis by (auto simp: demo_inv_def intro: that)
qed

lemma demo_inv_setupI: "setting_up p c s \<Longrightarrow> \<not> demo_ipc_ready s \<Longrightarrow> demo_inv p c s []"
  by (simp add: demo_inv_def)

lemma producer_step_inv:
  assumes step: "producer_step E pool sa qa (pr_pc p) p s = Some (p', s')" and inv: "demo_inv p c s rs"
  shows "demo_inv p' c s' rs"
proof (cases "pr_pc p")
  case PStart
  then have ns: "\<not> demo_ipc_ready s" "setting_up p c s" "rs = []" using demo_inv_setup [OF inv] by simp_all
  from step PStart obtain s1 where s1: "set_affinity THREAD_AFFINITY_C0 s = Some s1" "p' = p\<lparr>pr_pc := PSem, pr_counter := 0\<rparr>"
    "s' = sh_print (''[producer] core '' @ dec (core_num s1) @ '': starting'' @ crlf) s1" by (auto simp: bind_simps)
  have "same_ipc s s'" using set_affinity_same [OF s1(1)] by (simp add: s1(3))
  moreover have "demo_inv p' c s rs" using ns by (auto simp: demo_inv_def setting_up_def s1(2))
  ultimately show ?thesis by (rule demo_inv_same)
next
  case PSem
  then have ns: "\<not> demo_ipc_ready s" "setting_up p c s" "rs = []" using demo_inv_setup [OF inv] by simp_all
  from step PSem have "p' = p\<lparr>pr_pc := PQueue\<rparr>" "s' = s\<lparr>producer_sem := ksemaphore_init pool sa 0\<rparr>" by simp_all
  then show ?thesis using ns PSem by (simp add: demo_inv_def setting_up_def ksemaphore_init_def)
next
  case PQueue
  then have ns: "\<not> demo_ipc_ready s" "setting_up p c s" "rs = []" using demo_inv_setup [OF inv] by simp_all
  from step PQueue have "p' = p\<lparr>pr_pc := PReady\<rparr>" "s' = s\<lparr>producer_queue := mqueue_init pool qa MESSAGE_SIZE\<rparr>" by simp_all
  moreover have "q_msg_size (mqueue_init pool qa MESSAGE_SIZE) = MESSAGE_SIZE" by (simp add: mqueue_init_def MESSAGE_SIZE_def MQ_MSG_SIZE_def)
  ultimately show ?thesis using ns PQueue by (simp add: demo_inv_def setting_up_def mq_abs_init)
next
  case PReady
  then have ns: "\<not> demo_ipc_ready s" "setting_up p c s" "rs = []" using demo_inv_setup [OF inv] by simp_all
  from step PReady ns have "flow 0 0 p' c s' rs" by (auto simp: flow_def setting_up_def numbered_def)
  then show ?thesis using step PReady by (auto simp: demo_inv_def)
next
  case PSleep
  then obtain n m where f: "demo_ipc_ready s" "flow n m p c s rs" using demo_inv_flow [OF inv] by blast
  from step PSleep have sl: "sched_sleep (core_num s) 500 s = Some s'"
    and p': "p' = p\<lparr>pr_pc := PSend, pr_msg := message_bytes (pr_counter p), pr_counter := pr_counter p + 1\<rparr>" by (auto simp: bind_simps)
  have "flow n m p' c s rs" using f(2) PSleep by (simp add: flow_def p')
  then have "demo_inv p' c s rs" using f(1) by (auto simp: demo_inv_def)
  with sleep_same [OF sl] show ?thesis by (rule demo_inv_same)
next
  case PSend
  then obtain n m where f: "demo_ipc_ready s" "flow n m p c s rs" using demo_inv_flow [OF inv] by blast
  from step PSend obtain sent q s1 where m: "mqueue_send (e_sdk E) (core_num s) (producer_queue s) (pr_msg p) s = Some (sent, q, s1)"
    and p': "p' = (if sent then p\<lparr>pr_pc := PSignal\<rparr> else p)" "s' = s1\<lparr>producer_queue := q\<rparr>" by (auto simp: bind_simps)
  note e = send_effect [OF m]
  have r: "demo_ipc_ready s'" "producer_sem s' = producer_sem s" using e(1) f(1) by (simp_all add: p' same_ipc_def)
  show ?thesis
  proof (cases sent)
    case False
    then have "flow n m p' c s' rs" using f(2) e(3,4) r(2) by (simp add: flow_def p')
    with r(1) show ?thesis by (auto simp: demo_inv_def)
  next
    case True
    have q: "mq_abs (producer_queue s) (numbered m n)" "unat (q_msg_size (producer_queue s)) = 4" "m \<le> n"
      using f(2) by (simp_all add: flow_def MESSAGE_SIZE_def)
    have room: "length (numbered m n) < 16" using e(2) True mq_abs_full [OF q(1)] by simp
    have msg: "pr_msg p = message_bytes (word_of_nat n)" using f(2) PSend by (simp add: flow_def)
    have "numbered m n @ [take 4 (pr_msg p)] = numbered m (Suc n)" using q(3) by (simp add: numbered_def msg)
    then have "mq_abs q (numbered m (Suc n))"
      using mq_abs_put [OF q(1) room, of "pr_msg p"] e(4) True q(2) by (simp add: msg)
    then have "flow (Suc n) m p' c s' rs" using f(2) True PSend e(3) r(2) by (simp add: flow_def p' Suc_diff_le)
    with r(1) show ?thesis by (auto simp: demo_inv_def)
  qed
next
  case PSignal
  then obtain n m where f: "demo_ipc_ready s" "flow n m p c s rs" using demo_inv_flow [OF inv] by blast
  from step PSignal obtain k s1 where k: "ksemaphore_signal (e_sdk E) (core_num s) (producer_sem s) s = Some (k, s1)"
    and p': "p' = p\<lparr>pr_pc := PReport\<rparr>" "s' = s1\<lparr>producer_sem := k\<rparr>" by (auto simp: bind_simps)
  note e = signal_effect [OF k]
  have r: "demo_ipc_ready s'" "producer_queue s' = producer_queue s" using e(1) f(1) by (simp_all add: p' same_ipc_def)
  have "n - m \<le> 16" using f(2) by (auto simp: flow_def dest: numbered_le)
  then have "sint (k_count (producer_sem s)) < 2 ^ 31 - 1" using f(2) by (auto simp: flow_def split: if_splits)
  then have "sint (k_count (producer_sem s) + 1) = sint (k_count (producer_sem s)) + 1" by (rule sint_inc)
  then have "flow n m p' c s' rs" using f(2) PSignal e(2) r(2) by (simp add: flow_def p')
  with r(1) show ?thesis by (auto simp: demo_inv_def)
next
  case PReport
  then obtain n m where f: "demo_ipc_ready s" "flow n m p c s rs" using demo_inv_flow [OF inv] by blast
  from step PReport have p': "p' = p\<lparr>pr_pc := PSleep\<rparr>" "same_ipc s s'" by auto
  have "flow n m p' c s rs" using f(2) PReport by (simp add: flow_def p')
  then have "demo_inv p' c s rs" using f(1) by (auto simp: demo_inv_def)
  with p'(2) show ?thesis by (rule demo_inv_same)
qed


lemma consumer_phase: "demo_inv p c s rs \<Longrightarrow> co_pc c \<in> {CWait, CRecv, CReport} \<Longrightarrow> \<exists>n m. demo_ipc_ready s \<and> flow n m p c s rs"
  by (cases "demo_ipc_ready s") (auto simp: demo_inv_def setting_up_def)

lemma consumer_step_inv:
  assumes step: "consumer_step E (co_pc c) c s = Some (c', s')" and inv: "demo_inv p c s rs"
  shows "demo_inv p c' s' (if co_pc c = CReport then rs @ [le_word (co_msg c)] else rs)"
proof (cases "co_pc c")
  case CStart
  with step obtain s1 where s1: "set_affinity THREAD_AFFINITY_C1 s = Some s1" "c' = c\<lparr>co_pc := CReady\<rparr>"
    "s' = sh_print (''[consumer] core '' @ dec (core_num s1) @ '': starting'' @ crlf) s1" by (auto simp: bind_simps)
  have "same_ipc s s'" using set_affinity_same [OF s1(1)] by (simp add: s1(3))
  moreover have "demo_inv p c' s rs"
  proof (cases "demo_ipc_ready s")
    case True
    with inv obtain n m where "flow n m p c s rs" by (auto simp: demo_inv_def)
    then have "flow n m p c' s rs" using CStart by (simp add: flow_def s1(2))
    with True show ?thesis by (auto simp: demo_inv_def)
  next
    case False
    with inv show ?thesis by (simp add: demo_inv_def setting_up_def s1(2))
  qed
  ultimately show ?thesis using CStart demo_inv_same by simp
next
  case CReady
  show ?thesis
  proof (cases "demo_ipc_ready s")
    case True
    with inv obtain n m where "flow n m p c s rs" by (auto simp: demo_inv_def)
    moreover have c': "c' = c\<lparr>co_pc := CWait\<rparr>" "s' = s" using step CReady True by simp_all
    ultimately have "flow n m p c' s' rs" using CReady by (simp add: flow_def)
    with True show ?thesis using CReady by (auto simp: demo_inv_def c'(2))
  next
    case False
    then have "sched_sleep (core_num s) 1 s = Some s'" "c' = c" using step CReady by auto
    then show ?thesis using demo_inv_same [OF sleep_same inv] CReady by simp
  qed
next
  case CWait
  then obtain n m where f: "demo_ipc_ready s" "flow n m p c s rs" using consumer_phase [OF inv] by auto
  from step CWait obtain got k s1 where k: "ksemaphore_wait (e_sdk E) (core_num s) (producer_sem s) s = Some (got, k, s1)"
    and c': "c' = (if got then c\<lparr>co_pc := CRecv\<rparr> else c)" "s' = s1\<lparr>producer_sem := k\<rparr>" by (auto simp: bind_simps)
  note e = wait_effect [OF k]
  have r: "demo_ipc_ready s'" "producer_queue s' = producer_queue s" using e(1) f(1) by (simp_all add: c' same_ipc_def)
  have "flow n m p c' s' rs"
  proof (cases got)
    case True
    then have "sint (k_count k) = sint (k_count (producer_sem s)) - 1" using e(2,3) sint_dec by simp
    moreover have "0 < sint (k_count (producer_sem s))" using True e(2) by simp
    ultimately show ?thesis using f(2) CWait True r(2) by (simp add: flow_def c')
  next
    case False
    then show ?thesis using f(2) CWait e(3) r(2) by (simp add: flow_def c')
  qed
  with r(1) CWait show ?thesis by (auto simp: demo_inv_def)
next
  case CRecv
  then obtain n m where f: "demo_ipc_ready s" "flow n m p c s rs" using consumer_phase [OF inv] by auto
  from step CRecv obtain got q s1 where m: "mqueue_recv (e_sdk E) (core_num s) (producer_queue s) s = Some (got, q, s1)"
    and c': "c' = (case got of None \<Rightarrow> c | Some msg \<Rightarrow> c\<lparr>co_pc := CReport, co_msg := msg\<rparr>)" "s' = s1\<lparr>producer_queue := q\<rparr>" by (auto simp: bind_simps)
  note e = recv_effect [OF m]
  have r: "demo_ipc_ready s'" "producer_sem s' = producer_sem s" using e(1) f(1) by (simp_all add: c' same_ipc_def)
  have mn: "m < n" "mq_abs (producer_queue s) (numbered m n)" using f(2) CRecv by (auto simp: flow_def split: if_splits)
  then have cons: "numbered m n = message_bytes (word_of_nat m) # numbered (Suc m) n" by (simp add: numbered_def upt_conv_Cons)
  have ne: "0 < q_count (producer_queue s)" using mq_abs_empty [OF mn(2)] cons by simp
  have g: "got = Some (message_bytes (word_of_nat m))" "mq_abs q (numbered (Suc m) n)"
    using mq_abs_get [OF mn(2) [unfolded cons]] e(3,4) ne by simp_all
  have "int (n - m) = int (n - Suc m) + 1" using mn(1) by simp
  then have "flow n (Suc m) p c' s' rs" using f(2) CRecv mn(1) g e(2) r(2) by (simp add: flow_def c')
  with r(1) CRecv show ?thesis by (auto simp: demo_inv_def)
next
  case CReport
  then obtain n m where f: "demo_ipc_ready s" "flow n m p c s rs" using consumer_phase [OF inv] by auto
  from step CReport have c': "c' = c\<lparr>co_pc := CWait\<rparr>" "same_ipc s s'" by auto
  have m: "0 < m" "co_msg c = message_bytes (word_of_nat (m - 1))" "rs = map word_of_nat [0..<m - 1]" using f(2) CReport by (simp_all add: flow_def)
  then have "rs @ [le_word (co_msg c)] = map word_of_nat [0..<m]" by (cases m) simp_all
  then have "flow n m p c' s (rs @ [le_word (co_msg c)])" using f(2) CReport by (simp add: flow_def c'(1))
  then have "demo_inv p c' s (rs @ [le_word (co_msg c)])" using f(1) by (auto simp: demo_inv_def)
  then show ?thesis using demo_inv_same [OF c'(2)] CReport by simp
qed

lemma demo_run_inv:
  assumes "demo_run E pool sem_addr queue_addr p c s rs"
  shows "demo_inv p c s rs"
  using assms
proof (induction rule: demo_run.induct)
  case (start s p c)
  then show ?case by (simp add: demo_inv_def setting_up_def)
next
  case (producer p c s rs p' s')
  from producer_step_inv [OF producer(2,3)] show ?case .
next
  case (consumer p c s rs c' s')
  from consumer_step_inv [OF consumer(2,3)] show ?case .
next
  case (other p c s rs s')
  from demo_inv_same [OF other(2) other(3)] show ?case .
qed

text \<open>
  C0. However the producer, the consumer and the rest of the system interleave, the consumer prints
  the numbers 0, 1, 2, ... in order, none lost and none twice; it never touches the semaphore or
  the queue before they are initialised; once past the semaphore it finds a message and never
  waits at the queue; and the semaphore never counts more than the 16 messages the queue holds.
\<close>

theorem demo_values_in_order:
  assumes "demo_run E pool sem_addr queue_addr p c s rs"
  shows "rs = map word_of_nat [0..<length rs] \<and> (co_pc c \<notin> {CStart, CReady} \<longrightarrow> demo_ipc_ready s) \<and>
    (co_pc c = CRecv \<longrightarrow> 0 < q_count (producer_queue s)) \<and>
    (demo_ipc_ready s \<longrightarrow> 0 \<le> sint (k_count (producer_sem s)) \<and>
       sint (k_count (producer_sem s)) \<le> uint (q_count (producer_queue s)) \<and> q_count (producer_queue s) \<le> MQ_MAX_MSG)"
proof (cases "demo_ipc_ready s")
  case True
  with demo_run_inv [OF assms] obtain n m where f: "flow n m p c s rs" by (auto simp: demo_inv_def)
  have q: "mq_abs (producer_queue s) (numbered m n)" using f by (simp add: flow_def)
  then have c: "unat (q_count (producer_queue s)) = n - m" by (simp add: mq_abs_def numbered_def)
  have "0 < q_count (producer_queue s)" if "co_pc c = CRecv"
    using f that by (auto simp: mq_abs_empty [OF q] flow_def numbered_def split: if_splits)
  moreover have "sint (k_count (producer_sem s)) \<le> int (n - m)" "0 \<le> sint (k_count (producer_sem s))" using f by (auto simp: flow_def split: if_splits)
  moreover have "q_count (producer_queue s) \<le> MQ_MAX_MSG" using numbered_le [OF q] c by (simp add: word_le_nat_alt MQ_MAX_MSG_def)
  moreover have "rs = map word_of_nat [0..<length rs]" using f by (simp add: flow_def)
  moreover have "uint (q_count (producer_queue s)) = int (n - m)" by (simp add: c [symmetric])
  ultimately show ?thesis using True by simp
next
  case False
  with demo_run_inv [OF assms] show ?thesis by (auto simp: demo_inv_def setting_up_def)
qed

text \<open>A run in which the first value has been delivered: every lock is free and no thread waits.\<close>

abbreviation soft_lock :: spinlock_t where
  "soft_lock \<equiv> \<lparr>sl_hw = None, sl_lock = 0\<rparr>"

abbreviation sim_env :: "((nat \<Rightarrow> bool) \<times> (nat \<Rightarrow> bool), 's) env" where
  "sim_env \<equiv> x_env sim_boot"

lemma soft_section:
  "spin_acquire sim_sdk soft_lock s = Some (0, \<lparr>sl_hw = None, sl_lock = 1\<rparr>, s)"
  "spin_release sim_sdk \<lparr>sl_hw = None, sl_lock = 1\<rparr> 0 s = (soft_lock, s)"
  by (simp_all add: spin_acquire_def spin_release_def spinlock_irq_acquire_def spinlock_irq_release_def sim_sdk_def)

lemma restored:
  "q_spin q = l \<Longrightarrow> q_recv_waiters q = w \<Longrightarrow> q\<lparr>q_spin := l, q_recv_waiters := w\<rparr> = q"
  "q_spin q = l \<Longrightarrow> q_send_waiters q = w \<Longrightarrow> q\<lparr>q_spin := l, q_send_waiters := w\<rparr> = q"
  "k_spin k = l \<Longrightarrow> k_waiters k = w \<Longrightarrow> k\<lparr>k_spin := l, k_count := n, k_waiters := w\<rparr> = k\<lparr>k_count := n\<rparr>"
  "k_spin k = l \<Longrightarrow> k\<lparr>k_spin := l, k_count := n\<rparr> = k\<lparr>k_count := n\<rparr>"
  by (cases q; cases k; simp)+

lemma quiet_calls:
  "q_spin q = soft_lock \<Longrightarrow> q_recv_waiters q = None \<Longrightarrow> q_count q < MQ_MAX_MSG \<Longrightarrow> mqueue_send sim_sdk core q msg s = Some (True, ring_put msg q, s)"
  "q_spin q = soft_lock \<Longrightarrow> q_send_waiters q = None \<Longrightarrow> 0 < q_count q \<Longrightarrow> mqueue_recv sim_sdk core q s = Some (Some (fst (ring_get q)), snd (ring_get q), s)"
  "k_spin k = soft_lock \<Longrightarrow> k_waiters k = None \<Longrightarrow> ksemaphore_signal sim_sdk core k s = Some (k\<lparr>k_count := k_count k + 1\<rparr>, s)"
  "k_spin k = soft_lock \<Longrightarrow> 0 < sint (k_count k) \<Longrightarrow> ksemaphore_wait sim_sdk core k s = Some (True, k\<lparr>k_count := k_count k - 1\<rparr>, s)"
  by (simp_all add: mqueue_send_def mqueue_recv_def ksemaphore_signal_def ksemaphore_wait_def soft_section wake_one.simps [of core None]
      waiter_dequeue_def split_beta restored)

text \<open>Between two steps everything but the objects may be reset, so a run only has to follow them.\<close>

definition idle_with :: "('h, 'a) demo_state_scheme \<Rightarrow> ksemaphore_t \<Rightarrow> mqueue_t \<Rightarrow> bool \<Rightarrow> ('h, 'a) demo_state_scheme" where
  "idle_with x k q b = x\<lparr>current_tcb := \<lambda>_. None, producer_sem := k, producer_queue := q, demo_ipc_ready := b\<rparr>"

lemma idle_with_fields [simp]:
  "current_tcb (idle_with x k q b) = (\<lambda>_. None)" "producer_sem (idle_with x k q b) = k" "producer_queue (idle_with x k q b) = q"
  "demo_ipc_ready (idle_with x k q b) = b"
  "(idle_with x k q b)\<lparr>producer_sem := k'\<rparr> = idle_with x k' q b" "(idle_with x k q b)\<lparr>producer_queue := q'\<rparr> = idle_with x k q' b"
  "(idle_with x k q b)\<lparr>demo_ipc_ready := b'\<rparr> = idle_with x k q b'"
  "sched_sleep core ms (idle_with x k q b) = Some (idle_with x k q b)"
  by (simp_all add: idle_with_def sched_sleep_def)

lemma printed_fields [simp]:
  "producer_sem (sh_print m s) = producer_sem s" "producer_queue (sh_print m s) = producer_queue s" "demo_ipc_ready (sh_print m s) = demo_ipc_ready s"
  by (simp_all add: sh_print_def dev_emit_def)

lemma demo_run_producer:
  assumes "demo_run E pool sa qa p c (idle_with x k q b) rs"
    and "case producer_step E pool sa qa (pr_pc p) p (idle_with x k q b) of None \<Rightarrow> False
      | Some (r, s') \<Rightarrow> r = p' \<and> producer_sem s' = k' \<and> producer_queue s' = q' \<and> demo_ipc_ready s' = b'"
  shows "demo_run E pool sa qa p' c (idle_with x k' q' b') rs"
proof -
  obtain s' where "producer_step E pool sa qa (pr_pc p) p (idle_with x k q b) = Some (p', s')"
    "producer_sem s' = k'" "producer_queue s' = q'" "demo_ipc_ready s' = b'" using assms(2) by (auto split: option.splits)
  then show ?thesis by (intro demo_run.other [OF demo_run.producer [OF assms(1)]]) (assumption, simp add: same_ipc_def)
qed

lemma demo_run_consumer:
  assumes "demo_run E pool sa qa p c (idle_with x k q b) rs"
    and "case consumer_step E (co_pc c) c (idle_with x k q b) of None \<Rightarrow> False
      | Some (r, s') \<Rightarrow> r = c' \<and> producer_sem s' = k' \<and> producer_queue s' = q' \<and> demo_ipc_ready s' = b'"
    and "rs' = (if co_pc c = CReport then rs @ [le_word (co_msg c)] else rs)"
  shows "demo_run E pool sa qa p c' (idle_with x k' q' b') rs'"
proof -
  obtain s' where "consumer_step E (co_pc c) c (idle_with x k q b) = Some (c', s')"
    "producer_sem s' = k'" "producer_queue s' = q'" "demo_ipc_ready s' = b'" using assms(2) by (auto split: option.splits)
  then show ?thesis unfolding assms(3) by (intro demo_run.other [OF demo_run.consumer [OF assms(1)]]) (assumption, simp add: same_ipc_def)
qed

lemma demo_delivers:
  obtains p c and s :: "((nat \<Rightarrow> bool) \<times> (nat \<Rightarrow> bool), 'a) demo_state_scheme" where
    "demo_run sim_env (\<lambda>_. soft_lock) 0 0 p c s [0]" "demo_ipc_ready s" "co_pc c = CWait"
proof -
  obtain x :: "((nat \<Rightarrow> bool) \<times> (nat \<Rightarrow> bool), 'a) demo_state_scheme" where "x = x" by blast
  define E where "E = (sim_env :: (_, ((nat \<Rightarrow> bool) \<times> (nat \<Rightarrow> bool), 'a) demo_state_scheme) env)"
  define R where "R = demo_run E (\<lambda>_. soft_lock) 0 0"
  note prod = demo_run_producer [of E "\<lambda>_. soft_lock" 0 0, folded R_def] and cons = demo_run_consumer [of E "\<lambda>_. soft_lock" 0 0, folded R_def]
  define p0 where "p0 = \<lparr>pr_pc = PStart, pr_counter = 0, pr_msg = []\<rparr>"
  define c0 where "c0 = \<lparr>co_pc = CStart, co_msg = []\<rparr>"
  define s0 where "s0 = x\<lparr>demo_ipc_ready := False, current_tcb := \<lambda>_. Some 0\<rparr>"
  define k0 where "k0 = ksemaphore_init (\<lambda>_. soft_lock) 0 0"
  define q0 where "q0 = mqueue_init (\<lambda>_. soft_lock) 0 MESSAGE_SIZE"
  have k0: "k_spin k0 = soft_lock" "k_waiters k0 = None" "k_count k0 = 0" by (simp_all add: k0_def ksemaphore_init_def prim_pool_assign_def)
  have q0: "q_spin q0 = soft_lock" "q_recv_waiters q0 = None" "q_send_waiters q0 = None" "q_count q0 = 0" "q_msg_size q0 = 4" "mq_abs q0 []"
    by (simp_all add: q0_def mq_abs_init) (simp_all add: mqueue_init_def prim_pool_assign_def MESSAGE_SIZE_def MQ_MSG_SIZE_def)
  define q1 where "q1 = ring_put (message_bytes 0) q0"
  have "mq_abs q1 ([] @ [take (unat (q_msg_size q0)) (message_bytes 0)])"
    unfolding q1_def by (rule mq_abs_put [OF q0(6)]) (simp_all add: q0(5))
  then have a1: "mq_abs q1 [message_bytes 0]" by (simp add: q0(5))
  have q1: "q_spin q1 = soft_lock" "q_send_waiters q1 = None" "0 < q_count q1" "fst (ring_get q1) = message_bytes 0"
    using q0 mq_abs_empty [OF a1] mq_abs_get [OF a1] by (simp_all add: q1_def)
  have e: "e_sdk E = sim_sdk" unfolding E_def by (rule sim_boot_sdk)
  have room: "q_count q0 < MQ_MAX_MSG" by (simp add: q0 MQ_MAX_MSG_def)
  have "R p0 c0 s0 []" unfolding R_def by (rule demo_run.start) (simp_all add: p0_def c0_def s0_def)
  moreover have "\<exists>s1. producer_step E (\<lambda>_. soft_lock) 0 0 (pr_pc p0) p0 s0 = Some (p0\<lparr>pr_pc := PSem\<rparr>, s1) \<and> same_ipc s0 s1 \<and> CURRENT_TCB s1 = Some 0"
    by (simp add: p0_def s0_def set_affinity_def CURRENT_TCB_def upd_tcb_def same_ipc_def)
  ultimately obtain s1 where 1: "R (p0\<lparr>pr_pc := PSem\<rparr>) c0 s1 []" "same_ipc s0 s1" "CURRENT_TCB s1 = Some 0"
    unfolding R_def using demo_run.producer by blast
  obtain s2 where st: "consumer_step E (co_pc c0) c0 s1 = Some (c0\<lparr>co_pc := CReady\<rparr>, s2)" "same_ipc s0 s2"
    using 1(2,3) by (simp add: c0_def set_affinity_def same_ipc_def upd_tcb_def)
  have c0: "(if co_pc c0 = CReport then [] @ [le_word (co_msg c0)] else []) = []" by (simp add: c0_def)
  from demo_run.consumer [OF 1(1) [unfolded R_def] st(1), unfolded c0] have 2: "R (p0\<lparr>pr_pc := PSem\<rparr>) (c0\<lparr>co_pc := CReady\<rparr>) s2 []" "same_ipc s0 s2"
    using st(2) by (simp_all only: R_def)
  have "same_ipc s2 (idle_with x (producer_sem x) (producer_queue x) False)"
    using 2(2) by (simp add: same_ipc_def s0_def)
  with 2(1) have "R (p0\<lparr>pr_pc := PSem\<rparr>) (c0\<lparr>co_pc := CReady\<rparr>) (idle_with x (producer_sem x) (producer_queue x) False) []"
    unfolding R_def by (rule demo_run.other)
  then have "R (p0\<lparr>pr_pc := PQueue\<rparr>) (c0\<lparr>co_pc := CReady\<rparr>) (idle_with x k0 (producer_queue x) False) []"
    by (rule prod) (simp_all add: k0_def)
  then have "R (p0\<lparr>pr_pc := PReady\<rparr>) (c0\<lparr>co_pc := CReady\<rparr>) (idle_with x k0 q0 False) []"
    by (rule prod) (simp_all add: q0_def)
  then have "R (p0\<lparr>pr_pc := PSleep\<rparr>) (c0\<lparr>co_pc := CReady\<rparr>) (idle_with x k0 q0 True) []"
    by (rule prod) simp_all
  then have "R \<lparr>pr_pc = PSend, pr_counter = 1, pr_msg = message_bytes 0\<rparr> (c0\<lparr>co_pc := CReady\<rparr>) (idle_with x k0 q0 True) []"
    by (rule prod) (simp_all add: p0_def)
  then have "R \<lparr>pr_pc = PSignal, pr_counter = 1, pr_msg = message_bytes 0\<rparr> (c0\<lparr>co_pc := CReady\<rparr>) (idle_with x k0 q1 True) []"
    by (rule prod) (simp_all add: e quiet_calls(1) [OF q0(1,2) room] q1_def)
  then have "R \<lparr>pr_pc = PReport, pr_counter = 1, pr_msg = message_bytes 0\<rparr> (c0\<lparr>co_pc := CReady\<rparr>) (idle_with x (k0\<lparr>k_count := 1\<rparr>) q1 True) []"
    by (rule prod) (simp_all add: e quiet_calls(3) [OF k0(1,2)] k0(3))
  then have "R \<lparr>pr_pc = PReport, pr_counter = 1, pr_msg = message_bytes 0\<rparr> (c0\<lparr>co_pc := CWait\<rparr>) (idle_with x (k0\<lparr>k_count := 1\<rparr>) q1 True) []"
    by (rule cons) simp_all
  then have "R \<lparr>pr_pc = PReport, pr_counter = 1, pr_msg = message_bytes 0\<rparr> (c0\<lparr>co_pc := CRecv\<rparr>) (idle_with x (k0\<lparr>k_count := 0\<rparr>) q1 True) []"
    by (rule cons) (simp_all add: e quiet_calls(4) k0)
  then have "R \<lparr>pr_pc = PReport, pr_counter = 1, pr_msg = message_bytes 0\<rparr> \<lparr>co_pc = CReport, co_msg = message_bytes 0\<rparr>
      (idle_with x (k0\<lparr>k_count := 0\<rparr>) (snd (ring_get q1)) True) []"
    by (rule cons) (simp_all add: e quiet_calls(2) q1 c0_def)
  then have "R \<lparr>pr_pc = PReport, pr_counter = 1, pr_msg = message_bytes 0\<rparr> \<lparr>co_pc = CWait, co_msg = message_bytes 0\<rparr>
      (idle_with x (k0\<lparr>k_count := 0\<rparr>) (snd (ring_get q1)) True) [0]"
    by (rule cons) simp_all
  then show thesis unfolding R_def E_def by (rule that) simp_all
qed

theorem demo_values_in_order_witness:
  "\<exists>p c (s :: ((nat \<Rightarrow> bool) \<times> (nat \<Rightarrow> bool)) demo_state). demo_run sim_env (\<lambda>_. soft_lock) 0 0 p c s [0] \<and> demo_ipc_ready s \<and>
     0 \<le> sint (k_count (producer_sem s)) \<and> q_count (producer_queue s) \<le> MQ_MAX_MSG"
proof -
  obtain p c and s :: "((nat \<Rightarrow> bool) \<times> (nat \<Rightarrow> bool)) demo_state" where r: "demo_run sim_env (\<lambda>_. soft_lock) 0 0 p c s [0]" "demo_ipc_ready s"
    by (rule demo_delivers)
  with demo_values_in_order [OF r(1)] show ?thesis by blast
qed

end
