(* ===== verification/Pi.thy ===== *)
theory Pi
  imports Demo
begin

text \<open>
  \<open>src/apps/pi.c\<close>: the Monte Carlo estimation of pi, with its workers (\<open>pi_worker\<close>) and its
  coordinator (\<open>pi_estimate\<close>) in three parts: up to the start of the workers, one pass of the
  wait for them, and the report. The addresses that the linker gives to \<open>pi_worker\<close>, \<open>pi_args\<close>
  and \<open>pi_done\<close> are parameters.
\<close>

section \<open>State\<close>

record pi_worker_arg_t =
  wa_seed :: u32
  wa_n :: u32
  wa_hits :: u32
  wa_affinity :: u8

record 'h pi_state = "'h demo_state" +
  pi_args :: "pi_worker_arg_t list"
  pi_done :: ksemaphore_t

definition PI_NUM_WORKERS :: u32 where "PI_NUM_WORKERS = 4"
definition PI_TOTAL_SAMPLES :: u32 where "PI_TOTAL_SAMPLES = 10000000"
definition PI_PER_WORKER :: u32 where "PI_PER_WORKER = PI_TOTAL_SAMPLES div PI_NUM_WORKERS"
definition PI_RADIUS :: u32 where "PI_RADIUS = 32767"

definition pi_affinity_dual :: "u8 list" where
  "pi_affinity_dual = [THREAD_AFFINITY_C0, THREAD_AFFINITY_C0, THREAD_AFFINITY_C1, THREAD_AFFINITY_C1]"

definition pi_affinity_single :: "u8 list" where
  "pi_affinity_single = [THREAD_AFFINITY_C0, THREAD_AFFINITY_C0, THREAD_AFFINITY_C0, THREAD_AFFINITY_C0]"

definition pi_seeds :: "u32 list" where
  "pi_seeds = [0xDEAD1337, 0xCAFEBABE, 0x8BADF00D, 0xFEEDFACE]"

section \<open>The worker\<close>

definition lcg :: "u32 \<Rightarrow> u32" where
  "lcg state = state * 1664525 + 1013904223"

fun pi_darts :: "nat \<Rightarrow> u32 \<Rightarrow> u32 \<Rightarrow> u32" where
  "pi_darts 0 state hits = hits"
| "pi_darts (Suc n) state hits = (let
     state1 = lcg state; x = and (drop_bit 17 state1) PI_RADIUS;
     state2 = lcg state1; y = and (drop_bit 17 state2) PI_RADIUS
   in pi_darts n state2 (if x * x + y * y \<le> PI_RADIUS * PI_RADIUS then hits + 1 else hits))"

definition worker_done :: "pi_worker_arg_t \<Rightarrow> pi_worker_arg_t" where
  "worker_done a = a\<lparr>wa_hits := pi_darts (unat (wa_n a)) (wa_seed a) 0\<rparr>"

definition pi_worker ::
  "('h, ('h, 'a) pi_state_scheme) env \<Rightarrow> nat \<Rightarrow> ('h, 'a) pi_state_scheme \<Rightarrow> ('h, 'a) pi_state_scheme option" where
  "pi_worker E i s = do {
     s1 \<leftarrow> set_affinity (wa_affinity (pi_args s ! i)) s;
     let s2 = s1\<lparr>pi_args := (pi_args s1)[i := worker_done (pi_args s1 ! i)]\<rparr>;
     (k, s3) \<leftarrow> ksemaphore_signal (e_sdk E) (core_num s2) (pi_done s2) s2;
     Some (s3\<lparr>pi_done := k\<rparr>)
   }"

section \<open>The coordinator\<close>

text \<open>The string behind a pointer into the kernel's heap.\<close>

definition heap_string :: "(nat \<Rightarrow> u32) \<Rightarrow> nat \<Rightarrow> string" where
  "heap_string m a = cstr (map (\<lambda>b. char_of (unat b)) (map (mem_byte m) [a..<unat HEAP_SIZE]))"

definition arrow :: string where "arrow = [CHR 0xE2, CHR 0x86, CHR 0x92]"
definition times_sign :: string where "times_sign = [CHR 0xC3, CHR 0x97]"

text \<open>What the coordinator puts into a worker's argument.\<close>

definition worker_start :: "u8 list \<Rightarrow> nat \<Rightarrow> pi_worker_arg_t" where
  "worker_start affinity i = \<lparr>wa_seed = pi_seeds ! i, wa_n = PI_PER_WORKER, wa_hits = 0, wa_affinity = affinity ! i\<rparr>"

text \<open>The start of the workers, as many as the pools allow. The result is their number.\<close>

fun pi_spawn ::
  "u32 \<Rightarrow> u32 \<Rightarrow> u32 \<Rightarrow> nat option \<Rightarrow> u8 list \<Rightarrow> nat list \<Rightarrow> ('h, 'a) pi_state_scheme \<Rightarrow> (nat \<times> ('h, 'a) pi_state_scheme) option" where
  "pi_spawn te entry args_addr proc affinity [] s = Some (0, s)"
| "pi_spawn te entry args_addr proc affinity (i # is) s =
     Option.bind (task_create_thread te proc (Some ''pi-worker'') entry (args_addr + 16 * word_of_nat i) 4 DEFAULT_STACK_SIZE
       (s\<lparr>pi_args := (pi_args s)[i := worker_start affinity i]\<rparr>))
     (\<lambda>(t, s1). case t of
         None \<Rightarrow> Some (0, sh_print (''[pi] ERROR: could not create worker '' @ dec i @ '' (out of threads or heap)'' @ crlf) s1)
       | Some _ \<Rightarrow> map_option (\<lambda>(started, s2). (Suc started, s2)) (pi_spawn te entry args_addr proc affinity is s1))"

definition pi_banner :: "bool \<Rightarrow> ('h, 'a) dev_state_scheme \<Rightarrow> ('h, 'a) dev_state_scheme" where
  "pi_banner single_core s = fold sh_print
     [''[pi] Monte Carlo pi estimation'' @ crlf,
      ''[pi] mode    : '' @ (if single_core then ''single-core (all workers on core 0)''
         else ''dual-core (workers 0,1'' @ arrow @ ''core 0  2,3'' @ arrow @ ''core 1)'') @ crlf,
      ''[pi] samples : '' @ dec (unat PI_TOTAL_SAMPLES) @ ''  ('' @ dec (unat PI_NUM_WORKERS) @ '' workers '' @ times_sign @ '' '' @
         dec (unat PI_PER_WORKER) @ '' each)'' @ crlf] s"

definition elapsed_timer :: "('h, 's) env \<Rightarrow> ('h, 'a) dev_state_scheme \<Rightarrow> (u64 \<times> ('h, 'a) dev_state_scheme) option" where
  "elapsed_timer E s = Option.bind (dev_ioctl E DEV_TIMER IOCTL_TIMER_GET_US (ArgU64 0) s)
     (\<lambda>(rc, a, s1). Some (case a of ArgU64 t \<Rightarrow> t | _ \<Rightarrow> 0, s1))"

definition pi_start ::
  "('h, ('h, 'a) pi_state_scheme) env \<Rightarrow> u32 \<Rightarrow> (nat \<Rightarrow> spinlock_t) \<Rightarrow> nat \<Rightarrow> u32 \<Rightarrow> u32 \<Rightarrow> nat option \<Rightarrow> ('h, 'a) pi_state_scheme \<Rightarrow>
     ((u8 list \<times> u64 \<times> nat) \<times> ('h, 'a) pi_state_scheme) option" where
  "pi_start E te pool done_addr entry args_addr arg s = do {
     let single_core = (case arg of None \<Rightarrow> False | Some p \<Rightarrow> strcmp_eq (heap_string (heap_mem s) p) ''single'');
     s1 \<leftarrow> kfree arg s;
     let affinity = (if single_core then pi_affinity_single else pi_affinity_dual);
     let s2 = (pi_banner single_core s1)\<lparr>pi_done := ksemaphore_init pool done_addr 0\<rparr>;
     (pid, s3) \<leftarrow> sys_getpid E te s2;
     let proc = task_find_process (word_of_int pid) s3;
     (t0, s4) \<leftarrow> elapsed_timer E s3;
     (started, s5) \<leftarrow> pi_spawn te entry args_addr proc affinity [0..<unat PI_NUM_WORKERS] s4;
     Some ((affinity, t0, started), s5)
   }"

text \<open>One pass of the wait for worker \<open>i\<close> of those started.\<close>

definition pi_wait ::
  "('h, ('h, 'a) pi_state_scheme) env \<Rightarrow> nat \<Rightarrow> nat \<Rightarrow> ('h, 'a) pi_state_scheme \<Rightarrow> (bool \<times> ('h, 'a) pi_state_scheme) option" where
  "pi_wait E i started s = do {
     (got, k, s1) \<leftarrow> ksemaphore_wait (e_sdk E) (core_num s) (pi_done s) s;
     let s2 = s1\<lparr>pi_done := k\<rparr>;
     Some (got, if got then sh_print (''[pi] '' @ dec (i + 1) @ ''/'' @ dec started @ '' workers done'' @ crlf) s2 else s2)
   }"

text \<open>\<open>total_hits\<close>, and the two parts of the printed quotient.\<close>

definition pi_total :: "pi_worker_arg_t list \<Rightarrow> u32" where
  "pi_total args = fold (\<lambda>a t. t + wa_hits a) args 0"

definition pi_value :: "u32 \<Rightarrow> u32 \<times> u32" where
  "pi_value total_hits = (let pi_scaled = 4 * total_hits
   in (pi_scaled div PI_TOTAL_SAMPLES,
       ucast ((ucast (pi_scaled mod PI_TOTAL_SAMPLES) * 10000 :: u64) div ucast PI_TOTAL_SAMPLES)))"

definition dec4 :: "nat \<Rightarrow> string" where
  "dec4 n = replicate (4 - length (dec n)) CHR 0x30 @ dec n"

definition affinity_text :: "u8 \<Rightarrow> string" where
  "affinity_text a = dec_int (sint a)"

definition pi_report :: "u8 list \<Rightarrow> u64 \<Rightarrow> ('h, 'a) pi_state_scheme \<Rightarrow> ('h, 'a) pi_state_scheme" where
  "pi_report affinity elapsed_us s = (let args = pi_args s; total = pi_total args; (pi_int, pi_frac) = pi_value total
   in fold sh_print
     (map (\<lambda>i. ''[pi]   worker '' @ dec i @ '' (core '' @ affinity_text (affinity ! i) @ ''): '' @ dec (unat (wa_hits (args ! i))) @ '' hits'' @ crlf)
        [0..<unat PI_NUM_WORKERS] @
      [''[pi] ----------------------------------------'' @ crlf,
       ''[pi] total hits : '' @ dec (unat total) @ '' / '' @ dec (unat PI_TOTAL_SAMPLES) @ crlf,
       ''[pi] pi estimate: '' @ dec (unat pi_int) @ ''.'' @ dec4 (unat pi_frac) @ crlf,
       ''[pi] true value : 3.1416'' @ crlf,
       ''[pi] elapsed    : '' @ dec (unat (ucast (elapsed_us div 1000) :: u32)) @ '' ms'' @ crlf]) s)"

definition pi_finish ::
  "('h, ('h, 'a) pi_state_scheme) env \<Rightarrow> u8 list \<Rightarrow> u64 \<Rightarrow> nat \<Rightarrow> ('h, 'a) pi_state_scheme \<Rightarrow> ('h, 'a) pi_state_scheme option" where
  "pi_finish E affinity t0 started s =
     (if started < unat PI_NUM_WORKERS then
        Some (sh_print (''[pi] aborted: only '' @ dec started @ '' of '' @ dec (unat PI_NUM_WORKERS) @ '' workers started'' @ crlf) s)
      else map_option (\<lambda>(t1, s1). pi_report affinity (t1 - t0) s1) (elapsed_timer E s))"

section \<open>The darts\<close>

text \<open>The reference: the \<open>k\<close>-th number drawn, and the darts that hit, over the naturals.\<close>

definition pi_draw :: "u32 \<Rightarrow> nat \<Rightarrow> nat" where
  "pi_draw seed k = unat ((lcg ^^ k) seed) div 2 ^ 17"

definition dart_hits :: "u32 \<Rightarrow> nat \<Rightarrow> bool" where
  "dart_hits seed i \<longleftrightarrow> (pi_draw seed (2 * i + 1))\<^sup>2 + (pi_draw seed (2 * i + 2))\<^sup>2 \<le> 32767\<^sup>2"

definition hit_count :: "nat \<Rightarrow> u32 \<Rightarrow> nat" where
  "hit_count n seed = length (filter (dart_hits seed) [0..<n])"

lemma hit_count_le: "hit_count n seed \<le> n"
  using length_filter_le [of "dart_hits seed" "[0..<n]"] by (simp add: hit_count_def)

lemma draw_word: "unat (and (drop_bit 17 s) PI_RADIUS) = unat s div 2 ^ 17" for s :: u32
proof -
  have "PI_RADIUS = mask 15" by (simp add: PI_RADIUS_def mask_eq_exp_minus_1)
  then have "and (drop_bit 17 s) PI_RADIUS = take_bit 15 (drop_bit 17 s)" by (simp add: take_bit_eq_mask)
  moreover have "unat s div 2 ^ 17 < 2 ^ 15" using unat_lt_2_32 [of s] by (simp add: div_less_iff_less_mult)
  ultimately show ?thesis by (simp add: unsigned_take_bit_eq unat_drop_bit_eq drop_bit_eq_div take_bit_nat_eq_self unat_div)
qed

lemma dart_in_range: "unat s div 2 ^ 17 \<le> 32767" for s :: u32
proof -
  have "unat s div 2 ^ 17 < 2 ^ 15" using unat_lt_2_32 [of s] by (simp add: div_less_iff_less_mult)
  then show ?thesis by simp
qed

lemma dart_word:
  fixes s1 s2 :: u32
  defines "x \<equiv> and (drop_bit 17 s1) PI_RADIUS" and "y \<equiv> and (drop_bit 17 s2) PI_RADIUS"
  shows "unat (x * x + y * y) = (unat x)\<^sup>2 + (unat y)\<^sup>2"
    and "x * x + y * y \<le> PI_RADIUS * PI_RADIUS \<longleftrightarrow> (unat s1 div 2 ^ 17)\<^sup>2 + (unat s2 div 2 ^ 17)\<^sup>2 \<le> 32767\<^sup>2"
proof -
  have u: "unat x = unat s1 div 2 ^ 17" "unat y = unat s2 div 2 ^ 17" unfolding x_def y_def by (rule draw_word)+
  then have b: "unat x \<le> 32767" "unat y \<le> 32767" using dart_in_range by simp_all
  have sq: "unat x * unat x \<le> 32767 * 32767" "unat y * unat y \<le> 32767 * 32767" using mult_le_mono [OF b(1) b(1)] mult_le_mono [OF b(2) b(2)] by simp_all
  then have "unat (x * x) = unat x * unat x" "unat (y * y) = unat y * unat y" by (simp_all add: unat_word_ariths)
  with sq show v: "unat (x * x + y * y) = (unat x)\<^sup>2 + (unat y)\<^sup>2" by (simp add: unat_word_ariths power2_eq_square)
  show "x * x + y * y \<le> PI_RADIUS * PI_RADIUS \<longleftrightarrow> (unat s1 div 2 ^ 17)\<^sup>2 + (unat s2 div 2 ^ 17)\<^sup>2 \<le> 32767\<^sup>2"
    unfolding word_le_nat_alt v u by (simp add: PI_RADIUS_def power2_eq_square)
qed

lemma draw_Suc: "pi_draw (lcg (lcg seed)) k = pi_draw seed (k + 2)"
  by (simp add: pi_draw_def funpow_swap1 numeral_2_eq_2)

lemma dart_hits_Suc: "dart_hits (lcg (lcg seed)) i = dart_hits seed (Suc i)"
  by (simp add: dart_hits_def draw_Suc)

lemma hit_count_Suc: "hit_count (Suc n) seed = (if dart_hits seed 0 then 1 else 0) + hit_count n (lcg (lcg seed))"
proof -
  have "[0..<Suc n] = 0 # map Suc [0..<n]" by (simp add: upt_conv_Cons map_Suc_upt del: upt_Suc)
  moreover have "dart_hits (lcg (lcg seed)) = (\<lambda>i. dart_hits seed (Suc i))" by (simp add: fun_eq_iff dart_hits_Suc)
  ultimately show ?thesis by (simp add: hit_count_def filter_map comp_def del: upt_Suc)
qed

lemma pi_darts_count: "unat h + n < 2 ^ 32 \<Longrightarrow> unat (pi_darts n seed h) = unat h + hit_count n seed"
proof (induction n arbitrary: seed h)
  case 0
  then show ?case by (simp add: hit_count_def)
next
  case (Suc n)
  let ?hit = "dart_hits seed 0" and ?h = "if dart_hits seed 0 then h + 1 else h"
  have h: "unat ?h = unat h + (if ?hit then 1 else 0)" using Suc.prems by (simp add: unat_word_ariths)
  have d: "dart_hits seed 0 \<longleftrightarrow> (unat (lcg seed) div 2 ^ 17)\<^sup>2 + (unat (lcg (lcg seed)) div 2 ^ 17)\<^sup>2 \<le> 32767\<^sup>2"
    by (simp add: dart_hits_def pi_draw_def numeral_2_eq_2)
  have "pi_darts (Suc n) seed h = pi_darts n (lcg (lcg seed)) ?h"
    by (simp only: pi_darts.simps Let_def dart_word(2) d)
  then show ?case using Suc.IH [of ?h "lcg (lcg seed)"] Suc.prems h by (simp add: hit_count_Suc split: if_splits)
qed

section \<open>The result\<close>

lemma pi_value_exact:
  assumes "unat hits \<le> 10000000"
  shows "unat (fst (pi_value hits)) * 10000 + unat (snd (pi_value hits)) = unat hits * 40000 div 10000000"
    and "unat (snd (pi_value hits)) < 10000" and "unat (fst (pi_value hits)) \<le> 4"
proof -
  let ?s = "unat hits * 4"
  have s: "unat (4 * hits) = ?s" using assms by (simp add: unat_word_ariths)
  have i: "unat (fst (pi_value hits)) = ?s div 10000000"
    by (simp add: pi_value_def Let_def PI_TOTAL_SAMPLES_def unat_div s)
  have m: "unat (4 * hits mod PI_TOTAL_SAMPLES) = ?s mod 10000000"
    by (simp add: PI_TOTAL_SAMPLES_def unat_mod_distrib s)
  have lt: "?s mod 10000000 < 10000000" by simp
  then have "?s mod 10000000 * 10000 < 2 ^ 64" by simp
  then have "unat (ucast X * 10000 :: u64) = ?s mod 10000000 * 10000" if "unat X = ?s mod 10000000" for X :: u32
    using that unat_lt_2_32 [of X] by (simp add: unat_word_ariths unsigned_ucast_eq take_bit_eq_mod)
  from this [OF m] have w: "unat (ucast (4 * hits mod PI_TOTAL_SAMPLES) * 10000 :: u64) = ?s mod 10000000 * 10000" .
  have "snd (pi_value hits) = (ucast ((ucast (4 * hits mod PI_TOTAL_SAMPLES) * 10000 :: u64) div ucast PI_TOTAL_SAMPLES) :: u32)"
    by (simp add: pi_value_def Let_def)
  moreover have "unat ((ucast (4 * hits mod PI_TOTAL_SAMPLES) * 10000 :: u64) div ucast PI_TOTAL_SAMPLES) = ?s mod 10000000 * 10000 div 10000000"
    by (simp add: unat_div w) (simp add: PI_TOTAL_SAMPLES_def)
  moreover have f: "?s mod 10000000 * 10000 div 10000000 < 10000" using lt by (simp add: div_less_iff_less_mult)
  ultimately have f2: "unat (snd (pi_value hits)) = ?s mod 10000000 * 10000 div 10000000" by (simp add: unsigned_ucast_eq take_bit_eq_mod)
  show "unat (snd (pi_value hits)) < 10000" using f f2 by simp
  have "?s = ?s div 10000000 * 10000000 + ?s mod 10000000" by (rule div_mult_mod_eq [symmetric])
  then have "unat hits * 40000 = (?s div 10000000 * 10000) * 10000000 + ?s mod 10000000 * 10000" by linarith
  then have "unat hits * 40000 div 10000000 = ?s div 10000000 * 10000 + ?s mod 10000000 * 10000 div 10000000"
    by (metis div_mult_self3 add.commute zero_neq_numeral)
  then show "unat (fst (pi_value hits)) * 10000 + unat (snd (pi_value hits)) = unat hits * 40000 div 10000000" by (simp only: i f2)
  show "unat (fst (pi_value hits)) \<le> 4" unfolding i using assms by simp
qed


lemma per_worker: "unat PI_PER_WORKER = 2500000"
  by (simp add: PI_PER_WORKER_def PI_TOTAL_SAMPLES_def PI_NUM_WORKERS_def)

lemma worker_done_hits: "unat (wa_hits (worker_done (worker_start affinity i))) = hit_count 2500000 (pi_seeds ! i)"
proof -
  have "unat (pi_darts (unat PI_PER_WORKER) (pi_seeds ! i) 0) = hit_count (unat PI_PER_WORKER) (pi_seeds ! i)"
    by (subst pi_darts_count) (simp_all add: per_worker)
  then show ?thesis by (simp add: worker_done_def worker_start_def per_worker)
qed

lemma seeds: "(\<Sum>seed\<leftarrow>pi_seeds. f seed) = f (pi_seeds ! 0) + f (pi_seeds ! 1) + f (pi_seeds ! 2) + f (pi_seeds ! 3)" for f :: "u32 \<Rightarrow> nat"
  by (simp add: pi_seeds_def numeral_2_eq_2 numeral_3_eq_3)

text \<open>
  C0. The estimate is exact: whichever core runs which worker, every worker counts the darts of its
  sequence inside the quarter circle as the integers have it (no square or sum of squares wraps),
  the total is their sum, and the printed number is the quotient 4 hits / samples cut, not rounded,
  to four decimals, with an integer part of at most 4.
\<close>

theorem pi_estimate_exact:
  "let args = map (\<lambda>i. worker_done (worker_start affinity i)) [0..<unat PI_NUM_WORKERS];
       hits = (\<Sum>seed\<leftarrow>pi_seeds. hit_count 2500000 seed);
       (whole, frac) = pi_value (pi_total args)
   in unat (pi_total args) = hits \<and> hits \<le> 10000000 \<and> unat frac < 10000 \<and> unat whole \<le> 4 \<and>
      unat whole * 10000 + unat frac = 4 * 10000 * hits div 10000000"
proof -
  define W where "W i = worker_done (worker_start affinity i)" for i
  have h: "unat (wa_hits (W i)) = hit_count 2500000 (pi_seeds ! i)" for i unfolding W_def by (rule worker_done_hits)
  have le: "hit_count 2500000 seed \<le> 2500000" for seed by (rule hit_count_le)
  have "unat PI_NUM_WORKERS = 4" by (simp add: PI_NUM_WORKERS_def)
  moreover have "[0..<4] = [0, 1, 2, 3]" by code_simp
  ultimately have args: "map W [0..<unat PI_NUM_WORKERS] = [W 0, W 1, W 2, W 3]" by simp
  have hits: "(\<Sum>seed\<leftarrow>pi_seeds. hit_count 2500000 seed) =
      unat (wa_hits (W 0)) + unat (wa_hits (W 1)) + unat (wa_hits (W 2)) + unat (wa_hits (W 3))"
    unfolding h by (rule seeds)
  have b: "unat (wa_hits (W i)) \<le> 2500000" for i unfolding h by (rule le)
  have "unat (pi_total [W 0, W 1, W 2, W 3]) = unat (wa_hits (W 0)) + unat (wa_hits (W 1)) + unat (wa_hits (W 2)) + unat (wa_hits (W 3))"
    using b [of 0] b [of 1] b [of 2] b [of 3] by (simp add: pi_total_def unat_word_ariths)
  moreover have "\<dots> \<le> 10000000" using b [of 0] b [of 1] b [of 2] b [of 3] by simp
  ultimately show ?thesis
    using pi_value_exact [of "pi_total [W 0, W 1, W 2, W 3]"] unfolding W_def [symmetric] args hits
    by (simp add: Let_def split_beta mult.commute)
qed

end
