(* ===== verification/Spec2Isabelle.thy ===== *)
theory Spec2Isabelle
  imports Prelude Scanbuf Heap Kernel Task Sched Launch Spinlock Sync Board Libc Led Display Env Dev Fs FsHistory Vfs Syscall Console ShellCmds AppStart Shell Idle Boot KillCmds Demo Pi
begin

text \<open>
  A verification development of picoOS.
\<close>

end
